(* ===== verification/Prelude.thy ===== *)
theory Prelude
  imports Main "HOL-Library.Word" "HOL-Library.AList" "HOL-Library.Sublist"
begin

text \<open>
  Shared vocabulary of the development: Rust's \<open>Result\<close> and its \<open>?\<close> operator, UTF-8
  strings with \<open>str::trim\<close> and \<open>chars().count()\<close>, checked and saturating integer
  arithmetic, and the slice operations (\<open>position\<close>, \<open>splice\<close>, \<open>windows(2)\<close>) that several
  components use, each with the lemmas the component theories rest on.

  A Rust \<open>String\<close> is its sequence of UTF-8 bytes, an Isabelle \<open>string\<close> whose characters are
  bytes.  \<open>str::len\<close> is then \<open>length\<close>, \<open>is_empty\<close> is \<open>= []\<close> and string equality is equality.
\<close>

named_theorems result_simps \<open>unfolding of the Result combinators\<close>
named_theorems rust_arith \<open>checked and saturating machine arithmetic\<close>

subsection \<open>Result\<close>

text \<open>\<open>Inl\<close> is \<open>Err\<close>, \<open>Inr\<close> is \<open>Ok\<close>; \<open>and_then m f\<close> is \<open>f(m?)\<close>.\<close>

definition and_then :: "'e + 'a \<Rightarrow> ('a \<Rightarrow> 'e + 'b) \<Rightarrow> 'e + 'b" where
  "and_then m f = (case m of Inl e \<Rightarrow> Inl e | Inr a \<Rightarrow> f a)"

definition map_err :: "('e \<Rightarrow> 'f) \<Rightarrow> 'e + 'a \<Rightarrow> 'f + 'a" where
  "map_err g m = (case m of Inl e \<Rightarrow> Inl (g e) | Inr a \<Rightarrow> Inr a)"

text \<open>\<open>ensure bad e\<close> is \<open>if bad { return Err(e) }\<close>.\<close>

definition ensure :: "bool \<Rightarrow> 'e \<Rightarrow> 'e + unit" where
  "ensure bad e = (if bad then Inl e else Inr ())"

lemma and_then_simps [simp, result_simps]:
  "and_then (Inl e) f = Inl e" "and_then (Inr a) f = f a"
  by (simp_all add: and_then_def)

lemma and_then_eq_Inr [simp]:
  "and_then m f = Inr b \<longleftrightarrow> (\<exists>a. m = Inr a \<and> f a = Inr b)"
  by (cases m) auto

lemma and_then_eq_Inl:
  "and_then m f = Inl e \<longleftrightarrow> m = Inl e \<or> (\<exists>a. m = Inr a \<and> f a = Inl e)"
  by (cases m) auto

lemma map_err_eq_Inr [simp]: "map_err g m = Inr a \<longleftrightarrow> m = Inr a"
  by (cases m) (auto simp: map_err_def)

lemma map_err_simps [simp, result_simps]:
  "map_err g (Inl e) = Inl (g e)" "map_err g (Inr a) = Inr a"
  by (simp_all add: map_err_def)

lemma ensure_eq [simp]:
  "ensure bad e = Inr u \<longleftrightarrow> \<not> bad" "ensure bad e = Inl e' \<longleftrightarrow> bad \<and> e' = e"
  by (auto simp: ensure_def)

lemma ensure_simps [simp, result_simps]:
  "ensure True e = Inl e" "ensure False e = Inr ()"
  by (simp_all add: ensure_def)

subsection \<open>UTF-8 strings\<close>

abbreviation byte :: "char \<Rightarrow> nat" where
  "byte c \<equiv> of_char c"

text \<open>The three-byte encodings of the characters with the \<open>White_Space\<close> property.\<close>

definition is_ws3 :: "nat \<Rightarrow> nat \<Rightarrow> nat \<Rightarrow> bool" where
  "is_ws3 a b c \<longleftrightarrow>
     a = 225 \<and> b = 154 \<and> c = 128 \<or>
     a = 226 \<and> b = 128 \<and> (128 \<le> c \<and> c \<le> 138 \<or> c = 168 \<or> c = 169 \<or> c = 175) \<or>
     a = 226 \<and> b = 129 \<and> c = 159 \<or>
     a = 227 \<and> b = 128 \<and> c = 128"

definition is_ws2 :: "nat \<Rightarrow> nat \<Rightarrow> bool" where
  "is_ws2 a b \<longleftrightarrow> a = 194 \<and> (b = 133 \<or> b = 160)"

definition is_ws1 :: "nat \<Rightarrow> bool" where
  "is_ws1 a \<longleftrightarrow> 9 \<le> a \<and> a \<le> 13 \<or> a = 32"

text \<open>Width in bytes of the white-space character a string starts with, 0 if it starts with none.\<close>

fun ws_width :: "string \<Rightarrow> nat" where
  "ws_width [] = 0"
| "ws_width [a] = (if is_ws1 (byte a) then 1 else 0)"
| "ws_width [a, b] = (if is_ws1 (byte a) then 1 else if is_ws2 (byte a) (byte b) then 2 else 0)"
| "ws_width (a # b # c # s) =
     (if is_ws1 (byte a) then 1 else if is_ws2 (byte a) (byte b) then 2
      else if is_ws3 (byte a) (byte b) (byte c) then 3 else 0)"

text \<open>The same at the end of a string, on the reversed bytes.\<close>

fun ws_width_rev :: "string \<Rightarrow> nat" where
  "ws_width_rev [] = 0"
| "ws_width_rev [a] = (if is_ws1 (byte a) then 1 else 0)"
| "ws_width_rev [a, b] = (if is_ws1 (byte a) then 1 else if is_ws2 (byte b) (byte a) then 2 else 0)"
| "ws_width_rev (a # b # c # s) =
     (if is_ws1 (byte a) then 1 else if is_ws2 (byte b) (byte a) then 2
      else if is_ws3 (byte c) (byte b) (byte a) then 3 else 0)"

lemma ws_width_le: "ws_width s \<le> length s" and ws_width_rev_le: "ws_width_rev s \<le> length s"
  by (induction s rule: ws_width.induct) auto

function trim_start :: "string \<Rightarrow> string" where
  "trim_start s = (if ws_width s = 0 then s else trim_start (drop (ws_width s) s))"
  by pat_completeness auto
termination
  by (relation "measure length") (auto intro: diff_less elim: ws_width.elims)

function trim_start_rev :: "string \<Rightarrow> string" where
  "trim_start_rev s = (if ws_width_rev s = 0 then s else trim_start_rev (drop (ws_width_rev s) s))"
  by pat_completeness auto
termination
  by (relation "measure length") (auto intro: diff_less elim: ws_width_rev.elims)

declare trim_start.simps [simp del] trim_start_rev.simps [simp del]

definition trim_end :: "string \<Rightarrow> string" where
  "trim_end s = rev (trim_start_rev (rev s))"

definition trim :: "string \<Rightarrow> string" where
  "trim s = trim_end (trim_start s)"

text \<open>\<open>s.trim().is_empty()\<close>, the test the validators use.\<close>

definition blank :: "string \<Rightarrow> bool" where
  "blank s \<longleftrightarrow> trim s = []"

text \<open>\<open>s.chars().count()\<close>: every byte that is not a UTF-8 continuation byte starts a character.\<close>

definition chars_count :: "string \<Rightarrow> nat" where
  "chars_count s = length (filter (\<lambda>c. \<not> (128 \<le> byte c \<and> byte c < 192)) s)"

lemma trim_start_id: "ws_width s = 0 \<Longrightarrow> trim_start s = s"
  by (simp add: trim_start.simps)

lemma trim_start_rev_id: "ws_width_rev s = 0 \<Longrightarrow> trim_start_rev s = s"
  by (simp add: trim_start_rev.simps)

lemma ws_width_trim_start [simp]: "ws_width (trim_start s) = 0"
proof (induction s rule: trim_start.induct)
  case (1 s)
  then show ?case
    by (cases "ws_width s = 0") (simp_all add: trim_start.simps [of s])
qed

lemma ws_width_rev_trim [simp]: "ws_width_rev (trim_start_rev s) = 0"
proof (induction s rule: trim_start_rev.induct)
  case (1 s)
  then show ?case
    by (cases "ws_width_rev s = 0") (simp_all add: trim_start_rev.simps [of s])
qed

lemma suffix_trim_start: "suffix (trim_start s) s"
proof (induction s rule: trim_start.induct)
  case (1 s)
  then show ?case
    by (cases "ws_width s = 0")
      (auto simp: trim_start.simps [of s] intro: suffix_order.trans suffix_drop)
qed

lemma suffix_trim_start_rev: "suffix (trim_start_rev s) s"
proof (induction s rule: trim_start_rev.induct)
  case (1 s)
  then show ?case
    by (cases "ws_width_rev s = 0")
      (auto simp: trim_start_rev.simps [of s] intro: suffix_order.trans suffix_drop)
qed

lemma prefix_trim_end: "prefix (trim_end s) s"
  using suffix_trim_start_rev [of "rev s"] by (simp add: trim_end_def suffix_to_prefix)

lemma ws_width_prefix:
  assumes "prefix p s" and "ws_width s = 0"
  shows "ws_width p = 0"
proof -
  from assms(1) obtain t where "s = p @ t" by (auto elim: prefixE)
  with assms(2) show ?thesis
    by (cases p rule: ws_width.cases; cases t rule: ws_width.cases) (auto split: if_splits)
qed

lemma trim_idem [simp]: "trim (trim s) = trim s"
proof -
  have "ws_width (trim s) = 0"
    unfolding trim_def by (rule ws_width_prefix [OF prefix_trim_end]) simp
  then show ?thesis
    by (simp add: trim_def [of "trim s"] trim_start_id)
      (simp add: trim_def trim_end_def trim_start_rev_id)
qed

lemma trim_Nil [simp]: "trim [] = []"
  by (simp add: trim_def trim_end_def trim_start_id trim_start_rev_id)

lemma blank_Nil [simp]: "blank []"
  by (simp add: blank_def)

lemma not_blank_nonempty: "\<not> blank s \<Longrightarrow> s \<noteq> []"
  by auto

lemma blank_trim [simp]: "blank (trim s) \<longleftrightarrow> blank s"
  by (simp add: blank_def)

lemma chars_count_append: "chars_count (s @ t) = chars_count s + chars_count t"
  by (simp add: chars_count_def)

lemma chars_count_trim_le: "chars_count (trim s) \<le> chars_count s"
proof -
  obtain a where a: "s = a @ trim_start s"
    using suffix_trim_start by (auto elim: suffixE)
  obtain b where b: "trim_start s = trim s @ b"
    using prefix_trim_end unfolding trim_def by (auto elim: prefixE)
  have "chars_count s = chars_count a + chars_count (trim_start s)"
    using a chars_count_append by metis
  moreover have "chars_count (trim_start s) = chars_count (trim s) + chars_count b"
    using b chars_count_append by metis
  ultimately show ?thesis by simp
qed

text \<open>Decimal rendering of an index, as \<open>format!\<close> prints a \<open>usize\<close>.\<close>

fun show_nat :: "nat \<Rightarrow> string" where
  "show_nat n = (if n < 10 then [char_of (48 + n)] else show_nat (n div 10) @ [char_of (48 + n mod 10)])"

declare show_nat.simps [simp del]

lemma show_nat_nonempty [simp]: "show_nat n \<noteq> []" "[] \<noteq> show_nat n"
  by (subst show_nat.simps, simp)+

lemma digit_char_inj:
  assumes "m < 10" and "n < 10" and "(char_of (48 + m) :: char) = char_of (48 + n)"
  shows "m = (n::nat)"
proof -
  from assms(3) have "(of_char (char_of (48 + m) :: char) :: nat) = of_char (char_of (48 + n) :: char)"
    by (rule arg_cong)
  with assms(1,2) show ?thesis by simp
qed

lemma show_nat_snoc:
  "show_nat n = (if n < 10 then [] else show_nat (n div 10)) @ [char_of (48 + n mod 10)]"
  by (subst show_nat.simps) simp

text \<open>Decimal rendering is injective, so identifiers built from counters are distinct.\<close>

lemma show_nat_inj: "show_nat m = show_nat n \<Longrightarrow> m = n"
proof (induction m arbitrary: n rule: less_induct)
  case (less m)
  have eq: "(if m < 10 then [] else show_nat (m div 10)) = (if n < 10 then [] else show_nat (n div 10))"
    and mod: "m mod 10 = n mod 10"
    using less.prems digit_char_inj [of "m mod 10" "n mod 10"]
    unfolding show_nat_snoc [of m] show_nat_snoc [of n] by auto
  show ?case
  proof (cases "m < 10")
    case True
    with eq have "n < 10" by (auto split: if_splits)
    with True mod show ?thesis by simp
  next
    case False
    with eq have "\<not> n < 10" and "show_nat (m div 10) = show_nat (n div 10)"
      by (auto split: if_splits)
    with False less.IH have "m div 10 = n div 10" by simp
    with mod show ?thesis by (metis div_mult_mod_eq)
  qed
qed

subsection \<open>Machine arithmetic\<close>

type_synonym u8 = "8 word"
type_synonym u16 = "16 word"
type_synonym u32 = "32 word"
type_synonym u64 = "64 word"

definition checked_add :: "'a::len word \<Rightarrow> 'a word \<Rightarrow> 'a word option" where
  "checked_add a b = (if unat a + unat b < 2 ^ LENGTH('a) then Some (a + b) else None)"

definition saturating_add :: "'a::len word \<Rightarrow> 'a word \<Rightarrow> 'a word" where
  "saturating_add a b = (if unat a + unat b < 2 ^ LENGTH('a) then a + b else - 1)"

definition saturating_sub :: "'a::len word \<Rightarrow> 'a word \<Rightarrow> 'a word" where
  "saturating_sub a b = (if a < b then 0 else a - b)"

definition saturating_mul :: "'a::len word \<Rightarrow> 'a word \<Rightarrow> 'a word" where
  "saturating_mul a b = (if unat a * unat b < 2 ^ LENGTH('a) then a * b else - 1)"

lemma unat_saturating_add [rust_arith]:
  "unat (saturating_add a b) = min (unat a + unat b) (2 ^ LENGTH('a) - 1)" for a b :: "'a::len word"
  by (auto simp: saturating_add_def unat_word_ariths unsigned_minus_1_eq_mask mask_eq_exp_minus_1)

lemma unat_saturating_sub [rust_arith]:
  "unat (saturating_sub a b) = unat a - unat b" for a b :: "'a::len word"
  by (auto simp: saturating_sub_def not_less word_le_nat_alt word_less_nat_alt unat_sub)

lemma checked_add_Some [rust_arith]:
  "checked_add a b = Some c \<longleftrightarrow> unat a + unat b < 2 ^ LENGTH('a) \<and> c = a + b" for a b :: "'a::len word"
  by (auto simp: checked_add_def)

lemma checked_add_unat:
  "checked_add a b = Some c \<Longrightarrow> unat c = unat a + unat b" for a b :: "'a::len word"
  by (simp add: checked_add_Some unat_word_ariths)

text \<open>\<open>usize\<close> is 64 bits wide on every supported target; lengths and indices are \<open>nat\<close>.\<close>

lemma checked_add_one: "r \<noteq> - 1 \<Longrightarrow> checked_add r 1 = Some (r + 1)" for r :: "'a::len word"
proof -
  assume "r \<noteq> - 1"
  then have "unat r \<noteq> 2 ^ LENGTH('a) - 1"
    by (metis mask_eq_exp_minus_1 unsigned_minus_1_eq_mask word_unat_eq_iff)
  moreover have "unat r < 2 ^ LENGTH('a)" by (rule unsigned_less)
  ultimately have "unat r + 1 < 2 ^ LENGTH('a)" by linarith
  then show ?thesis by (simp add: checked_add_def)
qed

definition usize_max :: nat where
  "usize_max = 2 ^ 64 - 1"

definition checked_add_usize :: "nat \<Rightarrow> nat \<Rightarrow> nat option" where
  "checked_add_usize a b = (if a + b \<le> usize_max then Some (a + b) else None)"

definition saturating_add_usize :: "nat \<Rightarrow> nat \<Rightarrow> nat" where
  "saturating_add_usize a b = min (a + b) usize_max"

subsection \<open>Slices\<close>

text \<open>\<open>iter().position(P)\<close>.\<close>

fun position :: "('a \<Rightarrow> bool) \<Rightarrow> 'a list \<Rightarrow> nat option" where
  "position P [] = None"
| "position P (x # xs) = (if P x then Some 0 else map_option Suc (position P xs))"

text \<open>\<open>Vec::splice(a..b, ins)\<close> (the caller has checked \<open>a \<le> b \<le> len\<close>).\<close>

definition splice :: "nat \<Rightarrow> nat \<Rightarrow> 'a list \<Rightarrow> 'a list \<Rightarrow> 'a list" where
  "splice a b ins xs = take a xs @ ins @ drop b xs"

text \<open>\<open>windows(2).all(|p| p[1] == p[0] + 1)\<close>.\<close>

fun consecutive :: "nat list \<Rightarrow> bool" where
  "consecutive (a # b # xs) = (b = Suc a \<and> consecutive (b # xs))"
| "consecutive _ = True"

text \<open>\<open>iter().filter_map(f).collect()\<close>.\<close>

abbreviation filter_map :: "('a \<Rightarrow> 'b option) \<Rightarrow> 'a list \<Rightarrow> 'b list" where
  "filter_map f xs \<equiv> List.map_filter f xs"

lemma set_filter_map [simp]: "set (filter_map f xs) = {y. \<exists>x\<in>set xs. f x = Some y}"
  by (induction xs) (auto simp: List.map_filter_simps split: option.splits)

lemma map_filter_map: "map g (filter_map f xs) = filter_map (\<lambda>x. map_option g (f x)) xs"
  by (induction xs) (auto simp: List.map_filter_simps split: option.splits)

lemma length_filter_map_le: "length (filter_map f xs) \<le> length xs"
  by (induction xs) (auto simp: List.map_filter_simps split: option.splits)

lemma filter_map_full:
  "length (filter_map f xs) = length xs \<Longrightarrow>
     filter_map f xs = map (\<lambda>x. the (f x)) xs \<and> (\<forall>x\<in>set xs. f x \<noteq> None)"
proof (induction xs)
  case (Cons x xs)
  then show ?case
    using length_filter_map_le [of f xs]
    by (cases "f x") (auto simp: List.map_filter_simps)
qed (simp add: List.map_filter_simps)

lemma filter_map_all_Some:
  "(\<And>x. x \<in> set xs \<Longrightarrow> f x = Some (g x)) \<Longrightarrow> filter_map f xs = map g xs"
  by (induction xs) (auto simp: List.map_filter_simps)

lemma position_SomeD:
  "position P xs = Some i \<Longrightarrow> i < length xs \<and> P (xs ! i) \<and> (\<forall>j<i. \<not> P (xs ! j))"
proof (induction xs arbitrary: i)
  case (Cons x xs)
  then show ?case by (auto split: if_splits simp: less_Suc_eq_0_disj)
qed simp

lemma position_None_iff: "position P xs = None \<longleftrightarrow> (\<forall>x\<in>set xs. \<not> P x)"
  by (induction xs) auto

lemma position_Some_ex: "x \<in> set xs \<Longrightarrow> P x \<Longrightarrow> \<exists>i. position P xs = Some i"
  using position_None_iff [of P xs] by (cases "position P xs") auto

lemma position_nth_distinct:
  assumes "distinct (map f xs)" and "i < length xs"
  shows "position (\<lambda>x. f x = f (xs ! i)) xs = Some i"
proof -
  obtain j where j: "position (\<lambda>x. f x = f (xs ! i)) xs = Some j"
    using position_Some_ex [of "xs ! i" xs "\<lambda>x. f x = f (xs ! i)"] assms(2) by auto
  then have "j < length xs" "f (xs ! j) = f (xs ! i)" by (auto dest: position_SomeD)
  with assms have "j = i" by (auto simp: distinct_conv_nth)
  with j show ?thesis by simp
qed

lemma consecutive_upt_iff: "consecutive [a ..< b]"
proof (induction "b - a" arbitrary: a)
  case (Suc n)
  then have "[a ..< b] = a # [Suc a ..< b]" by (simp add: upt_conv_Cons)
  moreover have "consecutive [Suc a ..< b]" using Suc by (intro Suc.hyps) simp
  ultimately show ?case
    by (cases "Suc a < b") (simp_all add: upt_conv_Cons [of "Suc a"])
qed simp

lemma set_splice_subset: "set (splice a b ins xs) \<subseteq> set xs \<union> set ins"
  by (auto simp: splice_def dest: in_set_takeD in_set_dropD)

lemma length_splice:
  "a \<le> b \<Longrightarrow> b \<le> length xs \<Longrightarrow> length (splice a b ins xs) = length xs - (b - a) + length ins"
  by (simp add: splice_def)

lemma map_splice: "map f (splice a b ins xs) = splice a b (map f ins) (map f xs)"
  by (simp add: splice_def take_map drop_map)

lemma consecutive_nth:
  "consecutive xs \<Longrightarrow> i < length xs \<Longrightarrow> xs ! i = hd xs + i"
proof (induction xs arbitrary: i rule: consecutive.induct)
  case (1 a b xs)
  then show ?case by (cases i) auto
qed auto

lemma consecutive_upt: "consecutive xs \<Longrightarrow> xs \<noteq> [] \<Longrightarrow> xs = [hd xs ..< hd xs + length xs]"
  by (rule nth_equalityI) (auto simp: consecutive_nth)

end
