(* ===== verification/Interaction.thy ===== *)
theory Interaction
  imports Prelude
begin

text \<open>
  The provider-neutral user-question contract of crates/xharness-interaction/src/lib.rs: the
  request the model supplies, its validation, and the state machine \<open>QuestionInteraction\<close> that
  collects a draft and settles once, by resolution or by cancellation.

  Operations that take \<open>&mut self\<close> return the interaction afterwards beside their result, also on
  an error: \<open>update_draft\<close> mutates the draft answer by answer and an error leaves the answers
  before it merged.
\<close>

subsection \<open>Data\<close>

definition ASK_USER_QUESTION_TOOL :: string where
  "ASK_USER_QUESTION_TOOL = ''ask_user_question''"

definition MAX_QUESTIONS :: nat where "MAX_QUESTIONS = 3"
definition MAX_OPTIONS_PER_QUESTION :: nat where "MAX_OPTIONS_PER_QUESTION = 3"
definition MAX_ID_CHARS :: nat where "MAX_ID_CHARS = 64"
definition MAX_HEADER_CHARS :: nat where "MAX_HEADER_CHARS = 40"
definition MAX_QUESTION_CHARS :: nat where "MAX_QUESTION_CHARS = 1000"
definition MAX_LABEL_CHARS :: nat where "MAX_LABEL_CHARS = 80"
definition MAX_DESCRIPTION_CHARS :: nat where "MAX_DESCRIPTION_CHARS = 500"
definition MAX_CUSTOM_ANSWER_CHARS :: nat where "MAX_CUSTOM_ANSWER_CHARS = 8 * 1024"

datatype answer_destination = ToContext | AgentMarkdown

record question_option =
  qo_id :: string
  qo_label :: string
  qo_description :: "string option"
  qo_recommended :: bool

record question_spec =
  qs_id :: string
  qs_header :: string
  qs_question :: string
  qs_options :: "question_option list"
  qs_allow_custom :: bool
  qs_destination :: answer_destination

record ask_request =
  ar_questions :: "question_spec list"

record question_answer =
  qa_question_id :: string
  qa_selected_option_id :: "string option"
  qa_custom_text :: "string option"

datatype resolve_action = Submit | Continue

datatype resolution_status = Answered | PartiallyAnswered | Skipped

record resolved_answer =
  ra_question_id :: string
  ra_selected_option_id :: "string option"
  ra_selected_label :: "string option"
  ra_custom_text :: "string option"
  ra_destination :: answer_destination

record question_resolution =
  qr_status :: resolution_status
  qr_action :: resolve_action
  qr_answers :: "resolved_answer list"
  qr_unanswered_question_ids :: "string list"

record question_invocation =
  qi_interaction_id :: string
  qi_execution_id :: string
  qi_request :: ask_request

datatype interaction_terminal = TResolved question_resolution | TCancelled string

datatype question_terminal_state = QPending | QResolved question_resolution | QCancelled string

record question_interaction =
  qx_invocation :: question_invocation
  qx_draft :: "string \<rightharpoonup> question_answer"
  qx_terminal :: "interaction_terminal option"

datatype question_validation_error =
    QuestionCount nat
  | OptionCount string nat
  | DuplicateQuestionId string
  | DuplicateOptionId string string
  | DuplicateOptionLabel string string
  | NoAnswerMode string
  | MultipleRecommended string
  | InvalidText string nat
  | InvalidIdentifier string

datatype question_state_error =
    UnknownQuestion string
  | DuplicateAnswer string
  | UnknownOption string string
  | CustomNotAllowed string
  | CustomTooLong string
  | MissingAnswers "string list"
  | AlreadyResolved
  | InteractionCancelled

subsection \<open>Request validation\<close>

definition is_ascii_alphanumeric :: "char \<Rightarrow> bool" where
  "is_ascii_alphanumeric c \<longleftrightarrow>
     (let b = byte c in 48 \<le> b \<and> b \<le> 57 \<or> 65 \<le> b \<and> b \<le> 90 \<or> 97 \<le> b \<and> b \<le> 122)"

definition validate_identifier :: "string \<Rightarrow> string \<Rightarrow> question_validation_error + unit" where
  "validate_identifier v field =
     ensure (v = [] \<or> chars_count v > MAX_ID_CHARS \<or>
             \<not> list_all (\<lambda>c. is_ascii_alphanumeric c \<or> c = CHR ''_'' \<or> c = CHR ''-'') v)
       (InvalidIdentifier field)"

definition validate_text :: "string \<Rightarrow> nat \<Rightarrow> string \<Rightarrow> question_validation_error + unit" where
  "validate_text v mx field = ensure (blank v \<or> chars_count v > mx) (InvalidText field mx)"

definition validate_optional_text :: "string \<Rightarrow> nat \<Rightarrow> string \<Rightarrow> question_validation_error + unit" where
  "validate_optional_text v mx field = ensure (chars_count v > mx) (InvalidText field mx)"

definition question_field :: "nat \<Rightarrow> string \<Rightarrow> string" where
  "question_field index name = ''questions['' @ show_nat index @ ''].'' @ name"

definition option_field :: "nat \<Rightarrow> nat \<Rightarrow> string \<Rightarrow> string" where
  "option_field index k name = question_field index (''options['' @ show_nat k @ ''].'' @ name)"

text \<open>The inner loop over one question's options; the result is the number of recommended ones.\<close>

fun validate_options ::
  "string \<Rightarrow> nat \<Rightarrow> nat \<Rightarrow> string set \<Rightarrow> string set \<Rightarrow> nat \<Rightarrow> question_option list \<Rightarrow>
     question_validation_error + nat" where
  "validate_options qid index k ids labels recommended [] = Inr recommended"
| "validate_options qid index k ids labels recommended (opt # opts) =
     and_then (validate_identifier (qo_id opt) (option_field index k ''id'')) (\<lambda>_.
     and_then (ensure (qo_id opt \<in> ids) (DuplicateOptionId qid (qo_id opt))) (\<lambda>_.
     and_then (ensure (trim (qo_label opt) \<in> labels) (DuplicateOptionLabel qid (qo_label opt))) (\<lambda>_.
     and_then (validate_text (qo_label opt) MAX_LABEL_CHARS (option_field index k ''label'')) (\<lambda>_.
     and_then (case qo_description opt of None \<Rightarrow> Inr ()
               | Some d \<Rightarrow> validate_optional_text d MAX_DESCRIPTION_CHARS
                             (option_field index k ''description'')) (\<lambda>_.
     validate_options qid index (Suc k) (insert (qo_id opt) ids)
       (insert (trim (qo_label opt)) labels) (recommended + of_bool (qo_recommended opt)) opts)))))"

fun validate_questions ::
  "nat \<Rightarrow> string set \<Rightarrow> question_spec list \<Rightarrow> question_validation_error + unit" where
  "validate_questions index ids [] = Inr ()"
| "validate_questions index ids (q # qs) =
     and_then (validate_identifier (qs_id q) (question_field index ''id'')) (\<lambda>_.
     and_then (ensure (qs_id q \<in> ids) (DuplicateQuestionId (qs_id q))) (\<lambda>_.
     and_then (validate_text (qs_header q) MAX_HEADER_CHARS (question_field index ''header'')) (\<lambda>_.
     and_then (validate_text (qs_question q) MAX_QUESTION_CHARS (question_field index ''question'')) (\<lambda>_.
     and_then (ensure (length (qs_options q) > MAX_OPTIONS_PER_QUESTION)
                 (OptionCount (qs_id q) (length (qs_options q)))) (\<lambda>_.
     and_then (ensure (qs_options q = [] \<and> \<not> qs_allow_custom q) (NoAnswerMode (qs_id q))) (\<lambda>_.
     and_then (validate_options (qs_id q) index 0 {} {} 0 (qs_options q)) (\<lambda>recommended.
     and_then (ensure (recommended > 1) (MultipleRecommended (qs_id q))) (\<lambda>_.
     validate_questions (Suc index) (insert (qs_id q) ids) qs))))))))"

definition validate_request :: "ask_request \<Rightarrow> question_validation_error + unit" where
  "validate_request r =
     and_then (ensure (ar_questions r = [] \<or> length (ar_questions r) > MAX_QUESTIONS)
                 (QuestionCount (length (ar_questions r)))) (\<lambda>_.
     validate_questions 0 {} (ar_questions r))"

text \<open>
  \<open>AskUserQuestionRequest::parse\<close>: decoding the JSON text is serde's, the parameter \<open>decode\<close>;
  its result is the decoded request or the decoder's error text.  \<open>show_error\<close> is the error
  text of a validation failure.
\<close>

definition parse_request ::
  "(string \<Rightarrow> string + ask_request) \<Rightarrow> (question_validation_error \<Rightarrow> string) \<Rightarrow> string \<Rightarrow>
     string + ask_request" where
  "parse_request decode show_error arguments_json =
     and_then (decode arguments_json) (\<lambda>request.
     and_then (map_err show_error (validate_request request)) (\<lambda>_. Inr request))"

subsection \<open>Answers\<close>

definition find_question :: "ask_request \<Rightarrow> string \<Rightarrow> question_spec option" where
  "find_question r qid = List.find (\<lambda>q. qs_id q = qid) (ar_questions r)"

text \<open>The trimmed custom text is empty or absent.\<close>

definition no_custom :: "question_answer \<Rightarrow> bool" where
  "no_custom a = (case qa_custom_text a of None \<Rightarrow> True | Some t \<Rightarrow> blank t)"

text \<open>Neither an option nor text: such an answer erases the draft entry.\<close>

definition empty_answer :: "question_answer \<Rightarrow> bool" where
  "empty_answer a \<longleftrightarrow> qa_selected_option_id a = None \<and> no_custom a"

definition validate_answer :: "question_spec \<Rightarrow> question_answer \<Rightarrow> bool \<Rightarrow> question_state_error + unit" where
  "validate_answer q a draft =
     and_then (case qa_selected_option_id a of None \<Rightarrow> Inr ()
               | Some oid \<Rightarrow> ensure (\<not> list_ex (\<lambda>opt. qo_id opt = oid) (qs_options q))
                               (UnknownOption (qs_id q) oid)) (\<lambda>_.
     and_then (case qa_custom_text a of None \<Rightarrow> Inr ()
               | Some t \<Rightarrow>
                   and_then (ensure (\<not> blank t \<and> \<not> qs_allow_custom q) (CustomNotAllowed (qs_id q))) (\<lambda>_.
                   ensure (chars_count t > MAX_CUSTOM_ANSWER_CHARS) (CustomTooLong (qs_id q)))) (\<lambda>_.
     ensure (\<not> draft \<and> qa_selected_option_id a = None \<and> no_custom a) (MissingAnswers [qs_id q])))"

subsection \<open>The interaction\<close>

definition new_invocation :: "string \<Rightarrow> ask_request \<Rightarrow> question_invocation" where
  "new_invocation execution_id request =
     \<lparr>qi_interaction_id = ''question:'' @ execution_id, qi_execution_id = execution_id, qi_request = request\<rparr>"

definition new_interaction :: "question_invocation \<Rightarrow> question_validation_error + question_interaction" where
  "new_interaction iv =
     and_then (validate_request (qi_request iv)) (\<lambda>_.
     Inr \<lparr>qx_invocation = iv, qx_draft = Map.empty, qx_terminal = None\<rparr>)"

abbreviation qx_request :: "question_interaction \<Rightarrow> ask_request" where
  "qx_request i \<equiv> qi_request (qx_invocation i)"

definition draft_list :: "ask_request \<Rightarrow> (string \<rightharpoonup> question_answer) \<Rightarrow> question_answer list" where
  "draft_list r d = filter_map (\<lambda>q. d (qs_id q)) (ar_questions r)"

definition draft :: "question_interaction \<Rightarrow> question_answer list" where
  "draft i = draft_list (qx_request i) (qx_draft i)"

definition terminal_state :: "question_interaction \<Rightarrow> question_terminal_state" where
  "terminal_state i =
     (case qx_terminal i of None \<Rightarrow> QPending
      | Some (TResolved r) \<Rightarrow> QResolved r | Some (TCancelled c) \<Rightarrow> QCancelled c)"

definition ensure_pending :: "question_interaction \<Rightarrow> question_state_error + unit" where
  "ensure_pending i =
     (case qx_terminal i of None \<Rightarrow> Inr ()
      | Some (TResolved r) \<Rightarrow> Inl AlreadyResolved | Some (TCancelled c) \<Rightarrow> Inl InteractionCancelled)"

text \<open>One accepted answer: an empty one removes the draft entry, any other replaces it.\<close>

definition put_answer ::
  "(string \<rightharpoonup> question_answer) \<Rightarrow> question_answer \<Rightarrow> (string \<rightharpoonup> question_answer)" where
  "put_answer d a =
     (if empty_answer a then d(qa_question_id a := None) else d(qa_question_id a \<mapsto> a))"

text \<open>The loop of \<open>update_draft\<close>: \<open>incoming\<close> holds the question ids already met in this call.\<close>

fun merge_answers ::
  "ask_request \<Rightarrow> string set \<Rightarrow> (string \<rightharpoonup> question_answer) \<Rightarrow> question_answer list \<Rightarrow>
     (string \<rightharpoonup> question_answer) \<times> (question_state_error + unit)" where
  "merge_answers r incoming d [] = (d, Inr ())"
| "merge_answers r incoming d (a # as) =
     (if qa_question_id a \<in> incoming then (d, Inl (DuplicateAnswer (qa_question_id a)))
      else case find_question r (qa_question_id a) of
        None \<Rightarrow> (d, Inl (UnknownQuestion (qa_question_id a)))
      | Some q \<Rightarrow>
          (case validate_answer q a True of
             Inl e \<Rightarrow> (d, Inl e)
           | Inr _ \<Rightarrow>
               merge_answers r (insert (qa_question_id a) incoming) (put_answer d a) as))"

definition update_draft ::
  "question_interaction \<Rightarrow> question_answer list \<Rightarrow>
     question_interaction \<times> (question_state_error + question_answer list)" where
  "update_draft i as =
     (case ensure_pending i of
        Inl e \<Rightarrow> (i, Inl e)
      | Inr _ \<Rightarrow>
          (case merge_answers (qx_request i) {} (qx_draft i) as of
             (d, Inl e) \<Rightarrow> (i\<lparr>qx_draft := d\<rparr>, Inl e)
           | (d, Inr _) \<Rightarrow> (i\<lparr>qx_draft := d\<rparr>, Inr (draft (i\<lparr>qx_draft := d\<rparr>)))))"

definition dismiss :: "question_interaction \<Rightarrow> question_state_error + question_answer list" where
  "dismiss i = and_then (ensure_pending i) (\<lambda>_. Inr (draft i))"

fun collect_answers ::
  "ask_request \<Rightarrow> (string \<rightharpoonup> question_answer) \<Rightarrow> question_answer list \<Rightarrow>
     question_state_error + (string \<rightharpoonup> question_answer)" where
  "collect_answers r by_id [] = Inr by_id"
| "collect_answers r by_id (a # as) =
     (case find_question r (qa_question_id a) of
        None \<Rightarrow> Inl (UnknownQuestion (qa_question_id a))
      | Some q \<Rightarrow>
          and_then (validate_answer q a False) (\<lambda>_.
          and_then (ensure (by_id (qa_question_id a) \<noteq> None) (DuplicateAnswer (qs_id q))) (\<lambda>_.
          collect_answers r (by_id(qa_question_id a \<mapsto> a)) as)))"

definition resolved_answer_for :: "question_spec \<Rightarrow> question_answer \<Rightarrow> resolved_answer" where
  "resolved_answer_for q a =
     \<lparr>ra_question_id = qs_id q,
      ra_selected_option_id = qa_selected_option_id a,
      ra_selected_label =
        (case qa_selected_option_id a of None \<Rightarrow> None
         | Some oid \<Rightarrow> map_option qo_label (List.find (\<lambda>opt. qo_id opt = oid) (qs_options q))),
      ra_custom_text =
        (case qa_custom_text a of None \<Rightarrow> None
         | Some t \<Rightarrow> if blank t then None else Some (trim t)),
      ra_destination = qs_destination q\<rparr>"

definition build_resolution ::
  "ask_request \<Rightarrow> resolve_action \<Rightarrow> question_answer list \<Rightarrow> question_state_error + question_resolution" where
  "build_resolution r action as =
     and_then (collect_answers r Map.empty as) (\<lambda>by_id.
     let unanswered = map qs_id (filter (\<lambda>q. by_id (qs_id q) = None) (ar_questions r)) in
     and_then (ensure (action = Submit \<and> unanswered \<noteq> []) (MissingAnswers unanswered)) (\<lambda>_.
     let resolved = filter_map (\<lambda>q. map_option (resolved_answer_for q) (by_id (qs_id q))) (ar_questions r);
         status = (if resolved = [] then Skipped else if unanswered = [] then Answered else PartiallyAnswered)
     in Inr \<lparr>qr_status = status, qr_action = action, qr_answers = resolved,
             qr_unanswered_question_ids = unanswered\<rparr>))"

definition resolve ::
  "question_interaction \<Rightarrow> resolve_action \<Rightarrow> question_answer list \<Rightarrow>
     question_interaction \<times> (question_state_error + question_resolution)" where
  "resolve i action as =
     (case qx_terminal i of
        Some (TResolved existing) \<Rightarrow>
          (i, and_then (build_resolution (qx_request i) action as) (\<lambda>requested.
                if existing = requested then Inr existing else Inl AlreadyResolved))
      | Some (TCancelled _) \<Rightarrow> (i, Inl InteractionCancelled)
      | None \<Rightarrow>
          (case update_draft i as of
             (i1, Inl e) \<Rightarrow> (i1, Inl e)
           | (i1, Inr _) \<Rightarrow>
               (case build_resolution (qx_request i1) action (draft i1) of
                  Inl e \<Rightarrow> (i1, Inl e)
                | Inr res \<Rightarrow> (i1\<lparr>qx_terminal := Some (TResolved res)\<rparr>, Inr res))))"

definition cancel :: "question_interaction \<Rightarrow> string \<Rightarrow> question_interaction \<times> (question_state_error + unit)" where
  "cancel i reason =
     (case qx_terminal i of
        None \<Rightarrow> (i\<lparr>qx_terminal := Some (TCancelled reason)\<rparr>, Inr ())
      | Some (TCancelled existing) \<Rightarrow>
          (if existing = reason then (i, Inr ()) else (i, Inl InteractionCancelled))
      | Some (TResolved _) \<Rightarrow> (i, Inl AlreadyResolved))"

definition requests_agent_markdown :: "question_resolution \<Rightarrow> bool" where
  "requests_agent_markdown r = list_ex (\<lambda>a. ra_destination a = AgentMarkdown) (qr_answers r)"

text \<open>The answer a journal replay submits for a resolved answer (session.rs, recovery.rs).\<close>

definition answer_of_resolved :: "resolved_answer \<Rightarrow> question_answer" where
  "answer_of_resolved ra =
     \<lparr>qa_question_id = ra_question_id ra, qa_selected_option_id = ra_selected_option_id ra,
      qa_custom_text = ra_custom_text ra\<rparr>"

subsection \<open>What validation accepts\<close>

text \<open>The declarative content of \<open>validate\<close>: the request shapes the contract promises.\<close>

definition identifier_ok :: "string \<Rightarrow> bool" where
  "identifier_ok v \<longleftrightarrow> v \<noteq> [] \<and> chars_count v \<le> 64 \<and>
     (\<forall>c\<in>set v. is_ascii_alphanumeric c \<or> c = CHR ''_'' \<or> c = CHR ''-'')"

definition text_ok :: "nat \<Rightarrow> string \<Rightarrow> bool" where
  "text_ok mx v \<longleftrightarrow> \<not> blank v \<and> chars_count v \<le> mx"

definition option_ok :: "question_option \<Rightarrow> bool" where
  "option_ok opt \<longleftrightarrow> identifier_ok (qo_id opt) \<and> text_ok 80 (qo_label opt) \<and>
     (case qo_description opt of None \<Rightarrow> True | Some d \<Rightarrow> chars_count d \<le> 500)"

definition question_ok :: "question_spec \<Rightarrow> bool" where
  "question_ok q \<longleftrightarrow>
     identifier_ok (qs_id q) \<and> text_ok 40 (qs_header q) \<and> text_ok 1000 (qs_question q) \<and>
     length (qs_options q) \<le> 3 \<and> (qs_options q \<noteq> [] \<or> qs_allow_custom q) \<and>
     (\<forall>opt\<in>set (qs_options q). option_ok opt) \<and>
     distinct (map qo_id (qs_options q)) \<and> distinct (map (\<lambda>opt. trim (qo_label opt)) (qs_options q)) \<and>
     length (filter qo_recommended (qs_options q)) \<le> 1"

definition request_ok :: "ask_request \<Rightarrow> bool" where
  "request_ok r \<longleftrightarrow>
     1 \<le> length (ar_questions r) \<and> length (ar_questions r) \<le> 3 \<and>
     distinct (map qs_id (ar_questions r)) \<and> (\<forall>q\<in>set (ar_questions r). question_ok q)"

lemma validate_identifier_ok [simp]: "validate_identifier v f = Inr u \<longleftrightarrow> identifier_ok v"
  by (auto simp: validate_identifier_def identifier_ok_def MAX_ID_CHARS_def list_all_iff)

lemma validate_text_ok [simp]: "validate_text v mx f = Inr u \<longleftrightarrow> text_ok mx v"
  by (auto simp: validate_text_def text_ok_def)

lemma validate_optional_text_ok [simp]: "validate_optional_text v mx f = Inr u \<longleftrightarrow> chars_count v \<le> mx"
  by (auto simp: validate_optional_text_def)

lemma validate_options_ok:
  "validate_options qid index k ids labels n opts = Inr m \<longleftrightarrow>
     (\<forall>opt\<in>set opts. option_ok opt) \<and>
     distinct (map qo_id opts) \<and> ids \<inter> qo_id ` set opts = {} \<and>
     distinct (map (\<lambda>opt. trim (qo_label opt)) opts) \<and> labels \<inter> (\<lambda>opt. trim (qo_label opt)) ` set opts = {} \<and>
     m = n + length (filter qo_recommended opts)"
proof (induction opts arbitrary: k ids labels n)
  case Nil
  then show ?case by auto
next
  case (Cons opt opts)
  have desc: "(case qo_description opt of None \<Rightarrow> Inr ()
       | Some d \<Rightarrow> validate_optional_text d MAX_DESCRIPTION_CHARS f) = Inr u \<longleftrightarrow>
      (case qo_description opt of None \<Rightarrow> True | Some d \<Rightarrow> chars_count d \<le> 500)" for f u
    by (auto simp: MAX_DESCRIPTION_CHARS_def split: option.splits)
  show ?case
    by (simp add: Cons.IH desc option_ok_def MAX_LABEL_CHARS_def) auto
qed

lemma validate_questions_ok:
  "validate_questions index ids qs = Inr () \<longleftrightarrow>
     (\<forall>q\<in>set qs. question_ok q) \<and> distinct (map qs_id qs) \<and> ids \<inter> qs_id ` set qs = {}"
proof (induction qs arbitrary: index ids)
  case (Cons q qs)
  show ?case
    by (simp add: Cons.IH validate_options_ok question_ok_def [of q] MAX_HEADER_CHARS_def
        MAX_QUESTION_CHARS_def MAX_OPTIONS_PER_QUESTION_def not_less) auto
qed auto

text \<open>\<open>AskUserQuestionRequest::validate\<close> accepts exactly the well-formed requests: one to three
  questions with distinct identifiers, each answerable, each with at most three options whose
  identifiers and trimmed labels are distinct and at most one of which is recommended, and every
  text within its bound.\<close>

theorem validate_request_iff: "validate_request r = Inr () \<longleftrightarrow> request_ok r"
  by (auto simp: validate_request_def validate_questions_ok request_ok_def MAX_QUESTIONS_def
      Suc_le_eq not_less)

lemma validate_request_ok: "validate_request r = Inr u \<Longrightarrow> request_ok r"
  by (auto simp: validate_request_def validate_questions_ok request_ok_def MAX_QUESTIONS_def
      Suc_le_eq not_less)

subsection \<open>The draft\<close>

definition wf_draft :: "ask_request \<Rightarrow> (string \<rightharpoonup> question_answer) \<Rightarrow> bool" where
  "wf_draft r d \<longleftrightarrow>
     (\<forall>k a. d k = Some a \<longrightarrow> qa_question_id a = k \<and> \<not> empty_answer a \<and>
        (\<exists>q. find_question r k = Some q \<and> validate_answer q a True = Inr ()))"

lemma wf_draftD:
  "wf_draft r d \<Longrightarrow> d k = Some a \<Longrightarrow> find_question r k = Some q \<Longrightarrow>
     qa_question_id a = k \<and> \<not> empty_answer a \<and> validate_answer q a True = Inr ()"
  unfolding wf_draft_def by (metis option.inject)

definition wf_interaction :: "question_interaction \<Rightarrow> bool" where
  "wf_interaction i \<longleftrightarrow> request_ok (qx_request i) \<and> wf_draft (qx_request i) (qx_draft i)"

fun apply_answers :: "(string \<rightharpoonup> question_answer) \<Rightarrow> question_answer list \<Rightarrow> (string \<rightharpoonup> question_answer)" where
  "apply_answers d [] = d"
| "apply_answers d (a # as) =
     apply_answers (put_answer d a) as"

lemma find_question_SomeD:
  "find_question r k = Some q \<Longrightarrow> q \<in> set (ar_questions r) \<and> qs_id q = k"
  by (auto simp: find_question_def find_Some_iff)

lemma find_question_mem:
  assumes "distinct (map qs_id (ar_questions r))" and "q \<in> set (ar_questions r)"
  shows "find_question r (qs_id q) = Some q"
proof -
  have "find_question r (qs_id q) \<noteq> None"
    using assms(2) by (auto simp: find_question_def find_None_iff)
  then obtain p where p: "find_question r (qs_id q) = Some p" by blast
  then have "p \<in> set (ar_questions r)" "qs_id p = qs_id q" by (auto dest: find_question_SomeD)
  with assms p show ?thesis by (auto simp: distinct_map dest: inj_onD)
qed

lemma wf_draft_upd:
  assumes "wf_draft r d" and "find_question r (qa_question_id a) = Some q"
    and "validate_answer q a True = Inr u"
  shows "wf_draft r (put_answer d a)"
  using assms by (simp add: wf_draft_def put_answer_def)

lemma merge_answers_wf: "wf_draft r d \<Longrightarrow> wf_draft r (fst (merge_answers r incoming d as))"
proof (induction r incoming d as rule: merge_answers.induct)
  case (2 r incoming d a as)
  show ?case
  proof (cases "qa_question_id a \<in> incoming")
    case False
    show ?thesis
    proof (cases "find_question r (qa_question_id a)")
      case (Some q)
      show ?thesis
      proof (cases "validate_answer q a True")
        case (Inr v)
        from "2.IH" [OF False Some Inr] wf_draft_upd [OF "2.prems" Some Inr] False Some Inr
        show ?thesis by simp
      qed (use False Some "2.prems" in simp)
    qed (use False "2.prems" in simp)
  qed (use "2.prems" in simp)
qed simp

lemma merge_answers_Inr:
  "merge_answers r incoming d as = (d', Inr ()) \<longleftrightarrow>
     distinct (map qa_question_id as) \<and> incoming \<inter> qa_question_id ` set as = {} \<and>
     (\<forall>a\<in>set as. \<exists>q. find_question r (qa_question_id a) = Some q \<and> validate_answer q a True = Inr ()) \<and>
     d' = apply_answers d as"
proof (induction r incoming d as rule: merge_answers.induct)
  case (2 r incoming d a as)
  show ?case
  proof (cases "qa_question_id a \<in> incoming")
    case False
    show ?thesis
    proof (cases "find_question r (qa_question_id a)")
      case (Some q)
      show ?thesis
      proof (cases "validate_answer q a True")
        case (Inr v)
        from 2 [OF False Some Inr] False Some Inr show ?thesis
          by auto
      qed (use False Some in auto)
    qed (use False in auto)
  qed auto
qed auto

lemma validate_answer_final:
  "validate_answer q a True = Inr u \<Longrightarrow> \<not> empty_answer a \<Longrightarrow> validate_answer q a False = Inr ()"
  by (auto simp: validate_answer_def empty_answer_def)

lemma collect_draft:
  assumes wf: "wf_draft r d" and dist: "distinct (map qs_id (ar_questions r))"
  shows "collect_answers r Map.empty (draft_list r d) = Inr d"
proof -
  have "collect_answers r m (filter_map (\<lambda>q. d (qs_id q)) qs) =
      Inr (\<lambda>k. if k \<in> qs_id ` set qs \<and> d k \<noteq> None then d k else m k)"
    if "set qs \<subseteq> set (ar_questions r)" "distinct (map qs_id qs)" "\<forall>q\<in>set qs. m (qs_id q) = None" for qs m
    using that
  proof (induction qs arbitrary: m)
    case (Cons q qs)
    then have other: "\<forall>p\<in>set qs. qs_id p \<noteq> qs_id q" by (auto simp: image_iff)
    show ?case
    proof (cases "d (qs_id q)")
      case None
      with Cons show ?thesis by (auto simp: List.map_filter_simps fun_eq_iff)
    next
      case (Some a)
      with wf obtain p where a: "qa_question_id a = qs_id q" "\<not> empty_answer a"
        and p: "find_question r (qs_id q) = Some p" "validate_answer p a True = Inr ()"
        by (auto simp: wf_draft_def)
      have IH: "collect_answers r (m(qs_id q \<mapsto> a)) (filter_map (\<lambda>q. d (qs_id q)) qs) =
          Inr (\<lambda>k. if k \<in> qs_id ` set qs \<and> d k \<noteq> None then d k else (m(qs_id q \<mapsto> a)) k)"
        using Cons.prems other by (intro Cons.IH) auto
      show ?thesis
        using Some a p Cons.prems IH validate_answer_final [OF p(2) a(2)]
        by (auto simp: List.map_filter_simps fun_eq_iff)
    qed
  qed (simp add: List.map_filter_simps)
  from this [of "ar_questions r" Map.empty] dist
  have "collect_answers r Map.empty (draft_list r d) =
      Inr (\<lambda>k. if k \<in> qs_id ` set (ar_questions r) \<and> d k \<noteq> None then d k else None)"
    by (simp add: draft_list_def)
  also have "(\<lambda>k. if k \<in> qs_id ` set (ar_questions r) \<and> d k \<noteq> None then d k else None) = d"
    using wf by (auto simp: wf_draft_def fun_eq_iff dest: find_question_SomeD) (metis find_question_SomeD image_eqI not_None_eq)
  finally show ?thesis .
qed

subsection \<open>Resolution\<close>

definition unanswered_ids :: "ask_request \<Rightarrow> (string \<rightharpoonup> question_answer) \<Rightarrow> string list" where
  "unanswered_ids r d = map qs_id (filter (\<lambda>q. d (qs_id q) = None) (ar_questions r))"

definition resolved_answers :: "ask_request \<Rightarrow> (string \<rightharpoonup> question_answer) \<Rightarrow> resolved_answer list" where
  "resolved_answers r d = filter_map (\<lambda>q. map_option (resolved_answer_for q) (d (qs_id q))) (ar_questions r)"

text \<open>The resolution as a function of the final draft.\<close>

definition resolution_of ::
  "ask_request \<Rightarrow> resolve_action \<Rightarrow> (string \<rightharpoonup> question_answer) \<Rightarrow> question_resolution" where
  "resolution_of r action d =
     \<lparr>qr_status = (if resolved_answers r d = [] then Skipped
                   else if unanswered_ids r d = [] then Answered else PartiallyAnswered),
      qr_action = action, qr_answers = resolved_answers r d,
      qr_unanswered_question_ids = unanswered_ids r d\<rparr>"

lemma build_resolution_draft:
  assumes "wf_draft r d" and "request_ok r"
  shows "build_resolution r action (draft_list r d) =
    (if action = Submit \<and> unanswered_ids r d \<noteq> [] then Inl (MissingAnswers (unanswered_ids r d))
     else Inr (resolution_of r action d))"
  using collect_draft [OF assms(1)] assms(2)
  by (simp add: build_resolution_def request_ok_def unanswered_ids_def resolution_of_def
      resolved_answers_def ensure_def Let_def)

lemma resolve_pending:
  assumes wf: "wf_interaction i" and pending: "qx_terminal i = None"
  shows "resolve i action as = (i', Inr res) \<longleftrightarrow>
    (\<exists>d. merge_answers (qx_request i) {} (qx_draft i) as = (d, Inr ()) \<and>
       (action = Submit \<longrightarrow> unanswered_ids (qx_request i) d = []) \<and>
       res = resolution_of (qx_request i) action d \<and>
       i' = i\<lparr>qx_draft := d, qx_terminal := Some (TResolved res)\<rparr>)"
proof -
  obtain d e where m: "merge_answers (qx_request i) {} (qx_draft i) as = (d, e)"
    by fastforce
  have wfd: "wf_draft (qx_request i) d"
    using merge_answers_wf [of "qx_request i" "qx_draft i" "{}" as] wf m by (simp add: wf_interaction_def)
  with wf have build: "build_resolution (qx_request i) action (draft_list (qx_request i) d) =
      (if action = Submit \<and> unanswered_ids (qx_request i) d \<noteq> []
       then Inl (MissingAnswers (unanswered_ids (qx_request i) d))
       else Inr (resolution_of (qx_request i) action d))"
    by (intro build_resolution_draft) (auto simp: wf_interaction_def)
  show ?thesis
    using pending m build
    by (cases e) (auto simp: resolve_def update_draft_def ensure_pending_def draft_def)
qed

lemma new_interaction_wf:
  "new_interaction iv = Inr i \<Longrightarrow> wf_interaction i \<and> qx_terminal i = None"
  by (auto simp: new_interaction_def wf_interaction_def wf_draft_def validate_request_ok)

lemma update_draft_fst:
  "fst (update_draft i as) =
    (if qx_terminal i = None
     then i\<lparr>qx_draft := fst (merge_answers (qx_request i) {} (qx_draft i) as)\<rparr> else i)"
  by (auto simp: update_draft_def ensure_pending_def split: option.splits interaction_terminal.splits
      prod.splits sum.splits)

lemma resolve_fst:
  "\<exists>t. fst (resolve i action as) = (fst (update_draft i as))\<lparr>qx_terminal := t\<rparr>"
proof (cases "qx_terminal i")
  case None
  then show ?thesis
    by (auto simp: resolve_def split: prod.splits sum.splits)
      (metis fst_conv question_interaction.surjective question_interaction.update_convs(3))+
next
  case (Some t)
  then show ?thesis
    by (cases t) (auto simp: resolve_def update_draft_fst intro!: exI [of _ "qx_terminal i"])
qed

lemma interaction_invariant_update:
  "wf_interaction i \<Longrightarrow> wf_interaction (fst (update_draft i as))"
  using merge_answers_wf [of "qx_request i" "qx_draft i" "{}" as]
  by (simp add: update_draft_fst wf_interaction_def)

text \<open>The interaction's invariant (a well-formed request, and a draft whose every entry is a
  non-empty answer, valid for the question it is filed under) holds from construction on and is
  kept by every operation, whether it succeeds or fails.\<close>

theorem interaction_invariant:
  "(\<forall>iv i. new_interaction iv = Inr i \<longrightarrow> wf_interaction i) \<and>
   (\<forall>i as. wf_interaction i \<longrightarrow> wf_interaction (fst (update_draft i as))) \<and>
   (\<forall>i action as. wf_interaction i \<longrightarrow> wf_interaction (fst (resolve i action as))) \<and>
   (\<forall>i reason. wf_interaction i \<longrightarrow> wf_interaction (fst (cancel i reason)))"
proof (intro conjI allI impI)
  fix iv i assume "new_interaction iv = Inr i"
  then show "wf_interaction i" by (simp add: new_interaction_wf)
next
  fix i as assume wf: "wf_interaction i"
  show upd: "wf_interaction (fst (update_draft i as))"
    using wf by (rule interaction_invariant_update)
  fix action
  obtain t where "fst (resolve i action as) = (fst (update_draft i as))\<lparr>qx_terminal := t\<rparr>"
    using resolve_fst by blast
  with upd show "wf_interaction (fst (resolve i action as))" by (simp add: wf_interaction_def)
next
  fix i reason assume "wf_interaction i"
  then show "wf_interaction (fst (cancel i reason))"
    by (auto simp: cancel_def wf_interaction_def split: option.splits interaction_terminal.splits)
qed

text \<open>A settled interaction is final: updates, resolutions and cancellations leave it exactly as
  it is; a repeated resolution succeeds only by returning the stored one, a repeated cancellation
  only with the stored reason.\<close>

theorem settled_is_final:
  assumes "qx_terminal i = Some t"
  shows "fst (update_draft i as) = i \<and> fst (resolve i action as) = i \<and> fst (cancel i reason) = i \<and>
    (snd (resolve i action as) = Inr res \<longrightarrow> t = TResolved res) \<and>
    (snd (cancel i reason) = Inr () \<longrightarrow> t = TCancelled reason) \<and>
    (\<exists>e. snd (update_draft i as) = Inl e)"
  using assms
  by (cases t) (auto simp: update_draft_def ensure_pending_def resolve_def cancel_def split: if_splits)

definition example_question :: question_spec where
  "example_question =
     \<lparr>qs_id = ''target'', qs_header = ''Target'', qs_question = ''Where?'',
      qs_options = [\<lparr>qo_id = ''tokyo'', qo_label = ''Tokyo'', qo_description = None, qo_recommended = True\<rparr>],
      qs_allow_custom = True, qs_destination = ToContext\<rparr>"

definition example_invocation :: question_invocation where
  "example_invocation =
     \<lparr>qi_interaction_id = ''question:exec-1'', qi_execution_id = ''exec-1'',
      qi_request = \<lparr>ar_questions = [example_question]\<rparr>\<rparr>"

definition example_interaction :: question_interaction where
  "example_interaction =
     \<lparr>qx_invocation = example_invocation, qx_draft = Map.empty, qx_terminal = None\<rparr>"

definition example_answer :: question_answer where
  "example_answer =
     \<lparr>qa_question_id = ''target'', qa_selected_option_id = Some ''tokyo'', qa_custom_text = Some '' now ''\<rparr>"

theorem settled_is_final_witness:
  "fst (resolve (example_interaction\<lparr>qx_terminal := Some (TCancelled ''bye'')\<rparr>) Submit [example_answer]) =
     example_interaction\<lparr>qx_terminal := Some (TCancelled ''bye'')\<rparr>"
  using settled_is_final
    [of "example_interaction\<lparr>qx_terminal := Some (TCancelled ''bye'')\<rparr>" "TCancelled ''bye''"
      "[example_answer]" Submit]
  by simp

lemma example_ok: "new_interaction example_invocation = Inr example_interaction"
proof -
  have "validate_request (qi_request example_invocation) = Inr ()" by code_simp
  then show ?thesis by (simp add: new_interaction_def example_interaction_def)
qed

theorem interaction_invariant_witness:
  "wf_interaction (fst (resolve example_interaction Submit [example_answer]))"
  using interaction_invariant new_interaction_wf [OF example_ok] by blast

text \<open>Dismissed or half-answered, a question can always be continued: from a well-formed pending
  interaction, \<open>Continue\<close> with no further answers succeeds and settles it.\<close>

theorem continue_always_succeeds:
  assumes "wf_interaction i" and "qx_terminal i = None"
  shows "\<exists>i' res. resolve i Continue [] = (i', Inr res) \<and> terminal_state i' = QResolved res \<and>
    qr_answers res = resolved_answers (qx_request i) (qx_draft i)"
  using resolve_pending [OF assms, of Continue "[]"]
  by (simp add: terminal_state_def resolution_of_def)

theorem continue_always_succeeds_witness:
  "\<exists>i' res. resolve example_interaction Continue [] = (i', Inr res) \<and> terminal_state i' = QResolved res \<and>
    qr_answers res = resolved_answers (qx_request example_interaction) (qx_draft example_interaction)"
  using continue_always_succeeds new_interaction_wf [OF example_ok] by blast

lemma set_resolved_answers:
  "ra \<in> set (resolved_answers r d) \<longleftrightarrow>
     (\<exists>q\<in>set (ar_questions r). \<exists>a. d (qs_id q) = Some a \<and> ra = resolved_answer_for q a)"
  by (auto simp: resolved_answers_def)

lemma ids_resolved_answers:
  "map ra_question_id (resolved_answers r d) =
     map qs_id (filter (\<lambda>q. d (qs_id q) \<noteq> None) (ar_questions r))"
proof -
  have "filter_map (\<lambda>q. map_option ra_question_id (map_option (resolved_answer_for q) (d (qs_id q)))) qs =
      map qs_id (filter (\<lambda>q. d (qs_id q) \<noteq> None) qs)" for qs
    by (induction qs) (auto simp: List.map_filter_simps resolved_answer_for_def)
  then show ?thesis by (simp add: resolved_answers_def map_filter_map)
qed

definition resolved_answer_ok :: "question_spec \<Rightarrow> resolved_answer \<Rightarrow> bool" where
  "resolved_answer_ok q ra \<longleftrightarrow>
     ra_question_id ra = qs_id q \<and> ra_destination ra = qs_destination q \<and>
     (ra_selected_option_id ra \<noteq> None \<or> ra_custom_text ra \<noteq> None) \<and>
     (case ra_selected_option_id ra of None \<Rightarrow> ra_selected_label ra = None
      | Some oid \<Rightarrow> \<exists>opt\<in>set (qs_options q). qo_id opt = oid \<and> ra_selected_label ra = Some (qo_label opt)) \<and>
     (case ra_custom_text ra of None \<Rightarrow> True
      | Some t \<Rightarrow> \<not> blank t \<and> trim t = t \<and> qs_allow_custom q \<and> chars_count t \<le> 8192)"

lemma resolved_answer_for_ok:
  assumes "validate_answer q a True = Inr ()" and "\<not> empty_answer a"
  shows "resolved_answer_ok q (resolved_answer_for q a)"
proof -
  have opts: "\<exists>opt. List.find (\<lambda>opt. qo_id opt = oid) (qs_options q) = Some opt \<and> opt \<in> set (qs_options q) \<and> qo_id opt = oid"
    if "qa_selected_option_id a = Some oid" for oid
  proof -
    from assms(1) that have "\<exists>opt\<in>set (qs_options q). qo_id opt = oid"
      by (auto simp: validate_answer_def list_ex_iff)
    then show ?thesis
      by (cases "List.find (\<lambda>opt. qo_id opt = oid) (qs_options q)") (auto simp: find_None_iff find_Some_iff)
  qed
  have custom: "qs_allow_custom q \<and> chars_count (trim t) \<le> 8192"
    if "qa_custom_text a = Some t" "\<not> blank t" for t
    using assms(1) that chars_count_trim_le [of t]
    by (auto simp: validate_answer_def MAX_CUSTOM_ANSWER_CHARS_def)
  show ?thesis
    using assms(2) opts custom
    by (auto simp: resolved_answer_ok_def resolved_answer_for_def empty_answer_def no_custom_def
        split: option.splits; blast)
qed

text \<open>What a successful resolution of a pending interaction contains: answered and unanswered
  identifiers split the request's questions, in request order; a submission leaves nothing
  unanswered; every answer belongs to its question, carries the label of the option it names and
  only trimmed, permitted custom text; and the interaction is settled with exactly this value.\<close>

theorem resolve_sound:
  assumes wf: "wf_interaction i" and pending: "qx_terminal i = None"
    and ok: "resolve i action as = (i', Inr res)"
  shows "terminal_state i' = QResolved res \<and> qr_action res = action \<and>
    (\<exists>answered. map ra_question_id (qr_answers res) = map qs_id (filter answered (ar_questions (qx_request i))) \<and>
       qr_unanswered_question_ids res = map qs_id (filter (\<lambda>q. \<not> answered q) (ar_questions (qx_request i)))) \<and>
    (action = Submit \<longrightarrow> qr_status res = Answered \<and> qr_unanswered_question_ids res = []) \<and>
    (\<forall>ra\<in>set (qr_answers res). \<exists>q\<in>set (ar_questions (qx_request i)). resolved_answer_ok q ra)"
proof -
  let ?r = "qx_request i"
  from iffD1 [OF resolve_pending [OF wf pending] ok] obtain d
    where m: "merge_answers ?r {} (qx_draft i) as = (d, Inr ())"
    and sub: "action = Submit \<Longrightarrow> unanswered_ids ?r d = []"
    and res: "res = resolution_of ?r action d"
    and i': "i' = i\<lparr>qx_draft := d, qx_terminal := Some (TResolved res)\<rparr>"
    by blast
  have wfd: "wf_draft ?r d" and req: "request_ok ?r"
    using merge_answers_wf [of ?r "qx_draft i" "{}" as] wf m by (simp_all add: wf_interaction_def)
  have answers_ok: "\<exists>q\<in>set (ar_questions ?r). resolved_answer_ok q ra" if "ra \<in> set (resolved_answers ?r d)" for ra
  proof -
    from that obtain q a where q: "q \<in> set (ar_questions ?r)" "d (qs_id q) = Some a" "ra = resolved_answer_for q a"
      by (auto simp: set_resolved_answers)
    moreover have "find_question ?r (qs_id q) = Some q"
      using req q(1) by (auto simp: request_ok_def intro: find_question_mem)
    ultimately have "resolved_answer_ok q ra"
      using wf_draftD [OF wfd] by (auto intro!: resolved_answer_for_ok)
    with q(1) show ?thesis by blast
  qed
  have submitted: "resolved_answers ?r d \<noteq> []" if "action = Submit"
  proof -
    have "ar_questions ?r \<noteq> []" using req by (auto simp: request_ok_def)
    with sub [OF that] have "map ra_question_id (resolved_answers ?r d) \<noteq> []"
      by (auto simp: ids_resolved_answers unanswered_ids_def filter_empty_conv)
    then show ?thesis by auto
  qed
  show ?thesis
    using answers_ok sub submitted
    by (auto simp: res i' resolution_of_def terminal_state_def ids_resolved_answers unanswered_ids_def
        intro!: exI [of _ "\<lambda>q. d (qs_id q) \<noteq> None"])
qed

lemma example_resolves:
  "\<exists>i' res. resolve example_interaction Submit [example_answer] = (i', Inr res)"
proof -
  have "case snd (resolve example_interaction Submit [example_answer]) of Inl _ \<Rightarrow> False | Inr _ \<Rightarrow> True"
    by code_simp
  then show ?thesis by (metis prod.collapse sum.case_eq_if sum.collapse(2))
qed

theorem resolve_sound_witness:
  "\<exists>i' res. resolve example_interaction Submit [example_answer] = (i', Inr res) \<and>
     terminal_state i' = QResolved res \<and> qr_status res = Answered"
proof -
  obtain i' res where r: "resolve example_interaction Submit [example_answer] = (i', Inr res)"
    using example_resolves by blast
  then have "terminal_state i' = QResolved res" "qr_status res = Answered"
    using resolve_sound [OF _ _ r] new_interaction_wf [OF example_ok] by auto
  with r show ?thesis by blast
qed

subsection \<open>Journal replay\<close>

lemma apply_answers_other:
  "k \<notin> qa_question_id ` set as \<Longrightarrow> apply_answers d as k = d k"
  by (induction as arbitrary: d) (auto simp: put_answer_def)

lemma apply_answers_mem:
  "distinct (map qa_question_id as) \<Longrightarrow> a \<in> set as \<Longrightarrow>
     apply_answers d as (qa_question_id a) = (if empty_answer a then None else Some a)"
  by (induction as arbitrary: d) (auto simp: put_answer_def apply_answers_other)

abbreviation replayed :: "question_spec \<Rightarrow> question_answer \<Rightarrow> question_answer" where
  "replayed q a \<equiv> answer_of_resolved (resolved_answer_for q a)"

lemma replayed_simps [simp]:
  "qa_question_id (replayed q a) = qs_id q"
  "empty_answer (replayed q a) = empty_answer a"
  "resolved_answer_for q (replayed q a) = resolved_answer_for q a"
  by (auto simp: answer_of_resolved_def resolved_answer_for_def empty_answer_def no_custom_def
      split: option.splits)

lemma validate_replayed:
  "validate_answer q a True = Inr () \<Longrightarrow> validate_answer q (replayed q a) True = Inr ()"
proof -
  have "chars_count (trim t) \<le> 8192" if "chars_count t \<le> 8192" for t
    using that chars_count_trim_le [of t] by linarith
  then show "validate_answer q a True = Inr () \<Longrightarrow> ?thesis"
    by (auto simp: validate_answer_def answer_of_resolved_def resolved_answer_for_def
        MAX_CUSTOM_ANSWER_CHARS_def not_less split: option.splits)
qed

lemma replay_merges:
  assumes req: "request_ok r" and wfd: "wf_draft r d"
  shows "\<exists>d1. merge_answers r {} d0 (map answer_of_resolved (resolved_answers r d)) = (d1, Inr ()) \<and>
    (\<forall>q\<in>set (ar_questions r).
       d1 (qs_id q) = (case d (qs_id q) of None \<Rightarrow> d0 (qs_id q) | Some a \<Rightarrow> Some (replayed q a)))"
proof -
  let ?as = "map answer_of_resolved (resolved_answers r d)"
  have find: "find_question r (qs_id q) = Some q" if "q \<in> set (ar_questions r)" for q
    using req that by (auto simp: request_ok_def intro: find_question_mem)
  have dist: "distinct (map qs_id (ar_questions r))" using req by (simp add: request_ok_def)
  have ids: "map qa_question_id ?as = map qs_id (filter (\<lambda>q. d (qs_id q) \<noteq> None) (ar_questions r))"
    using ids_resolved_answers [of r d] by (simp add: answer_of_resolved_def comp_def)
  then have dist_ids: "distinct (map qa_question_id ?as)"
    using dist by (simp add: distinct_map_filter)
  have valid: "\<exists>q. find_question r (qa_question_id b) = Some q \<and> validate_answer q b True = Inr ()"
    if "b \<in> set ?as" for b
  proof -
    from that obtain q a where q: "q \<in> set (ar_questions r)" "d (qs_id q) = Some a" "b = replayed q a"
      by (auto simp: set_resolved_answers)
    with find [OF q(1)] wf_draftD [OF wfd q(2)] show ?thesis by (auto intro: validate_replayed)
  qed
  have m: "merge_answers r {} d0 ?as = (apply_answers d0 ?as, Inr ())"
    using dist_ids valid by (simp only: merge_answers_Inr) simp
  have "apply_answers d0 ?as (qs_id q) = (case d (qs_id q) of None \<Rightarrow> d0 (qs_id q) | Some a \<Rightarrow> Some (replayed q a))"
    if q: "q \<in> set (ar_questions r)" for q
  proof (cases "d (qs_id q)")
    case None
    then have "qs_id q \<notin> set (map qa_question_id ?as)" unfolding ids by auto
    then have "apply_answers d0 ?as (qs_id q) = d0 (qs_id q)"
      by (intro apply_answers_other) (simp add: image_image)
    with None show ?thesis by simp
  next
    case (Some a)
    with q have "resolved_answer_for q a \<in> set (resolved_answers r d)"
      unfolding set_resolved_answers by blast
    then have "replayed q a \<in> set ?as" by simp
    from apply_answers_mem [OF dist_ids this, of d0] Some wf_draftD [OF wfd Some find [OF q]]
    show ?thesis by simp
  qed
  with m show ?thesis by blast
qed

lemma resolution_of_replayed:
  assumes "\<forall>q\<in>set (ar_questions r). d1 (qs_id q) = map_option (replayed q) (d (qs_id q))"
  shows "resolution_of r action d1 = resolution_of r action d \<and> unanswered_ids r d1 = unanswered_ids r d"
proof -
  have "unanswered_ids r d1 = unanswered_ids r d"
    unfolding unanswered_ids_def using assms by (auto intro!: arg_cong [where f = "map qs_id"] filter_cong)
  moreover have "resolved_answers r d1 = resolved_answers r d"
    unfolding resolved_answers_def List.map_filter_def
    using assms by (auto intro!: map_cong filter_cong simp: option.map_comp comp_def)
  ultimately show ?thesis by (simp add: resolution_of_def)
qed

text \<open>Journal replay: a resolution is durable as the value \<open>resolve\<close> returned, and replaying it
  against the same durable interaction (the session validator and recovery do) yields exactly
  that value again, provided no submitted answer erased a drafted one.\<close>

theorem resolution_replays:
  assumes wf: "wf_interaction i" and pending: "qx_terminal i = None"
    and ok: "resolve i action as = (i', Inr res)"
    and keep: "\<forall>a\<in>set as. empty_answer a \<longrightarrow> qx_draft i (qa_question_id a) = None"
  shows "snd (resolve i (qr_action res) (map answer_of_resolved (qr_answers res))) = Inr res"
proof -
  let ?r = "qx_request i"
  from iffD1 [OF resolve_pending [OF wf pending] ok] obtain d
    where m: "merge_answers ?r {} (qx_draft i) as = (d, Inr ())"
      and sub: "action = Submit \<longrightarrow> unanswered_ids ?r d = []"
      and res: "res = resolution_of ?r action d" by blast
  have d: "d = apply_answers (qx_draft i) as" and dist: "distinct (map qa_question_id as)"
    using m by (simp_all add: merge_answers_Inr)
  have wfd: "wf_draft ?r d" and req: "request_ok ?r"
    using merge_answers_wf [of ?r "qx_draft i" "{}" as] wf m by (simp_all add: wf_interaction_def)
  have kept: "qx_draft i k = None" if "d k = None" for k
  proof (cases "k \<in> qa_question_id ` set as")
    case True
    with that dist keep show ?thesis by (auto simp: d apply_answers_mem split: if_splits)
  next
    case False
    with that show ?thesis by (simp add: d apply_answers_other)
  qed
  obtain d1 where m1: "merge_answers ?r {} (qx_draft i) (map answer_of_resolved (resolved_answers ?r d)) = (d1, Inr ())"
    and d1: "\<forall>q\<in>set (ar_questions ?r). d1 (qs_id q) = map_option (replayed q) (d (qs_id q))"
    using replay_merges [OF req wfd, of "qx_draft i"] kept by (fastforce split: option.splits)
  have "resolve i action (map answer_of_resolved (resolved_answers ?r d)) =
      (i\<lparr>qx_draft := d1, qx_terminal := Some (TResolved res)\<rparr>, Inr res)"
    using m1 sub resolution_of_replayed [OF d1] by (simp add: resolve_pending [OF wf pending] res)
  then show ?thesis by (simp add: res resolution_of_def)
qed

theorem resolution_replays_witness:
  "\<exists>res. snd (resolve example_interaction Submit [example_answer]) = Inr res \<and>
     snd (resolve example_interaction (qr_action res) (map answer_of_resolved (qr_answers res))) = Inr res"
proof -
  obtain i' res where r: "resolve example_interaction Submit [example_answer] = (i', Inr res)"
    using example_resolves by blast
  have "\<forall>a\<in>set [example_answer]. empty_answer a \<longrightarrow>
      qx_draft example_interaction (qa_question_id a) = None"
    by (simp add: example_answer_def empty_answer_def)
  then show ?thesis
    using resolution_replays [OF _ _ r] new_interaction_wf [OF example_ok] r by auto
qed

end
