(* ===== verification/Session_Types.thy ===== *)
theory Session_Types
  imports Interaction
begin

text \<open>
  The durable vocabulary of crates/xharness-session: provider-neutral messages (message.rs) and the
  events a session log consists of (event.rs), with the source's constructors and fields.  A field
  \<open>f\<close> of a struct carries a prefix for the struct (\<open>tc_\<close> for \<open>ToolCall\<close>, \<open>msg_\<close> for \<open>Message\<close>).

  Turns, steps, revisions and the other counters that are incremented keep their width.  A
  \<open>Sequence\<close> is the position of an event in an in-memory vector, whose length never reaches
  \<open>2^63\<close>, so positions are \<open>nat\<close>; \<open>usize\<close> values are \<open>nat\<close> as well.
\<close>

text \<open>\<open>serde_json::Value\<close>, with numbers as their text.\<close>

datatype json =
    JNull
  | JBool bool
  | JNumber string
  | JString string
  | JArray "json list"
  | JObject "(string \<times> json) list"

subsection \<open>Messages (message.rs)\<close>

datatype message_role = RSystem | RUser | RAssistant | RTool

record tool_call =
  tc_id :: string
  tc_provider_call_id :: "string option"
  tc_index :: nat
  tc_name :: string
  tc_arguments_json :: string

definition provider_id :: "tool_call \<Rightarrow> string" where
  "provider_id c = (case tc_provider_call_id c of None \<Rightarrow> tc_id c | Some p \<Rightarrow> p)"

record message =
  msg_id :: "string option"
  msg_role :: message_role
  msg_content :: string
  msg_reasoning :: string
  msg_tool_calls :: "tool_call list"
  msg_tool_call_id :: "string option"
  msg_provider_items :: "json list"
  msg_interrupted :: bool

definition new_message :: "message_role \<Rightarrow> string \<Rightarrow> message" where
  "new_message role content =
     \<lparr>msg_id = None, msg_role = role, msg_content = content, msg_reasoning = [], msg_tool_calls = [],
      msg_tool_call_id = None, msg_provider_items = [], msg_interrupted = False\<rparr>"

definition with_id :: "message \<Rightarrow> string \<Rightarrow> message" where
  "with_id m i = m\<lparr>msg_id := Some i\<rparr>"

definition user_message :: "string \<Rightarrow> message" where
  "user_message content = new_message RUser content"

definition assistant_message :: "string \<Rightarrow> message" where
  "assistant_message content = new_message RAssistant content"

definition tool_message :: "string \<Rightarrow> string \<Rightarrow> message" where
  "tool_message call_id content = (new_message RTool content)\<lparr>msg_tool_call_id := Some call_id\<rparr>"

subsection \<open>Event payloads (event.rs)\<close>

type_synonym sequence = nat
type_synonym revision = u64

record sequence_range =
  sr_start :: sequence
  sr_end :: sequence

record surface_replace =
  rp_compaction_id :: string
  rp_shadowed_range :: sequence_range
  rp_shadowed_seqs :: "sequence list"

datatype inbox_target = NextTurn | NextStep

record inbox_message =
  im_id :: string
  im_message :: message
  im_source :: "json option"

definition inbox_user :: "string \<Rightarrow> string \<Rightarrow> inbox_message" where
  "inbox_user i content = \<lparr>im_id = i, im_message = with_id (user_message content) i, im_source = None\<rparr>"

datatype inbox_splice_outcome = SpliceCancelled

record request_header =
  rh_provider :: string
  rh_model :: string
  rh_reasoning_effort :: "string option"
  rh_system :: "string option"
  rh_tools :: "json list"
  rh_input :: "message list"
  rh_options :: "(string \<times> json) list"

datatype assistant_chunk =
    TextDelta string
  | ReasoningDelta string
  | ToolCallDelta nat string string string
  | ChunkUsage json
  | ChunkFinish string
  | ChunkProvider json

datatype turn_end_reason =
    TurnCompleted
  | TurnMaxTokens
  | TurnCancelled
  | TurnLimitReached
  | TurnFailed string
  | TurnInterrupted

datatype tool_outcome = ToolSuccess | ToolError | OutcomeUnknown

datatype approval_outcome = AllowedOnce | ApprovalRejected | ApprovalCancelled | ApprovalUnavailable

datatype approval_policy = PolicyAsk | PolicyNever

datatype sandbox_mode = ReadOnly | WorkspaceWrite | DangerFullAccess

datatype policy_source = Delegation

datatype command_source = CommandUser

datatype command_result_kind = CommandSuccess | CommandError

record mutation_receipt =
  mr_rpc_id :: string
  mr_method :: string
  mr_fingerprint :: string
  mr_response :: json
  mr_response_event_seq_field :: "string option"

record title_provenance =
  tp_provider :: string
  tp_model :: string

datatype session_title_source =
    TitleFallback
  | TitleProvider string "title_provenance option"
  | TitleUser

datatype goal_phase = GoalActive | GoalPaused | GoalBlocked | GoalComplete

record goal_block_reason =
  gb_code :: string
  gb_message :: string

record goal_snapshot =
  gs_id :: string
  gs_revision :: u64
  gs_objective :: string
  gs_phase :: goal_phase
  gs_blocked_reason :: "goal_block_reason option"
  gs_max_goal_rounds :: u64

datatype goal_snapshot_operation = OpCreate | OpEdit | OpPause | OpResume | OpComplete | OpBlock

record goal_snapshot_change =
  gc_version :: u8
  gc_operation :: goal_snapshot_operation
  gc_goal :: goal_snapshot
  gc_rounds_started :: u64
  gc_created_at :: u64
  gc_updated_at :: u64

record goal_ref =
  gr_id :: string
  gr_revision :: u64

record goal_clear_change =
  gl_version :: u8
  gl_cleared :: goal_ref
  gl_cleared_at :: u64

datatype goal_change = GoalSnapshotChange goal_snapshot_change | GoalClear goal_clear_change

datatype schedule_kind = After | At | Every

record schedule_record =
  sc_id :: string
  sc_kind :: schedule_kind
  sc_prompt :: string
  sc_after_seconds :: "u64 option"
  sc_every_seconds :: "u64 option"
  sc_scheduled_at :: string

datatype schedule_change =
    ScheduleCreate u8 schedule_record
  | ScheduleDelete u8 string
  | ScheduleDispatch u8 string "string option"

record llm_failure =
  lf_message :: string
  lf_code :: string
  lf_status :: "u16 option"
  lf_provider_retry_after_ms :: "u64 option"
  lf_request_id :: "string option"

datatype llm_retry_mode = RetryNormal | RetryAlways

record tool_result_data =
  tr_call_id :: string
  tr_outcome :: tool_outcome
  tr_content :: string
  tr_metadata :: "json option"

subsection \<open>Payloads with many fields\<close>

record llm_retry =
  lr_retry_id :: string
  lr_turn :: u32
  lr_step :: u32
  lr_provider :: string
  lr_mode :: llm_retry_mode
  lr_policy_key :: string
  lr_retry :: u32
  lr_max_retries :: "u32 option"
  lr_delay_ms :: u64
  lr_failure :: llm_failure

record compaction_summary =
  cs_compaction_id :: string
  cs_source_command_id :: "string option"
  cs_summary :: string
  cs_shadowed_range :: sequence_range
  cs_shadowed_seqs :: "sequence list"
  cs_shadowed_token_count :: u64
  cs_provider :: string
  cs_model :: string
  cs_max_tokens :: "u64 option"
  cs_usage :: "json option"

text \<open>\<open>EventData\<close>: the arguments of a constructor are the variant's fields in their order.\<close>

datatype (plugins only: code size) event_data =
    AgentDelegationFailure string string
  | AgentFailureDelivered string
  | AgentDelegated string string string
  | AgentDispatchPaused bool
  | AgentSettlementDelivered u32
  | AgentPresetSelected string
  | SessionModelSelected string string "string option" "u64 option"
  | AgentInboxSpliced inbox_target nat nat "inbox_message list" "inbox_splice_outcome option"
  | RequestHeader request_header
  | RequestContext string string "u64 option"
  | ApprovalAsked string string "string option" "string option"
  | ApprovalDecided string approval_outcome
  | QuestionRequested question_invocation
  | QuestionDraftUpdated string "question_answer list"
  | QuestionResolved string question_resolution
  | QuestionCancelled string string
  | PermissionPreset string
  | SandboxMode sandbox_mode "policy_source option"
  | ApprovalPolicy approval_policy "policy_source option"
  | CommandRun string string "string option" command_source
  | CommandDone string command_result_kind "string option" "sequence option"
  | SessionTitle string "sequence list" session_title_source
  | GoalChange goal_change
  | ScheduleChange schedule_change
  | SessionMutationCommitted mutation_receipt
  | PlanMode bool
  | LlmRetry llm_retry
  | LlmRetryStarted string u32 u32 u32
  | CompactionStart string "string option" "u32 option"
  | CompactionSummary compaction_summary
  | CompactionEnd string "string option" "u32 option" "string option"
  | CompactionPrune sequence_range "sequence list" u64
  | TurnStart u32
  | TurnEnd u32 turn_end_reason
  | StepStart u32 u32
  | StepEnd u32 u32
  | UserMessage message "surface_replace option"
  | AssistantChunk u32 u32 assistant_chunk
  | AssistantMessage u32 u32 message "json option"
  | ToolCall u32 u32 tool_call
  | ToolResult u32 u32 tool_result_data
  | SessionEndSeed

record logged_event =
  le_seq :: sequence
  le_revision :: revision
  le_timestamp_ms :: u64
  le_event :: event_data

end
