(* ===== verification/Surface.thy ===== *)
theory Surface
  imports Session_Types "HOL-Library.Multiset" "HOL-Library.List_Lexorder" "HOL-Library.Char_ord"
begin

text \<open>
  \<open>derive_surface_messages\<close> of crates/xharness-session/src/session.rs: the model-facing transcript
  as a pure projection of the event log.  User and assistant messages become nodes at once, tool
  results wait until a boundary and are then emitted in the order of the assistant's calls, and a
  compaction checkpoint replaces the nodes it shadows.

  The \<open>HashMap\<close>s are maps; \<open>tool_results\<close>, which is drained and sorted, is an association list with
  one entry per key.
\<close>

record surface_message =
  sm_seq :: sequence
  sm_message :: message

record surface_state =
  ss_provider_ids :: "string \<rightharpoonup> string"
  ss_messages :: "surface_message list"
  ss_call_order :: "string list"
  ss_tool_results :: "(string \<times> (sequence \<times> string)) list"

definition init_surface :: surface_state where
  "init_surface = \<lparr>ss_provider_ids = Map.empty, ss_messages = [], ss_call_order = [], ss_tool_results = []\<rparr>"

definition tool_node :: "(string \<rightharpoonup> string) \<Rightarrow> string \<Rightarrow> sequence \<times> string \<Rightarrow> surface_message" where
  "tool_node ids call_id p =
     \<lparr>sm_seq = fst p,
      sm_message = tool_message (case ids call_id of None \<Rightarrow> call_id | Some i \<Rightarrow> i) (snd p)\<rparr>"

text \<open>The first loop of \<open>flush_tool_results\<close>: results of the ordered calls; returns what is left over.\<close>

fun flush_calls ::
  "(string \<rightharpoonup> string) \<Rightarrow> string list \<Rightarrow> (string \<times> (sequence \<times> string)) list \<Rightarrow>
     surface_message list \<times> (string \<times> (sequence \<times> string)) list" where
  "flush_calls ids [] results = ([], results)"
| "flush_calls ids (c # cs) results =
     (case map_of results c of
        None \<Rightarrow> flush_calls ids cs results
      | Some p \<Rightarrow>
          (let (nodes, rest) = flush_calls ids cs (AList.delete c results)
           in (tool_node ids c p # nodes, rest)))"

definition flush_tool_results :: "surface_state \<Rightarrow> surface_state" where
  "flush_tool_results s =
     (let (nodes, rest) = flush_calls (ss_provider_ids s) (ss_call_order s) (ss_tool_results s);
          leftovers = map (\<lambda>p. tool_node (ss_provider_ids s) (fst p) (snd p)) (sort_key fst rest)
      in s\<lparr>ss_messages := ss_messages s @ nodes @ leftovers, ss_call_order := [], ss_tool_results := []\<rparr>)"

text \<open>Positions on the surface of the shadowed sequence numbers that are visible.\<close>

definition shadow_positions :: "surface_message list \<Rightarrow> sequence list \<Rightarrow> nat list" where
  "shadow_positions messages seqs =
     filter_map (\<lambda>s. position (\<lambda>node. sm_seq node = s) messages) seqs"

definition contiguous_on :: "surface_message list \<Rightarrow> sequence list \<Rightarrow> bool" where
  "contiguous_on messages seqs \<longleftrightarrow>
     length (shadow_positions messages seqs) = length seqs \<and> consecutive (shadow_positions messages seqs)"

definition replace_surface ::
  "surface_message list \<Rightarrow> sequence \<Rightarrow> message \<Rightarrow> surface_replace \<Rightarrow> surface_message list" where
  "replace_surface messages seq m replace =
     (let positions = shadow_positions messages (rp_shadowed_seqs replace)
      in if contiguous_on messages (rp_shadowed_seqs replace) \<and> positions \<noteq> []
         then splice (hd positions) (Suc (last positions)) [\<lparr>sm_seq = seq, sm_message = m\<rparr>] messages
         else messages @ [\<lparr>sm_seq = seq, sm_message = m\<rparr>])"

fun register_calls :: "(string \<rightharpoonup> string) \<Rightarrow> tool_call list \<Rightarrow> (string \<rightharpoonup> string)" where
  "register_calls ids [] = ids"
| "register_calls ids (c # cs) = register_calls (ids(tc_id c \<mapsto> provider_id c)) cs"

fun surface_event :: "surface_state \<Rightarrow> sequence \<Rightarrow> event_data \<Rightarrow> surface_state" where
  "surface_event s seq (UserMessage m sr) =
     (let s1 = flush_tool_results s
      in s1\<lparr>ss_messages :=
           (case sr of
              Some replace \<Rightarrow> replace_surface (ss_messages s1) seq m replace
            | None \<Rightarrow> ss_messages s1 @ [\<lparr>sm_seq = seq, sm_message = m\<rparr>])\<rparr>)"
| "surface_event s seq (AssistantMessage turn step m usage) =
     (let s1 = flush_tool_results s
      in s1\<lparr>ss_provider_ids := register_calls (ss_provider_ids s1) (msg_tool_calls m),
            ss_call_order := ss_call_order s1 @ map tc_id (msg_tool_calls m),
            ss_messages := ss_messages s1 @ [\<lparr>sm_seq = seq, sm_message = m\<rparr>]\<rparr>)"
| "surface_event s seq (ToolCall turn step c) =
     s\<lparr>ss_provider_ids := (ss_provider_ids s)(tc_id c \<mapsto> provider_id c)\<rparr>"
| "surface_event s seq (ToolResult turn step r) =
     s\<lparr>ss_tool_results := AList.update (tr_call_id r) (seq, tr_content r) (ss_tool_results s)\<rparr>"
| "surface_event s seq (StepEnd turn step) = flush_tool_results s"
| "surface_event s seq (TurnEnd turn reason) = flush_tool_results s"
| "surface_event s seq _ = s"

definition surface_step :: "surface_state \<Rightarrow> logged_event \<Rightarrow> surface_state" where
  "surface_step s l = surface_event s (le_seq l) (le_event l)"

definition derive_surface_messages :: "logged_event list \<Rightarrow> surface_message list" where
  "derive_surface_messages events =
     ss_messages (flush_tool_results (foldl surface_step init_surface events))"

definition derive_messages :: "logged_event list \<Rightarrow> message list" where
  "derive_messages events = map sm_message (derive_surface_messages events)"

subsection \<open>Coordinates on the surface\<close>

text \<open>Coordinates the projection holds: those of the nodes and those of the waiting results.\<close>

definition held_seqs :: "surface_state \<Rightarrow> sequence list" where
  "held_seqs s = map sm_seq (ss_messages s) @ map (\<lambda>x. fst (snd x)) (ss_tool_results s)"

definition surface_inv :: "nat \<Rightarrow> surface_state \<Rightarrow> bool" where
  "surface_inv n s \<longleftrightarrow>
     distinct (held_seqs s) \<and> (\<forall>x\<in>set (held_seqs s). x < n) \<and> distinct (map fst (ss_tool_results s))"

lemma mset_delete_key:
  assumes "map_of al k = Some p" and "distinct (map fst al)"
  shows "mset al = add_mset (k, p) (mset (AList.delete k al))"
  using assms
proof (induction al)
  case (Cons r rs)
  show ?case
  proof (cases "fst r = k")
    case True
    with Cons.prems have "AList.delete k rs = rs"
      by (intro AList.delete_id) auto
    with True Cons.prems show ?thesis by (cases r) auto
  next
    case False
    with Cons show ?thesis by (cases r) auto
  qed
qed simp

lemma flush_calls_mset:
  assumes "distinct (map fst results)"
  shows "distinct (map fst (snd (flush_calls ids cs results))) \<and>
    mset (map sm_seq (fst (flush_calls ids cs results))) +
      mset (map (\<lambda>x. fst (snd x)) (snd (flush_calls ids cs results))) = mset (map (\<lambda>x. fst (snd x)) results)"
  using assms
proof (induction ids cs results rule: flush_calls.induct)
  case (2 ids c cs results)
  show ?case
  proof (cases "map_of results c")
    case None
    with 2 show ?thesis by simp
  next
    case (Some p)
    have "mset results = add_mset (c, p) (mset (AList.delete c results))"
      using Some "2.prems" by (rule mset_delete_key)
    then have "mset (map (\<lambda>x. fst (snd x)) results) = add_mset (fst p) (mset (map (\<lambda>x. fst (snd x)) (AList.delete c results)))"
      by simp
    moreover have "distinct (map fst (AList.delete c results))"
      using "2.prems" by (rule distinct_delete)
    ultimately show ?thesis
      using "2.IH"(2) [OF Some] Some by (auto simp: split_beta tool_node_def Let_def)
  qed
qed simp

text \<open>A flush moves the waiting coordinates onto the surface and loses none.\<close>

lemma flush_mset:
  assumes "distinct (map fst (ss_tool_results s))"
  shows "mset (held_seqs (flush_tool_results s)) = mset (held_seqs s)"
proof -
  obtain nodes rest where f: "flush_calls (ss_provider_ids s) (ss_call_order s) (ss_tool_results s) = (nodes, rest)"
    by fastforce
  have "mset (map sm_seq nodes) + mset (map (\<lambda>x. fst (snd x)) rest) = mset (map (\<lambda>x. fst (snd x)) (ss_tool_results s))"
    using flush_calls_mset [OF assms, of "ss_provider_ids s" "ss_call_order s"] f by simp
  then show ?thesis
    using f by (simp add: flush_tool_results_def held_seqs_def tool_node_def comp_def)
qed

lemma flush_inv:
  assumes "surface_inv n s"
  shows "surface_inv n (flush_tool_results s)"
proof -
  have m: "mset (held_seqs (flush_tool_results s)) = mset (held_seqs s)"
    using assms by (intro flush_mset) (simp add: surface_inv_def)
  have "ss_tool_results (flush_tool_results s) = []"
    by (simp add: flush_tool_results_def split_beta)
  with assms m show ?thesis
    by (auto simp: surface_inv_def dest: mset_eq_imp_distinct_iff mset_eq_setD)
qed

lemma flush_empty [simp]: "ss_tool_results (flush_tool_results s) = []" "ss_call_order (flush_tool_results s) = []"
  by (simp_all add: flush_tool_results_def split_beta)

lemma surface_inv_mono: "surface_inv n s \<Longrightarrow> n \<le> m \<Longrightarrow> surface_inv m s"
  by (auto simp: surface_inv_def)

lemma distinct_splice:
  "distinct xs \<Longrightarrow> y \<notin> set xs \<Longrightarrow> a \<le> b \<Longrightarrow> distinct (splice a b [y] xs)"
  by (auto simp: splice_def dest: in_set_takeD in_set_dropD set_take_disj_set_drop_if_distinct)

lemma distinct_positions:
  "consecutive xs \<Longrightarrow> xs \<noteq> [] \<Longrightarrow> hd xs \<le> last xs"
  using consecutive_nth [of xs "length xs - 1"] by (simp add: last_conv_nth)

lemma replace_surface_seqs:
  "map sm_seq (replace_surface ms seq m r) =
     (let ps = shadow_positions ms (rp_shadowed_seqs r)
      in if contiguous_on ms (rp_shadowed_seqs r) \<and> ps \<noteq> []
         then splice (hd ps) (Suc (last ps)) [seq] (map sm_seq ms) else map sm_seq ms @ [seq])"
  by (simp add: replace_surface_def Let_def map_splice)

lemma replace_surface_distinct:
  assumes "distinct (map sm_seq ms)" and "\<forall>x\<in>set (map sm_seq ms). x < n"
  shows "distinct (map sm_seq (replace_surface ms n m r)) \<and>
    (\<forall>x\<in>set (map sm_seq (replace_surface ms n m r)). x < Suc n)"
proof -
  have fresh: "n \<notin> set (map sm_seq ms)" using assms(2) by auto
  let ?ps = "shadow_positions ms (rp_shadowed_seqs r)"
  show ?thesis
  proof (cases "contiguous_on ms (rp_shadowed_seqs r) \<and> ?ps \<noteq> []")
    case True
    then have "hd ?ps \<le> Suc (last ?ps)"
      using distinct_positions [of ?ps] by (simp add: contiguous_on_def)
    with assms fresh True show ?thesis
      using set_splice_subset [of "hd ?ps" "Suc (last ?ps)" "[n]" "map sm_seq ms"]
      by (auto simp: replace_surface_seqs Let_def simp del: set_map intro!: distinct_splice) (auto dest!: subsetD)
  next
    case False
    with assms fresh show ?thesis by (auto simp: replace_surface_seqs Let_def)
  qed
qed

lemma surface_inv_ids [simp]: "surface_inv n (s\<lparr>ss_provider_ids := x\<rparr>) = surface_inv n s"
  by (simp add: surface_inv_def held_seqs_def)

lemma surface_event_inv:
  assumes "surface_inv n s"
  shows "surface_inv (Suc n) (surface_event s n e)"
proof -
  note fl = flush_inv [OF assms]
  have up: "surface_inv (Suc n) s" using assms by (rule surface_inv_mono) simp
  show ?thesis
  proof (cases e)
    case (UserMessage m sr)
    from fl have d: "distinct (map sm_seq (ss_messages (flush_tool_results s)))"
      and b: "\<forall>x\<in>set (map sm_seq (ss_messages (flush_tool_results s))). x < n"
      by (simp_all add: surface_inv_def held_seqs_def)
    show ?thesis
    proof (cases sr)
      case None
      with d b show ?thesis
        by (auto simp: UserMessage surface_inv_def held_seqs_def Let_def less_Suc_eq)
    next
      case (Some r)
      from replace_surface_distinct [OF d b, of m r] show ?thesis
        by (auto simp: UserMessage Some surface_inv_def held_seqs_def Let_def)
    qed
  next
    case (AssistantMessage t st m u)
    with fl show ?thesis
      by (auto simp: surface_inv_def held_seqs_def Let_def less_Suc_eq)
  next
    case (ToolResult t st r)
    have upd: "set (AList.update k v al) \<subseteq> insert (k, v) (set al)" for k v and al :: "(string \<times> (sequence \<times> string)) list"
      by (induction al) auto
    have dist: "distinct (map (\<lambda>x. fst (snd x)) (AList.update k (n, c) al)) \<and>
        (\<forall>x\<in>A. x \<notin> (\<lambda>x. fst (snd x)) ` set (AList.update k (n, c) al))"
      if "distinct (map (\<lambda>x. fst (snd x)) al)" "\<forall>x\<in>set al. fst (snd x) < n"
        "\<forall>x\<in>A. x < n \<and> x \<notin> (\<lambda>x. fst (snd x)) ` set al"
      for A k c and al :: "(string \<times> (sequence \<times> string)) list"
      using that
    proof (induction al)
      case (Cons a al)
      then show ?case by (cases a) (force simp: image_iff dest: subsetD [OF upd])
    qed auto
    from assms dist [of "ss_tool_results s" "set (map sm_seq (ss_messages s))" "tr_call_id r" "tr_content r"]
    show ?thesis
      by (auto simp: ToolResult surface_inv_def held_seqs_def AList.distinct_update less_Suc_eq
          dest!: subsetD [OF upd])
  qed (use up surface_inv_mono [OF fl, of "Suc n"] in simp_all)
qed

definition positioned :: "logged_event list \<Rightarrow> bool" where
  "positioned events \<longleftrightarrow> map le_seq events = [0 ..< length events]"

lemma positioned_snoc:
  "positioned (events @ [l]) \<longleftrightarrow> positioned events \<and> le_seq l = length events"
  by (auto simp: positioned_def)

lemma foldl_surface_inv:
  "positioned events \<Longrightarrow> surface_inv (length events) (foldl surface_step init_surface events)"
proof (induction events rule: rev_induct)
  case Nil
  show ?case by (simp add: surface_inv_def held_seqs_def init_surface_def)
next
  case (snoc l events)
  then show ?case
    by (simp add: positioned_snoc surface_step_def) (metis surface_event_inv)
qed

text \<open>On a log whose sequence numbers are positions, the coordinates of the derived surface are
  pairwise distinct and lie inside the log, so a coordinate names at most one visible node.\<close>

theorem surface_coordinates:
  assumes "positioned events"
  shows "distinct (map sm_seq (derive_surface_messages events)) \<and>
    (\<forall>node\<in>set (derive_surface_messages events). sm_seq node < length events)"
  using flush_inv [OF foldl_surface_inv [OF assms]]
  by (auto simp: derive_surface_messages_def surface_inv_def held_seqs_def)

theorem surface_coordinates_witness:
  "distinct (map sm_seq (derive_surface_messages
       [\<lparr>le_seq = 0, le_revision = 1, le_timestamp_ms = 7, le_event = UserMessage (user_message ''a'') None\<rparr>]))"
  using surface_coordinates
    [of "[\<lparr>le_seq = 0, le_revision = 1, le_timestamp_ms = 7, le_event = UserMessage (user_message ''a'') None\<rparr>]"]
  by (simp add: positioned_def)

subsection \<open>Replacement ranges\<close>

text \<open>The position test on shadowed coordinates decides exactly whether they are a contiguous
  stretch of the surface, in surface order.\<close>

theorem contiguous_on_iff:
  assumes "distinct (map sm_seq ms)"
  shows "contiguous_on ms seqs \<longleftrightarrow> (\<exists>xs ys. map sm_seq ms = xs @ seqs @ ys)"
proof
  assume "contiguous_on ms seqs"
  then have len: "length (shadow_positions ms seqs) = length seqs"
    and cons: "consecutive (shadow_positions ms seqs)"
    by (auto simp: contiguous_on_def)
  show "\<exists>xs ys. map sm_seq ms = xs @ seqs @ ys"
  proof (cases "seqs = []")
    case False
    let ?ps = "shadow_positions ms seqs"
    define h where "h = hd ?ps"
    have full: "?ps = map (\<lambda>s. the (position (\<lambda>node. sm_seq node = s) ms)) seqs"
      and found: "\<forall>s\<in>set seqs. position (\<lambda>node. sm_seq node = s) ms \<noteq> None"
      using filter_map_full [OF len [unfolded shadow_positions_def]] by (auto simp: shadow_positions_def)
    have at: "h + i < length ms \<and> sm_seq (ms ! (h + i)) = seqs ! i" if i: "i < length seqs" for i
    proof -
      have "?ps ! i = h + i" using consecutive_nth [OF cons] i len by (simp add: h_def)
      moreover have "?ps ! i = the (position (\<lambda>node. sm_seq node = seqs ! i) ms)"
        using full i by simp
      moreover obtain j where "position (\<lambda>node. sm_seq node = seqs ! i) ms = Some j"
        using found i nth_mem by blast
      ultimately show ?thesis by (auto dest: position_SomeD)
    qed
    have bound: "h + length seqs \<le> length ms"
      using at [of "length seqs - 1"] False by (cases seqs) auto
    have "seqs = take (length seqs) (drop h (map sm_seq ms))"
      by (rule nth_equalityI) (use at bound in auto)
    then have "map sm_seq ms = take h (map sm_seq ms) @ seqs @ drop (length seqs) (drop h (map sm_seq ms))"
      by (metis append_take_drop_id)
    then show ?thesis by blast
  next
    case True
    then show ?thesis by (intro exI [of _ "map sm_seq ms"] exI [of _ "[]"]) simp
  qed
next
  assume "\<exists>xs ys. map sm_seq ms = xs @ seqs @ ys"
  then obtain xs ys where split: "map sm_seq ms = xs @ seqs @ ys" by blast
  have pos: "position (\<lambda>node. sm_seq node = seqs ! i) ms = Some (length xs + i)" if "i < length seqs" for i
  proof -
    have "sm_seq (ms ! (length xs + i)) = map sm_seq ms ! (length xs + i)"
      using split that by (metis (no_types, lifting) length_append length_map nat_add_left_cancel_less nth_map trans_less_add1)
    also have "\<dots> = seqs ! i" using that by (simp add: split nth_append)
    finally have "sm_seq (ms ! (length xs + i)) = seqs ! i" .
    moreover have "length xs + i < length ms"
      using arg_cong [OF split, of length] that by simp
    ultimately show ?thesis using position_nth_distinct [OF assms, of "length xs + i"] by simp
  qed
  have "shadow_positions ms seqs = map (\<lambda>i. length xs + i) [0 ..< length seqs]"
  proof -
    have "seqs = map ((!) seqs) [0 ..< length seqs]" by (simp add: map_nth)
    then have "shadow_positions ms seqs =
        filter_map (\<lambda>s. position (\<lambda>node. sm_seq node = s) ms) (map ((!) seqs) [0 ..< length seqs])"
      by (simp add: shadow_positions_def)
    also have "\<dots> = filter_map (\<lambda>i. position (\<lambda>node. sm_seq node = seqs ! i) ms) [0 ..< length seqs]"
      by (simp add: List.map_filter_def comp_def filter_map)
    also have "\<dots> = map (\<lambda>i. length xs + i) [0 ..< length seqs]"
      by (rule filter_map_all_Some) (simp add: pos)
    finally show ?thesis .
  qed
  also have "\<dots> = [length xs ..< length xs + length seqs]"
    by (rule nth_equalityI) auto
  finally show "contiguous_on ms seqs"
    by (simp add: contiguous_on_def consecutive_upt_iff)
qed

theorem contiguous_on_iff_witness:
  "contiguous_on [\<lparr>sm_seq = 4, sm_message = user_message ''a''\<rparr>, \<lparr>sm_seq = 7, sm_message = user_message ''b''\<rparr>] [7] \<longleftrightarrow>
    (\<exists>xs ys. [4, 7] = xs @ [7] @ (ys :: nat list))"
  using contiguous_on_iff
    [of "[\<lparr>sm_seq = 4, sm_message = user_message ''a''\<rparr>, \<lparr>sm_seq = 7, sm_message = user_message ''b''\<rparr>]" "[7]"]
  by simp

end
