(* ===== verification/Validator.thy ===== *)
theory Validator
  imports Surface
begin

text \<open>
  The append rules of a session log: \<open>validate_log\<close> of crates/xharness-session/src/session.rs.  The
  validator folds over the log with the local variables of the Rust function as its state
  \<open>vstate\<close>; each arm of its match over event kinds is one definition \<open>on_<event>\<close>, and a rejected
  event is a \<open>session_error\<close>.

  The text of a lifecycle error is the source's format string, without its arguments filled in.
  \<open>HashMap\<close>s are maps and \<open>HashSet\<close>s sets; the map of interactions, which \<open>step/end\<close> enumerates, is
  an association list.  Decoding the arguments of a question call is serde's and the parameter
  \<open>decode\<close>.
\<close>

subsection \<open>Errors\<close>

datatype (plugins only: code size) session_error =
    EmptySessionId
  | UnsupportedVersion u32 u32
  | SequenceMismatch sequence sequence
  | RevisionConflict revision revision
  | RevisionOverflow
  | LoggedRevisionMismatch sequence revision revision
  | InvalidMessageRole sequence string
  | EmptyToolCallId sequence
  | EmptyProviderToolCallId sequence
  | EmptyToolName sequence
  | DuplicateToolCall sequence string
  | UnknownToolCall sequence string
  | DuplicateToolResult sequence string
  | InvalidLifecycle sequence string
  | ToolCallMirrorMismatch sequence u32 u32 nat
  | EmptyInboxMessageId sequence
  | InvalidInboxMessageRole sequence string
  | InboxMessageIdMismatch sequence string
  | DuplicateInboxMessage sequence string
  | InvalidInboxSplice sequence string

definition lifecycle_error :: "sequence \<Rightarrow> string \<Rightarrow> session_error" where
  "lifecycle_error seq message = InvalidLifecycle seq message"

text \<open>\<open>if bad { return Err(lifecycle_error(seq, message)) }\<close>, the shape most checks have.\<close>

definition reject :: "sequence \<Rightarrow> bool \<Rightarrow> string \<Rightarrow> session_error + unit" where
  "reject seq bad message = ensure bad (lifecycle_error seq message)"

lemma reject_Inr [simp]: "reject seq bad message = Inr u \<longleftrightarrow> \<not> bad"
  by (simp add: reject_def)

lemma reject_cong [cong]: "bad = bad' \<Longrightarrow> reject seq bad message = reject seq bad' message"
  by simp

lemma ensure_cong [cong]: "bad = bad' \<Longrightarrow> ensure bad e = ensure bad' e"
  by simp

subsection \<open>State\<close>

record step_state =
  st_turn :: u32
  st_step :: u32
  st_request_header_seen :: bool
  st_request_provider :: "string option"
  st_assistant_calls :: "tool_call list option"
  st_mirrored_calls :: nat

record compaction_state =
  co_source_command_id :: "string option"
  co_turn :: "u32 option"
  co_summary :: "(sequence_range \<times> sequence list) option"
  co_replacement :: bool
  co_ended :: bool

type_synonym retry_owner = "u32 \<times> u32 \<times> string \<times> string"

record vstate =
  v_revision :: revision
  v_calls :: "string \<rightharpoonup> bool \<times> u32 \<times> u32"
  v_approvals :: "string \<rightharpoonup> bool"
  v_questions :: "(string \<times> question_interaction) list"
  v_question_by_call :: "string \<rightharpoonup> string"
  v_call_names :: "string \<rightharpoonup> string"
  v_call_arguments :: "string \<rightharpoonup> string"
  v_commands :: "string \<rightharpoonup> bool"
  v_retry_chains :: "retry_owner \<rightharpoonup> string \<times> u32"
  v_retry_owners :: "string \<rightharpoonup> retry_owner"
  v_scheduled_retries :: "string \<times> u32 \<rightharpoonup> u32 \<times> u32"
  v_started_retries :: "(string \<times> u32) set"
  v_mutation_receipts :: "string set"
  v_mutation_revisions :: "revision set"
  v_compactions :: "string \<rightharpoonup> compaction_state"
  v_open_turn :: "u32 option"
  v_last_turn :: u32
  v_open_step :: "step_state option"
  v_last_step :: u32
  v_next_turn_inbox :: "inbox_message list"
  v_next_step_inbox :: "inbox_message list"
  v_current_goal :: "(goal_snapshot \<times> u64 \<times> u64 \<times> u64) option"
  v_seen_goal_ids :: "string set"
  v_active_schedules :: "string \<rightharpoonup> schedule_kind"
  v_seen_schedule_ids :: "string set"

definition init_vstate :: vstate where
  "init_vstate =
     \<lparr>v_revision = 0, v_calls = Map.empty, v_approvals = Map.empty, v_questions = [],
      v_question_by_call = Map.empty, v_call_names = Map.empty, v_call_arguments = Map.empty,
      v_commands = Map.empty, v_retry_chains = Map.empty, v_retry_owners = Map.empty,
      v_scheduled_retries = Map.empty, v_started_retries = {}, v_mutation_receipts = {},
      v_mutation_revisions = {}, v_compactions = Map.empty, v_open_turn = None, v_last_turn = 0,
      v_open_step = None, v_last_step = 0, v_next_turn_inbox = [], v_next_step_inbox = [],
      v_current_goal = None, v_seen_goal_ids = {}, v_active_schedules = Map.empty,
      v_seen_schedule_ids = {}\<rparr>"

type_synonym vresult = "session_error + vstate"

definition question_transition_error :: "sequence \<Rightarrow> question_state_error \<Rightarrow> session_error" where
  "question_transition_error seq error =
     lifecycle_error seq ''invalid user-question transition: {error}''"

definition ensure_calls_mirrored :: "sequence \<Rightarrow> step_state \<Rightarrow> session_error + unit" where
  "ensure_calls_mirrored seq state =
     (case st_assistant_calls state of None \<Rightarrow> Inr ()
      | Some calls \<Rightarrow>
          reject seq (st_mirrored_calls state \<noteq> length calls)
            ''assistant declared {} tool calls but only {} audit events followed'')"

text \<open>\<open>opt.as_ref().is_some_and(|v| v.trim().is_empty())\<close>.\<close>

definition some_blank :: "string option \<Rightarrow> bool" where
  "some_blank v = (case v of None \<Rightarrow> False | Some x \<Rightarrow> blank x)"

subsection \<open>Identity and selection events\<close>

definition on_agent_delegated :: "sequence \<Rightarrow> string \<Rightarrow> string \<Rightarrow> string \<Rightarrow> vstate \<Rightarrow> vresult" where
  "on_agent_delegated seq parent invocation task s =
     and_then (reject seq (blank parent \<or> blank invocation \<or> blank task)
                 ''agent delegation identity/task must be non-empty'') (\<lambda>_. Inr s)"

definition on_agent_preset_selected :: "sequence \<Rightarrow> string \<Rightarrow> vstate \<Rightarrow> vresult" where
  "on_agent_preset_selected seq preset s =
     and_then (reject seq (blank preset) ''agent-preset/selected value must be non-empty'') (\<lambda>_. Inr s)"

definition on_session_model_selected ::
  "sequence \<Rightarrow> string \<Rightarrow> string \<Rightarrow> string option \<Rightarrow> u64 option \<Rightarrow> vstate \<Rightarrow> vresult" where
  "on_session_model_selected seq provider model reasoning_effort context_window_tokens s =
     and_then (reject seq (blank provider \<or> blank model \<or> some_blank reasoning_effort \<or>
                           context_window_tokens = Some 0)
       ''session/model-selected provider, model and optional reasoning effort must be non-empty; context window must be positive'')
       (\<lambda>_. Inr s)"

definition on_permission_preset :: "sequence \<Rightarrow> string \<Rightarrow> vstate \<Rightarrow> vresult" where
  "on_permission_preset seq preset s =
     and_then (reject seq (blank preset) ''permission/preset name must be non-empty'') (\<lambda>_. Inr s)"

subsection \<open>Inbox splices\<close>

fun check_inserted :: "sequence \<Rightarrow> inbox_message list \<Rightarrow> session_error + unit" where
  "check_inserted seq [] = Inr ()"
| "check_inserted seq (m # ms) =
     and_then (ensure (im_id m = []) (EmptyInboxMessageId seq)) (\<lambda>_.
     and_then (ensure (msg_role (im_message m) \<noteq> RUser) (InvalidInboxMessageRole seq (im_id m))) (\<lambda>_.
     and_then (ensure (msg_id (im_message m) \<noteq> Some (im_id m)) (InboxMessageIdMismatch seq (im_id m))) (\<lambda>_.
     check_inserted seq ms)))"

fun check_inbox_ids :: "sequence \<Rightarrow> string set \<Rightarrow> inbox_message list \<Rightarrow> session_error + unit" where
  "check_inbox_ids seq ids [] = Inr ()"
| "check_inbox_ids seq ids (m # ms) =
     and_then (ensure (im_id m \<in> ids) (DuplicateInboxMessage seq (im_id m))) (\<lambda>_.
     check_inbox_ids seq (insert (im_id m) ids) ms)"

definition inbox_of :: "inbox_target \<Rightarrow> vstate \<Rightarrow> inbox_message list" where
  "inbox_of target s = (case target of NextTurn \<Rightarrow> v_next_turn_inbox s | NextStep \<Rightarrow> v_next_step_inbox s)"

definition set_inbox :: "inbox_target \<Rightarrow> inbox_message list \<Rightarrow> vstate \<Rightarrow> vstate" where
  "set_inbox target ms s =
     (case target of NextTurn \<Rightarrow> s\<lparr>v_next_turn_inbox := ms\<rparr> | NextStep \<Rightarrow> s\<lparr>v_next_step_inbox := ms\<rparr>)"

definition other_target :: "inbox_target \<Rightarrow> inbox_target" where
  "other_target target = (case target of NextTurn \<Rightarrow> NextStep | NextStep \<Rightarrow> NextTurn)"

definition on_inbox_spliced ::
  "sequence \<Rightarrow> inbox_target \<Rightarrow> nat \<Rightarrow> nat \<Rightarrow> inbox_message list \<Rightarrow> inbox_splice_outcome option \<Rightarrow> vstate \<Rightarrow> vresult" where
  "on_inbox_spliced seq target start removed_count inserted outcome s =
     (let target_inbox = inbox_of target s; other_inbox = inbox_of (other_target target) s in
      case checked_add_usize start removed_count of
        None \<Rightarrow> Inl (InvalidInboxSplice seq ''splice range overflow'')
      | Some stop \<Rightarrow>
          and_then (ensure (start > length target_inbox \<or> stop > length target_inbox)
                      (InvalidInboxSplice seq ''range {start}..{end} exceeds {} pending items'')) (\<lambda>_.
          and_then (ensure (outcome \<noteq> None \<and> removed_count = 0)
                      (InvalidInboxSplice seq ''discard outcome requires at least one removed message'')) (\<lambda>_.
          and_then (check_inserted seq inserted) (\<lambda>_.
          let candidate = splice start stop inserted target_inbox in
          and_then (check_inbox_ids seq {} (candidate @ other_inbox)) (\<lambda>_.
          Inr (set_inbox target candidate s))))))"

subsection \<open>Turns and steps\<close>

definition on_turn_start :: "sequence \<Rightarrow> u32 \<Rightarrow> vstate \<Rightarrow> vresult" where
  "on_turn_start seq turn s =
     and_then (reject seq (v_open_turn s \<noteq> None \<or> v_open_step s \<noteq> None) ''cannot nest a turn'') (\<lambda>_.
     case checked_add (v_last_turn s) 1 of
       None \<Rightarrow> Inl RevisionOverflow
     | Some expected \<Rightarrow>
         and_then (reject seq (turn \<noteq> expected) ''expected turn {expected}, got {turn}'') (\<lambda>_.
         Inr (s\<lparr>v_open_turn := Some turn, v_last_turn := turn, v_last_step := 0\<rparr>)))"

definition on_turn_end :: "sequence \<Rightarrow> u32 \<Rightarrow> vstate \<Rightarrow> vresult" where
  "on_turn_end seq turn s =
     and_then (reject seq (v_open_step s \<noteq> None) ''cannot end a turn while a step is open'') (\<lambda>_.
     and_then (reject seq (v_open_turn s \<noteq> Some turn)
                 ''turn/end {turn} does not match the open turn {open_turn:?}'') (\<lambda>_.
     Inr (s\<lparr>v_open_turn := None\<rparr>)))"

definition on_step_start :: "sequence \<Rightarrow> u32 \<Rightarrow> u32 \<Rightarrow> vstate \<Rightarrow> vresult" where
  "on_step_start seq turn step s =
     and_then (reject seq (v_open_turn s \<noteq> Some turn)
                 ''step/start turn {turn} does not match open turn {open_turn:?}'') (\<lambda>_.
     and_then (reject seq (v_open_step s \<noteq> None) ''cannot nest a step'') (\<lambda>_.
     case checked_add (v_last_step s) 1 of
       None \<Rightarrow> Inl RevisionOverflow
     | Some expected \<Rightarrow>
         and_then (reject seq (step \<noteq> expected) ''expected step {expected}, got {step}'') (\<lambda>_.
         Inr (s\<lparr>v_last_step := step,
                v_open_step := Some \<lparr>st_turn = turn, st_step = step, st_request_header_seen = False,
                  st_request_provider = None, st_assistant_calls = None, st_mirrored_calls = 0\<rparr>\<rparr>))))"

text \<open>The interaction is pending and its call is an unsettled one of the given turn and step.\<close>

definition pending_in_step :: "vstate \<Rightarrow> u32 \<Rightarrow> u32 \<Rightarrow> question_interaction \<Rightarrow> bool" where
  "pending_in_step s turn step i \<longleftrightarrow>
     terminal_state i = QPending \<and>
     (case v_calls s (qi_execution_id (qx_invocation i)) of None \<Rightarrow> False
      | Some (settled, call_turn, call_step) \<Rightarrow> \<not> settled \<and> call_turn = turn \<and> call_step = step)"

definition on_step_end :: "sequence \<Rightarrow> u32 \<Rightarrow> u32 \<Rightarrow> vstate \<Rightarrow> vresult" where
  "on_step_end seq turn step s =
     (case v_open_step s of
        None \<Rightarrow> Inl (lifecycle_error seq ''step/end without an open step'')
      | Some state \<Rightarrow>
          and_then (reject seq (st_turn state \<noteq> turn \<or> st_step state \<noteq> step)
                      ''step/end {turn}/{step} does not match open step {}/{}'') (\<lambda>_.
          and_then (reject seq (list_ex (\<lambda>p. pending_in_step s turn step (snd p)) (v_questions s))
                      ''step/end cannot close a pending user question'') (\<lambda>_.
          Inr (s\<lparr>v_open_step := None\<rparr>))))"

definition on_session_end_seed :: "sequence \<Rightarrow> vstate \<Rightarrow> vresult" where
  "on_session_end_seed seq s =
     and_then (reject seq (v_open_turn s \<noteq> None \<or> v_open_step s \<noteq> None)
                 ''session/end-seed requires all turns and steps to be closed'') (\<lambda>_. Inr s)"

subsection \<open>Provider requests\<close>

definition on_request_header :: "sequence \<Rightarrow> request_header \<Rightarrow> vstate \<Rightarrow> vresult" where
  "on_request_header seq header s =
     (case v_open_step s of
        None \<Rightarrow> Inl (lifecycle_error seq ''request/header requires an open step'')
      | Some state \<Rightarrow>
          and_then (reject seq (st_request_header_seen state)
                      ''a step may contain only one request/header'') (\<lambda>_.
          and_then (reject seq (st_assistant_calls state \<noteq> None)
                      ''request/header cannot follow assistant/message'') (\<lambda>_.
          and_then (reject seq (blank (rh_provider header))
                      ''request/header provider must be non-empty'') (\<lambda>_.
          Inr (s\<lparr>v_open_step := Some (state\<lparr>st_request_header_seen := True,
                                              st_request_provider := Some (rh_provider header)\<rparr>)\<rparr>)))))"

definition on_request_context :: "sequence \<Rightarrow> string \<Rightarrow> string \<Rightarrow> vstate \<Rightarrow> vresult" where
  "on_request_context seq provider model s =
     and_then (reject seq (v_open_step s = None) ''request/context requires an open step'') (\<lambda>_.
     and_then (reject seq (blank provider \<or> blank model)
                 ''request/context provider and model must be non-empty'') (\<lambda>_. Inr s))"

definition on_assistant_chunk :: "sequence \<Rightarrow> u32 \<Rightarrow> u32 \<Rightarrow> vstate \<Rightarrow> vresult" where
  "on_assistant_chunk seq turn step s =
     (case v_open_step s of
        None \<Rightarrow> Inl (lifecycle_error seq ''assistant/chunk requires an open step'')
      | Some state \<Rightarrow>
          and_then (reject seq (st_turn state \<noteq> turn \<or> st_step state \<noteq> step)
                      ''assistant/chunk coordinates do not match the open step'') (\<lambda>_.
          and_then (reject seq (st_assistant_calls state \<noteq> None)
                      ''assistant/chunk cannot follow assistant/message'') (\<lambda>_. Inr s)))"

subsection \<open>Approvals and questions\<close>

definition on_approval_asked :: "sequence \<Rightarrow> string \<Rightarrow> string \<Rightarrow> string option \<Rightarrow> vstate \<Rightarrow> vresult" where
  "on_approval_asked seq i tool_name call_id s =
     and_then (reject seq (v_open_turn s = None) ''approval/asked requires an open turn'') (\<lambda>_.
     and_then (reject seq (blank i) ''approval/asked id must be non-empty'') (\<lambda>_.
     and_then (reject seq (blank tool_name) ''approval/asked toolName must be non-empty'') (\<lambda>_.
     and_then (reject seq (v_approvals s i \<noteq> None) ''approval/asked repeats id {id:?}'') (\<lambda>_.
     let s1 = s\<lparr>v_approvals := (v_approvals s)(i \<mapsto> False)\<rparr> in
     case call_id of
       None \<Rightarrow> Inr s1
     | Some cid \<Rightarrow>
         (case v_calls s cid of
            None \<Rightarrow> Inl (lifecycle_error seq ''approval/asked references unknown call id {call_id:?}'')
          | Some (settled, _, _) \<Rightarrow>
              and_then (reject seq settled ''approval/asked references settled call id {call_id:?}'')
                (\<lambda>_. Inr s1))))))"

definition on_approval_decided :: "sequence \<Rightarrow> string \<Rightarrow> vstate \<Rightarrow> vresult" where
  "on_approval_decided seq i s =
     and_then (reject seq (v_open_turn s = None) ''approval/decided requires an open turn'') (\<lambda>_.
     case v_approvals s i of
       None \<Rightarrow> Inl (lifecycle_error seq ''approval/decided has no matching ask for id {id:?}'')
     | Some True \<Rightarrow> Inl (lifecycle_error seq ''approval/decided repeats id {id:?}'')
     | Some False \<Rightarrow> Inr (s\<lparr>v_approvals := (v_approvals s)(i \<mapsto> True)\<rparr>))"

definition step_coords :: "vstate \<Rightarrow> (u32 \<times> u32) option" where
  "step_coords s = map_option (\<lambda>state. (st_turn state, st_step state)) (v_open_step s)"

text \<open>\<open>serde_json::from_str(arguments).ok()\<close> on the recorded arguments of a call.\<close>

definition decoded_arguments ::
  "(string \<Rightarrow> string + ask_request) \<Rightarrow> vstate \<Rightarrow> string \<Rightarrow> ask_request option" where
  "decoded_arguments decode s call_id =
     (case v_call_arguments s call_id of None \<Rightarrow> None
      | Some arguments \<Rightarrow> (case decode arguments of Inl _ \<Rightarrow> None | Inr request \<Rightarrow> Some request))"

definition on_question_requested ::
  "(string \<Rightarrow> string + ask_request) \<Rightarrow> sequence \<Rightarrow> question_invocation \<Rightarrow> vstate \<Rightarrow> vresult" where
  "on_question_requested decode seq iv s =
     (case v_calls s (qi_execution_id iv) of
        None \<Rightarrow> Inl (lifecycle_error seq ''question/requested references unknown call id {:?}'')
      | Some (settled, call_turn, call_step) \<Rightarrow>
          and_then (reject seq
             (settled \<or> step_coords s \<noteq> Some (call_turn, call_step) \<or>
              v_call_names s (qi_execution_id iv) \<noteq> Some ASK_USER_QUESTION_TOOL \<or>
              decoded_arguments decode s (qi_execution_id iv) \<noteq> Some (qi_request iv) \<or>
              blank (qi_interaction_id iv) \<or>
              v_question_by_call s (qi_execution_id iv) \<noteq> None \<or>
              map_of (v_questions s) (qi_interaction_id iv) \<noteq> None)
             ''question/requested must uniquely reference one open ask_user_question call'') (\<lambda>_.
          and_then (map_err (\<lambda>error. lifecycle_error seq ''invalid question/requested: {error}'')
                      (new_interaction iv)) (\<lambda>interaction.
          Inr (s\<lparr>v_question_by_call := (v_question_by_call s)(qi_execution_id iv \<mapsto> qi_interaction_id iv),
                 v_questions := AList.update (qi_interaction_id iv) interaction (v_questions s)\<rparr>))))"

text \<open>The interaction after a mutating call: \<open>HashMap::get_mut\<close> writes through.\<close>

definition set_question :: "string \<Rightarrow> question_interaction \<Rightarrow> vstate \<Rightarrow> vstate" where
  "set_question i interaction s = s\<lparr>v_questions := AList.update i interaction (v_questions s)\<rparr>"

definition on_question_draft_updated ::
  "sequence \<Rightarrow> string \<Rightarrow> question_answer list \<Rightarrow> vstate \<Rightarrow> vresult" where
  "on_question_draft_updated seq i answers s =
     (case map_of (v_questions s) i of
        None \<Rightarrow> Inl (lifecycle_error seq
                  ''question/draft-updated references unknown interaction {interaction_id:?}'')
      | Some interaction \<Rightarrow>
          (case update_draft interaction answers of
             (_, Inl error) \<Rightarrow> Inl (question_transition_error seq error)
           | (interaction1, Inr _) \<Rightarrow> Inr (set_question i interaction1 s)))"

definition on_question_resolved :: "sequence \<Rightarrow> string \<Rightarrow> question_resolution \<Rightarrow> vstate \<Rightarrow> vresult" where
  "on_question_resolved seq i resolution s =
     (case map_of (v_questions s) i of
        None \<Rightarrow> Inl (lifecycle_error seq
                  ''question/resolved references unknown interaction {interaction_id:?}'')
      | Some interaction \<Rightarrow>
          (case resolve interaction (qr_action resolution)
                  (map answer_of_resolved (qr_answers resolution)) of
             (_, Inl error) \<Rightarrow> Inl (question_transition_error seq error)
           | (interaction1, Inr canonical) \<Rightarrow>
               and_then (reject seq (canonical \<noteq> resolution)
                  ''question/resolved does not match its requested questions and answers'') (\<lambda>_.
               Inr (set_question i interaction1 s))))"

definition on_question_cancelled :: "sequence \<Rightarrow> string \<Rightarrow> string \<Rightarrow> vstate \<Rightarrow> vresult" where
  "on_question_cancelled seq i reason s =
     and_then (reject seq (blank reason) ''question/cancelled reason must be non-empty'') (\<lambda>_.
     case map_of (v_questions s) i of
       None \<Rightarrow> Inl (lifecycle_error seq
                 ''question/cancelled references unknown interaction {interaction_id:?}'')
     | Some interaction \<Rightarrow>
         (case cancel interaction reason of
            (_, Inl error) \<Rightarrow> Inl (question_transition_error seq error)
          | (interaction1, Inr _) \<Rightarrow> Inr (set_question i interaction1 s)))"

subsection \<open>Commands and titles\<close>

definition on_command_run :: "sequence \<Rightarrow> string \<Rightarrow> string \<Rightarrow> vstate \<Rightarrow> vresult" where
  "on_command_run seq command_id name s =
     and_then (reject seq (blank command_id \<or> blank name)
                 ''command/run commandId and name must be non-empty'') (\<lambda>_.
     and_then (reject seq (v_commands s command_id \<noteq> None)
                 ''command/run repeats commandId {command_id:?}'') (\<lambda>_.
     Inr (s\<lparr>v_commands := (v_commands s)(command_id \<mapsto> False)\<rparr>)))"

fun is_command_event :: "event_data \<Rightarrow> bool" where
  "is_command_event (CommandRun _ _ _ _) = True"
| "is_command_event (CommandDone _ _ _ _) = True"
| "is_command_event _ = False"

text \<open>\<open>usize::try_from\<close> always succeeds on 64-bit targets, and \<open>get\<close> is None out of range.\<close>

definition valid_source :: "logged_event list \<Rightarrow> sequence \<Rightarrow> command_result_kind \<Rightarrow> sequence \<Rightarrow> bool" where
  "valid_source events seq kind source_seq \<longleftrightarrow>
     kind = CommandSuccess \<and> source_seq < seq \<and> source_seq < length events \<and>
     le_seq (events ! source_seq) = source_seq \<and> \<not> is_command_event (le_event (events ! source_seq))"

definition on_command_done ::
  "logged_event list \<Rightarrow> sequence \<Rightarrow> string \<Rightarrow> command_result_kind \<Rightarrow> sequence option \<Rightarrow> vstate \<Rightarrow> vresult" where
  "on_command_done events seq command_id kind source_event_seq s =
     (case v_commands s command_id of
        None \<Rightarrow> Inl (lifecycle_error seq ''command/done has no matching run for {command_id:?}'')
      | Some True \<Rightarrow> Inl (lifecycle_error seq ''command/done repeats commandId {command_id:?}'')
      | Some False \<Rightarrow>
          and_then (case source_event_seq of None \<Rightarrow> Inr ()
                    | Some source_seq \<Rightarrow>
                        reject seq (\<not> valid_source events seq kind source_seq)
                          ''command/done carries an invalid sourceEventSeq'') (\<lambda>_.
          Inr (s\<lparr>v_commands := (v_commands s)(command_id \<mapsto> True)\<rparr>)))"

definition on_session_title ::
  "sequence \<Rightarrow> string \<Rightarrow> sequence list \<Rightarrow> session_title_source \<Rightarrow> vstate \<Rightarrow> vresult" where
  "on_session_title seq title message_seqs source s =
     and_then (reject seq (blank title) ''session/title title must be non-empty'') (\<lambda>_.
     and_then (reject seq ((message_seqs = []) \<noteq> (source = TitleUser))
                 ''session/title messageSeqs must be empty exactly for a user source'') (\<lambda>_.
     case source of
       TitleProvider provider model \<Rightarrow>
         and_then (reject seq
             (blank provider \<or>
              (case model of None \<Rightarrow> False | Some m \<Rightarrow> blank (tp_provider m) \<or> blank (tp_model m)))
             ''session/title provider provenance must be non-empty'') (\<lambda>_. Inr s)
     | _ \<Rightarrow> Inr s))"

subsection \<open>Goals\<close>

definition same_definition :: "goal_snapshot \<Rightarrow> goal_snapshot \<Rightarrow> bool" where
  "same_definition goal current \<longleftrightarrow>
     gs_objective goal = gs_objective current \<and> gs_max_goal_rounds goal = gs_max_goal_rounds current"

definition valid_goal_transition ::
  "goal_snapshot_operation \<Rightarrow> goal_snapshot \<Rightarrow> goal_snapshot \<Rightarrow> u64 \<Rightarrow> bool" where
  "valid_goal_transition operation goal current rounds_started =
     (case operation of
        OpEdit \<Rightarrow> gs_phase goal = gs_phase current \<and> gs_blocked_reason goal = gs_blocked_reason current
      | OpPause \<Rightarrow> same_definition goal current \<and> gs_phase current = GoalActive \<and> gs_phase goal = GoalPaused
      | OpResume \<Rightarrow> same_definition goal current \<and>
          gs_phase current \<in> {GoalActive, GoalPaused, GoalBlocked} \<and> gs_phase goal = GoalActive \<and>
          rounds_started < gs_max_goal_rounds goal
      | OpComplete \<Rightarrow> same_definition goal current \<and> gs_phase current \<noteq> GoalComplete \<and>
          gs_phase goal = GoalComplete
      | OpBlock \<Rightarrow> same_definition goal current \<and> gs_phase current = GoalActive \<and> gs_phase goal = GoalBlocked
      | OpCreate \<Rightarrow> False)"

definition goal_shape_ok :: "goal_snapshot_change \<Rightarrow> bool" where
  "goal_shape_ok c \<longleftrightarrow>
     (let goal = gc_goal c in
      \<not> (gc_version c \<noteq> 1 \<or> blank (gs_id goal) \<or> blank (gs_objective goal) \<or> gs_revision goal = 0 \<or>
         gs_max_goal_rounds goal = 0 \<or> gc_rounds_started c > gs_max_goal_rounds goal \<or>
         gc_updated_at c < gc_created_at c))"

definition blocked_reason_ok :: "goal_snapshot \<Rightarrow> bool" where
  "blocked_reason_ok goal \<longleftrightarrow>
     \<not> ((gs_phase goal = GoalBlocked) \<noteq> (gs_blocked_reason goal \<noteq> None) \<or>
        (case gs_blocked_reason goal of None \<Rightarrow> False
         | Some reason \<Rightarrow> blank (gb_code reason) \<or> blank (gb_message reason)))"

definition on_goal_create :: "sequence \<Rightarrow> goal_snapshot_change \<Rightarrow> vstate \<Rightarrow> vresult" where
  "on_goal_create seq c s =
     (let goal = gc_goal c in
      and_then (reject seq
          (gs_revision goal \<noteq> 1 \<or> gs_phase goal \<noteq> GoalActive \<or> gc_rounds_started c \<noteq> 0 \<or>
           (case v_current_goal s of None \<Rightarrow> False | Some (current, _) \<Rightarrow> gs_phase current \<noteq> GoalComplete) \<or>
           gs_id goal \<in> v_seen_goal_ids s)
          ''goal create requires a fresh active revision-one goal'') (\<lambda>_.
      Inr (s\<lparr>v_seen_goal_ids := insert (gs_id goal) (v_seen_goal_ids s)\<rparr>)))"

definition on_goal_mutation :: "sequence \<Rightarrow> goal_snapshot_change \<Rightarrow> vstate \<Rightarrow> vresult" where
  "on_goal_mutation seq c s =
     (let goal = gc_goal c in
      case v_current_goal s of
        None \<Rightarrow> Inl (lifecycle_error seq ''non-create goal mutation requires a current goal'')
      | Some (current, rounds, created_at, updated_at) \<Rightarrow>
          and_then (reject seq
              (gs_id goal \<noteq> gs_id current \<or> gs_revision goal \<noteq> saturating_add (gs_revision current) 1 \<or>
               gc_created_at c \<noteq> created_at \<or> gc_updated_at c < updated_at \<or> gc_rounds_started c \<noteq> rounds)
              ''goal mutation must advance one revision without rewinding metadata'') (\<lambda>_.
          and_then (reject seq (\<not> valid_goal_transition (gc_operation c) goal current (gc_rounds_started c))
              ''goal/change has an invalid phase or definition transition'') (\<lambda>_. Inr s)))"

definition on_goal_snapshot :: "sequence \<Rightarrow> goal_snapshot_change \<Rightarrow> vstate \<Rightarrow> vresult" where
  "on_goal_snapshot seq c s =
     and_then (reject seq (\<not> goal_shape_ok c)
                 ''goal/change snapshot has invalid identity, limits or timestamps'') (\<lambda>_.
     and_then (reject seq (\<not> blocked_reason_ok (gc_goal c))
                 ''goal/change blockedReason must exist exactly for blocked phase'') (\<lambda>_.
     and_then (case gc_operation c of OpCreate \<Rightarrow> on_goal_create seq c s | _ \<Rightarrow> on_goal_mutation seq c s) (\<lambda>s1.
     Inr (s1\<lparr>v_current_goal := Some (gc_goal c, gc_rounds_started c, gc_created_at c, gc_updated_at c)\<rparr>))))"

definition on_goal_clear :: "sequence \<Rightarrow> goal_clear_change \<Rightarrow> vstate \<Rightarrow> vresult" where
  "on_goal_clear seq c s =
     (case v_current_goal s of
        None \<Rightarrow> Inl (lifecycle_error seq ''goal clear requires a current goal'')
      | Some (current, _, _, updated_at) \<Rightarrow>
          and_then (reject seq
              (gl_version c \<noteq> 1 \<or> gr_id (gl_cleared c) \<noteq> gs_id current \<or>
               gr_revision (gl_cleared c) \<noteq> saturating_add (gs_revision current) 1 \<or> gl_cleared_at c < updated_at)
              ''goal clear tombstone has invalid identity, revision or timestamp'') (\<lambda>_.
          Inr (s\<lparr>v_current_goal := None\<rparr>)))"

definition on_goal_change :: "sequence \<Rightarrow> goal_change \<Rightarrow> vstate \<Rightarrow> vresult" where
  "on_goal_change seq change s =
     (case change of GoalSnapshotChange c \<Rightarrow> on_goal_snapshot seq c s | GoalClear c \<Rightarrow> on_goal_clear seq c s)"

subsection \<open>Schedules\<close>

definition valid_schedule_shape :: "schedule_record \<Rightarrow> bool" where
  "valid_schedule_shape schedule =
     (case sc_kind schedule of
        After \<Rightarrow> (case sc_after_seconds schedule of None \<Rightarrow> False | Some seconds \<Rightarrow> seconds > 0) \<and>
          sc_every_seconds schedule = None
      | At \<Rightarrow> sc_after_seconds schedule = None \<and> sc_every_seconds schedule = None
      | Every \<Rightarrow> sc_after_seconds schedule = None \<and>
          (case sc_every_seconds schedule of None \<Rightarrow> False | Some seconds \<Rightarrow> seconds \<ge> 300))"

definition on_schedule_create :: "sequence \<Rightarrow> u8 \<Rightarrow> schedule_record \<Rightarrow> vstate \<Rightarrow> vresult" where
  "on_schedule_create seq version schedule s =
     and_then (reject seq
         (version \<noteq> 1 \<or> blank (sc_id schedule) \<or> trim (sc_id schedule) \<noteq> sc_id schedule \<or>
          blank (sc_prompt schedule) \<or> trim (sc_prompt schedule) \<noteq> sc_prompt schedule \<or>
          blank (sc_scheduled_at schedule) \<or> \<not> valid_schedule_shape schedule \<or>
          sc_id schedule \<in> v_seen_schedule_ids s)
         ''schedule create has an invalid or reused record'') (\<lambda>_.
     Inr (s\<lparr>v_seen_schedule_ids := insert (sc_id schedule) (v_seen_schedule_ids s),
            v_active_schedules := (v_active_schedules s)(sc_id schedule \<mapsto> sc_kind schedule)\<rparr>))"

definition on_schedule_delete :: "sequence \<Rightarrow> u8 \<Rightarrow> string \<Rightarrow> vstate \<Rightarrow> vresult" where
  "on_schedule_delete seq version i s =
     and_then (reject seq (version \<noteq> 1 \<or> blank i \<or> trim i \<noteq> i \<or> v_active_schedules s i = None)
                 ''schedule delete must target one active id'') (\<lambda>_.
     Inr (s\<lparr>v_active_schedules := (v_active_schedules s)(i := None)\<rparr>))"

definition on_schedule_dispatch :: "sequence \<Rightarrow> u8 \<Rightarrow> string \<Rightarrow> string option \<Rightarrow> vstate \<Rightarrow> vresult" where
  "on_schedule_dispatch seq version i accepted_at s =
     (case v_active_schedules s i of
        None \<Rightarrow> Inl (lifecycle_error seq ''schedule dispatch must target one active id'')
      | Some kind \<Rightarrow>
          and_then (reject seq
              (\<not> (version = 1 \<and> trim i = i \<and>
                  (if kind = Every
                   then (case accepted_at of None \<Rightarrow> False | Some instant \<Rightarrow> \<not> blank instant)
                   else accepted_at = None)))
              ''schedule dispatch does not match its active rule kind'') (\<lambda>_.
          Inr (if kind \<noteq> Every then s\<lparr>v_active_schedules := (v_active_schedules s)(i := None)\<rparr> else s)))"

definition on_schedule_change :: "sequence \<Rightarrow> schedule_change \<Rightarrow> vstate \<Rightarrow> vresult" where
  "on_schedule_change seq change s =
     (case change of
        ScheduleCreate version schedule \<Rightarrow> on_schedule_create seq version schedule s
      | ScheduleDelete version i \<Rightarrow> on_schedule_delete seq version i s
      | ScheduleDispatch version i accepted_at \<Rightarrow> on_schedule_dispatch seq version i accepted_at s)"

subsection \<open>Mutation receipts\<close>

definition to_ascii_lowercase :: "string \<Rightarrow> string" where
  "to_ascii_lowercase s =
     map (\<lambda>c. if 65 \<le> byte c \<and> byte c \<le> 90 then char_of (byte c + 32) else c) s"

definition sensitive_key :: "string \<Rightarrow> bool" where
  "sensitive_key key \<longleftrightarrow>
     (let normalized = filter (\<lambda>c. c \<noteq> CHR ''-'' \<and> c \<noteq> CHR ''_'') (to_ascii_lowercase key) in
      sublist ''password'' normalized \<or> sublist ''authorization'' normalized \<or>
      sublist ''apikey'' normalized \<or> suffix ''token'' normalized \<or> suffix ''secret'' normalized)"

definition populated :: "json \<Rightarrow> bool" where
  "populated v \<longleftrightarrow> v \<noteq> JNull \<and> v \<noteq> JString [] \<and> v \<noteq> JArray [] \<and> v \<noteq> JObject []"

fun contains_populated_secret :: "json \<Rightarrow> bool" where
  "contains_populated_secret (JObject entries) =
     list_ex (\<lambda>(key, v). sensitive_key key \<and> populated v \<or> contains_populated_secret v) entries"
| "contains_populated_secret (JArray vs) = list_ex contains_populated_secret vs"
| "contains_populated_secret _ = False"

definition is_lower_hexdigit :: "char \<Rightarrow> bool" where
  "is_lower_hexdigit c \<longleftrightarrow> 48 \<le> byte c \<and> byte c \<le> 57 \<or> 97 \<le> byte c \<and> byte c \<le> 102"

fun is_mutation_committed :: "event_data \<Rightarrow> bool" where
  "is_mutation_committed (SessionMutationCommitted _) = True"
| "is_mutation_committed _ = False"

definition response_seq_field_ok :: "mutation_receipt \<Rightarrow> bool" where
  "response_seq_field_ok receipt =
     (case mr_response_event_seq_field receipt of None \<Rightarrow> True
      | Some field \<Rightarrow> \<not> blank field \<and> CHR 0x00 \<notin> set field \<and>
          (case mr_response receipt of JObject response \<Rightarrow> field \<notin> fst ` set response | _ \<Rightarrow> False))"

text \<open>The receipt follows a state event of its own revision and is the last event of that revision.\<close>

definition paired_with_state :: "logged_event list \<Rightarrow> nat \<Rightarrow> revision \<Rightarrow> bool" where
  "paired_with_state events pos revision \<longleftrightarrow>
     pos > 0 \<and> le_revision (events ! (pos - 1)) = revision \<and>
     \<not> is_mutation_committed (le_event (events ! (pos - 1)))"

definition ends_revision :: "logged_event list \<Rightarrow> nat \<Rightarrow> revision \<Rightarrow> bool" where
  "ends_revision events pos revision \<longleftrightarrow>
     (Suc pos < length events \<longrightarrow> le_revision (events ! Suc pos) \<noteq> revision)"

definition on_mutation_committed ::
  "logged_event list \<Rightarrow> nat \<Rightarrow> sequence \<Rightarrow> revision \<Rightarrow> mutation_receipt \<Rightarrow> vstate \<Rightarrow> vresult" where
  "on_mutation_committed events pos seq revision receipt s =
     and_then (reject seq
         (blank (mr_rpc_id receipt) \<or> blank (mr_method receipt) \<or>
          \<not> (length (mr_fingerprint receipt) = 64 \<and> list_all is_lower_hexdigit (mr_fingerprint receipt)) \<or>
          \<not> response_seq_field_ok receipt \<or> \<not> paired_with_state events pos revision \<or>
          \<not> ends_revision events pos revision \<or> contains_populated_secret (mr_response receipt) \<or>
          mr_rpc_id receipt \<in> v_mutation_receipts s \<or> revision \<in> v_mutation_revisions s)
         ''xharness/mutation-committed must be unique, secret-free, valid and end a state-mutation revision'') (\<lambda>_.
     Inr (s\<lparr>v_mutation_receipts := insert (mr_rpc_id receipt) (v_mutation_receipts s),
            v_mutation_revisions := insert revision (v_mutation_revisions s)\<rparr>))"

subsection \<open>Provider retries\<close>

definition check_retry_mode :: "sequence \<Rightarrow> llm_retry \<Rightarrow> session_error + unit" where
  "check_retry_mode seq r =
     (case lr_mode r of
        RetryNormal \<Rightarrow>
          reject seq (case lr_max_retries r of None \<Rightarrow> True
                      | Some maximum \<Rightarrow> maximum = 0 \<or> lr_retry r > maximum)
            ''normal llm/retry requires a positive maxRetries not below retry''
      | RetryAlways \<Rightarrow>
          reject seq (lr_max_retries r \<noteq> None) ''always llm/retry must omit maxRetries'')"

definition check_failure :: "sequence \<Rightarrow> llm_failure \<Rightarrow> session_error + unit" where
  "check_failure seq f =
     and_then (reject seq (blank (lf_message f) \<or> blank (lf_code f))
                 ''llm/retry failure message and code must be non-empty'') (\<lambda>_.
     and_then (reject seq (case lf_status f of None \<Rightarrow> False | Some status \<Rightarrow> \<not> (100 \<le> status \<and> status \<le> 599))
                 ''llm/retry failure status must be within 100..=599'') (\<lambda>_.
     and_then (reject seq (lf_provider_retry_after_ms f = Some 0)
                 ''llm/retry providerRetryAfterMs must be positive'') (\<lambda>_.
     reject seq (lf_request_id f = Some []) ''llm/retry requestId must be non-empty when present'')))"

definition schedule_retry :: "sequence \<Rightarrow> llm_retry \<Rightarrow> vstate \<Rightarrow> vresult" where
  "schedule_retry seq r s =
     (let owner = (lr_turn r, lr_step r, lr_provider r, lr_policy_key r);
          chain = (case v_retry_chains s owner of None \<Rightarrow> (lr_retry_id r, 0) | Some c \<Rightarrow> c) in
      and_then (reject seq (case v_retry_owners s (lr_retry_id r) of None \<Rightarrow> False
                            | Some existing \<Rightarrow> existing \<noteq> owner)
                  ''llm/retry id {retry_id:?} is owned by another chain'') (\<lambda>_.
      and_then (reject seq (fst chain \<noteq> lr_retry_id r \<or> lr_retry r \<noteq> saturating_add (snd chain) 1)
                  ''llm/retry must preserve retryId and increment retry by one'') (\<lambda>_.
      and_then (reject seq (v_scheduled_retries s (lr_retry_id r, lr_retry r) \<noteq> None)
                  ''llm/retry repeats one scheduled attempt'') (\<lambda>_.
      Inr (s\<lparr>v_retry_owners := (v_retry_owners s)(lr_retry_id r \<mapsto> owner),
             v_retry_chains := (v_retry_chains s)(owner \<mapsto> (fst chain, lr_retry r)),
             v_scheduled_retries :=
               (v_scheduled_retries s)((lr_retry_id r, lr_retry r) \<mapsto> (lr_turn r, lr_step r))\<rparr>)))))"

definition on_llm_retry :: "sequence \<Rightarrow> llm_retry \<Rightarrow> vstate \<Rightarrow> vresult" where
  "on_llm_retry seq r s =
     (case v_open_step s of
        None \<Rightarrow> Inl (lifecycle_error seq ''llm/retry requires an open step'')
      | Some state \<Rightarrow>
          and_then (reject seq (st_turn state \<noteq> lr_turn r \<or> st_step state \<noteq> lr_step r)
                      ''llm/retry coordinates do not match the open step'') (\<lambda>_.
          and_then (reject seq (blank (lr_retry_id r) \<or> blank (lr_provider r) \<or> blank (lr_policy_key r))
                      ''llm/retry identity, provider and policyKey must be non-empty'') (\<lambda>_.
          and_then (reject seq (st_request_provider state \<noteq> Some (lr_provider r))
                      ''llm/retry provider does not match request/header'') (\<lambda>_.
          and_then (reject seq (lr_retry r = 0) ''llm/retry retry must be positive'') (\<lambda>_.
          and_then (check_retry_mode seq r) (\<lambda>_.
          and_then (check_failure seq (lr_failure r)) (\<lambda>_.
          schedule_retry seq r s)))))))"

definition on_llm_retry_started :: "sequence \<Rightarrow> string \<Rightarrow> u32 \<Rightarrow> u32 \<Rightarrow> u32 \<Rightarrow> vstate \<Rightarrow> vresult" where
  "on_llm_retry_started seq retry_id turn step retry s =
     and_then (reject seq (step_coords s \<noteq> Some (turn, step))
                 ''llm/retry-started coordinates do not match the open step'') (\<lambda>_.
     and_then (reject seq (v_scheduled_retries s (retry_id, retry) \<noteq> Some (turn, step))
                 ''llm/retry-started has no matching scheduled retry'') (\<lambda>_.
     and_then (reject seq ((retry_id, retry) \<in> v_started_retries s)
                 ''llm/retry-started repeats one scheduled attempt'') (\<lambda>_.
     Inr (s\<lparr>v_started_retries := insert (retry_id, retry) (v_started_retries s)\<rparr>))))"

subsection \<open>Compactions\<close>

definition on_compaction_start ::
  "sequence \<Rightarrow> string \<Rightarrow> string option \<Rightarrow> u32 option \<Rightarrow> vstate \<Rightarrow> vresult" where
  "on_compaction_start seq compaction_id source_command_id turn s =
     and_then (reject seq
         (blank compaction_id \<or> some_blank source_command_id \<or>
          (case turn of None \<Rightarrow> False | Some t \<Rightarrow> v_open_turn s \<noteq> Some t) \<or>
          v_compactions s compaction_id \<noteq> None)
         ''compaction/start has invalid identity, turn or duplicate id'') (\<lambda>_.
     Inr (s\<lparr>v_compactions := (v_compactions s)(compaction_id \<mapsto>
              \<lparr>co_source_command_id = source_command_id, co_turn = turn, co_summary = None,
               co_replacement = False, co_ended = False\<rparr>)\<rparr>))"

definition range_is_valid :: "sequence_range \<Rightarrow> sequence list \<Rightarrow> bool" where
  "range_is_valid bounds seqs \<longleftrightarrow>
     seqs \<noteq> [] \<and> hd seqs = sr_start bounds \<and> last seqs = sr_end bounds \<and> distinct seqs"

definition on_compaction_summary ::
  "logged_event list \<Rightarrow> nat \<Rightarrow> sequence \<Rightarrow> compaction_summary \<Rightarrow> vstate \<Rightarrow> vresult" where
  "on_compaction_summary events pos seq c s =
     (case v_compactions s (cs_compaction_id c) of
        None \<Rightarrow> Inl (lifecycle_error seq ''compaction/summary has no matching start'')
      | Some state \<Rightarrow>
          and_then (reject seq
              (co_ended state \<or> co_summary state \<noteq> None \<or>
               co_source_command_id state \<noteq> cs_source_command_id c \<or> blank (cs_summary c) \<or>
               blank (cs_provider c) \<or> blank (cs_model c) \<or> cs_shadowed_token_count c = 0 \<or>
               cs_max_tokens c = Some 0 \<or>
               \<not> range_is_valid (cs_shadowed_range c) (cs_shadowed_seqs c) \<or>
               \<not> contiguous_on (derive_surface_messages (take pos events)) (cs_shadowed_seqs c))
              ''compaction/summary is invalid or does not name a contiguous current-surface range'') (\<lambda>_.
          Inr (s\<lparr>v_compactions := (v_compactions s)(cs_compaction_id c \<mapsto>
                   state\<lparr>co_summary := Some (cs_shadowed_range c, cs_shadowed_seqs c)\<rparr>)\<rparr>)))"

definition on_compaction_end ::
  "sequence \<Rightarrow> string \<Rightarrow> string option \<Rightarrow> u32 option \<Rightarrow> string option \<Rightarrow> vstate \<Rightarrow> vresult" where
  "on_compaction_end seq compaction_id source_command_id turn error s =
     (case v_compactions s compaction_id of
        None \<Rightarrow> Inl (lifecycle_error seq ''compaction/end has no matching start'')
      | Some state \<Rightarrow>
          (let success_shape = (co_summary state \<noteq> None \<and> co_replacement state);
               failure_shape = (co_summary state = None \<and> \<not> co_replacement state) in
           and_then (reject seq
               (co_ended state \<or> co_source_command_id state \<noteq> source_command_id \<or> co_turn state \<noteq> turn \<or>
                some_blank error \<or> error = None \<and> \<not> success_shape \<or> error \<noteq> None \<and> \<not> failure_shape)
               ''compaction/end does not close one valid success or failure transaction'') (\<lambda>_.
           Inr (s\<lparr>v_compactions := (v_compactions s)(compaction_id \<mapsto> state\<lparr>co_ended := True\<rparr>)\<rparr>))))"

definition on_compaction_prune ::
  "sequence \<Rightarrow> sequence_range \<Rightarrow> sequence list \<Rightarrow> u64 \<Rightarrow> vstate \<Rightarrow> vresult" where
  "on_compaction_prune seq bounds seqs token_count s =
     and_then (reject seq (\<not> range_is_valid bounds seqs \<or> token_count = 0)
                 ''compaction/prune has invalid range or accounting'') (\<lambda>_. Inr s)"

subsection \<open>Messages\<close>

fun is_summary_of :: "string \<Rightarrow> event_data \<Rightarrow> bool" where
  "is_summary_of compaction_id (CompactionSummary c) = (cs_compaction_id c = compaction_id)"
| "is_summary_of compaction_id _ = False"

definition immediately_follows_summary :: "logged_event list \<Rightarrow> nat \<Rightarrow> revision \<Rightarrow> string \<Rightarrow> bool" where
  "immediately_follows_summary events pos revision compaction_id \<longleftrightarrow>
     pos > 0 \<and> le_revision (events ! (pos - 1)) = revision \<and>
     is_summary_of compaction_id (le_event (events ! (pos - 1)))"

definition check_surface_replace ::
  "logged_event list \<Rightarrow> nat \<Rightarrow> sequence \<Rightarrow> revision \<Rightarrow> surface_replace \<Rightarrow> vstate \<Rightarrow> vresult" where
  "check_surface_replace events pos seq revision replace s =
     (case v_compactions s (rp_compaction_id replace) of
        None \<Rightarrow> Inl (lifecycle_error seq ''surface replacement has no matching compaction/start'')
      | Some state \<Rightarrow>
          and_then (reject seq
              (co_ended state \<or> co_replacement state \<or>
               co_summary state \<noteq> Some (rp_shadowed_range replace, rp_shadowed_seqs replace) \<or>
               \<not> immediately_follows_summary events pos revision (rp_compaction_id replace))
              ''surface replacement must immediately and exactly mirror its compaction summary'') (\<lambda>_.
          Inr (s\<lparr>v_compactions := (v_compactions s)(rp_compaction_id replace \<mapsto>
                   state\<lparr>co_replacement := True\<rparr>)\<rparr>)))"

definition on_user_message ::
  "logged_event list \<Rightarrow> nat \<Rightarrow> sequence \<Rightarrow> revision \<Rightarrow> message \<Rightarrow> surface_replace option \<Rightarrow> vstate \<Rightarrow> vresult" where
  "on_user_message events pos seq revision m surface_replace s =
     and_then (ensure (msg_role m \<noteq> RUser) (InvalidMessageRole seq ''user'')) (\<lambda>_.
     and_then (reject seq (v_open_turn s = None \<or> v_open_step s \<noteq> None \<and> surface_replace = None)
                 ''user/message requires an open turn at a step boundary'') (\<lambda>_.
     case surface_replace of None \<Rightarrow> Inr s
     | Some replace \<Rightarrow> check_surface_replace events pos seq revision replace s))"

text \<open>The checks a call passes both inside \<open>assistant/message\<close> and as \<open>tool/call\<close>.\<close>

definition check_call_fields :: "sequence \<Rightarrow> tool_call \<Rightarrow> session_error + unit" where
  "check_call_fields seq c =
     and_then (ensure (tc_id c = []) (EmptyToolCallId seq)) (\<lambda>_.
     and_then (ensure (tc_provider_call_id c = Some []) (EmptyProviderToolCallId seq)) (\<lambda>_.
     ensure (tc_name c = []) (EmptyToolName seq)))"

fun check_embedded_calls ::
  "sequence \<Rightarrow> (string \<rightharpoonup> bool \<times> u32 \<times> u32) \<Rightarrow> string set \<Rightarrow> tool_call list \<Rightarrow> session_error + unit" where
  "check_embedded_calls seq calls ids [] = Inr ()"
| "check_embedded_calls seq calls ids (c # cs) =
     and_then (check_call_fields seq c) (\<lambda>_.
     and_then (ensure (calls (tc_id c) \<noteq> None \<or> tc_id c \<in> ids) (DuplicateToolCall seq (tc_id c))) (\<lambda>_.
     check_embedded_calls seq calls (insert (tc_id c) ids) cs))"

definition on_assistant_message :: "sequence \<Rightarrow> u32 \<Rightarrow> u32 \<Rightarrow> message \<Rightarrow> vstate \<Rightarrow> vresult" where
  "on_assistant_message seq turn step m s =
     and_then (ensure (msg_role m \<noteq> RAssistant) (InvalidMessageRole seq ''assistant'')) (\<lambda>_.
     case v_open_step s of
       None \<Rightarrow> Inl (lifecycle_error seq ''assistant/message requires an open step'')
     | Some state \<Rightarrow>
         and_then (reject seq (st_turn state \<noteq> turn \<or> st_step state \<noteq> step)
                     ''assistant/message coordinates do not match the open step'') (\<lambda>_.
         and_then (reject seq (st_assistant_calls state \<noteq> None)
                     ''a step may contain only one assistant/message'') (\<lambda>_.
         and_then (check_embedded_calls seq (v_calls s) {} (msg_tool_calls m)) (\<lambda>_.
         Inr (s\<lparr>v_open_step := Some (state\<lparr>st_assistant_calls := Some (msg_tool_calls m)\<rparr>)\<rparr>)))))"

subsection \<open>Tool calls and results\<close>

text \<open>The call the audit event at this point has to mirror: \<open>expected.get(mirrored_calls)\<close>.\<close>

definition expected_call :: "step_state \<Rightarrow> tool_call option" where
  "expected_call state =
     (case st_assistant_calls state of None \<Rightarrow> None
      | Some calls \<Rightarrow>
          if st_mirrored_calls state < length calls then Some (calls ! st_mirrored_calls state) else None)"

definition on_tool_call :: "sequence \<Rightarrow> u32 \<Rightarrow> u32 \<Rightarrow> tool_call \<Rightarrow> vstate \<Rightarrow> vresult" where
  "on_tool_call seq turn step c s =
     and_then (check_call_fields seq c) (\<lambda>_.
     case v_open_step s of
       None \<Rightarrow> Inl (lifecycle_error seq ''tool/call requires an open step'')
     | Some state \<Rightarrow>
         and_then (reject seq (st_turn state \<noteq> turn \<or> st_step state \<noteq> step)
                     ''tool/call coordinates do not match the open step'') (\<lambda>_.
         and_then (ensure (expected_call state \<noteq> Some c)
                     (ToolCallMirrorMismatch seq turn step (st_mirrored_calls state))) (\<lambda>_.
         and_then (ensure (v_calls s (tc_id c) \<noteq> None) (DuplicateToolCall seq (tc_id c))) (\<lambda>_.
         Inr (s\<lparr>v_open_step := Some (state\<lparr>st_mirrored_calls := Suc (st_mirrored_calls state)\<rparr>),
                v_calls := (v_calls s)(tc_id c \<mapsto> (False, turn, step)),
                v_call_names := (v_call_names s)(tc_id c \<mapsto> tc_name c),
                v_call_arguments :=
                  (if tc_name c = ASK_USER_QUESTION_TOOL
                   then (v_call_arguments s)(tc_id c \<mapsto> tc_arguments_json c)
                   else v_call_arguments s)\<rparr>)))))"

text \<open>An unrequested question whose recorded arguments fail \<open>AskUserQuestionRequest::parse\<close>; the text
  of the parse error is not used.\<close>

definition invalid_question :: "(string \<Rightarrow> string + ask_request) \<Rightarrow> vstate \<Rightarrow> string \<Rightarrow> bool" where
  "invalid_question decode s call_id \<longleftrightarrow>
     v_question_by_call s call_id = None \<and>
     (case v_call_arguments s call_id of None \<Rightarrow> False
      | Some arguments \<Rightarrow>
          (case parse_request decode (\<lambda>_. []) arguments of Inl _ \<Rightarrow> True | Inr _ \<Rightarrow> False))"

definition check_result_step :: "sequence \<Rightarrow> u32 \<Rightarrow> u32 \<Rightarrow> vstate \<Rightarrow> session_error + unit" where
  "check_result_step seq turn step s =
     (case v_open_step s of
        None \<Rightarrow> Inl (lifecycle_error seq ''authoritative tool/result requires its step to remain open'')
      | Some state \<Rightarrow>
          reject seq (st_turn state \<noteq> turn \<or> st_step state \<noteq> step)
            ''tool/result does not belong to the open step'')"

text \<open>\<open>questions.get(id).expect(..)\<close>: the map entry exists, which is part of the invariant.\<close>

definition check_question_result :: "sequence \<Rightarrow> tool_result_data \<Rightarrow> vstate \<Rightarrow> session_error + unit" where
  "check_question_result seq r s =
     (if v_call_names s (tr_call_id r) = Some ASK_USER_QUESTION_TOOL then
        (case v_question_by_call s (tr_call_id r) of
           Some i \<Rightarrow>
             reject seq (terminal_state (the (map_of (v_questions s) i)) = QPending)
               ''ask_user_question tool/result cannot precede question settlement''
         | None \<Rightarrow>
             reject seq (tr_outcome r = ToolSuccess)
               ''ask_user_question tool/result has no durable question/requested'')
      else Inr ())"

definition on_tool_result ::
  "(string \<Rightarrow> string + ask_request) \<Rightarrow> sequence \<Rightarrow> u32 \<Rightarrow> u32 \<Rightarrow> tool_result_data \<Rightarrow> vstate \<Rightarrow> vresult" where
  "on_tool_result decode seq turn step r s =
     (case v_calls s (tr_call_id r) of
        None \<Rightarrow> Inl (UnknownToolCall seq (tr_call_id r))
      | Some (True, _, _) \<Rightarrow> Inl (DuplicateToolResult seq (tr_call_id r))
      | Some (False, call_turn, call_step) \<Rightarrow>
          and_then (reject seq (call_turn \<noteq> turn \<or> call_step \<noteq> step)
                      ''tool/result coordinates do not match its tool/call'') (\<lambda>_.
          and_then (if tr_outcome r \<noteq> OutcomeUnknown \<and>
                       \<not> (tr_outcome r = ToolError \<and> invalid_question decode s (tr_call_id r))
                    then check_result_step seq turn step s else Inr ()) (\<lambda>_.
          and_then (check_question_result seq r s) (\<lambda>_.
          Inr (s\<lparr>v_calls := (v_calls s)(tr_call_id r \<mapsto> (True, call_turn, call_step))\<rparr>)))))"

end
