(* ===== verification/Validate_Log.thy ===== *)
theory Validate_Log
  imports Validator
begin

text \<open>
  \<open>validate_log\<close> of crates/xharness-session/src/session.rs put together: the dispatch over event
  kinds, the checks every event passes, the loop over the log and the closing checks.  Then the
  acceptance rule of each handler (when it succeeds and what the state is then), and two locales
  that turn a preserved property of the validator's state into a property of every valid log.
\<close>

subsection \<open>Dispatch and loop\<close>

fun check_data ::
  "(string \<Rightarrow> string + ask_request) \<Rightarrow> logged_event list \<Rightarrow> nat \<Rightarrow> sequence \<Rightarrow> revision \<Rightarrow> event_data \<Rightarrow>
     vstate \<Rightarrow> vresult" where
  "check_data dec evs pos seq rv (AgentDelegated parent invocation task) s =
     on_agent_delegated seq parent invocation task s"
| "check_data dec evs pos seq rv (AgentDelegationFailure _ _) s = Inr s"
| "check_data dec evs pos seq rv (AgentFailureDelivered _) s = Inr s"
| "check_data dec evs pos seq rv (AgentDispatchPaused _) s = Inr s"
| "check_data dec evs pos seq rv (AgentSettlementDelivered _) s = Inr s"
| "check_data dec evs pos seq rv (AgentPresetSelected preset) s = on_agent_preset_selected seq preset s"
| "check_data dec evs pos seq rv (SessionModelSelected provider model effort window) s =
     on_session_model_selected seq provider model effort window s"
| "check_data dec evs pos seq rv (AgentInboxSpliced target start removed inserted outcome) s =
     on_inbox_spliced seq target start removed inserted outcome s"
| "check_data dec evs pos seq rv (TurnStart turn) s = on_turn_start seq turn s"
| "check_data dec evs pos seq rv (TurnEnd turn _) s = on_turn_end seq turn s"
| "check_data dec evs pos seq rv (StepStart turn step) s = on_step_start seq turn step s"
| "check_data dec evs pos seq rv (StepEnd turn step) s = on_step_end seq turn step s"
| "check_data dec evs pos seq rv (RequestHeader header) s = on_request_header seq header s"
| "check_data dec evs pos seq rv (RequestContext provider model _) s = on_request_context seq provider model s"
| "check_data dec evs pos seq rv (ApprovalAsked i tool_name call_id _) s =
     on_approval_asked seq i tool_name call_id s"
| "check_data dec evs pos seq rv (ApprovalDecided i _) s = on_approval_decided seq i s"
| "check_data dec evs pos seq rv (QuestionRequested iv) s = on_question_requested dec seq iv s"
| "check_data dec evs pos seq rv (QuestionDraftUpdated i answers) s = on_question_draft_updated seq i answers s"
| "check_data dec evs pos seq rv (QuestionResolved i resolution) s = on_question_resolved seq i resolution s"
| "check_data dec evs pos seq rv (QuestionCancelled i reason) s = on_question_cancelled seq i reason s"
| "check_data dec evs pos seq rv (PermissionPreset preset) s = on_permission_preset seq preset s"
| "check_data dec evs pos seq rv (SandboxMode _ _) s = Inr s"
| "check_data dec evs pos seq rv (ApprovalPolicy _ _) s = Inr s"
| "check_data dec evs pos seq rv (PlanMode _) s = Inr s"
| "check_data dec evs pos seq rv (CommandRun command_id name _ _) s = on_command_run seq command_id name s"
| "check_data dec evs pos seq rv (CommandDone command_id kind _ source_seq) s =
     on_command_done evs seq command_id kind source_seq s"
| "check_data dec evs pos seq rv (SessionTitle title seqs source) s = on_session_title seq title seqs source s"
| "check_data dec evs pos seq rv (GoalChange change) s = on_goal_change seq change s"
| "check_data dec evs pos seq rv (ScheduleChange change) s = on_schedule_change seq change s"
| "check_data dec evs pos seq rv (SessionMutationCommitted receipt) s =
     on_mutation_committed evs pos seq rv receipt s"
| "check_data dec evs pos seq rv (LlmRetry r) s = on_llm_retry seq r s"
| "check_data dec evs pos seq rv (LlmRetryStarted retry_id turn step retry) s =
     on_llm_retry_started seq retry_id turn step retry s"
| "check_data dec evs pos seq rv (CompactionStart cid source_command_id turn) s =
     on_compaction_start seq cid source_command_id turn s"
| "check_data dec evs pos seq rv (CompactionSummary c) s = on_compaction_summary evs pos seq c s"
| "check_data dec evs pos seq rv (CompactionEnd cid source_command_id turn error) s =
     on_compaction_end seq cid source_command_id turn error s"
| "check_data dec evs pos seq rv (CompactionPrune bounds seqs token_count) s =
     on_compaction_prune seq bounds seqs token_count s"
| "check_data dec evs pos seq rv (UserMessage m surface_replace) s =
     on_user_message evs pos seq rv m surface_replace s"
| "check_data dec evs pos seq rv (AssistantChunk turn step _) s = on_assistant_chunk seq turn step s"
| "check_data dec evs pos seq rv (AssistantMessage turn step m _) s = on_assistant_message seq turn step m s"
| "check_data dec evs pos seq rv (ToolCall turn step c) s = on_tool_call seq turn step c s"
| "check_data dec evs pos seq rv (ToolResult turn step r) s = on_tool_result dec seq turn step r s"
| "check_data dec evs pos seq rv SessionEndSeed s = on_session_end_seed seq s"

fun is_tool_call :: "event_data \<Rightarrow> bool" where
  "is_tool_call (ToolCall _ _ _) = True"
| "is_tool_call _ = False"

definition advance_revision :: "logged_event \<Rightarrow> vstate \<Rightarrow> vresult" where
  "advance_revision l s =
     and_then (ensure (le_revision l = 0) (LoggedRevisionMismatch (le_seq l) 1 (le_revision l))) (\<lambda>_.
     if le_revision l = v_revision s then Inr s
     else case checked_add (v_revision s) 1 of
       None \<Rightarrow> Inl RevisionOverflow
     | Some succ \<Rightarrow>
         and_then (ensure (le_revision l \<noteq> succ) (LoggedRevisionMismatch (le_seq l) succ (le_revision l)))
           (\<lambda>_. Inr (s\<lparr>v_revision := le_revision l\<rparr>)))"

definition check_open_calls :: "sequence \<Rightarrow> vstate \<Rightarrow> session_error + unit" where
  "check_open_calls seq s =
     (case v_open_step s of None \<Rightarrow> Inr () | Some state \<Rightarrow> ensure_calls_mirrored seq state)"

definition check_logged ::
  "(string \<Rightarrow> string + ask_request) \<Rightarrow> logged_event list \<Rightarrow> nat \<Rightarrow> logged_event \<Rightarrow> vstate \<Rightarrow> vresult" where
  "check_logged dec evs pos l s =
     and_then (ensure (le_seq l \<noteq> pos) (SequenceMismatch pos (le_seq l))) (\<lambda>_.
     and_then (advance_revision l s) (\<lambda>s1.
     and_then (if is_tool_call (le_event l) then Inr () else check_open_calls (le_seq l) s1) (\<lambda>_.
     check_data dec evs pos (le_seq l) (le_revision l) (le_event l) s1)))"

fun validate_events ::
  "(string \<Rightarrow> string + ask_request) \<Rightarrow> logged_event list \<Rightarrow> nat \<Rightarrow> vstate \<Rightarrow> logged_event list \<Rightarrow> vresult" where
  "validate_events dec evs pos s [] = Inr s"
| "validate_events dec evs pos s (l # ls) =
     and_then (check_logged dec evs pos l s) (\<lambda>s1. validate_events dec evs (Suc pos) s1 ls)"

definition validate_log ::
  "(string \<Rightarrow> string + ask_request) \<Rightarrow> revision \<Rightarrow> logged_event list \<Rightarrow> session_error + unit" where
  "validate_log dec revision evs =
     (if evs = [] then ensure (revision \<noteq> 0) (LoggedRevisionMismatch 0 0 revision)
      else and_then (validate_events dec evs 0 init_vstate evs) (\<lambda>s.
           and_then (check_open_calls (le_seq (last evs)) s) (\<lambda>_.
           ensure (v_revision s \<noteq> revision)
             (LoggedRevisionMismatch (le_seq (last evs)) revision (v_revision s)))))"

subsection \<open>When a handler accepts\<close>

named_theorems accepts \<open>when a handler succeeds, and with which state\<close>

lemma identity_accepts [accepts]:
  "on_agent_delegated seq parent invocation task s = Inr s' \<longleftrightarrow>
     \<not> blank parent \<and> \<not> blank invocation \<and> \<not> blank task \<and> s' = s"
  "on_agent_preset_selected seq preset s = Inr s' \<longleftrightarrow> \<not> blank preset \<and> s' = s"
  "on_session_model_selected seq provider model effort window s = Inr s' \<longleftrightarrow>
     \<not> blank provider \<and> \<not> blank model \<and> \<not> some_blank effort \<and> window \<noteq> Some 0 \<and> s' = s"
  "on_permission_preset seq preset s = Inr s' \<longleftrightarrow> \<not> blank preset \<and> s' = s"
  "on_session_end_seed seq s = Inr s' \<longleftrightarrow> v_open_turn s = None \<and> v_open_step s = None \<and> s' = s"
  "on_request_context seq provider model s = Inr s' \<longleftrightarrow>
     v_open_step s \<noteq> None \<and> \<not> blank provider \<and> \<not> blank model \<and> s' = s"
  "on_compaction_prune seq bounds seqs n s = Inr s' \<longleftrightarrow> range_is_valid bounds seqs \<and> n \<noteq> 0 \<and> s' = s"
  by (auto simp: on_agent_delegated_def on_agent_preset_selected_def on_session_model_selected_def
      on_permission_preset_def on_session_end_seed_def on_request_context_def on_compaction_prune_def)

lemma on_turn_start_accepts [accepts]:
  "on_turn_start seq turn s = Inr s' \<longleftrightarrow>
     v_open_turn s = None \<and> v_open_step s = None \<and> checked_add (v_last_turn s) 1 = Some turn \<and>
     s' = s\<lparr>v_open_turn := Some turn, v_last_turn := turn, v_last_step := 0\<rparr>"
  by (auto simp: on_turn_start_def split: option.splits)

lemma on_turn_end_accepts [accepts]:
  "on_turn_end seq turn s = Inr s' \<longleftrightarrow>
     v_open_step s = None \<and> v_open_turn s = Some turn \<and> s' = s\<lparr>v_open_turn := None\<rparr>"
  by (auto simp: on_turn_end_def)

lemma on_step_start_accepts [accepts]:
  "on_step_start seq turn step s = Inr s' \<longleftrightarrow>
     v_open_turn s = Some turn \<and> v_open_step s = None \<and> checked_add (v_last_step s) 1 = Some step \<and>
     s' = s\<lparr>v_last_step := step,
            v_open_step := Some \<lparr>st_turn = turn, st_step = step, st_request_header_seen = False,
              st_request_provider = None, st_assistant_calls = None, st_mirrored_calls = 0\<rparr>\<rparr>"
  by (auto simp: on_step_start_def split: option.splits)

lemma on_step_end_accepts [accepts]:
  "on_step_end seq turn step s = Inr s' \<longleftrightarrow>
     step_coords s = Some (turn, step) \<and>
     (\<forall>p\<in>set (v_questions s). \<not> pending_in_step s turn step (snd p)) \<and> s' = s\<lparr>v_open_step := None\<rparr>"
  by (auto simp: on_step_end_def step_coords_def list_ex_iff split: option.splits)

lemma on_request_header_accepts [accepts]:
  "on_request_header seq header s = Inr s' \<longleftrightarrow>
     (\<exists>state. v_open_step s = Some state \<and> \<not> st_request_header_seen state \<and>
        st_assistant_calls state = None \<and> \<not> blank (rh_provider header) \<and>
        s' = s\<lparr>v_open_step := Some (state\<lparr>st_request_header_seen := True,
                                           st_request_provider := Some (rh_provider header)\<rparr>)\<rparr>)"
  by (auto simp: on_request_header_def split: option.splits)

lemma on_assistant_chunk_accepts [accepts]:
  "on_assistant_chunk seq turn step s = Inr s' \<longleftrightarrow>
     (\<exists>state. v_open_step s = Some state \<and> st_turn state = turn \<and> st_step state = step \<and>
        st_assistant_calls state = None \<and> s' = s)"
  by (auto simp: on_assistant_chunk_def split: option.splits)

lemma on_approval_asked_accepts [accepts]:
  "on_approval_asked seq i tool_name call_id s = Inr s' \<longleftrightarrow>
     v_open_turn s \<noteq> None \<and> \<not> blank i \<and> \<not> blank tool_name \<and> v_approvals s i = None \<and>
     (\<forall>cid. call_id = Some cid \<longrightarrow> (\<exists>t k. v_calls s cid = Some (False, t, k))) \<and>
     s' = s\<lparr>v_approvals := (v_approvals s)(i \<mapsto> False)\<rparr>"
  by (cases call_id) (auto simp: on_approval_asked_def Let_def split: option.splits)

lemma on_approval_decided_accepts [accepts]:
  "on_approval_decided seq i s = Inr s' \<longleftrightarrow>
     v_open_turn s \<noteq> None \<and> v_approvals s i = Some False \<and> s' = s\<lparr>v_approvals := (v_approvals s)(i \<mapsto> True)\<rparr>"
  by (auto simp: on_approval_decided_def split: option.splits bool.splits)

lemma on_question_requested_accepts [accepts]:
  "on_question_requested dec seq iv s = Inr s' \<longleftrightarrow>
     (\<exists>t k x. v_calls s (qi_execution_id iv) = Some (False, t, k) \<and> step_coords s = Some (t, k) \<and>
        v_call_names s (qi_execution_id iv) = Some ASK_USER_QUESTION_TOOL \<and>
        decoded_arguments dec s (qi_execution_id iv) = Some (qi_request iv) \<and>
        \<not> blank (qi_interaction_id iv) \<and> v_question_by_call s (qi_execution_id iv) = None \<and>
        map_of (v_questions s) (qi_interaction_id iv) = None \<and> new_interaction iv = Inr x \<and>
        s' = s\<lparr>v_question_by_call := (v_question_by_call s)(qi_execution_id iv \<mapsto> qi_interaction_id iv),
               v_questions := AList.update (qi_interaction_id iv) x (v_questions s)\<rparr>)"
  by (auto simp: on_question_requested_def split: option.splits)

lemma on_question_draft_updated_accepts [accepts]:
  "on_question_draft_updated seq i answers s = Inr s' \<longleftrightarrow>
     (\<exists>x x1 d. map_of (v_questions s) i = Some x \<and> update_draft x answers = (x1, Inr d) \<and>
        s' = set_question i x1 s)"
  by (auto simp: on_question_draft_updated_def split: option.splits sum.splits prod.splits)

lemma on_question_resolved_accepts [accepts]:
  "on_question_resolved seq i resolution s = Inr s' \<longleftrightarrow>
     (\<exists>x x1. map_of (v_questions s) i = Some x \<and>
        resolve x (qr_action resolution) (map answer_of_resolved (qr_answers resolution)) = (x1, Inr resolution) \<and>
        s' = set_question i x1 s)"
  by (auto simp: on_question_resolved_def split: option.splits sum.splits prod.splits)

lemma on_question_cancelled_accepts [accepts]:
  "on_question_cancelled seq i reason s = Inr s' \<longleftrightarrow>
     \<not> blank reason \<and>
     (\<exists>x x1. map_of (v_questions s) i = Some x \<and> cancel x reason = (x1, Inr ()) \<and> s' = set_question i x1 s)"
  by (auto simp: on_question_cancelled_def split: option.splits sum.splits prod.splits)

lemma on_command_run_accepts [accepts]:
  "on_command_run seq command_id name s = Inr s' \<longleftrightarrow>
     \<not> blank command_id \<and> \<not> blank name \<and> v_commands s command_id = None \<and>
     s' = s\<lparr>v_commands := (v_commands s)(command_id \<mapsto> False)\<rparr>"
  by (auto simp: on_command_run_def)

lemma on_command_done_accepts [accepts]:
  "on_command_done evs seq command_id kind source s = Inr s' \<longleftrightarrow>
     v_commands s command_id = Some False \<and>
     (\<forall>src. source = Some src \<longrightarrow> valid_source evs seq kind src) \<and>
     s' = s\<lparr>v_commands := (v_commands s)(command_id \<mapsto> True)\<rparr>"
  by (auto simp: on_command_done_def split: option.splits bool.splits)

lemma on_session_title_accepts [accepts]:
  "on_session_title seq title seqs source s = Inr s' \<Longrightarrow> s' = s"
  by (auto simp: on_session_title_def split: session_title_source.splits)

lemma check_inserted_ok [simp]:
  "check_inserted seq ms = Inr u \<longleftrightarrow>
     (\<forall>m\<in>set ms. im_id m \<noteq> [] \<and> msg_role (im_message m) = RUser \<and> msg_id (im_message m) = Some (im_id m))"
  by (induction ms) auto

lemma check_inbox_ids_ok [simp]:
  "check_inbox_ids seq ids ms = Inr u \<longleftrightarrow> distinct (map im_id ms) \<and> ids \<inter> im_id ` set ms = {}"
  by (induction ms arbitrary: ids) auto

lemma on_inbox_spliced_accepts [accepts]:
  "on_inbox_spliced seq target start removed inserted outcome s = Inr s' \<longleftrightarrow>
     start + removed \<le> usize_max \<and> start + removed \<le> length (inbox_of target s) \<and>
     (outcome \<noteq> None \<longrightarrow> removed \<noteq> 0) \<and>
     (\<forall>m\<in>set inserted. im_id m \<noteq> [] \<and> msg_role (im_message m) = RUser \<and>
        msg_id (im_message m) = Some (im_id m)) \<and>
     distinct (map im_id (splice start (start + removed) inserted (inbox_of target s) @
                            inbox_of (other_target target) s)) \<and>
     s' = set_inbox target (splice start (start + removed) inserted (inbox_of target s)) s"
proof (cases "start + removed \<le> usize_max")
  case True
  have "\<not> (start > n \<or> start + removed > n) \<longleftrightarrow> start + removed \<le> n" for n :: nat
    by auto
  with True show ?thesis
    by (simp add: on_inbox_spliced_def checked_add_usize_def Let_def del: check_inbox_ids.simps map_append)
      (auto simp: ensure_def)
qed (simp add: on_inbox_spliced_def checked_add_usize_def Let_def)

lemma on_goal_create_accepts:
  "on_goal_create seq c s = Inr s' \<longleftrightarrow>
     gs_revision (gc_goal c) = 1 \<and> gs_phase (gc_goal c) = GoalActive \<and> gc_rounds_started c = 0 \<and>
     (\<forall>cur x. v_current_goal s = Some (cur, x) \<longrightarrow> gs_phase cur = GoalComplete) \<and>
     gs_id (gc_goal c) \<notin> v_seen_goal_ids s \<and>
     s' = s\<lparr>v_seen_goal_ids := insert (gs_id (gc_goal c)) (v_seen_goal_ids s)\<rparr>"
  by (auto simp: on_goal_create_def Let_def split: option.splits prod.splits)

lemma on_goal_mutation_accepts:
  "on_goal_mutation seq c s = Inr s' \<longleftrightarrow>
     (\<exists>cur rounds created updated. v_current_goal s = Some (cur, rounds, created, updated) \<and>
        gs_id (gc_goal c) = gs_id cur \<and> gs_revision (gc_goal c) = saturating_add (gs_revision cur) 1 \<and>
        gc_created_at c = created \<and> updated \<le> gc_updated_at c \<and> gc_rounds_started c = rounds \<and>
        valid_goal_transition (gc_operation c) (gc_goal c) cur (gc_rounds_started c)) \<and> s' = s"
  by (auto simp: on_goal_mutation_def Let_def not_less split: option.splits prod.splits)

lemma on_goal_snapshot_accepts [accepts]:
  "on_goal_snapshot seq c s = Inr s' \<longleftrightarrow>
     goal_shape_ok c \<and> blocked_reason_ok (gc_goal c) \<and>
     (\<exists>s1. (if gc_operation c = OpCreate then on_goal_create seq c s else on_goal_mutation seq c s) = Inr s1 \<and>
        s' = s1\<lparr>v_current_goal := Some (gc_goal c, gc_rounds_started c, gc_created_at c, gc_updated_at c)\<rparr>)"
  by (auto simp: on_goal_snapshot_def split: goal_snapshot_operation.splits)

lemma on_goal_clear_accepts [accepts]:
  "on_goal_clear seq c s = Inr s' \<longleftrightarrow>
     (\<exists>cur rounds created updated. v_current_goal s = Some (cur, rounds, created, updated) \<and>
        gl_version c = 1 \<and> gr_id (gl_cleared c) = gs_id cur \<and>
        gr_revision (gl_cleared c) = saturating_add (gs_revision cur) 1 \<and> updated \<le> gl_cleared_at c) \<and>
     s' = s\<lparr>v_current_goal := None\<rparr>"
  by (auto simp: on_goal_clear_def not_less split: option.splits prod.splits)

lemma on_schedule_create_accepts [accepts]:
  "on_schedule_create seq version r s = Inr s' \<longleftrightarrow>
     version = 1 \<and> \<not> blank (sc_id r) \<and> trim (sc_id r) = sc_id r \<and> \<not> blank (sc_prompt r) \<and>
     trim (sc_prompt r) = sc_prompt r \<and> \<not> blank (sc_scheduled_at r) \<and> valid_schedule_shape r \<and>
     sc_id r \<notin> v_seen_schedule_ids s \<and>
     s' = s\<lparr>v_seen_schedule_ids := insert (sc_id r) (v_seen_schedule_ids s),
            v_active_schedules := (v_active_schedules s)(sc_id r \<mapsto> sc_kind r)\<rparr>"
  by (auto simp: on_schedule_create_def)

lemma on_schedule_delete_accepts [accepts]:
  "on_schedule_delete seq version i s = Inr s' \<longleftrightarrow>
     version = 1 \<and> \<not> blank i \<and> trim i = i \<and> v_active_schedules s i \<noteq> None \<and>
     s' = s\<lparr>v_active_schedules := (v_active_schedules s)(i := None)\<rparr>"
  by (auto simp: on_schedule_delete_def)

lemma on_schedule_dispatch_accepts [accepts]:
  "on_schedule_dispatch seq version i accepted_at s = Inr s' \<longleftrightarrow>
     (\<exists>kind. v_active_schedules s i = Some kind \<and> version = 1 \<and> trim i = i \<and>
        (if kind = Every then (\<exists>t. accepted_at = Some t \<and> \<not> blank t) else accepted_at = None) \<and>
        s' = (if kind \<noteq> Every then s\<lparr>v_active_schedules := (v_active_schedules s)(i := None)\<rparr> else s))"
  by (auto simp: on_schedule_dispatch_def split: option.splits)

lemma on_mutation_committed_accepts [accepts]:
  "on_mutation_committed evs pos seq rv r s = Inr s' \<longleftrightarrow>
     \<not> blank (mr_rpc_id r) \<and> \<not> blank (mr_method r) \<and> length (mr_fingerprint r) = 64 \<and>
     list_all is_lower_hexdigit (mr_fingerprint r) \<and> response_seq_field_ok r \<and>
     paired_with_state evs pos rv \<and> ends_revision evs pos rv \<and> \<not> contains_populated_secret (mr_response r) \<and>
     mr_rpc_id r \<notin> v_mutation_receipts s \<and> rv \<notin> v_mutation_revisions s \<and>
     s' = s\<lparr>v_mutation_receipts := insert (mr_rpc_id r) (v_mutation_receipts s),
            v_mutation_revisions := insert rv (v_mutation_revisions s)\<rparr>"
  by (auto simp: on_mutation_committed_def)

lemma schedule_retry_accepts:
  "schedule_retry seq r s = Inr s' \<longleftrightarrow>
     (let owner = (lr_turn r, lr_step r, lr_provider r, lr_policy_key r);
          chain = (case v_retry_chains s owner of None \<Rightarrow> (lr_retry_id r, 0) | Some c \<Rightarrow> c) in
      (\<forall>existing. v_retry_owners s (lr_retry_id r) = Some existing \<longrightarrow> existing = owner) \<and>
      fst chain = lr_retry_id r \<and> lr_retry r = saturating_add (snd chain) 1 \<and>
      v_scheduled_retries s (lr_retry_id r, lr_retry r) = None \<and>
      s' = s\<lparr>v_retry_owners := (v_retry_owners s)(lr_retry_id r \<mapsto> owner),
             v_retry_chains := (v_retry_chains s)(owner \<mapsto> (lr_retry_id r, lr_retry r)),
             v_scheduled_retries :=
               (v_scheduled_retries s)((lr_retry_id r, lr_retry r) \<mapsto> (lr_turn r, lr_step r))\<rparr>)"
  by (cases "v_retry_chains s (lr_turn r, lr_step r, lr_provider r, lr_policy_key r)";
      cases "v_retry_owners s (lr_retry_id r)")
    (auto simp: schedule_retry_def Let_def simp del: not_None_eq)

lemma on_llm_retry_accepts [accepts]:
  "on_llm_retry seq r s = Inr s' \<longleftrightarrow>
     (\<exists>state. v_open_step s = Some state \<and> st_turn state = lr_turn r \<and> st_step state = lr_step r \<and>
        st_request_provider state = Some (lr_provider r)) \<and>
     \<not> blank (lr_retry_id r) \<and> \<not> blank (lr_provider r) \<and> \<not> blank (lr_policy_key r) \<and> lr_retry r \<noteq> 0 \<and>
     check_retry_mode seq r = Inr () \<and> check_failure seq (lr_failure r) = Inr () \<and>
     schedule_retry seq r s = Inr s'"
  by (auto simp: on_llm_retry_def split: option.splits)

lemma on_llm_retry_started_accepts [accepts]:
  "on_llm_retry_started seq i turn step retry s = Inr s' \<longleftrightarrow>
     step_coords s = Some (turn, step) \<and> v_scheduled_retries s (i, retry) = Some (turn, step) \<and>
     (i, retry) \<notin> v_started_retries s \<and>
     s' = s\<lparr>v_started_retries := insert (i, retry) (v_started_retries s)\<rparr>"
  by (auto simp: on_llm_retry_started_def)

lemma on_compaction_start_accepts [accepts]:
  "on_compaction_start seq i source turn s = Inr s' \<longleftrightarrow>
     \<not> blank i \<and> \<not> some_blank source \<and> (\<forall>t. turn = Some t \<longrightarrow> v_open_turn s = Some t) \<and>
     v_compactions s i = None \<and>
     s' = s\<lparr>v_compactions := (v_compactions s)(i \<mapsto>
              \<lparr>co_source_command_id = source, co_turn = turn, co_summary = None,
               co_replacement = False, co_ended = False\<rparr>)\<rparr>"
  by (auto simp: on_compaction_start_def split: option.splits)

lemma on_compaction_summary_accepts [accepts]:
  "on_compaction_summary evs pos seq c s = Inr s' \<longleftrightarrow>
     (\<exists>state. v_compactions s (cs_compaction_id c) = Some state \<and> \<not> co_ended state \<and>
        co_summary state = None \<and> co_source_command_id state = cs_source_command_id c \<and>
        \<not> blank (cs_summary c) \<and> \<not> blank (cs_provider c) \<and> \<not> blank (cs_model c) \<and>
        cs_shadowed_token_count c \<noteq> 0 \<and> cs_max_tokens c \<noteq> Some 0 \<and>
        range_is_valid (cs_shadowed_range c) (cs_shadowed_seqs c) \<and>
        contiguous_on (derive_surface_messages (take pos evs)) (cs_shadowed_seqs c) \<and>
        s' = s\<lparr>v_compactions := (v_compactions s)(cs_compaction_id c \<mapsto>
                 state\<lparr>co_summary := Some (cs_shadowed_range c, cs_shadowed_seqs c)\<rparr>)\<rparr>)"
  by (auto simp: on_compaction_summary_def simp del: not_None_eq split: option.splits)

lemma on_compaction_end_accepts [accepts]:
  "on_compaction_end seq i source turn error s = Inr s' \<longleftrightarrow>
     (\<exists>state. v_compactions s i = Some state \<and> \<not> co_ended state \<and> co_source_command_id state = source \<and>
        co_turn state = turn \<and> \<not> some_blank error \<and>
        (if error = None then co_summary state \<noteq> None \<and> co_replacement state
         else co_summary state = None \<and> \<not> co_replacement state) \<and>
        s' = s\<lparr>v_compactions := (v_compactions s)(i \<mapsto> state\<lparr>co_ended := True\<rparr>)\<rparr>)"
  by (cases "v_compactions s i"; cases error) (auto simp: on_compaction_end_def Let_def simp del: not_None_eq)

lemma check_surface_replace_accepts:
  "check_surface_replace evs pos seq rv r s = Inr s' \<longleftrightarrow>
     (\<exists>state. v_compactions s (rp_compaction_id r) = Some state \<and> \<not> co_ended state \<and>
        \<not> co_replacement state \<and> co_summary state = Some (rp_shadowed_range r, rp_shadowed_seqs r) \<and>
        immediately_follows_summary evs pos rv (rp_compaction_id r) \<and>
        s' = s\<lparr>v_compactions := (v_compactions s)(rp_compaction_id r \<mapsto> state\<lparr>co_replacement := True\<rparr>)\<rparr>)"
  by (auto simp: check_surface_replace_def split: option.splits)

lemma on_user_message_accepts [accepts]:
  "on_user_message evs pos seq rv m replace s = Inr s' \<longleftrightarrow>
     msg_role m = RUser \<and> v_open_turn s \<noteq> None \<and> (replace = None \<longrightarrow> v_open_step s = None) \<and>
     (case replace of None \<Rightarrow> s' = s | Some r \<Rightarrow> check_surface_replace evs pos seq rv r s = Inr s')"
  by (cases replace) (auto simp: on_user_message_def)

definition call_fields_ok :: "tool_call \<Rightarrow> bool" where
  "call_fields_ok c \<longleftrightarrow> tc_id c \<noteq> [] \<and> tc_provider_call_id c \<noteq> Some [] \<and> tc_name c \<noteq> []"

lemma check_call_fields_ok [simp]: "check_call_fields seq c = Inr u \<longleftrightarrow> call_fields_ok c"
  by (auto simp: check_call_fields_def call_fields_ok_def)

lemma check_embedded_calls_ok [simp]:
  "check_embedded_calls seq calls ids cs = Inr u \<longleftrightarrow>
     (\<forall>c\<in>set cs. call_fields_ok c \<and> calls (tc_id c) = None) \<and> distinct (map tc_id cs) \<and>
     ids \<inter> tc_id ` set cs = {}"
  by (induction cs arbitrary: ids) (auto simp del: not_None_eq)

lemma on_assistant_message_accepts [accepts]:
  "on_assistant_message seq turn step m s = Inr s' \<longleftrightarrow>
     msg_role m = RAssistant \<and>
     (\<exists>state. v_open_step s = Some state \<and> st_turn state = turn \<and> st_step state = step \<and>
        st_assistant_calls state = None \<and>
        (\<forall>c\<in>set (msg_tool_calls m). call_fields_ok c \<and> v_calls s (tc_id c) = None) \<and>
        distinct (map tc_id (msg_tool_calls m)) \<and>
        s' = s\<lparr>v_open_step := Some (state\<lparr>st_assistant_calls := Some (msg_tool_calls m)\<rparr>)\<rparr>)"
  by (auto simp: on_assistant_message_def split: option.splits)

lemma on_tool_call_accepts [accepts]:
  "on_tool_call seq turn step c s = Inr s' \<longleftrightarrow>
     call_fields_ok c \<and>
     (\<exists>state. v_open_step s = Some state \<and> st_turn state = turn \<and> st_step state = step \<and>
        expected_call state = Some c \<and> v_calls s (tc_id c) = None \<and>
        s' = s\<lparr>v_open_step := Some (state\<lparr>st_mirrored_calls := Suc (st_mirrored_calls state)\<rparr>),
               v_calls := (v_calls s)(tc_id c \<mapsto> (False, turn, step)),
               v_call_names := (v_call_names s)(tc_id c \<mapsto> tc_name c),
               v_call_arguments :=
                 (if tc_name c = ASK_USER_QUESTION_TOOL
                  then (v_call_arguments s)(tc_id c \<mapsto> tc_arguments_json c) else v_call_arguments s)\<rparr>)"
  by (cases "v_open_step s") (auto simp: on_tool_call_def simp del: not_None_eq)

lemma check_result_step_ok [simp]:
  "check_result_step seq turn step s = Inr u \<longleftrightarrow> step_coords s = Some (turn, step)"
  by (auto simp: check_result_step_def step_coords_def split: option.splits)

lemma on_tool_result_accepts [accepts]:
  "on_tool_result dec seq turn step r s = Inr s' \<longleftrightarrow>
     v_calls s (tr_call_id r) = Some (False, turn, step) \<and>
     (tr_outcome r = OutcomeUnknown \<or> tr_outcome r = ToolError \<and> invalid_question dec s (tr_call_id r) \<or>
      step_coords s = Some (turn, step)) \<and>
     check_question_result seq r s = Inr () \<and>
     s' = s\<lparr>v_calls := (v_calls s)(tr_call_id r \<mapsto> (True, turn, step))\<rparr>"
  by (auto simp: on_tool_result_def split: option.splits prod.splits bool.splits)

lemma on_goal_change_accepts [accepts]:
  "on_goal_change seq change s = Inr s' \<longleftrightarrow>
     (case change of GoalSnapshotChange c \<Rightarrow> on_goal_snapshot seq c s = Inr s'
      | GoalClear c \<Rightarrow> on_goal_clear seq c s = Inr s')"
  by (cases change) (simp_all add: on_goal_change_def)

lemma on_schedule_change_accepts [accepts]:
  "on_schedule_change seq change s = Inr s' \<longleftrightarrow>
     (case change of ScheduleCreate version r \<Rightarrow> on_schedule_create seq version r s = Inr s'
      | ScheduleDelete version i \<Rightarrow> on_schedule_delete seq version i s = Inr s'
      | ScheduleDispatch version i t \<Rightarrow> on_schedule_dispatch seq version i t s = Inr s')"
  by (cases change) (simp_all add: on_schedule_change_def)

subsection \<open>The loop\<close>

lemma advance_revision_accepts:
  "advance_revision l s = Inr s' \<longleftrightarrow>
     le_revision l \<noteq> 0 \<and> (le_revision l = v_revision s \<or> checked_add (v_revision s) 1 = Some (le_revision l)) \<and>
     s' = s\<lparr>v_revision := le_revision l\<rparr>"
  by (auto simp: advance_revision_def split: option.splits)

lemma check_logged_accepts:
  "check_logged dec evs pos l s = Inr s' \<longleftrightarrow>
     le_seq l = pos \<and> le_revision l \<noteq> 0 \<and>
     (le_revision l = v_revision s \<or> checked_add (v_revision s) 1 = Some (le_revision l)) \<and>
     (is_tool_call (le_event l) \<or> check_open_calls pos s = Inr ()) \<and>
     check_data dec evs pos pos (le_revision l) (le_event l) (s\<lparr>v_revision := le_revision l\<rparr>) = Inr s'"
  by (auto simp: check_logged_def advance_revision_accepts check_open_calls_def)

lemma validate_events_append:
  "validate_events dec evs pos s (xs @ ys) =
     and_then (validate_events dec evs pos s xs) (\<lambda>s1. validate_events dec evs (pos + length xs) s1 ys)"
proof (induction xs arbitrary: pos s)
  case (Cons x xs)
  then show ?case
    by (cases "check_logged dec evs pos x s") auto
qed simp

lemma validate_log_iff:
  "validate_log dec rv evs = Inr () \<longleftrightarrow>
     (\<exists>s. validate_events dec evs 0 init_vstate evs = Inr s \<and>
        check_open_calls (le_seq (last evs)) s = Inr () \<and> v_revision s = rv)"
  by (auto simp: validate_log_def init_vstate_def check_open_calls_def)

lemma validate_log_at:
  assumes "validate_log dec rv (es @ l # ys) = Inr ()"
  obtains s s' where "validate_events dec (es @ l # ys) 0 init_vstate es = Inr s"
    and "check_logged dec (es @ l # ys) (length es) l s = Inr s'"
  using assms by (auto simp: validate_log_iff validate_events_append)

text \<open>
  A property \<open>J\<close> of the events read so far and the validator's state.  \<open>log_invariant\<close> asks that
  every accepted event keeps it; then it holds at every point of every valid log.
\<close>

locale log_invariant =
  fixes J :: "(string \<Rightarrow> string + ask_request) \<Rightarrow> logged_event list \<Rightarrow> vstate \<Rightarrow> bool"
  assumes start: "J dec [] init_vstate"
    and logged: "\<lbrakk>J dec es s; prefix (es @ [l]) evs; check_logged dec evs (length es) l s = Inr s'\<rbrakk>
      \<Longrightarrow> J dec (es @ [l]) s'"
begin

lemma at_prefix:
  "\<lbrakk>validate_events dec evs 0 init_vstate es = Inr s; prefix es evs\<rbrakk> \<Longrightarrow> J dec es s"
proof (induction es arbitrary: s rule: rev_induct)
  case Nil
  then show ?case using start by simp
next
  case (snoc l es)
  then obtain s0 where "validate_events dec evs 0 init_vstate es = Inr s0"
    and "check_logged dec evs (length es) l s0 = Inr s"
    by (auto simp: validate_events_append)
  with snoc show ?case
    by (metis append_prefixD logged)
qed

lemma at_end:
  assumes "validate_log dec rv evs = Inr ()"
  obtains s where "J dec evs s" and "check_open_calls (le_seq (last evs)) s = Inr ()" and "v_revision s = rv"
  using assms at_prefix [of dec evs evs] by (auto simp: validate_log_iff)

lemma at_event:
  assumes "validate_log dec rv (es @ l # ys) = Inr ()"
  obtains s s' where "J dec es s" and "check_logged dec (es @ l # ys) (length es) l s = Inr s'"
  using assms at_prefix [of dec "es @ l # ys" es] by (auto elim: validate_log_at)

end

text \<open>The same for a property that does not read \<open>v_revision\<close>: only the event arms matter.\<close>

locale event_invariant =
  fixes J :: "(string \<Rightarrow> string + ask_request) \<Rightarrow> logged_event list \<Rightarrow> vstate \<Rightarrow> bool"
  assumes event_start: "J dec [] init_vstate"
    and revision: "J dec es (s\<lparr>v_revision := r\<rparr>) = J dec es s"
    and event: "\<lbrakk>J dec es s; prefix (es @ [l]) evs; is_tool_call (le_event l) \<or> check_open_calls (length es) s = Inr ();
        check_data dec evs (length es) (length es) (le_revision l) (le_event l) s = Inr s'\<rbrakk>
      \<Longrightarrow> J dec (es @ [l]) s'"

lemma check_open_calls_revision [simp]: "check_open_calls seq (s\<lparr>v_revision := r\<rparr>) = check_open_calls seq s"
  by (simp add: check_open_calls_def)

sublocale event_invariant \<subseteq> log_invariant
proof (unfold_locales, rule event_start)
  fix dec es s l evs s'
  assume J: "J dec es s" and pre: "prefix (es @ [l]) evs"
    and check: "check_logged dec evs (length es) l s = Inr s'"
  from check have open_calls: "is_tool_call (le_event l) \<or>
      check_open_calls (length es) (s\<lparr>v_revision := le_revision l\<rparr>) = Inr ()"
    and data: "check_data dec evs (length es) (length es) (le_revision l) (le_event l)
      (s\<lparr>v_revision := le_revision l\<rparr>) = Inr s'"
    unfolding check_logged_accepts by auto
  show "J dec (es @ [l]) s'"
    using J by (intro event [OF _ pre open_calls data]) (simp add: revision)
qed

context event_invariant begin

lemma at_data:
  assumes "validate_log dec rv (es @ l # ys) = Inr ()"
  obtains s s' where "J dec es s"
    and "is_tool_call (le_event l) \<or> check_open_calls (length es) s = Inr ()"
    and "check_data dec (es @ l # ys) (length es) (length es) (le_revision l) (le_event l) s = Inr s'"
proof -
  obtain s s' where J: "J dec es s" and check: "check_logged dec (es @ l # ys) (length es) l s = Inr s'"
    using assms by (rule at_event)
  with revision [of dec es "le_revision l" s]
  show thesis by (intro that [of "s\<lparr>v_revision := le_revision l\<rparr>"]) (auto simp: check_logged_accepts)
qed

end

subsection \<open>Sequence numbers and revisions\<close>

text \<open>Each revision repeats its predecessor or is one higher, without wrapping, starting from \<open>r\<close>.\<close>

fun revisions_from :: "revision \<Rightarrow> revision list \<Rightarrow> bool" where
  "revisions_from r [] = True"
| "revisions_from r (x # xs) = (x \<noteq> 0 \<and> (x = r \<or> checked_add r 1 = Some x) \<and> revisions_from x xs)"

lemma revisions_from_snoc:
  "revisions_from r (xs @ [x]) \<longleftrightarrow>
     revisions_from r xs \<and> x \<noteq> 0 \<and>
     (x = (if xs = [] then r else last xs) \<or> checked_add (if xs = [] then r else last xs) 1 = Some x)"
  by (induction xs arbitrary: r) auto

lemma check_data_revision:
  assumes "check_data dec evs pos seq rv e s = Inr s'"
  shows "v_revision s' = v_revision s"
  using assms
  by (cases e)
    (auto simp: accepts set_inbox_def set_question_def schedule_retry_accepts check_surface_replace_accepts
      on_goal_create_accepts on_goal_mutation_accepts Let_def
      split: goal_change.splits schedule_change.splits inbox_target.splits option.splits if_splits
      dest!: on_session_title_accepts)

definition coordinates_ok :: "logged_event list \<Rightarrow> vstate \<Rightarrow> bool" where
  "coordinates_ok es s \<longleftrightarrow>
     positioned es \<and> revisions_from 0 (map le_revision es) \<and>
     v_revision s = (if es = [] then 0 else le_revision (last es))"

interpretation coordinates: log_invariant "\<lambda>_. coordinates_ok"
proof
  show "coordinates_ok [] init_vstate"
    by (simp add: coordinates_ok_def positioned_def init_vstate_def)
next
  fix dec es s l evs s'
  assume "coordinates_ok es s" and "check_logged dec evs (length es) l s = Inr s'"
  moreover from this have "v_revision s' = le_revision l"
    by (auto simp: check_logged_accepts dest!: check_data_revision)
  ultimately show "coordinates_ok (es @ [l]) s'"
    by (auto simp: check_logged_accepts coordinates_ok_def positioned_snoc revisions_from_snoc last_map
        split: if_splits)
qed

end
