(* ===== verification/Session_Log.thy ===== *)
theory Session_Log
  imports Validate_Log
begin

text \<open>
  \<open>Session\<close> of crates/xharness-session/src/session.rs: the immutable log of a session with its
  revision, construction, restoration, the compare-and-swap append of a batch, and inspection.

  The operations that take \<open>&mut self\<close> return the session afterwards beside their result.  The clock
  of \<open>append_batch\<close> is the argument \<open>timestamp_ms\<close>, as in \<open>append_batch_at\<close>.
\<close>

record session_header =
  sh_version :: u32
  sh_id :: string
  sh_created_at_ms :: u64
  sh_cwd :: "string option"

definition FORMAT_VERSION :: u32 where
  "FORMAT_VERSION = 1"

definition new_header :: "string \<Rightarrow> u64 \<Rightarrow> session_header" where
  "new_header i now = \<lparr>sh_version = FORMAT_VERSION, sh_id = i, sh_created_at_ms = now, sh_cwd = None\<rparr>"

record session =
  se_header :: session_header
  se_revision :: revision
  se_events :: "logged_event list"

record append_receipt =
  ap_previous_revision :: revision
  ap_revision :: revision
  ap_first_seq :: sequence
  ap_last_seq :: "sequence option"
  ap_events :: "logged_event list"

record session_inspection =
  in_header :: session_header
  in_revision :: revision
  in_next_seq :: sequence
  in_events :: "logged_event list"

definition validate_header :: "session_header \<Rightarrow> session_error + unit" where
  "validate_header header =
     and_then (ensure (sh_id header = []) EmptySessionId) (\<lambda>_.
     ensure (sh_version header \<noteq> FORMAT_VERSION) (UnsupportedVersion FORMAT_VERSION (sh_version header)))"

definition new_session :: "session_header \<Rightarrow> session_error + session" where
  "new_session header =
     and_then (validate_header header) (\<lambda>_.
     Inr \<lparr>se_header = header, se_revision = 0, se_events = []\<rparr>)"

definition restore ::
  "(string \<Rightarrow> string + ask_request) \<Rightarrow> session_header \<Rightarrow> revision \<Rightarrow> logged_event list \<Rightarrow>
     session_error + session" where
  "restore dec header revision evs =
     and_then (validate_header header) (\<lambda>_.
     and_then (validate_log dec revision evs) (\<lambda>_.
     Inr \<lparr>se_header = header, se_revision = revision, se_events = evs\<rparr>))"

definition next_seq :: "session \<Rightarrow> sequence" where
  "next_seq s = length (se_events s)"

definition stage :: "sequence \<Rightarrow> revision \<Rightarrow> u64 \<Rightarrow> event_data list \<Rightarrow> logged_event list" where
  "stage first_seq revision timestamp_ms events =
     map (\<lambda>(offset, e). \<lparr>le_seq = first_seq + offset, le_revision = revision,
                          le_timestamp_ms = timestamp_ms, le_event = e\<rparr>)
       (enumerate 0 events)"

definition append_batch_at ::
  "(string \<Rightarrow> string + ask_request) \<Rightarrow> session \<Rightarrow> revision \<Rightarrow> event_data list \<Rightarrow> u64 \<Rightarrow>
     session \<times> (session_error + append_receipt)" where
  "append_batch_at dec s expected_revision events timestamp_ms =
     (if expected_revision \<noteq> se_revision s
      then (s, Inl (RevisionConflict expected_revision (se_revision s)))
      else if events = []
      then (s, Inr \<lparr>ap_previous_revision = se_revision s, ap_revision = se_revision s,
                    ap_first_seq = next_seq s, ap_last_seq = None, ap_events = []\<rparr>)
      else case checked_add (se_revision s) 1 of
        None \<Rightarrow> (s, Inl RevisionOverflow)
      | Some revision \<Rightarrow>
          (let staged = stage (next_seq s) revision timestamp_ms events;
               extended = se_events s @ staged in
           case validate_log dec revision extended of
             Inl error \<Rightarrow> (s\<lparr>se_events := take (length (se_events s)) extended\<rparr>, Inl error)
           | Inr _ \<Rightarrow>
               (s\<lparr>se_events := extended, se_revision := revision\<rparr>,
                Inr \<lparr>ap_previous_revision = se_revision s, ap_revision = revision,
                     ap_first_seq = next_seq s, ap_last_seq = Some (le_seq (last staged)),
                     ap_events = staged\<rparr>)))"

text \<open>\<open>Session::append\<close>: a one-event batch; the receipt of a success has one event.\<close>

definition append_event ::
  "(string \<Rightarrow> string + ask_request) \<Rightarrow> session \<Rightarrow> revision \<Rightarrow> event_data \<Rightarrow> u64 \<Rightarrow>
     session \<times> (session_error + logged_event)" where
  "append_event dec s expected_revision e timestamp_ms =
     (case append_batch_at dec s expected_revision [e] timestamp_ms of
        (s1, Inl error) \<Rightarrow> (s1, Inl error)
      | (s1, Inr receipt) \<Rightarrow> (s1, Inr (hd (ap_events receipt))))"

definition inspect :: "session \<Rightarrow> session_inspection" where
  "inspect s =
     \<lparr>in_header = se_header s, in_revision = se_revision s, in_next_seq = next_seq s, in_events = se_events s\<rparr>"

subsection \<open>Session invariant\<close>

definition session_ok :: "(string \<Rightarrow> string + ask_request) \<Rightarrow> session \<Rightarrow> bool" where
  "session_ok dec s \<longleftrightarrow>
     validate_header (se_header s) = Inr () \<and> validate_log dec (se_revision s) (se_events s) = Inr ()"

lemma new_session_ok: "new_session h = Inr s \<Longrightarrow> session_ok dec s"
  by (auto simp: new_session_def session_ok_def validate_log_def)

lemma restore_ok: "restore dec h r evs = Inr s \<Longrightarrow> session_ok dec s"
  by (auto simp: restore_def session_ok_def)

lemma length_stage [simp]: "length (stage n r t es) = length es"
  by (simp add: stage_def)

lemma stage_Nil [simp]: "stage n r t [] = []"
  by (simp add: stage_def)

lemma stage_eq_Nil [simp]: "stage n r t es = [] \<longleftrightarrow> es = []"
  by (metis length_0_conv length_stage)

lemma nth_stage [simp]:
  "i < length es \<Longrightarrow> stage n r t es ! i =
     \<lparr>le_seq = n + i, le_revision = r, le_timestamp_ms = t, le_event = es ! i\<rparr>"
  by (simp add: stage_def nth_enumerate_eq)

lemma map_stage [simp]:
  "map le_event (stage n r t es) = es" "map le_revision (stage n r t es) = replicate (length es) r"
  "map le_seq (stage n r t es) = [n ..< n + length es]"
  by (auto intro!: nth_equalityI)

lemma set_stage: "l \<in> set (stage n r t es) \<Longrightarrow> le_revision l = r \<and> le_timestamp_ms l = t \<and> n \<le> le_seq l"
  by (auto simp: in_set_conv_nth)

lemma last_stage [simp]: "es \<noteq> [] \<Longrightarrow> le_seq (last (stage n r t es)) = n + (length es - 1)"
  by (subst last_conv_nth) (auto simp: Suc_le_eq)

text \<open>What a batch append does, in full: a failure leaves the session as it was; a success of a
  non-empty batch extends the log by the staged events under one new revision.\<close>

lemma append_batch_cases:
  "append_batch_at dec s expected es t = (s', res) \<Longrightarrow>
     (\<exists>e. res = Inl e) \<and> s' = s \<or>
     (es = [] \<and> expected = se_revision s \<and> s' = s \<and> (\<exists>rc. res = Inr rc)) \<or>
     (\<exists>r rc. es \<noteq> [] \<and> expected = se_revision s \<and> checked_add (se_revision s) 1 = Some r \<and>
        validate_log dec r (se_events s @ stage (next_seq s) r t es) = Inr () \<and> res = Inr rc \<and>
        ap_events rc = stage (next_seq s) r t es \<and>
        ap_last_seq rc = Some (next_seq s + (length es - 1)) \<and> ap_first_seq rc = next_seq s \<and>
        ap_previous_revision rc = se_revision s \<and> ap_revision rc = r \<and>
        s' = s\<lparr>se_events := se_events s @ stage (next_seq s) r t es, se_revision := r\<rparr>)"
  by (auto simp: append_batch_at_def Let_def last_conv_nth split: if_splits option.splits sum.splits)

lemma append_batch_ok:
  assumes "session_ok dec s" and "append_batch_at dec s expected es t = (s', res)"
  shows "session_ok dec s'"
  using assms(1) append_batch_cases [OF assms(2)] by (auto simp: session_ok_def)

text \<open>Property C1. Appends are atomic compare-and-swap: an error leaves the session exactly as it was, a stale
  expectation is always a revision conflict, and a success keeps the old log as a prefix, adds the
  batch's events in order at contiguous positions under one revision, and advances the revision by
  exactly one (by none for an empty batch).\<close>

theorem append_batch_atomic:
  assumes "append_batch_at dec s expected es t = (s', res)"
  shows "(case res of
      Inl e \<Rightarrow> s' = s \<and> (expected \<noteq> se_revision s \<longrightarrow> e = RevisionConflict expected (se_revision s))
    | Inr receipt \<Rightarrow>
        expected = se_revision s \<and> se_header s' = se_header s \<and>
        se_events s' = se_events s @ ap_events receipt \<and> map le_event (ap_events receipt) = es \<and>
        map le_seq (ap_events receipt) = [next_seq s ..< next_seq s'] \<and>
        (\<forall>l\<in>set (ap_events receipt). le_revision l = se_revision s') \<and>
        unat (se_revision s') = unat (se_revision s) + (if es = [] then 0 else 1))"
  using append_batch_cases [OF assms] assms
  by (auto simp: append_batch_at_def next_seq_def checked_add_unat dest: set_stage split: sum.splits)

text \<open>Property C2. Every session built by construction, restoration and appends satisfies the append rules,
  and inspecting it and restoring the inspection gives the same session back.\<close>

theorem session_invariant:
  "(\<forall>h s. new_session h = Inr s \<longrightarrow> session_ok dec s) \<and>
   (\<forall>h r evs s. restore dec h r evs = Inr s \<longrightarrow> session_ok dec s) \<and>
   (\<forall>s expected es t. session_ok dec s \<longrightarrow> session_ok dec (fst (append_batch_at dec s expected es t))) \<and>
   (\<forall>s. session_ok dec s \<longrightarrow>
      restore dec (in_header (inspect s)) (in_revision (inspect s)) (in_events (inspect s)) = Inr s)"
proof (intro conjI allI impI)
  fix s expected es t
  assume "session_ok dec s"
  then show "session_ok dec (fst (append_batch_at dec s expected es t))"
    by (rule append_batch_ok [OF _ prod.collapse [symmetric]])
next
  fix s assume "session_ok dec s"
  then show "restore dec (in_header (inspect s)) (in_revision (inspect s)) (in_events (inspect s)) = Inr s"
    by (simp add: restore_def inspect_def session_ok_def)
qed (simp_all add: new_session_ok restore_ok)

subsection \<open>Appending never re-judges the past\<close>

text \<open>The events after a valid prefix cannot change what the validator says about the prefix, provided
  they carry a new revision: the only look-ahead is a receipt's test that its revision ends.\<close>

definition next_revision_differs :: "logged_event list \<Rightarrow> logged_event list \<Rightarrow> bool" where
  "next_revision_differs es xs \<longleftrightarrow> es = [] \<or> xs = [] \<or> le_revision (hd xs) \<noteq> le_revision (last es)"

lemma ends_revision_extend:
  assumes "pos < length es" and "next_revision_differs es xs" and "le_revision (es ! pos) = rv"
  shows "ends_revision (es @ xs) pos rv = ends_revision es pos rv"
proof (cases "Suc pos < length es")
  case True
  then show ?thesis by (simp add: ends_revision_def nth_append)
next
  case False
  with assms have "pos = length es - 1" "es \<noteq> []" by auto
  with assms show ?thesis
    by (cases xs) (auto simp: ends_revision_def nth_append next_revision_differs_def last_conv_nth)
qed

lemma check_data_extend:
  assumes "pos < length es" and "next_revision_differs es xs" and "le_revision (es ! pos) = rv"
  shows "check_data dec (es @ xs) pos pos rv e s = check_data dec es pos pos rv e s"
proof -
  have "valid_source (es @ xs) pos = valid_source es pos"
    using assms(1) by (auto simp: valid_source_def nth_append fun_eq_iff)
  then have cmd: "on_command_done (es @ xs) pos i kind source s = on_command_done es pos i kind source s"
    for i kind source unfolding on_command_done_def by (simp only:)
  have "paired_with_state (es @ xs) pos rv = paired_with_state es pos rv"
    using assms(1) by (auto simp: paired_with_state_def nth_append)
  then have commit: "on_mutation_committed (es @ xs) pos pos rv r s = on_mutation_committed es pos pos rv r s"
    for r by (simp add: on_mutation_committed_def ends_revision_extend [OF assms])
  have "immediately_follows_summary (es @ xs) pos rv i = immediately_follows_summary es pos rv i" for i
    using assms(1) by (auto simp: immediately_follows_summary_def nth_append)
  then have user: "on_user_message (es @ xs) pos pos rv m r s = on_user_message es pos pos rv m r s" for m r
    unfolding on_user_message_def check_surface_replace_def by (simp only:)
  have "take pos (es @ xs) = take pos es" using assms(1) by simp
  then have summary: "on_compaction_summary (es @ xs) pos pos c s = on_compaction_summary es pos pos c s" for c
    unfolding on_compaction_summary_def by (simp only:)
  show ?thesis by (cases e) (simp_all add: cmd commit user summary)
qed

lemma validate_events_extend:
  assumes "next_revision_differs es xs" and "es = ys @ zs"
  shows "validate_events dec (es @ xs) (length ys) s zs = validate_events dec es (length ys) s zs"
  using assms(2)
proof (induction zs arbitrary: ys s)
  case (Cons l zs)
  have "es ! length ys = l" "length ys < length es" using Cons.prems by auto
  then have "check_logged dec (es @ xs) (length ys) l s = check_logged dec es (length ys) l s"
    using check_data_extend [OF _ assms(1), of "length ys" "le_revision l"]
    by (cases "le_seq l = length ys") (simp_all add: check_logged_def ensure_def)
  then show ?case
    using Cons.IH [of "ys @ [l]"] Cons.prems by simp
qed simp

lemma validate_prefix:
  assumes "validate_log dec rv (es @ xs) = Inr ()" and "next_revision_differs es xs"
  shows "\<exists>s. validate_events dec es 0 init_vstate es = Inr s"
  using assms validate_events_extend [OF assms(2), of "[]" es dec init_vstate]
  by (auto simp: validate_log_iff validate_events_append)

definition after_log :: "(string \<Rightarrow> string + ask_request) \<Rightarrow> logged_event list \<Rightarrow> vstate" where
  "after_log dec evs =
     (case validate_events dec evs 0 init_vstate evs of Inl _ \<Rightarrow> init_vstate | Inr s \<Rightarrow> s)"

lemma after_logI: "validate_events dec evs 0 init_vstate evs = Inr s \<Longrightarrow> after_log dec evs = s"
  by (simp add: after_log_def)

lemma valid_after_log:
  "validate_log dec rv evs = Inr () \<Longrightarrow>
     validate_events dec evs 0 init_vstate evs = Inr (after_log dec evs) \<and>
     check_open_calls (le_seq (last evs)) (after_log dec evs) = Inr () \<and> v_revision (after_log dec evs) = rv"
  by (auto simp: validate_log_iff after_log_def)

lemma next_revision_fresh:
  assumes "validate_log dec rv es = Inr ()" and "checked_add rv 1 = Some r"
    and "\<forall>l\<in>set xs. le_revision l = r"
  shows "next_revision_differs es xs"
proof -
  have "rv \<noteq> r" using assms(2) checked_add_unat by fastforce
  moreover have "es \<noteq> [] \<Longrightarrow> le_revision (last es) = rv"
    using coordinates.at_end [OF assms(1)] by (metis coordinates_ok_def)
  ultimately show ?thesis using assms(3) by (cases xs) (auto simp: next_revision_differs_def)
qed

lemma stage_Cons: "stage n r t (e # es) =
    \<lparr>le_seq = n, le_revision = r, le_timestamp_ms = t, le_event = e\<rparr> # stage (Suc n) r t es"
  by (rule nth_equalityI) (auto simp: nth_Cons split: nat.splits)

lemma check_open_calls_seq: "check_open_calls n s = Inr () \<longleftrightarrow> check_open_calls m s = Inr ()"
  by (auto simp: check_open_calls_def ensure_calls_mirrored_def split: option.splits)

text \<open>The event arms alone, run over a batch: what \<open>validate_events\<close> does with staged events once their
  coordinates and revision are right.\<close>

fun data_run ::
  "(string \<Rightarrow> string + ask_request) \<Rightarrow> logged_event list \<Rightarrow> nat \<Rightarrow> revision \<Rightarrow> event_data list \<Rightarrow> vstate \<Rightarrow> vresult" where
  "data_run dec evs pos rv [] s = Inr s"
| "data_run dec evs pos rv (e # es) s =
     and_then (if is_tool_call e then Inr () else check_open_calls pos s) (\<lambda>_.
     and_then (check_data dec evs pos pos rv e s) (\<lambda>s1. data_run dec evs (Suc pos) rv es s1))"

lemma validate_staged:
  assumes "rv \<noteq> 0" and "v_revision s = rv \<or> checked_add (v_revision s) 1 = Some rv"
    and "data_run dec evs pos rv es (s\<lparr>v_revision := rv\<rparr>) = Inr s'" and "es \<noteq> []"
  shows "validate_events dec evs pos s (stage pos rv t es) = Inr s' \<and> v_revision s' = rv"
  using assms
proof (induction es arbitrary: s pos)
  case (Cons e es)
  then obtain s1 where data: "check_data dec evs pos pos rv e (s\<lparr>v_revision := rv\<rparr>) = Inr s1"
    and opened: "is_tool_call e \<or> check_open_calls pos s = Inr ()"
    and rest: "data_run dec evs (Suc pos) rv es s1 = Inr s'" by (auto split: if_splits)
  have s1: "v_revision s1 = rv" using check_data_revision [OF data] by simp
  then have same: "s1\<lparr>v_revision := rv\<rparr> = s1" by simp
  have step: "check_logged dec evs pos \<lparr>le_seq = pos, le_revision = rv, le_timestamp_ms = t, le_event = e\<rparr> s = Inr s1"
    using Cons.prems(1,2) data opened by (auto simp: check_logged_accepts)
  show ?case
  proof (cases "es = []")
    case True
    then show ?thesis using step rest s1 by (simp add: stage_Cons)
  next
    case False
    with Cons.IH [of s1 "Suc pos"] Cons.prems(1) s1 same rest step show ?thesis
      by (simp add: stage_Cons)
  qed
qed simp

lemma append_runs:
  assumes ok: "session_ok dec s" and room: "checked_add (se_revision s) 1 = Some r" and ne: "es \<noteq> []"
    and run: "data_run dec (se_events s @ stage (next_seq s) r t es) (next_seq s) r es
      ((after_log dec (se_events s))\<lparr>v_revision := r\<rparr>) = Inr s1"
    and opened: "check_open_calls 0 s1 = Inr ()"
  shows "\<exists>rc. append_batch_at dec s (se_revision s) es t =
      (s\<lparr>se_events := se_events s @ stage (next_seq s) r t es, se_revision := r\<rparr>, Inr rc)"
    and "after_log dec (se_events s @ stage (next_seq s) r t es) = s1"
proof -
  let ?v = "after_log dec (se_events s)" and ?xs = "stage (next_seq s) r t es"
  have log: "validate_log dec (se_revision s) (se_events s) = Inr ()" using ok by (simp add: session_ok_def)
  note v = valid_after_log [OF log]
  have "r \<noteq> 0" using room checked_add_unat by fastforce
  from validate_staged [OF this _ run ne, of t] v room
  have new: "validate_events dec (se_events s @ ?xs) (next_seq s) ?v ?xs = Inr s1 \<and> v_revision s1 = r" by simp
  have "next_revision_differs (se_events s) ?xs"
    by (rule next_revision_fresh [OF log room]) (auto dest: set_stage)
  from validate_events_extend [OF this, of "[]" "se_events s" dec init_vstate]
  have "validate_events dec (se_events s @ ?xs) 0 init_vstate (se_events s) = Inr ?v" using v by simp
  with new have whole: "validate_events dec (se_events s @ ?xs) 0 init_vstate (se_events s @ ?xs) = Inr s1"
    by (simp add: validate_events_append next_seq_def)
  then show "after_log dec (se_events s @ ?xs) = s1" by (rule after_logI)
  from whole new opened check_open_calls_seq [of 0 s1 "le_seq (last (se_events s @ ?xs))"]
  have "validate_log dec r (se_events s @ ?xs) = Inr ()" by (auto simp: validate_log_iff)
  with room ne show "\<exists>rc. append_batch_at dec s (se_revision s) es t =
      (s\<lparr>se_events := se_events s @ ?xs, se_revision := r\<rparr>, Inr rc)"
    by (simp add: append_batch_at_def Let_def)
qed

text \<open>Property C4. Validation of an append is incremental: although \<open>append_batch_at\<close> revalidates the whole
  log, the outcome, error included, is that of continuing from the state reached on the old log
  over the staged events alone, so an append never fails for something the log already holds.\<close>

theorem append_is_incremental:
  assumes "session_ok dec s" and "checked_add (se_revision s) 1 = Some r" and "es \<noteq> []"
  shows "validate_log dec r (se_events s @ stage (next_seq s) r t es) =
    and_then (validate_events dec (se_events s @ stage (next_seq s) r t es) (next_seq s)
                (after_log dec (se_events s)) (stage (next_seq s) r t es)) (\<lambda>s1.
    and_then (check_open_calls (next_seq s + (length es - 1)) s1) (\<lambda>_.
    ensure (v_revision s1 \<noteq> r) (LoggedRevisionMismatch (next_seq s + (length es - 1)) r (v_revision s1))))"
proof -
  let ?xs = "stage (next_seq s) r t es"
  have ok: "validate_log dec (se_revision s) (se_events s) = Inr ()"
    using assms(1) by (simp add: session_ok_def)
  have "next_revision_differs (se_events s) ?xs"
    by (rule next_revision_fresh [OF ok assms(2)]) (auto dest: set_stage)
  from validate_events_extend [OF this, of "[]" "se_events s" dec init_vstate] valid_after_log [OF ok]
  have "validate_events dec (se_events s @ ?xs) 0 init_vstate (se_events s) = Inr (after_log dec (se_events s))"
    by simp
  then show ?thesis
    using assms(3) last_stage [OF assms(3), of "next_seq s" r t]
    by (simp add: validate_log_def validate_events_append next_seq_def cong del: ensure_cong)
qed

subsection \<open>Histories\<close>

text \<open>The sessions a program can hold that starts from a new session and appends batches.\<close>

inductive appended :: "(string \<Rightarrow> string + ask_request) \<Rightarrow> session \<Rightarrow> bool" for dec where
  fresh: "new_session h = Inr s \<Longrightarrow> appended dec s"
| batch: "appended dec s \<Longrightarrow> append_batch_at dec s expected es t = (s', res) \<Longrightarrow> appended dec s'"

text \<open>The log as it stood at revision \<open>r\<close>.\<close>

definition cut_at :: "revision \<Rightarrow> session \<Rightarrow> session" where
  "cut_at r s = s\<lparr>se_revision := r, se_events := takeWhile (\<lambda>l. le_revision l \<le> r) (se_events s)\<rparr>"

lemma appended_ok: "appended dec s \<Longrightarrow> session_ok dec s"
  by (induction rule: appended.induct) (auto intro: new_session_ok append_batch_ok)

lemma revisions_bounded:
  assumes "session_ok dec s" and "l \<in> set (se_events s)"
  shows "le_revision l \<le> se_revision s"
proof -
  have le: "x \<le> y" if "x = y \<or> checked_add x 1 = Some y" for x y :: revision
    using that by (auto simp: word_le_nat_alt dest!: checked_add_unat)
  have "\<forall>x\<in>set xs. x \<le> last xs" if "revisions_from r xs" for r and xs :: "revision list"
    using that
  proof (induction xs rule: rev_induct)
    case (snoc x xs)
    then show ?case
      using le [of "last xs" x] by (auto simp: revisions_from_snoc split: if_splits intro: order_trans)
  qed simp
  from this [of 0 "map le_revision (se_events s)"]
  have "se_events s \<noteq> [] \<and> revisions_from 0 (map le_revision (se_events s)) \<longrightarrow>
      le_revision l \<le> le_revision (last (se_events s))"
    using assms(2) by (auto simp: last_map)
  moreover have "revisions_from 0 (map le_revision (se_events s)) \<and>
      se_revision s = (if se_events s = [] then 0 else le_revision (last (se_events s)))"
    using assms(1) unfolding session_ok_def
    by (elim conjE coordinates.at_end) (auto simp: coordinates_ok_def)
  ultimately show ?thesis using assms(2) by (cases "se_events s = []") (auto simp: last_map)
qed

lemma cut_at_appended:
  "appended dec s \<Longrightarrow> r \<le> se_revision s \<Longrightarrow> session_ok dec (cut_at r s) \<and> prefix (se_events (cut_at r s)) (se_events s)"
proof (induction rule: appended.induct)
  case (fresh h s)
  then have "cut_at r s = s" by (auto simp: new_session_def cut_at_def)
  with fresh show ?case by (simp add: new_session_ok)
next
  case (batch s expected es t s' res)
  note ok = appended_ok [OF batch.hyps(1)]
  from append_batch_cases [OF batch.hyps(2)] show ?case
  proof (elim disjE exE conjE)
    fix r' assume s': "s' = s\<lparr>se_events := se_events s @ stage (next_seq s) r' t es, se_revision := r'\<rparr>"
      and add: "checked_add (se_revision s) 1 = Some r'"
    show ?thesis
    proof (cases "r = r'")
      case True
      have "session_ok dec s'" using ok batch.hyps(2) by (rule append_batch_ok)
      moreover from this True s' have "cut_at r s' = s'"
        using revisions_bounded [of dec s'] by (auto simp: cut_at_def takeWhile_eq_all_conv)
      ultimately show ?thesis by simp
    next
      case False
      with batch.prems s' have lt: "r < r'" by simp
      moreover from this have "unat r < unat r'" by (simp add: word_less_nat_alt)
      ultimately have le: "r \<le> se_revision s"
        using checked_add_unat [OF add] by (simp add: word_le_nat_alt)
      have "takeWhile (\<lambda>l. le_revision l \<le> r) (stage (next_seq s) r' t es) = []"
        using lt by (cases "es = []") (auto simp: takeWhile_eq_Nil_iff hd_conv_nth not_le)
      then have "takeWhile (\<lambda>l. le_revision l \<le> r) (se_events s @ stage (next_seq s) r' t es) =
          takeWhile (\<lambda>l. le_revision l \<le> r) (se_events s)"
        by (cases "\<forall>l\<in>set (se_events s). le_revision l \<le> r") (auto simp: takeWhile_append takeWhile_eq_all_conv [THEN iffD2])
      with batch.IH [OF le] s' show ?thesis by (auto simp: cut_at_def)
    qed
  qed (use batch.IH batch.prems in auto)
qed

text \<open>Property C3. Every point of an appended session's history is itself a session: cutting the log at any
  revision it passed through gives a prefix that restores under the append rules.\<close>

theorem history_is_restorable:
  assumes "appended dec s" and "r \<le> se_revision s"
  shows "restore dec (se_header s) r (se_events (cut_at r s)) = Inr (cut_at r s) \<and>
    prefix (se_events (cut_at r s)) (se_events s)"
  using cut_at_appended [OF assms] by (auto simp: restore_def session_ok_def cut_at_def)

subsection \<open>An example session\<close>

definition no_questions :: "string \<Rightarrow> string + ask_request" where
  "no_questions arguments = Inl ''not a question''"

definition example_call :: tool_call where
  "example_call = \<lparr>tc_id = ''c1'', tc_provider_call_id = Some ''p1'', tc_index = 0, tc_name = ''read'', tc_arguments_json = ''{}''\<rparr>"

definition example_reply :: message where
  "example_reply = (assistant_message ''ok'')\<lparr>msg_tool_calls := [example_call]\<rparr>"

definition example_result :: tool_result_data where
  "example_result = \<lparr>tr_call_id = ''c1'', tr_outcome = ToolSuccess, tr_content = ''text'', tr_metadata = None\<rparr>"

definition example_events :: "event_data list" where
  "example_events =
     [AgentInboxSpliced NextTurn 0 0 [inbox_user ''m1'' ''hello''] None,
      TurnStart 1, AgentInboxSpliced NextTurn 0 1 [] None,
      UserMessage (with_id (user_message ''hello'') ''m1'') None,
      StepStart 1 1, AssistantMessage 1 1 example_reply None, ToolCall 1 1 example_call,
      ToolResult 1 1 example_result, StepEnd 1 1, TurnEnd 1 TurnCompleted]"

definition example_start :: session where
  "example_start = \<lparr>se_header = new_header ''s'' 0, se_revision = 0, se_events = []\<rparr>"

definition example_session :: session where
  "example_session = example_start\<lparr>se_events := stage 0 1 7 example_events, se_revision := 1\<rparr>"

text \<open>Running the validator on a concrete log.\<close>

lemmas run_validator =
  validate_log_iff stage_def init_vstate_def check_logged_accepts accepts check_open_calls_def
  checked_add_def ensure_calls_mirrored_def inbox_of_def set_inbox_def other_target_def usize_max_def
  call_fields_ok_def expected_call_def step_coords_def splice_def check_question_result_def
  ASK_USER_QUESTION_TOOL_def inbox_user_def user_message_def new_message_def with_id_def
  assistant_message_def

lemmas example_defs = example_events_def example_call_def example_reply_def example_result_def

lemma example_valid: "validate_log no_questions 1 (stage 0 1 7 example_events) = Inr ()"
  by (simp add: run_validator example_defs)

text \<open>A valid log numbers its events by position, and its revisions start at one and grow by at
  most one from event to event, ending in the session's revision.\<close>

theorem valid_log_coordinates:
  assumes "validate_log dec rv evs = Inr ()"
  shows "positioned evs \<and> revisions_from 0 (map le_revision evs) \<and>
    rv = (if evs = [] then 0 else le_revision (last evs))"
  using assms by (rule coordinates.at_end) (auto simp: coordinates_ok_def)

theorem valid_log_coordinates_witness:
  "positioned (stage 0 1 7 example_events) \<and> length (stage 0 1 7 example_events) = 10"
  using valid_log_coordinates [OF example_valid] by (simp add: stage_def example_events_def)

lemma example_start_ok: "new_session (new_header ''s'' 0) = Inr example_start"
  by (simp add: new_session_def validate_header_def new_header_def example_start_def FORMAT_VERSION_def)

lemma example_append: "\<exists>receipt. append_batch_at no_questions example_start 0 example_events 7 = (example_session, Inr receipt)"
proof -
  have "example_events \<noteq> []" by (simp add: example_events_def)
  moreover have "checked_add (0 :: revision) 1 = Some 1" by (simp add: checked_add_def)
  ultimately show ?thesis
    by (simp add: append_batch_at_def example_start_def example_session_def next_seq_def example_valid Let_def)
qed

lemma example_appended: "appended no_questions example_session"
  using appended.batch [OF appended.fresh [OF example_start_ok]] example_append by blast

lemma example_session_ok: "session_ok no_questions example_session"
  using example_appended by (rule appended_ok)

theorem append_batch_atomic_witness:
  "\<exists>receipt. append_batch_at no_questions example_start 0 example_events 7 = (example_session, Inr receipt) \<and>
     map le_seq (ap_events receipt) = [0 ..< 10]"
proof -
  obtain receipt where run: "append_batch_at no_questions example_start 0 example_events 7 = (example_session, Inr receipt)"
    using example_append by blast
  have "next_seq example_start = 0" "next_seq example_session = 10"
    by (simp_all add: next_seq_def example_start_def example_session_def example_events_def)
  with append_batch_atomic [OF run] run show ?thesis by auto
qed

theorem session_invariant_witness:
  "session_ok no_questions (fst (append_batch_at no_questions example_session 1 [TurnStart 2] 9))"
  using session_invariant [of no_questions] example_session_ok by blast

theorem append_is_incremental_witness:
  "validate_log no_questions 2 (se_events example_session @ stage 10 2 9 [TurnStart 3]) =
    and_then (validate_events no_questions (se_events example_session @ stage 10 2 9 [TurnStart 3]) 10
                (after_log no_questions (se_events example_session)) (stage 10 2 9 [TurnStart 3])) (\<lambda>s1.
    and_then (check_open_calls 10 s1) (\<lambda>_.
    ensure (v_revision s1 \<noteq> 2) (LoggedRevisionMismatch 10 2 (v_revision s1))))"
proof -
  have "checked_add (se_revision example_session) 1 = Some 2"
    by (simp add: example_session_def checked_add_def)
  moreover have "next_seq example_session = 10"
    by (simp add: next_seq_def example_session_def example_events_def)
  ultimately show ?thesis
    using append_is_incremental [OF example_session_ok, of 2 "[TurnStart 3]" 9]
    by (simp cong del: ensure_cong)
qed

theorem history_is_restorable_witness:
  "restore no_questions (se_header example_session) 0 [] = Inr (cut_at 0 example_session) \<and>
     se_events (cut_at 0 example_session) = []"
  using history_is_restorable [OF example_appended, of 0]
  by (simp add: cut_at_def example_session_def stage_def example_events_def)

subsection \<open>Restoration is weaker than appending\<close>

definition split_events :: "logged_event list" where
  "split_events =
     stage 0 1 0 [TurnStart 1, StepStart 1 1, AssistantMessage 1 1 example_reply None] @
     stage 3 2 0 [ToolCall 1 1 example_call]"

text \<open>Property C36. \<open>Session::restore\<close> is documented to recheck every append invariant, and it accepts a log no
  sequence of appends can produce: an assistant message whose tool-call audit arrives only in the
  following revision.  The missing check is the one a batch ends with, that all calls of an open
  step are mirrored, which restoration makes at the last revision only.\<close>

theorem restore_accepts_unappendable:
  "\<exists>s. restore no_questions (new_header ''s'' 0) 2 split_events = Inr s \<and> \<not> appended no_questions s"
proof -
  let ?s = "\<lparr>se_header = new_header ''s'' 0, se_revision = 2, se_events = split_events\<rparr>"
  have "validate_log no_questions 2 split_events = Inr ()"
    by (simp add: split_events_def run_validator example_defs)
  then have "restore no_questions (new_header ''s'' 0) 2 split_events = Inr ?s"
    by (simp add: restore_def validate_header_def new_header_def FORMAT_VERSION_def)
  moreover have "\<not> appended no_questions ?s"
  proof
    assume "appended no_questions ?s"
    from cut_at_appended [OF this, of 1]
    have "validate_log no_questions 1 (takeWhile (\<lambda>l. le_revision l \<le> 1) split_events) = Inr ()"
      by (simp add: session_ok_def cut_at_def)
    moreover have "\<not> (2 :: revision) \<le> 1" by (simp add: word_le_nat_alt)
    ultimately show False
      by (simp add: split_events_def run_validator example_defs)
  qed
  ultimately show ?thesis by blast
qed

end
