(* ===== verification/Log_Turns.thy ===== *)
theory Log_Turns
  imports Session_Log
begin

text \<open>
  Turn and step structure of valid logs: turns are numbered from one without gaps, steps within a
  turn likewise, each is closed before the next opens, and conversation events happen where the
  lifecycle allows them.
\<close>

fun turn_started :: "event_data \<Rightarrow> u32 option" where
  "turn_started (TurnStart t) = Some t" | "turn_started _ = None"

fun turn_ended :: "event_data \<Rightarrow> u32 option" where
  "turn_ended (TurnEnd t _) = Some t" | "turn_ended _ = None"

fun step_started :: "event_data \<Rightarrow> (u32 \<times> u32) option" where
  "step_started (StepStart t k) = Some (t, k)" | "step_started _ = None"

fun step_ended :: "event_data \<Rightarrow> (u32 \<times> u32) option" where
  "step_ended (StepEnd t k) = Some (t, k)" | "step_ended _ = None"

definition events_where :: "(event_data \<Rightarrow> 'a option) \<Rightarrow> logged_event list \<Rightarrow> 'a list" where
  "events_where f es = filter_map (\<lambda>l. f (le_event l)) es"

definition opt_list :: "'a option \<Rightarrow> 'a list" where
  "opt_list x = (case x of None \<Rightarrow> [] | Some y \<Rightarrow> [y])"

lemma opt_list_simps [simp]: "opt_list None = []" "opt_list (Some x) = [x]"
  by (simp_all add: opt_list_def)

lemma events_where_simps [simp]:
  "events_where f [] = []"
  "events_where f (l # es) = opt_list (f (le_event l)) @ events_where f es"
  by (auto simp: events_where_def List.map_filter_simps split: option.splits)

lemma events_where_append [simp]: "events_where f (es @ ys) = events_where f es @ events_where f ys"
  by (simp add: events_where_def List.map_filter_def)

lemma set_events_where: "set (events_where f es) = {x. \<exists>l\<in>set es. f (le_event l) = Some x}"
  by (simp add: events_where_def)

abbreviation "turn_starts \<equiv> events_where turn_started"
abbreviation "turn_ends \<equiv> events_where turn_ended"
abbreviation "step_starts \<equiv> events_where step_started"
abbreviation "step_ends \<equiv> events_where step_ended"

text \<open>What an accepted event does to the lifecycle part of the state.\<close>

fun lifecycle_effect ::
  "event_data \<Rightarrow> u32 option \<times> u32 \<times> u32 \<times> (u32 \<times> u32) option \<Rightarrow> u32 option \<times> u32 \<times> u32 \<times> (u32 \<times> u32) option" where
  "lifecycle_effect (TurnStart t) (ot, lt, ls, os) = (Some t, t, 0, os)"
| "lifecycle_effect (TurnEnd t _) (ot, lt, ls, os) = (None, lt, ls, os)"
| "lifecycle_effect (StepStart t k) (ot, lt, ls, os) = (ot, lt, k, Some (t, k))"
| "lifecycle_effect (StepEnd t k) (ot, lt, ls, os) = (ot, lt, ls, None)"
| "lifecycle_effect _ x = x"

definition lifecycle :: "vstate \<Rightarrow> u32 option \<times> u32 \<times> u32 \<times> (u32 \<times> u32) option" where
  "lifecycle s = (v_open_turn s, v_last_turn s, v_last_step s, step_coords s)"

lemmas handler_frames =
  set_inbox_def set_question_def schedule_retry_accepts check_surface_replace_accepts
  on_goal_create_accepts on_goal_mutation_accepts Let_def

lemma check_data_lifecycle:
  assumes "check_data dec evs pos seq rv e s = Inr s'"
  shows "lifecycle s' = lifecycle_effect e (lifecycle s)"
  using assms
  by (cases e)
    (auto simp: lifecycle_def step_coords_def accepts handler_frames
      split: goal_change.splits schedule_change.splits inbox_target.splits option.splits if_splits
      dest!: on_session_title_accepts)

definition numbered :: "u32 list \<Rightarrow> bool" where
  "numbered xs \<longleftrightarrow> map unat xs = [1 ..< Suc (length xs)]"

lemma numbered_snoc:
  "numbered (xs @ [x]) \<longleftrightarrow> numbered xs \<and> unat x = Suc (length xs)"
  by (auto simp: numbered_def)

lemma numbered_Nil [simp]: "numbered []"
  by (simp add: numbered_def)

text \<open>The invariant on the turns and steps started and ended so far and the lifecycle state.\<close>

fun turns_inv ::
  "u32 list \<Rightarrow> u32 list \<Rightarrow> (u32 \<times> u32) list \<Rightarrow> (u32 \<times> u32) list \<Rightarrow>
     u32 option \<times> u32 \<times> u32 \<times> (u32 \<times> u32) option \<Rightarrow> bool" where
  "turns_inv ts te ss se (ot, lt, ls, os) \<longleftrightarrow>
     numbered ts \<and> unat lt = length ts \<and> ts = te @ opt_list ot \<and> ss = se @ opt_list os \<and>
     (\<forall>t k. os = Some (t, k) \<longrightarrow> ot = Some t) \<and> (\<forall>t. ot = Some t \<longrightarrow> lt = t) \<and>
     (\<forall>t. numbered (map snd (filter (\<lambda>p. fst p = t) ss))) \<and>
     unat ls = length (filter (\<lambda>p. fst p = lt) ss) \<and> (\<forall>p\<in>set ss. unat (fst p) \<le> length ts)"

definition turns_ok :: "logged_event list \<Rightarrow> vstate \<Rightarrow> bool" where
  "turns_ok es s \<longleftrightarrow>
     turns_inv (turn_starts es) (turn_ends es) (step_starts es) (step_ends es) (lifecycle s)"

lemma turns_inv_start_turn:
  assumes "turns_inv ts te ss se (None, lt, ls, None)" and "checked_add lt 1 = Some t"
  shows "turns_inv (ts @ [t]) te ss se (Some t, t, 0, None)"
proof -
  have t: "unat t = Suc (length ts)" using assms by (auto dest!: checked_add_unat)
  then have "filter (\<lambda>p. fst p = t) ss = []" using assms(1) by (fastforce simp: filter_empty_conv)
  with assms(1) t show ?thesis by (auto simp: numbered_snoc le_Suc_eq)
qed

lemma turns_inv_end_turn:
  "turns_inv ts te ss se (Some t, lt, ls, None) \<Longrightarrow> turns_inv ts (te @ [t]) ss se (None, lt, ls, None)"
  by auto

lemma turns_inv_start_step:
  "turns_inv ts te ss se (Some t, lt, ls, None) \<Longrightarrow> checked_add ls 1 = Some k \<Longrightarrow>
     turns_inv ts te (ss @ [(t, k)]) se (Some t, lt, k, Some (t, k))"
  by (auto simp: numbered_snoc dest!: checked_add_unat)

lemma turns_inv_end_step:
  "turns_inv ts te ss se (ot, lt, ls, Some p) \<Longrightarrow> turns_inv ts te ss (se @ [p]) (ot, lt, ls, None)"
  unfolding turns_inv.simps by (elim conjE, intro conjI) simp_all

declare turns_inv.simps [simp del]

text \<open>Events other than the four boundaries leave the lifecycle, and the four projections, alone.\<close>

fun is_boundary :: "event_data \<Rightarrow> bool" where
  "is_boundary (TurnStart _) = True" | "is_boundary (TurnEnd _ _) = True"
| "is_boundary (StepStart _ _) = True" | "is_boundary (StepEnd _ _) = True" | "is_boundary _ = False"

lemma not_boundary:
  "\<not> is_boundary e \<Longrightarrow> lifecycle_effect e x = x \<and> turn_started e = None \<and> turn_ended e = None \<and>
     step_started e = None \<and> step_ended e = None"
  by (cases e; cases x) simp_all

lemma turns_ok_cong:
  "lifecycle s' = lifecycle s \<Longrightarrow> turns_ok es s' = turns_ok es s"
  by (simp add: turns_ok_def)

interpretation turns: event_invariant "\<lambda>_. turns_ok"
proof
  show "turns_ok [] init_vstate"
    by (simp add: turns_ok_def init_vstate_def lifecycle_def step_coords_def turns_inv.simps)
next
  fix es s r
  show "turns_ok es (s\<lparr>v_revision := r\<rparr>) = turns_ok es s"
    by (rule turns_ok_cong) (simp add: lifecycle_def step_coords_def)
next
  fix dec es s and l :: logged_event and evs s'
  assume J: "turns_ok es s"
    and check: "check_data dec evs (length es) (length es) (le_revision l) (le_event l) s = Inr s'"
  note eff = check_data_lifecycle [OF check]
  show "turns_ok (es @ [l]) s'"
  proof (cases "is_boundary (le_event l)")
    case False
    note same = not_boundary [OF False]
    have view: "turn_starts (es @ [l]) = turn_starts es" "turn_ends (es @ [l]) = turn_ends es"
      "step_starts (es @ [l]) = step_starts es" "step_ends (es @ [l]) = step_ends es"
      by (simp_all add: same)
    have "turns_ok (es @ [l]) s" using J unfolding turns_ok_def view .
    with eff same show ?thesis by (simp add: turns_ok_cong [of s' s])
  next
    case True
    then show ?thesis
    proof (cases "le_event l")
      case (TurnStart t)
      with check have "lifecycle s = (None, v_last_turn s, v_last_step s, None)"
        and "checked_add (v_last_turn s) 1 = Some t"
        by (auto simp: accepts lifecycle_def step_coords_def)
      with J eff TurnStart turns_inv_start_turn show ?thesis by (simp add: turns_ok_def)
    next
      case (TurnEnd t reason)
      with check have "lifecycle s = (Some t, v_last_turn s, v_last_step s, None)"
        by (auto simp: accepts lifecycle_def step_coords_def)
      with J eff TurnEnd turns_inv_end_turn show ?thesis by (simp add: turns_ok_def)
    next
      case (StepStart t k)
      with check have "lifecycle s = (Some t, v_last_turn s, v_last_step s, None)"
        and "checked_add (v_last_step s) 1 = Some k"
        by (auto simp: accepts lifecycle_def step_coords_def)
      with J eff StepStart turns_inv_start_step show ?thesis by (simp add: turns_ok_def)
    next
      case (StepEnd t k)
      with check have "lifecycle s = (v_open_turn s, v_last_turn s, v_last_step s, Some (t, k))"
        by (auto simp: accepts lifecycle_def)
      with J eff StepEnd turns_inv_end_step show ?thesis by (simp add: turns_ok_def)
    qed simp_all
  qed
qed

text \<open>Property C29. Turns of a valid log are numbered 1, 2, 3 and so on, and the steps of each turn likewise,
  without wrapping; every turn and every step is ended in the order it was started, all but at most
  the last of each.\<close>

theorem turn_structure:
  assumes "validate_log dec rv evs = Inr ()"
  shows "numbered (turn_starts evs) \<and>
    (\<forall>t. numbered (map snd (filter (\<lambda>p. fst p = t) (step_starts evs)))) \<and>
    (\<exists>open_turn open_step. turn_starts evs = turn_ends evs @ opt_list open_turn \<and>
       step_starts evs = step_ends evs @ opt_list open_step \<and>
       (\<forall>t k. open_step = Some (t, k) \<longrightarrow> open_turn = Some t))"
  using assms by (rule turns.at_end) (auto simp: turns_ok_def lifecycle_def turns_inv.simps)

theorem turn_structure_witness:
  "numbered (turn_starts (stage 0 1 7 example_events)) \<and> turn_starts (stage 0 1 7 example_events) = [1]"
  using turn_structure [OF example_valid]
  by (simp add: stage_def example_events_def events_where_def List.map_filter_simps)

text \<open>Conversation events sit where the lifecycle allows them: a plain user message only inside a
  turn between its steps, and assistant output, provider requests and tool calls only inside the
  step they name.\<close>

theorem events_inside_lifecycle:
  assumes "validate_log dec rv (xs @ l # ys) = Inr ()"
  shows "case le_event l of
      UserMessage m None \<Rightarrow> step_starts xs = step_ends xs \<and> (\<exists>t. turn_starts xs = turn_ends xs @ [t])
    | AssistantMessage t k m u \<Rightarrow> step_starts xs = step_ends xs @ [(t, k)] \<and> turn_starts xs = turn_ends xs @ [t]
    | AssistantChunk t k c \<Rightarrow> step_starts xs = step_ends xs @ [(t, k)]
    | ToolCall t k c \<Rightarrow> step_starts xs = step_ends xs @ [(t, k)]
    | RequestHeader h \<Rightarrow> \<exists>t k. step_starts xs = step_ends xs @ [(t, k)]
    | TurnEnd t r \<Rightarrow> step_starts xs = step_ends xs \<and> turn_starts xs = turn_ends xs @ [t]
    | SessionEndSeed \<Rightarrow> step_starts xs = step_ends xs \<and> turn_starts xs = turn_ends xs
    | _ \<Rightarrow> True"
  using assms
proof (rule turns.at_data)
  fix s0 s'
  assume J0: "turns_ok xs s0"
    and data: "check_data dec (xs @ l # ys) (length xs) (length xs) (le_revision l) (le_event l) s0 = Inr s'"
  from J0 have "turn_starts xs = turn_ends xs @ opt_list (v_open_turn s0)"
    "step_starts xs = step_ends xs @ opt_list (step_coords s0)"
    "\<And>t k. step_coords s0 = Some (t, k) \<Longrightarrow> v_open_turn s0 = Some t"
    by (auto simp: turns_ok_def lifecycle_def turns_inv.simps)
  with data show ?thesis
    by (cases "le_event l") (auto simp: accepts step_coords_def split: option.splits)
qed

theorem events_inside_lifecycle_witness:
  "step_starts (stage 0 1 7 (take 6 example_events)) = step_ends (stage 0 1 7 (take 6 example_events)) @ [(1, 1)]"
proof -
  let ?l = "\<lparr>le_seq = 6, le_revision = 1, le_timestamp_ms = 7, le_event = ToolCall 1 1 example_call\<rparr>"
  have "stage 0 1 7 example_events =
      stage 0 1 7 (take 6 example_events) @ ?l # stage 7 1 7 (drop 7 example_events)"
    by (simp add: stage_def example_events_def)
  with example_valid show ?thesis
    using events_inside_lifecycle [of no_questions 1 "stage 0 1 7 (take 6 example_events)" ?l] by simp
qed

end
