(* ===== verification/Log_Calls.thy ===== *)
theory Log_Calls
  imports Log_Turns
begin

text \<open>
  Tool calls and results in valid logs: the audit events are exactly the calls the assistant
  messages declare, call identities are never reused, and every result settles one earlier call of
  its own step, at most once.
\<close>

fun tool_called :: "event_data \<Rightarrow> (u32 \<times> u32 \<times> tool_call) option" where
  "tool_called (ToolCall t k c) = Some (t, k, c)" | "tool_called _ = None"

fun tool_settled :: "event_data \<Rightarrow> (u32 \<times> u32 \<times> tool_result_data) option" where
  "tool_settled (ToolResult t k r) = Some (t, k, r)" | "tool_settled _ = None"

fun assistant_said :: "event_data \<Rightarrow> (u32 \<times> u32 \<times> message) option" where
  "assistant_said (AssistantMessage t k m _) = Some (t, k, m)" | "assistant_said _ = None"

abbreviation "tool_calls \<equiv> events_where tool_called"
abbreviation "tool_results \<equiv> events_where tool_settled"
abbreviation "assistant_messages \<equiv> events_where assistant_said"

definition call_ids :: "logged_event list \<Rightarrow> string list" where
  "call_ids es = map (\<lambda>(t, k, c). tc_id c) (tool_calls es)"

definition result_ids :: "logged_event list \<Rightarrow> string list" where
  "result_ids es = map (\<lambda>(t, k, r). tr_call_id r) (tool_results es)"

text \<open>The calls the assistant messages declare, with their coordinates.\<close>

definition declared_calls :: "logged_event list \<Rightarrow> (u32 \<times> u32 \<times> tool_call) list" where
  "declared_calls es =
     concat (map (\<lambda>(t, k, m). map (\<lambda>c. (t, k, c)) (msg_tool_calls m)) (assistant_messages es))"

subsection \<open>Settlement\<close>

fun calls_effect ::
  "event_data \<Rightarrow> (string \<rightharpoonup> bool \<times> u32 \<times> u32) \<Rightarrow> (string \<rightharpoonup> bool \<times> u32 \<times> u32)" where
  "calls_effect (ToolCall t k c) m = m(tc_id c \<mapsto> (False, t, k))"
| "calls_effect (ToolResult t k r) m = m(tr_call_id r \<mapsto> (True, t, k))"
| "calls_effect _ m = m"

lemma check_data_calls:
  assumes "check_data dec evs pos seq rv e s = Inr s'"
  shows "v_calls s' = calls_effect e (v_calls s)"
  using assms
  by (cases e)
    (auto simp: accepts handler_frames
      split: goal_change.splits schedule_change.splits inbox_target.splits option.splits if_splits
      dest!: on_session_title_accepts)

text \<open>What the log says of a call identity: whether it is settled, and where it was made.\<close>

definition call_coords :: "logged_event list \<Rightarrow> (string \<rightharpoonup> u32 \<times> u32)" where
  "call_coords es = map_of (map (\<lambda>(t, k, c). (tc_id c, (t, k))) (tool_calls es))"

definition call_status :: "logged_event list \<Rightarrow> (string \<rightharpoonup> bool \<times> u32 \<times> u32)" where
  "call_status es i = map_option (Pair (i \<in> set (result_ids es))) (call_coords es i)"

definition calls_ok :: "logged_event list \<Rightarrow> vstate \<Rightarrow> bool" where
  "calls_ok es s \<longleftrightarrow>
     distinct (call_ids es) \<and> distinct (result_ids es) \<and> v_calls s = call_status es \<and>
     set (result_ids es) \<subseteq> set (call_ids es)"

lemma dom_call_coords: "call_coords es i = None \<longleftrightarrow> i \<notin> set (call_ids es)"
  by (auto simp: call_coords_def call_ids_def map_of_eq_None_iff image_image split_beta)

lemma call_coords_append: "call_coords (es @ ys) = call_coords ys ++ call_coords es"
  by (simp add: call_coords_def)

lemma call_coords_call: "le_event l = ToolCall t k c \<Longrightarrow> call_coords [l] = [tc_id c \<mapsto> (t, k)]"
  by (simp add: call_coords_def)

lemma call_coords_Some: "call_coords es i = Some (t, k) \<Longrightarrow> \<exists>c. (t, k, c) \<in> set (tool_calls es) \<and> tc_id c = i"
  by (auto simp: call_coords_def dest!: map_of_SomeD)

lemma not_call_event:
  assumes "tool_called e = None" and "tool_settled e = None"
  shows "calls_effect e m = m"
  using assms by (cases e) simp_all

lemma call_ids_snoc [simp]:
  "call_ids (es @ [l]) = call_ids es @ map (\<lambda>(t, k, c). tc_id c) (opt_list (tool_called (le_event l)))"
  "result_ids (es @ [l]) = result_ids es @ map (\<lambda>(t, k, r). tr_call_id r) (opt_list (tool_settled (le_event l)))"
  by (simp_all add: call_ids_def result_ids_def)

lemma calls_ok_call:
  assumes J: "calls_ok es s" and e: "le_event l = ToolCall t k c" and new: "v_calls s (tc_id c) = None"
    and eff: "v_calls s' = (v_calls s)(tc_id c \<mapsto> (False, t, k))"
  shows "calls_ok (es @ [l]) s'"
proof -
  from J new have fresh: "tc_id c \<notin> set (call_ids es)"
    by (simp add: calls_ok_def call_status_def dom_call_coords)
  then have none: "call_coords es (tc_id c) = None" by (simp add: dom_call_coords)
  from J fresh have "tc_id c \<notin> set (result_ids es)" by (auto simp: calls_ok_def)
  with J none have "(v_calls s)(tc_id c \<mapsto> (False, t, k)) = call_status (es @ [l])"
    by (intro ext)
      (auto simp: calls_ok_def call_status_def e call_coords_append call_coords_call map_add_def split: option.splits)
  with J fresh eff show ?thesis by (auto simp: calls_ok_def e)
qed

lemma calls_ok_result:
  assumes J: "calls_ok es s" and e: "le_event l = ToolResult t k r"
    and old: "v_calls s (tr_call_id r) = Some (False, t, k)"
    and eff: "v_calls s' = (v_calls s)(tr_call_id r \<mapsto> (True, t, k))"
  shows "calls_ok (es @ [l]) s'"
proof -
  from J old have coords: "call_coords es (tr_call_id r) = Some (t, k)" "tr_call_id r \<notin> set (result_ids es)"
    by (auto simp: calls_ok_def call_status_def)
  then have "tr_call_id r \<in> set (call_ids es)" using dom_call_coords by (metis option.distinct(1))
  moreover have "(v_calls s)(tr_call_id r \<mapsto> (True, t, k)) = call_status (es @ [l])"
    using J coords by (intro ext) (auto simp: calls_ok_def call_status_def e call_coords_def)
  ultimately show ?thesis using J coords eff by (auto simp: calls_ok_def e)
qed

interpretation calls: event_invariant "\<lambda>_. calls_ok"
proof
  show "calls_ok [] init_vstate"
    by (simp add: calls_ok_def init_vstate_def call_ids_def result_ids_def call_status_def call_coords_def fun_eq_iff)
next
  fix es s r
  show "calls_ok es (s\<lparr>v_revision := r\<rparr>) = calls_ok es s"
    by (simp add: calls_ok_def)
next
  fix dec es s and l :: logged_event and evs s'
  assume J: "calls_ok es s"
    and check: "check_data dec evs (length es) (length es) (le_revision l) (le_event l) s = Inr s'"
  note eff = check_data_calls [OF check]
  show "calls_ok (es @ [l]) s'"
  proof (cases "tool_called (le_event l) = None \<and> tool_settled (le_event l) = None")
    case True
    with J eff not_call_event show ?thesis
      by (simp add: calls_ok_def call_status_def call_coords_def fun_eq_iff)
  next
    case False
    then show ?thesis
      by (cases "le_event l")
        (use J eff check in \<open>auto simp: accepts intro: calls_ok_call calls_ok_result\<close>)
  qed
qed

text \<open>Property C8. In a valid log no tool-call identity is used twice and no call is settled twice; every
  result comes after the call it names, carries that call's turn and step, and is its first result.\<close>

theorem tool_results_match_calls:
  assumes "validate_log dec rv evs = Inr ()"
  shows "distinct (call_ids evs) \<and> distinct (result_ids evs) \<and>
    (\<forall>xs l ys t k r. evs = xs @ l # ys \<and> le_event l = ToolResult t k r \<longrightarrow>
       (\<exists>c. (t, k, c) \<in> set (tool_calls xs) \<and> tc_id c = tr_call_id r) \<and> tr_call_id r \<notin> set (result_ids xs))"
proof (intro conjI allI impI; (elim conjE)?)
  show "distinct (call_ids evs)" "distinct (result_ids evs)"
    using calls.at_end [OF assms] by (auto simp: calls_ok_def)
  fix xs l ys t k r assume evs: "evs = xs @ l # ys" and e: "le_event l = ToolResult t k r"
  obtain s s' where J: "calls_ok xs s"
    and check: "check_data dec evs (length xs) (length xs) (le_revision l) (le_event l) s = Inr s'"
    using assms unfolding evs by (rule calls.at_data)
  from check have "v_calls s (tr_call_id r) = Some (False, t, k)" by (auto simp: e accepts)
  with J show "\<exists>c. (t, k, c) \<in> set (tool_calls xs) \<and> tc_id c = tr_call_id r" "tr_call_id r \<notin> set (result_ids xs)"
    by (auto simp: calls_ok_def call_status_def dest: call_coords_Some)
qed

theorem tool_results_match_calls_witness:
  "distinct (result_ids (stage 0 1 7 example_events)) \<and> result_ids (stage 0 1 7 example_events) = [''c1'']"
  using tool_results_match_calls [OF example_valid]
  by (simp add: stage_def example_defs result_ids_def events_where_def List.map_filter_simps)

subsection \<open>The audit mirrors the assistant\<close>

type_synonym mirror = "(u32 \<times> u32 \<times> tool_call list option \<times> nat) option"

definition mirror_of :: "vstate \<Rightarrow> mirror" where
  "mirror_of s =
     map_option (\<lambda>st. (st_turn st, st_step st, st_assistant_calls st, st_mirrored_calls st)) (v_open_step s)"

fun mirror_effect :: "event_data \<Rightarrow> mirror \<Rightarrow> mirror" where
  "mirror_effect (StepStart t k) x = Some (t, k, None, 0)"
| "mirror_effect (StepEnd t k) x = None"
| "mirror_effect (AssistantMessage t k m u) x = map_option (\<lambda>(t, k, _, n). (t, k, Some (msg_tool_calls m), n)) x"
| "mirror_effect (ToolCall t k c) x = map_option (\<lambda>(t, k, cs, n). (t, k, cs, Suc n)) x"
| "mirror_effect _ x = x"

lemma check_data_mirror:
  assumes "check_data dec evs pos seq rv e s = Inr s'"
  shows "mirror_of s' = mirror_effect e (mirror_of s)"
  using assms
  by (cases e)
    (auto simp: mirror_of_def accepts handler_frames
      split: goal_change.splits schedule_change.splits inbox_target.splits option.splits if_splits
      dest!: on_session_title_accepts)

text \<open>The declared calls whose audit event is still to come.\<close>

definition remaining :: "mirror \<Rightarrow> (u32 \<times> u32 \<times> tool_call) list" where
  "remaining x =
     (case x of Some (t, k, Some cs, n) \<Rightarrow> map (\<lambda>c. (t, k, c)) (drop n cs) | _ \<Rightarrow> [])"

lemma check_open_calls_remaining:
  assumes "check_open_calls seq s = Inr ()"
  shows "remaining (mirror_of s) = []"
  using assms
  by (auto simp: check_open_calls_def ensure_calls_mirrored_def remaining_def mirror_of_def
      split: option.splits)

definition mirror_ok :: "logged_event list \<Rightarrow> vstate \<Rightarrow> bool" where
  "mirror_ok es s \<longleftrightarrow>
     declared_calls es = tool_calls es @ remaining (mirror_of s) \<and>
     (\<forall>t k n. mirror_of s = Some (t, k, None, n) \<longrightarrow> n = 0)"

lemma declared_calls_snoc [simp]:
  "declared_calls (es @ [l]) =
     declared_calls es @
     (case assistant_said (le_event l) of None \<Rightarrow> [] | Some (t, k, m) \<Rightarrow> map (\<lambda>c. (t, k, c)) (msg_tool_calls m))"
  by (auto simp: declared_calls_def split: option.splits)

lemma expected_remaining:
  assumes "v_open_step s = Some st" and "expected_call st = Some c"
  shows "remaining (mirror_of s) = (st_turn st, st_step st, c) # remaining (mirror_effect (ToolCall t k c') (mirror_of s))"
  using assms
  by (auto simp: remaining_def mirror_of_def expected_call_def Cons_nth_drop_Suc [symmetric] split: option.splits if_splits)

interpretation mirror: event_invariant "\<lambda>_. mirror_ok"
proof
  show "mirror_ok [] init_vstate"
    by (simp add: mirror_ok_def init_vstate_def mirror_of_def remaining_def declared_calls_def)
next
  fix es s r
  show "mirror_ok es (s\<lparr>v_revision := r\<rparr>) = mirror_ok es s"
    by (simp add: mirror_ok_def mirror_of_def)
next
  fix dec es s and l :: logged_event and evs s'
  assume J: "mirror_ok es s" and all: "is_tool_call (le_event l) \<or> check_open_calls (length es) s = Inr ()"
    and check: "check_data dec evs (length es) (length es) (le_revision l) (le_event l) s = Inr s'"
  note eff = check_data_mirror [OF check]
  show "mirror_ok (es @ [l]) s'"
  proof (cases "le_event l")
    case (ToolCall t k c)
    with check obtain st where "v_open_step s = Some st" "st_turn st = t" "st_step st = k" "expected_call st = Some c"
      by (auto simp: accepts)
    with expected_remaining [of s st c t k c] J eff ToolCall show ?thesis
      by (auto simp: mirror_ok_def mirror_of_def expected_call_def)
  next
    case (AssistantMessage t k m u)
    with check obtain st where "v_open_step s = Some st" "st_turn st = t" "st_step st = k" "st_assistant_calls st = None"
      by (auto simp: accepts)
    then have "mirror_of s = Some (t, k, None, st_mirrored_calls st)" by (simp add: mirror_of_def)
    with J eff AssistantMessage show ?thesis by (auto simp: mirror_ok_def remaining_def)
  next
    case (StepStart t k)
    with all check_open_calls_remaining J eff show ?thesis by (auto simp: mirror_ok_def remaining_def)
  next
    case (StepEnd t k)
    with all check_open_calls_remaining J eff show ?thesis by (auto simp: mirror_ok_def remaining_def)
  qed (use J eff in \<open>simp_all add: mirror_ok_def\<close>)
qed

text \<open>The tool-call audit of a valid log is, in order and with coordinates, exactly the sequence of
  calls its assistant messages declare: none is missing, none is invented, none is altered.\<close>

theorem audit_mirrors_assistant:
  assumes "validate_log dec rv evs = Inr ()"
  shows "tool_calls evs = declared_calls evs"
  using assms
  by (rule mirror.at_end) (auto simp: mirror_ok_def dest: check_open_calls_remaining)

theorem audit_mirrors_assistant_witness:
  "tool_calls (stage 0 1 7 example_events) = declared_calls (stage 0 1 7 example_events) \<and>
     tool_calls (stage 0 1 7 example_events) = [(1, 1, example_call)]"
proof
  show "tool_calls (stage 0 1 7 example_events) = declared_calls (stage 0 1 7 example_events)"
    using example_valid by (rule audit_mirrors_assistant)
qed (simp add: stage_def example_events_def events_where_def List.map_filter_simps)

text \<open>The audit events follow their assistant message at once.\<close>

lemma audit_follows:
  assumes "validate_events dec evs pos s ys = Inr s'" and "check_open_calls seq s' = Inr ()"
    and "mirror_of s = Some (t, k, Some cs, n)" and "n \<le> length cs"
  shows "\<exists>zs ws. ys = zs @ ws \<and> map le_event zs = map (ToolCall t k) (drop n cs)"
  using assms
proof (induction ys arbitrary: pos s n)
  case Nil
  then show ?case by (auto dest: check_open_calls_remaining simp: remaining_def)
next
  case (Cons l ys)
  show ?case
  proof (cases "n = length cs")
    case False
    with Cons.prems have more: "remaining (mirror_of s) \<noteq> []" by (auto simp: remaining_def)
    from Cons.prems(1) obtain s1 where step: "check_logged dec evs pos l s = Inr s1"
      and rest: "validate_events dec evs (Suc pos) s1 ys = Inr s'" by auto
    let ?s = "s\<lparr>v_revision := le_revision l\<rparr>"
    have m: "mirror_of ?s = Some (t, k, Some cs, n)" using Cons.prems(3) by (simp add: mirror_of_def)
    from step more have call: "is_tool_call (le_event l)"
      and data: "check_data dec evs pos pos (le_revision l) (le_event l) ?s = Inr s1"
      by (auto simp: check_logged_accepts dest: check_open_calls_remaining)
    then obtain t' k' c where e: "le_event l = ToolCall t' k' c" by (cases "le_event l") auto
    with data m have "t' = t" "k' = k" "c = cs ! n" "n < length cs"
      by (auto simp: accepts mirror_of_def expected_call_def split: if_splits)
    moreover from check_data_mirror [OF data] m e have "mirror_of s1 = Some (t, k, Some cs, Suc n)" by simp
    then obtain zs ws where "ys = zs @ ws" "map le_event zs = map (ToolCall t k) (drop (Suc n) cs)"
      using Cons.IH [OF rest Cons.prems(2)] \<open>n < length cs\<close> by fastforce
    ultimately show ?thesis
      using e by (intro exI [of _ "l # zs"] exI [of _ ws]) (simp add: Cons_nth_drop_Suc [symmetric])
  qed (intro exI [of _ "[]"] exI [of _ "l # ys"], simp)
qed

text \<open>In a valid log the tool-call audit events of an assistant message follow it immediately, in
  the message's order, before any other event.\<close>

theorem audit_follows_assistant:
  assumes "validate_log dec rv (xs @ l # ys) = Inr ()" and "le_event l = AssistantMessage t k m u"
  shows "\<exists>zs ws. ys = zs @ ws \<and> map le_event zs = map (ToolCall t k) (msg_tool_calls m)"
proof -
  from assms(1) obtain s s0 where s: "validate_events dec (xs @ l # ys) 0 init_vstate xs = Inr s"
    and step: "check_logged dec (xs @ l # ys) (length xs) l s = Inr s0"
    by (rule validate_log_at)
  with assms(1) obtain s' where rest: "validate_events dec (xs @ l # ys) (Suc (length xs)) s0 ys = Inr s'"
    and last: "check_open_calls (le_seq (last (xs @ l # ys))) s' = Inr ()"
    by (auto simp: validate_log_iff validate_events_append)
  from s have "mirror_ok xs s" by (rule mirror.at_prefix) simp
  moreover from step have data: "check_data dec (xs @ l # ys) (length xs) (length xs) (le_revision l) (le_event l)
      (s\<lparr>v_revision := le_revision l\<rparr>) = Inr s0"
    by (simp add: check_logged_accepts)
  moreover from data assms(2) obtain st where "v_open_step s = Some st" "st_turn st = t" "st_step st = k"
      "st_assistant_calls st = None"
    by (auto simp: accepts)
  ultimately have "mirror_of s0 = Some (t, k, Some (msg_tool_calls m), 0)"
    using check_data_mirror [OF data] assms(2) by (auto simp: mirror_ok_def mirror_of_def)
  from audit_follows [OF rest last this] show ?thesis by simp
qed

theorem audit_follows_assistant_witness:
  "\<exists>zs ws. stage 6 1 7 (drop 6 example_events) = zs @ ws \<and>
     map le_event zs = map (ToolCall 1 1) (msg_tool_calls example_reply)"
proof -
  let ?l = "\<lparr>le_seq = 5, le_revision = 1, le_timestamp_ms = 7, le_event = AssistantMessage 1 1 example_reply None\<rparr>"
  have "stage 0 1 7 example_events =
      stage 0 1 7 (take 5 example_events) @ ?l # stage 6 1 7 (drop 6 example_events)"
    by (simp add: stage_def example_events_def)
  with example_valid show ?thesis
    by (intro audit_follows_assistant [of no_questions 1 "stage 0 1 7 (take 5 example_events)" ?l]) simp_all
qed

end
