(* ===== verification/Log_Questions.thy ===== *)
theory Log_Questions
  imports Log_Calls
begin

text \<open>
  User questions in valid logs.  \<open>fold_interactions\<close> is the fold over question events that
  crates/xharness-session/src/recovery.rs performs, in which every \<open>expect\<close> is a possible panic;
  on a valid log it never panics and holds exactly the interactions of the validator.
\<close>

subsection \<open>The fold\<close>

text \<open>One event: \<open>None\<close> is a panic of one of the \<open>expect\<close> calls.\<close>

fun interaction_step ::
  "event_data \<Rightarrow> (string \<times> question_interaction) list \<Rightarrow> (string \<times> question_interaction) list option" where
  "interaction_step (QuestionRequested iv) qs =
     (case new_interaction iv of Inl _ \<Rightarrow> None | Inr x \<Rightarrow> Some (AList.update (qi_interaction_id iv) x qs))"
| "interaction_step (QuestionDraftUpdated i answers) qs =
     (case map_of qs i of None \<Rightarrow> None
      | Some x \<Rightarrow> (case update_draft x answers of (x1, Inl _) \<Rightarrow> None | (x1, Inr _) \<Rightarrow> Some (AList.update i x1 qs)))"
| "interaction_step (QuestionResolved i resolution) qs =
     (case map_of qs i of None \<Rightarrow> None
      | Some x \<Rightarrow>
          (case resolve x (qr_action resolution) (map answer_of_resolved (qr_answers resolution)) of
             (x1, Inl _) \<Rightarrow> None | (x1, Inr _) \<Rightarrow> Some (AList.update i x1 qs)))"
| "interaction_step (QuestionCancelled i reason) qs =
     (case map_of qs i of None \<Rightarrow> None
      | Some x \<Rightarrow> (case cancel x reason of (x1, Inl _) \<Rightarrow> None | (x1, Inr _) \<Rightarrow> Some (AList.update i x1 qs)))"
| "interaction_step _ qs = Some qs"

fun fold_interactions ::
  "logged_event list \<Rightarrow> (string \<times> question_interaction) list \<Rightarrow> (string \<times> question_interaction) list option" where
  "fold_interactions [] qs = Some qs"
| "fold_interactions (l # ls) qs =
     (case interaction_step (le_event l) qs of None \<Rightarrow> None | Some qs1 \<Rightarrow> fold_interactions ls qs1)"

lemma fold_interactions_append:
  "fold_interactions (xs @ ys) qs =
     (case fold_interactions xs qs of None \<Rightarrow> None | Some qs1 \<Rightarrow> fold_interactions ys qs1)"
  by (induction xs arbitrary: qs) (auto split: option.splits)

subsection \<open>Interactions keep their invocation\<close>

lemma update_draft_keeps:
  assumes "update_draft x answers = (x1, Inr d)"
  shows "qx_invocation x1 = qx_invocation x \<and> qx_terminal x = None \<and> qx_terminal x1 = None"
  using assms
  by (auto simp: update_draft_def ensure_pending_def split: option.splits interaction_terminal.splits
      prod.splits sum.splits)

lemma resolve_keeps:
  assumes "resolve x action answers = (x1, Inr res)"
  shows "qx_invocation x1 = qx_invocation x \<and> qx_terminal x1 = Some (TResolved res) \<and>
    (qx_terminal x = None \<or> qx_terminal x = Some (TResolved res))"
proof (cases "qx_terminal x")
  case None
  with assms obtain x0 d where "update_draft x answers = (x0, Inr d)"
    and "x1 = x0\<lparr>qx_terminal := Some (TResolved res)\<rparr>"
    by (auto simp: resolve_def split: prod.splits sum.splits)
  with update_draft_keeps None show ?thesis by fastforce
next
  case (Some t)
  with assms show ?thesis by (cases t) (auto simp: resolve_def split: if_splits)
qed

lemma cancel_keeps:
  assumes "cancel x reason = (x1, Inr u)"
  shows "qx_invocation x1 = qx_invocation x \<and> qx_terminal x1 = Some (TCancelled reason) \<and>
    (qx_terminal x = None \<or> qx_terminal x = Some (TCancelled reason))"
  using assms
  by (auto simp: cancel_def split: option.splits interaction_terminal.splits if_splits)

lemma resolve_wf: "wf_interaction x \<Longrightarrow> wf_interaction (fst (resolve x action answers))"
  using resolve_fst [of x action answers] interaction_invariant_update [of x answers]
  by (auto simp: wf_interaction_def)

lemma cancel_wf: "wf_interaction x \<Longrightarrow> wf_interaction (fst (cancel x reason))"
  by (auto simp: cancel_def wf_interaction_def split: option.splits interaction_terminal.splits)

subsection \<open>What the log says\<close>

fun question_requested :: "event_data \<Rightarrow> question_invocation option" where
  "question_requested (QuestionRequested iv) = Some iv" | "question_requested _ = None"

fun question_resolved :: "event_data \<Rightarrow> (string \<times> question_resolution) option" where
  "question_resolved (QuestionResolved i res) = Some (i, res)" | "question_resolved _ = None"

fun question_cancelled :: "event_data \<Rightarrow> (string \<times> string) option" where
  "question_cancelled (QuestionCancelled i reason) = Some (i, reason)" | "question_cancelled _ = None"

abbreviation "question_requests \<equiv> events_where question_requested"
abbreviation "question_resolutions \<equiv> events_where question_resolved"
abbreviation "question_cancellations \<equiv> events_where question_cancelled"

text \<open>The call recorded under an identity.\<close>

definition call_of :: "logged_event list \<Rightarrow> (string \<rightharpoonup> tool_call)" where
  "call_of es = map_of (map (\<lambda>(t, k, c). (tc_id c, c)) (tool_calls es))"

definition question_arguments :: "tool_call \<Rightarrow> string option" where
  "question_arguments c = (if tc_name c = ASK_USER_QUESTION_TOOL then Some (tc_arguments_json c) else None)"

text \<open>An interaction's settlement is the event that settled it.\<close>

definition settled_by_log :: "logged_event list \<Rightarrow> string \<Rightarrow> question_interaction \<Rightarrow> bool" where
  "settled_by_log es i x \<longleftrightarrow>
     (\<forall>res. qx_terminal x = Some (TResolved res) \<longleftrightarrow> (i, res) \<in> set (question_resolutions es)) \<and>
     (\<forall>reason. qx_terminal x = Some (TCancelled reason) \<longleftrightarrow> (i, reason) \<in> set (question_cancellations es))"

definition questions_ok :: "logged_event list \<Rightarrow> vstate \<Rightarrow> bool" where
  "questions_ok es s \<longleftrightarrow>
     calls_ok es s \<and>
     v_call_names s = map_option tc_name \<circ> call_of es \<and>
     v_call_arguments s = (\<lambda>i. Option.bind (call_of es i) question_arguments) \<and>
     fold_interactions es [] = Some (v_questions s) \<and>
     map (\<lambda>(i, x). (i, qx_invocation x)) (v_questions s) =
       map (\<lambda>iv. (qi_interaction_id iv, iv)) (question_requests es) \<and>
     distinct (map qi_interaction_id (question_requests es)) \<and>
     v_question_by_call s = map_of (map (\<lambda>iv. (qi_execution_id iv, qi_interaction_id iv)) (question_requests es)) \<and>
     distinct (map qi_execution_id (question_requests es)) \<and>
     (\<forall>(i, x) \<in> set (v_questions s). wf_interaction x \<and> settled_by_log es i x) \<and>
     fst ` set (question_resolutions es) \<union> fst ` set (question_cancellations es) \<subseteq>
       qi_interaction_id ` set (question_requests es)"

subsection \<open>Preservation\<close>

fun is_question_event :: "event_data \<Rightarrow> bool" where
  "is_question_event (QuestionRequested _) = True" | "is_question_event (QuestionDraftUpdated _ _) = True"
| "is_question_event (QuestionResolved _ _) = True" | "is_question_event (QuestionCancelled _ _) = True"
| "is_question_event _ = False"

lemma check_data_questions:
  assumes "check_data dec evs pos seq rv e s = Inr s'"
    and "\<not> is_question_event e" and "\<not> is_tool_call e"
  shows "v_questions s' = v_questions s \<and> v_question_by_call s' = v_question_by_call s \<and>
    v_call_names s' = v_call_names s \<and> v_call_arguments s' = v_call_arguments s"
  using assms
  by (cases e)
    (auto simp: accepts handler_frames
      split: goal_change.splits schedule_change.splits inbox_target.splits option.splits if_splits
      dest!: on_session_title_accepts)

lemma not_question_event:
  assumes "\<not> is_question_event e"
  shows "question_requested e = None \<and> question_resolved e = None \<and> question_cancelled e = None \<and>
    interaction_step e qs = Some qs"
  using assms by (cases e) simp_all

lemma fold_interactions_snoc:
  "fold_interactions es [] = Some qs \<Longrightarrow> fold_interactions (es @ [l]) [] = interaction_step (le_event l) qs"
  by (simp add: fold_interactions_append split: option.splits)

lemma map_update_same:
  "map_of al i = Some x \<Longrightarrow> f x1 = f x \<Longrightarrow>
     map (\<lambda>(k, v). (k, f v)) (AList.update i x1 al) = map (\<lambda>(k, v). (k, f v)) al"
  by (induction al) auto

lemma update_fresh: "i \<notin> fst ` set al \<Longrightarrow> AList.update i x al = al @ [(i, x)]"
  by (induction al) auto

lemma map_add_fresh: "k \<notin> fst ` set al \<Longrightarrow> [k \<mapsto> v] ++ map_of al = (map_of al)(k \<mapsto> v)"
  using map_of_eq_None_iff [of al k] by (auto simp: fun_eq_iff map_add_def split: option.splits)

lemma set_update_distinct:
  "distinct (map fst al) \<Longrightarrow>
     (k, v) \<in> set (AList.update i x al) \<longleftrightarrow> k = i \<and> v = x \<or> k \<noteq> i \<and> (k, v) \<in> set al"
  by (induction al) (auto simp: image_iff)

lemma questions_okD:
  "questions_ok es s \<Longrightarrow> (i, x) \<in> set (v_questions s) \<Longrightarrow> wf_interaction x \<and> settled_by_log es i x"
  by (auto simp: questions_ok_def)

lemma question_keys:
  assumes "questions_ok es s"
  shows "map fst (v_questions s) = map qi_interaction_id (question_requests es)"
    and "distinct (map fst (v_questions s))"
proof -
  have "map fst (v_questions s) = map fst (map (\<lambda>(i, x). (i, qx_invocation x)) (v_questions s))"
    by (simp add: split_beta comp_def)
  also have "\<dots> = map qi_interaction_id (question_requests es)"
    using assms unfolding questions_ok_def by (simp add: comp_def)
  finally show eq: "map fst (v_questions s) = map qi_interaction_id (question_requests es)" .
  show "distinct (map fst (v_questions s))" using assms unfolding eq by (simp add: questions_ok_def)
qed

lemma call_of_call:
  assumes "calls_ok es s" and "le_event l = ToolCall t k c" and "v_calls s (tc_id c) = None"
  shows "call_of (es @ [l]) = (call_of es)(tc_id c \<mapsto> c)" and "call_of es (tc_id c) = None"
proof -
  have "tc_id c \<notin> set (call_ids es)"
    using assms by (simp add: calls_ok_def call_status_def dom_call_coords)
  then show none: "call_of es (tc_id c) = None"
    by (force simp: call_of_def call_ids_def map_of_eq_None_iff)
  then show "call_of (es @ [l]) = (call_of es)(tc_id c \<mapsto> c)"
    using assms(2) by (intro ext) (auto simp: call_of_def map_add_def split: option.splits)
qed

lemma call_of_other: "tool_called (le_event l) = None \<Longrightarrow> call_of (es @ [l]) = call_of es"
  by (simp add: call_of_def)

lemma settled_by_log_other:
  "question_resolved (le_event l) = None \<Longrightarrow> question_cancelled (le_event l) = None \<Longrightarrow>
     settled_by_log (es @ [l]) i x = settled_by_log es i x"
  by (simp add: settled_by_log_def)

lemma settled_resolved:
  assumes "settled_by_log es i x" and "qx_terminal x = None \<or> qx_terminal x = Some (TResolved res)"
    and "qx_terminal x1 = Some (TResolved res)" and "le_event l = QuestionResolved i res"
  shows "settled_by_log (es @ [l]) i x1"
  using assms(2,1,3,4) by (elim disjE; simp add: settled_by_log_def; (metis | blast)?)

lemma settled_cancelled:
  assumes "settled_by_log es i x" and "qx_terminal x = None \<or> qx_terminal x = Some (TCancelled reason)"
    and "qx_terminal x1 = Some (TCancelled reason)" and "le_event l = QuestionCancelled i reason"
  shows "settled_by_log (es @ [l]) i x1"
  using assms(2,1,3,4) by (elim disjE; simp add: settled_by_log_def; (metis | blast)?)

text \<open>An event that only rewrites one interaction.\<close>

lemma questions_ok_rewrite:
  assumes J: "questions_ok es s" and e: "is_question_event (le_event l)" "question_requested (le_event l) = None"
    and old: "map_of (v_questions s) i = Some x" and keep: "qx_invocation x1 = qx_invocation x"
    and s': "s' = set_question i x1 s" and step: "interaction_step (le_event l) (v_questions s) = Some (v_questions s')"
    and wf: "wf_interaction x1" and set1: "settled_by_log (es @ [l]) i x1"
    and others: "\<And>j y. j \<noteq> i \<Longrightarrow> settled_by_log (es @ [l]) j y = settled_by_log es j y"
    and ids: "fst ` set (question_resolutions (es @ [l])) \<union> fst ` set (question_cancellations (es @ [l])) \<subseteq>
      insert i (fst ` set (question_resolutions es) \<union> fst ` set (question_cancellations es))"
    and calls: "calls_ok (es @ [l]) s'"
  shows "questions_ok (es @ [l]) s'"
proof -
  have noc: "tool_called (le_event l) = None" using e(1) by (cases "le_event l") simp_all
  have "i \<in> fst ` set (v_questions s)" using old by (force dest: map_of_SomeD)
  then have "i \<in> qi_interaction_id ` set (question_requests es)"
    using arg_cong [OF question_keys(1) [OF J], of set] by simp
  moreover have "map (\<lambda>(i, x). (i, qx_invocation x)) (v_questions s') = map (\<lambda>(i, x). (i, qx_invocation x)) (v_questions s)"
    using map_update_same [of "v_questions s" i x qx_invocation x1] old keep by (simp add: s' set_question_def)
  moreover have "\<forall>(j, y) \<in> set (v_questions s'). wf_interaction y \<and> settled_by_log (es @ [l]) j y"
    using questions_okD [OF J] wf set1 others question_keys(2) [OF J]
    by (auto simp: s' set_question_def set_update_distinct)
  moreover have "fold_interactions (es @ [l]) [] = Some (v_questions s')"
    using J step by (simp add: fold_interactions_snoc [of es "v_questions s"] questions_ok_def)
  moreover have "fst ` set (question_resolutions (es @ [l])) \<union> fst ` set (question_cancellations (es @ [l])) \<subseteq>
      qi_interaction_id ` set (question_requests (es @ [l]))"
    using J e calculation(1) by (intro subset_trans [OF ids]) (simp add: questions_ok_def)
  ultimately show ?thesis
    using J e calls call_of_other [OF noc] by (simp add: questions_ok_def s' set_question_def)
qed

lemma questions_ok_request:
  assumes J: "questions_ok es s" and e: "le_event l = QuestionRequested iv"
    and new: "v_question_by_call s (qi_execution_id iv) = None" "map_of (v_questions s) (qi_interaction_id iv) = None"
    and x: "new_interaction iv = Inr x"
    and s': "s' = s\<lparr>v_question_by_call := (v_question_by_call s)(qi_execution_id iv \<mapsto> qi_interaction_id iv),
               v_questions := AList.update (qi_interaction_id iv) x (v_questions s)\<rparr>"
    and calls: "calls_ok (es @ [l]) s'"
  shows "questions_ok (es @ [l]) s'"
proof -
  have fresh: "qi_interaction_id iv \<notin> fst ` set (v_questions s)"
    using new(2) by (simp add: map_of_eq_None_iff)
  then have notreq: "qi_interaction_id iv \<notin> qi_interaction_id ` set (question_requests es)"
    using arg_cong [OF question_keys(1) [OF J], of set] by simp
  have notexec: "qi_execution_id iv \<notin> qi_execution_id ` set (question_requests es)"
    using J new(1) by (simp add: questions_ok_def map_of_eq_None_iff image_image)
  have xinv: "qx_invocation x = iv" "qx_terminal x = None" "wf_interaction x"
    using x new_interaction_wf [OF x] by (auto simp: new_interaction_def)
  have qs: "v_questions s' = v_questions s @ [(qi_interaction_id iv, x)]"
    using update_fresh [OF fresh] by (simp add: s')
  have settled: "settled_by_log (es @ [l]) i y = settled_by_log es i y" for i y
    by (rule settled_by_log_other) (simp_all add: e)
  have "qi_interaction_id iv \<notin> fst ` set (question_resolutions es) \<union> fst ` set (question_cancellations es)"
    using J notreq unfolding questions_ok_def by blast
  then have "settled_by_log es (qi_interaction_id iv) x"
    using xinv by (auto simp: settled_by_log_def image_iff)
  then have "\<forall>(j, y) \<in> set (v_questions s'). wf_interaction y \<and> settled_by_log (es @ [l]) j y"
    using questions_okD [OF J] xinv by (auto simp: qs settled)
  moreover have "fold_interactions (es @ [l]) [] = Some (v_questions s')"
    using J x by (simp add: fold_interactions_snoc [of es "v_questions s"] questions_ok_def e s')
  moreover have "v_question_by_call s' =
      map_of (map (\<lambda>iv. (qi_execution_id iv, qi_interaction_id iv)) (question_requests (es @ [l])))"
    using J notexec by (simp add: s' e questions_ok_def map_add_fresh image_image)
  ultimately show ?thesis
    using J calls notreq notexec call_of_other [of l es]
    by (simp add: questions_ok_def e qs xinv) (simp add: s' subset_insertI2)
qed

lemma questions_ok_call:
  assumes J: "questions_ok es s" and e: "le_event l = ToolCall t k c" and new: "v_calls s (tc_id c) = None"
    and s': "v_questions s' = v_questions s" "v_question_by_call s' = v_question_by_call s"
      "v_call_names s' = (v_call_names s)(tc_id c \<mapsto> tc_name c)"
      "v_call_arguments s' = (if tc_name c = ASK_USER_QUESTION_TOOL
         then (v_call_arguments s)(tc_id c \<mapsto> tc_arguments_json c) else v_call_arguments s)"
    and calls: "calls_ok (es @ [l]) s'"
  shows "questions_ok (es @ [l]) s'"
proof -
  have c: "calls_ok es s" using J by (simp add: questions_ok_def)
  note co = call_of_call [OF c e new]
  have names: "v_call_names s' = map_option tc_name \<circ> call_of (es @ [l])"
    using J by (auto simp: s' co questions_ok_def fun_eq_iff)
  have args: "v_call_arguments s' = (\<lambda>i. Option.bind (call_of (es @ [l]) i) question_arguments)"
    using J co(2) by (auto simp: s' co(1) questions_ok_def fun_eq_iff question_arguments_def)
  have "fold_interactions (es @ [l]) [] = Some (v_questions s')"
    using J by (simp add: fold_interactions_snoc [of es "v_questions s"] questions_ok_def e s')
  moreover have "settled_by_log (es @ [l]) i x = settled_by_log es i x" for i x
    by (rule settled_by_log_other) (simp_all add: e)
  ultimately show ?thesis
    using J names args calls by (simp add: questions_ok_def e s'(1,2))
qed

lemma questions_ok_other:
  assumes J: "questions_ok es s" and e: "\<not> is_question_event (le_event l)" "\<not> is_tool_call (le_event l)"
    and s': "v_questions s' = v_questions s" "v_question_by_call s' = v_question_by_call s"
      "v_call_names s' = v_call_names s" "v_call_arguments s' = v_call_arguments s"
    and calls: "calls_ok (es @ [l]) s'"
  shows "questions_ok (es @ [l]) s'"
proof -
  note none = not_question_event [OF e(1)]
  have noc: "tool_called (le_event l) = None" using e(2) by (cases "le_event l") simp_all
  have "fold_interactions (es @ [l]) [] = Some (v_questions s')"
    using J none by (simp add: fold_interactions_snoc [of es "v_questions s"] questions_ok_def s')
  moreover have "settled_by_log (es @ [l]) i x = settled_by_log es i x" for i x
    by (rule settled_by_log_other) (simp_all add: none)
  ultimately show ?thesis
    using J calls call_of_other [OF noc] none by (simp add: questions_ok_def s')
qed

interpretation questions: event_invariant "\<lambda>_. questions_ok"
proof
  show "questions_ok [] init_vstate"
    using calls.event_start by (simp add: questions_ok_def init_vstate_def call_of_def fun_eq_iff)
next
  fix es s r
  show "questions_ok es (s\<lparr>v_revision := r\<rparr>) = questions_ok es s"
    by (simp add: questions_ok_def calls.revision)
next
  fix dec es s and l :: logged_event and evs s'
  assume J: "questions_ok es s" and pre: "prefix (es @ [l]) evs"
    and all: "is_tool_call (le_event l) \<or> check_open_calls (length es) s = Inr ()"
    and check: "check_data dec evs (length es) (length es) (le_revision l) (le_event l) s = Inr s'"
  have calls: "calls_ok (es @ [l]) s'"
    using J by (intro calls.event [OF _ pre all check]) (simp add: questions_ok_def)
  show "questions_ok (es @ [l]) s'"
  proof (cases "is_question_event (le_event l) \<or> is_tool_call (le_event l)")
    case False
    with check_data_questions [OF check] J calls show ?thesis by (auto intro: questions_ok_other)
  next
    case True
    then show ?thesis
    proof (cases "le_event l")
      case (QuestionRequested iv)
      with check J calls show ?thesis by (auto simp: accepts intro: questions_ok_request)
    next
      case (ToolCall t k c)
      with check J calls show ?thesis by (auto simp: accepts intro: questions_ok_call)
    next
      case (QuestionDraftUpdated i answers)
      with check obtain x x1 d where x: "map_of (v_questions s) i = Some x" "update_draft x answers = (x1, Inr d)"
        and s': "s' = set_question i x1 s" by (auto simp: accepts)
      from x(1) have mem: "(i, x) \<in> set (v_questions s)" by (rule map_of_SomeD)
      show ?thesis
        by (rule questions_ok_rewrite [OF J _ _ x(1) _ s' _ _ _ _ _ calls])
          (use QuestionDraftUpdated x update_draft_keeps [OF x(2)] questions_okD [OF J mem]
             interaction_invariant_update [of x answers] in \<open>auto simp: s' set_question_def settled_by_log_def\<close>)
    next
      case (QuestionResolved i res)
      with check obtain x x1 where x: "map_of (v_questions s) i = Some x"
          "resolve x (qr_action res) (map answer_of_resolved (qr_answers res)) = (x1, Inr res)"
        and s': "s' = set_question i x1 s" by (auto simp: accepts)
      from x(1) have mem: "(i, x) \<in> set (v_questions s)" by (rule map_of_SomeD)
      show ?thesis
        by (rule questions_ok_rewrite [OF J _ _ x(1) _ s' _ _ _ _ _ calls])
          (use QuestionResolved x resolve_keeps [OF x(2)] questions_okD [OF J mem]
             resolve_wf [of x "qr_action res" "map answer_of_resolved (qr_answers res)"]
             settled_resolved [of es i x res x1 l]
           in \<open>auto simp: s' set_question_def settled_by_log_def [of "_ @ _"] settled_by_log_def [of es]\<close>)
    next
      case (QuestionCancelled i reason)
      with check obtain x x1 where x: "map_of (v_questions s) i = Some x" "cancel x reason = (x1, Inr ())"
        and s': "s' = set_question i x1 s" by (auto simp: accepts)
      from x(1) have mem: "(i, x) \<in> set (v_questions s)" by (rule map_of_SomeD)
      show ?thesis
        by (rule questions_ok_rewrite [OF J _ _ x(1) _ s' _ _ _ _ _ calls])
          (use QuestionCancelled x cancel_keeps [OF x(2)] questions_okD [OF J mem] cancel_wf [of x reason]
             settled_cancelled [of es i x reason x1 l]
           in \<open>auto simp: s' set_question_def settled_by_log_def [of "_ @ _"] settled_by_log_def [of es]\<close>)
    qed simp_all
  qed
qed

subsection \<open>Replay of a resolution\<close>

lemma resolve_ids:
  assumes "wf_interaction i" and "qx_terminal i = None" and "resolve i action as = (i', Inr res)"
  obtains d where "wf_draft (qx_request i) d" and "request_ok (qx_request i)" and "res = resolution_of (qx_request i) action d"
    and "distinct (map qa_question_id as)" and "d = apply_answers (qx_draft i) as"
    and "action = Submit \<longrightarrow> unanswered_ids (qx_request i) d = []"
proof -
  from iffD1 [OF resolve_pending [OF assms(1,2)] assms(3)] obtain d
    where m: "merge_answers (qx_request i) {} (qx_draft i) as = (d, Inr ())"
      and d: "action = Submit \<longrightarrow> unanswered_ids (qx_request i) d = []" "res = resolution_of (qx_request i) action d" by blast
  have "wf_draft (qx_request i) d" "request_ok (qx_request i)"
    using merge_answers_wf [of "qx_request i" "qx_draft i" "{}" as] assms(1) m by (simp_all add: wf_interaction_def)
  with m d show thesis by (intro that) (simp_all add: merge_answers_Inr)
qed

lemma drafted_question:
  assumes "wf_interaction i" and "qx_draft i k = Some a"
  obtains q where "find_question (qx_request i) k = Some q" and "q \<in> set (ar_questions (qx_request i))" and "qs_id q = k"
  using assms find_question_SomeD unfolding wf_interaction_def wf_draft_def by blast

text \<open>What a blanked draft becomes: the resolution leaves the question out, and the replay finds it again.\<close>

lemma erased_returns:
  assumes wf: "wf_interaction i" and pending: "qx_terminal i = None" and ok: "resolve i action as = (i', Inr res)"
    and b: "b \<in> set as" "empty_answer b" "qx_draft i (qa_question_id b) = Some a"
  shows "qa_question_id b \<in> set (qr_unanswered_question_ids res)"
    and "\<exists>res' q. snd (resolve i (qr_action res) (map answer_of_resolved (qr_answers res))) = Inr res' \<and>
      find_question (qx_request i) (qa_question_id b) = Some q \<and> resolved_answer_for q a \<in> set (qr_answers res') \<and>
      qa_question_id b \<notin> set (qr_unanswered_question_ids res')"
proof -
  let ?r = "qx_request i"
  obtain d where d: "wf_draft ?r d" "request_ok ?r" "res = resolution_of ?r action d" "distinct (map qa_question_id as)"
    "d = apply_answers (qx_draft i) as" "action = Submit \<longrightarrow> unanswered_ids ?r d = []"
    using resolve_ids [OF wf pending ok] by metis
  have none: "d (qa_question_id b) = None" using apply_answers_mem [OF d(4) b(1)] b(2) by (simp add: d(5))
  obtain q where q: "find_question ?r (qa_question_id b) = Some q" "q \<in> set (ar_questions ?r)" "qs_id q = qa_question_id b"
    using drafted_question [OF wf b(3)] by blast
  then have open_question: "qa_question_id b \<in> set (unanswered_ids ?r d)" using none by (force simp: unanswered_ids_def)
  then show "qa_question_id b \<in> set (qr_unanswered_question_ids res)" by (simp add: d(3) resolution_of_def)
  have continued: "action \<noteq> Submit" using d(6) open_question by auto
  obtain d1 where m: "merge_answers ?r {} (qx_draft i) (map answer_of_resolved (resolved_answers ?r d)) = (d1, Inr ())"
    and d1: "\<forall>q\<in>set (ar_questions ?r). d1 (qs_id q) = (case d (qs_id q) of None \<Rightarrow> qx_draft i (qs_id q) | Some a \<Rightarrow> Some (replayed q a))"
    using replay_merges [OF d(2,1), of "qx_draft i"] by blast
  have again: "d1 (qs_id q) = Some a" using bspec [OF d1 q(2)] q(3) none b(3) by simp
  let ?res = "resolution_of ?r action d1"
  have "resolve i (qr_action res) (map answer_of_resolved (qr_answers res)) =
      (i\<lparr>qx_draft := d1, qx_terminal := Some (TResolved ?res)\<rparr>, Inr ?res)"
    using m continued by (simp add: resolve_pending [OF wf pending] d(3) resolution_of_def)
  moreover have "resolved_answer_for q a \<in> set (qr_answers ?res)"
    using q(2) again by (auto simp: resolution_of_def set_resolved_answers)
  moreover have "qa_question_id b \<notin> set (qr_unanswered_question_ids ?res)"
    using again q(3) by (auto simp: resolution_of_def unanswered_ids_def)
  ultimately show "\<exists>res' q. snd (resolve i (qr_action res) (map answer_of_resolved (qr_answers res))) = Inr res' \<and>
      find_question ?r (qa_question_id b) = Some q \<and> resolved_answer_for q a \<in> set (qr_answers res') \<and>
      qa_question_id b \<notin> set (qr_unanswered_question_ids res')"
    using q(1) by (intro exI [of _ ?res] exI [of _ q]) simp
qed

text \<open>Property C35. The value \<open>resolve\<close> returned is journaled as a \<open>question/resolved\<close> event, and the session validator
  replays it against the question as it stands in the log, drafts included.  It accepts the event exactly if the
  client blanked out no drafted answer.  A client that did gets a resolution in which that question is
  unanswered, while the replay finds the drafted answer again and answers the question with it: the
  question the client has settled can then not be settled in the log.\<close>

theorem resolution_accepted_iff:
  assumes "wf_interaction i" and "qx_terminal i = None" and "resolve i action as = (i', Inr res)"
    and "map_of (v_questions s) k = Some i"
  shows "((\<exists>s'. check_data dec evs pos seq rv (QuestionResolved k res) s = Inr s') \<longleftrightarrow>
      (\<forall>b\<in>set as. empty_answer b \<longrightarrow> qx_draft i (qa_question_id b) = None)) \<and>
    (\<forall>b\<in>set as. \<forall>a. empty_answer b \<and> qx_draft i (qa_question_id b) = Some a \<longrightarrow>
      qa_question_id b \<in> set (qr_unanswered_question_ids res) \<and>
      (\<exists>res' q. snd (resolve i (qr_action res) (map answer_of_resolved (qr_answers res))) = Inr res' \<and>
        find_question (qx_request i) (qa_question_id b) = Some q \<and> resolved_answer_for q a \<in> set (qr_answers res') \<and>
        qa_question_id b \<notin> set (qr_unanswered_question_ids res')))"
proof (intro conjI ballI allI impI)
  let ?again = "resolve i (qr_action res) (map answer_of_resolved (qr_answers res))"
  have check: "(\<exists>s'. check_data dec evs pos seq rv (QuestionResolved k res) s = Inr s') \<longleftrightarrow> snd ?again = Inr res"
    using assms(4) by (cases ?again) (auto simp: accepts)
  show "(\<exists>s'. check_data dec evs pos seq rv (QuestionResolved k res) s = Inr s') \<longleftrightarrow>
      (\<forall>b\<in>set as. empty_answer b \<longrightarrow> qx_draft i (qa_question_id b) = None)"
  proof (intro iffI ballI impI)
    fix b assume "\<exists>s'. check_data dec evs pos seq rv (QuestionResolved k res) s = Inr s'" and b: "b \<in> set as" "empty_answer b"
    then have same: "snd ?again = Inr res" using check by simp
    show "qx_draft i (qa_question_id b) = None"
    proof (rule ccontr)
      assume "qx_draft i (qa_question_id b) \<noteq> None"
      then obtain a where "qx_draft i (qa_question_id b) = Some a" by blast
      from erased_returns [OF assms(1-3) b this] same show False by auto
    qed
  next
    assume "\<forall>b\<in>set as. empty_answer b \<longrightarrow> qx_draft i (qa_question_id b) = None"
    from resolution_replays [OF assms(1-3) this] check
    show "\<exists>s'. check_data dec evs pos seq rv (QuestionResolved k res) s = Inr s'" by simp
  qed
next
  fix b a assume b: "b \<in> set as" and e: "empty_answer b \<and> qx_draft i (qa_question_id b) = Some a"
  note reply = erased_returns [OF assms(1-3) b conjunct1 [OF e] conjunct2 [OF e]]
  show "qa_question_id b \<in> set (qr_unanswered_question_ids res)" by (rule reply(1))
  show "\<exists>res' q. snd (resolve i (qr_action res) (map answer_of_resolved (qr_answers res))) = Inr res' \<and>
        find_question (qx_request i) (qa_question_id b) = Some q \<and> resolved_answer_for q a \<in> set (qr_answers res') \<and>
        qa_question_id b \<notin> set (qr_unanswered_question_ids res')" by (rule reply(2))
qed

text \<open>A question with a drafted answer, and a client that blanks it out and continues.\<close>

definition erased_answer :: question_answer where
  "erased_answer = \<lparr>qa_question_id = ''target'', qa_selected_option_id = None, qa_custom_text = None\<rparr>"

definition drafted_interaction :: question_interaction where
  "drafted_interaction = fst (update_draft example_interaction [example_answer])"

theorem resolution_accepted_iff_witness:
  "\<exists>i' res. resolve drafted_interaction Continue [erased_answer] = (i', Inr res) \<and> qr_answers res = [] \<and>
     \<not> (\<exists>s'. check_data no_questions [] 0 0 1 (QuestionResolved ''q1'' res)
        (init_vstate\<lparr>v_questions := [(''q1'', drafted_interaction)]\<rparr>) = Inr s') \<and>
     ''target'' \<in> set (qr_unanswered_question_ids res)"
proof -
  have wf: "wf_interaction drafted_interaction" unfolding drafted_interaction_def
    using interaction_invariant_update new_interaction_wf [OF example_ok] by blast
  have pending: "qx_terminal drafted_interaction = None"
    by (simp add: drafted_interaction_def update_draft_fst example_interaction_def)
  have "case snd (resolve drafted_interaction Continue [erased_answer]) of Inl _ \<Rightarrow> False | Inr r \<Rightarrow> qr_answers r = []" by code_simp
  then obtain i' res where r: "resolve drafted_interaction Continue [erased_answer] = (i', Inr res)" "qr_answers res = []"
    by (cases "resolve drafted_interaction Continue [erased_answer]") (auto split: sum.splits)
  have e: "empty_answer erased_answer" by code_simp
  have "qx_draft drafted_interaction ''target'' \<noteq> None" by code_simp
  then obtain a where "qx_draft drafted_interaction ''target'' = Some a" by blast
  with resolution_accepted_iff [OF wf pending r(1), of "init_vstate\<lparr>v_questions := [(''q1'', drafted_interaction)]\<rparr>" "''q1''"
      no_questions "[]" 0 0 1] r e
  show ?thesis by (auto simp: erased_answer_def)
qed

end
