(* ===== verification/Recovery.thy ===== *)
theory Recovery
  imports Log_Questions
begin

text \<open>
  Recovery projections of crates/xharness-session/src/recovery.rs: which tool calls lack a result,
  which of them wait for an approval or a user question, and the events that close the others
  after a crash.  A panic of one of the source's \<open>expect\<close> calls is \<open>None\<close>.

  \<open>decode\<close> is serde's decoder of question arguments, \<open>show_error\<close> the text of a validation error and
  \<open>render\<close> the JSON text of the error result for malformed question arguments.
\<close>

subsection \<open>Projections\<close>

record incomplete_tool_call =
  ic_turn :: u32
  ic_step :: u32
  ic_call :: tool_call

record pending_tool_approval =
  pa_id :: string
  pa_tool_name :: string
  pa_call_id :: string
  pa_reason :: "string option"
  pa_turn :: u32
  pa_step :: u32
  pa_call :: tool_call

record recoverable_user_question =
  rq_turn :: u32
  rq_step :: u32
  rq_call :: tool_call
  rq_invocation :: question_invocation
  rq_draft :: "question_answer list"
  rq_terminal :: question_terminal_state

record pending_user_question =
  pq_turn :: u32
  pq_step :: u32
  pq_call :: tool_call
  pq_invocation :: question_invocation
  pq_draft :: "question_answer list"

definition COMPACTION_INTERRUPTED_ERROR :: string where
  "COMPACTION_INTERRUPTED_ERROR =
     ''compaction was interrupted before an authoritative replacement was committed''"

definition OUTCOME_UNKNOWN_CONTENT :: string where
  "OUTCOME_UNKNOWN_CONTENT = ''Tool outcome is unknown because the call was durably recorded but no authoritative result survived. Do not assume the operation did not run; verify external state before retrying non-idempotent work.''"

text \<open>Collecting into a \<open>HashMap\<close>: a later entry of the same key replaces an earlier one.\<close>

definition calls_by_id :: "logged_event list \<Rightarrow> (string \<rightharpoonup> u32 \<times> u32 \<times> tool_call)" where
  "calls_by_id es = map_of (rev (map (\<lambda>(t, k, c). (tc_id c, (t, k, c))) (tool_calls es)))"

definition settled_calls :: "logged_event list \<Rightarrow> string set" where
  "settled_calls es = set (result_ids es)"

definition recoverable_of ::
  "string set \<Rightarrow> (string \<rightharpoonup> u32 \<times> u32 \<times> tool_call) \<Rightarrow> question_interaction \<Rightarrow> recoverable_user_question option" where
  "recoverable_of settled calls x =
     (let iv = qx_invocation x in
      if qi_execution_id iv \<in> settled then None
      else case calls (qi_execution_id iv) of None \<Rightarrow> None
        | Some (turn, step, c) \<Rightarrow>
            Some \<lparr>rq_turn = turn, rq_step = step, rq_call = c, rq_invocation = iv,
                  rq_draft = draft x, rq_terminal = terminal_state x\<rparr>)"

text \<open>The closing \<open>filter_map\<close> removes each interaction from the map as it visits it.\<close>

fun collect_recoverable ::
  "string set \<Rightarrow> (string \<rightharpoonup> u32 \<times> u32 \<times> tool_call) \<Rightarrow> string list \<Rightarrow>
     (string \<times> question_interaction) list \<Rightarrow> recoverable_user_question list" where
  "collect_recoverable settled calls [] qs = []"
| "collect_recoverable settled calls (i # order) qs =
     (case map_of qs i of None \<Rightarrow> collect_recoverable settled calls order qs
      | Some x \<Rightarrow>
          (case recoverable_of settled calls x of None \<Rightarrow> [] | Some q \<Rightarrow> [q]) @
          collect_recoverable settled calls order (AList.delete i qs))"

definition recoverable_user_questions :: "logged_event list \<Rightarrow> recoverable_user_question list option" where
  "recoverable_user_questions es =
     map_option (collect_recoverable (settled_calls es) (calls_by_id es)
                   (map qi_interaction_id (question_requests es)))
       (fold_interactions es [])"

definition pending_user_questions :: "logged_event list \<Rightarrow> pending_user_question list option" where
  "pending_user_questions es =
     map_option (filter_map (\<lambda>q. if rq_terminal q = QPending
         then Some \<lparr>pq_turn = rq_turn q, pq_step = rq_step q, pq_call = rq_call q,
                    pq_invocation = rq_invocation q, pq_draft = rq_draft q\<rparr> else None))
       (recoverable_user_questions es)"

fun approval_asked :: "event_data \<Rightarrow> (string \<times> string \<times> string option \<times> string option) option" where
  "approval_asked (ApprovalAsked i tool_name call_id reason) = Some (i, tool_name, call_id, reason)"
| "approval_asked _ = None"

fun approval_decided :: "event_data \<Rightarrow> string option" where
  "approval_decided (ApprovalDecided i _) = Some i" | "approval_decided _ = None"

definition pending_approval_of ::
  "logged_event list \<Rightarrow> string \<times> string \<times> string option \<times> string option \<Rightarrow> pending_tool_approval option" where
  "pending_approval_of es a =
     (case a of (i, tool_name, call_id, reason) \<Rightarrow>
        (case call_id of None \<Rightarrow> None
         | Some cid \<Rightarrow>
             if i \<notin> set (events_where approval_decided es) \<and> cid \<notin> settled_calls es then
               (case calls_by_id es cid of None \<Rightarrow> None
                | Some (turn, step, c) \<Rightarrow>
                    Some \<lparr>pa_id = i, pa_tool_name = tool_name, pa_call_id = cid, pa_reason = reason,
                          pa_turn = turn, pa_step = step, pa_call = c\<rparr>)
             else None))"

definition pending_tool_approvals :: "logged_event list \<Rightarrow> pending_tool_approval list" where
  "pending_tool_approvals es = filter_map (pending_approval_of es) (events_where approval_asked es)"

definition incomplete_tool_calls :: "logged_event list \<Rightarrow> incomplete_tool_call list" where
  "incomplete_tool_calls es =
     map (\<lambda>(t, k, c). \<lparr>ic_turn = t, ic_step = k, ic_call = c\<rparr>)
       (filter (\<lambda>(t, k, c). tc_id c \<notin> settled_calls es) (tool_calls es))"

subsection \<open>Recovery events\<close>

definition recovery_result ::
  "(string \<Rightarrow> string + ask_request) \<Rightarrow> (question_validation_error \<Rightarrow> string) \<Rightarrow> (string \<Rightarrow> string) \<Rightarrow>
     tool_call \<Rightarrow> tool_result_data" where
  "recovery_result decode show_error render c =
     (let invalid_question =
        (if tc_name c = ASK_USER_QUESTION_TOOL
         then (case parse_request decode show_error (tc_arguments_json c) of
                 Inl error \<Rightarrow> Some error | Inr _ \<Rightarrow> None)
         else None);
      (outcome, content) =
        (case invalid_question of
           Some error \<Rightarrow> (ToolError, render error)
         | None \<Rightarrow> (OutcomeUnknown, OUTCOME_UNKNOWN_CONTENT))
      in \<lparr>tr_call_id = tc_id c, tr_outcome = outcome, tr_content = content, tr_metadata = None\<rparr>)"

definition outcome_unknown_recovery ::
  "(string \<Rightarrow> string + ask_request) \<Rightarrow> (question_validation_error \<Rightarrow> string) \<Rightarrow> (string \<Rightarrow> string) \<Rightarrow>
     logged_event list \<Rightarrow> event_data list option" where
  "outcome_unknown_recovery decode show_error render es =
     (case recoverable_user_questions es of None \<Rightarrow> None
      | Some questions \<Rightarrow>
          (let awaiting_approval = set (map pa_call_id (pending_tool_approvals es));
               recoverable_questions = set (map (tc_id \<circ> rq_call) questions)
           in Some (map (\<lambda>p. ToolResult (ic_turn p) (ic_step p) (recovery_result decode show_error render (ic_call p)))
                     (filter (\<lambda>p. tc_id (ic_call p) \<notin> awaiting_approval \<and>
                                  tc_id (ic_call p) \<notin> recoverable_questions)
                       (incomplete_tool_calls es)))))"

fun compaction_started :: "event_data \<Rightarrow> (string \<times> string option \<times> u32 option) option" where
  "compaction_started (CompactionStart i source turn) = Some (i, source, turn)" | "compaction_started _ = None"

fun compaction_ended :: "event_data \<Rightarrow> string option" where
  "compaction_ended (CompactionEnd i _ _ _) = Some i" | "compaction_ended _ = None"

definition interrupted_compaction_recovery :: "logged_event list \<Rightarrow> event_data list" where
  "interrupted_compaction_recovery es =
     map (\<lambda>(i, source, turn). CompactionEnd i source turn (Some COMPACTION_INTERRUPTED_ERROR))
       (filter (\<lambda>(i, source, turn). i \<notin> set (events_where compaction_ended es))
         (events_where compaction_started es))"

subsection \<open>The projections on valid logs\<close>

lemma questions_at_end:
  assumes "validate_log dec rv es = Inr ()"
  shows "questions_ok es (after_log dec es)"
  using questions.at_prefix [of dec es es "after_log dec es"] valid_after_log [OF assms] by simp

lemma tool_call_by_id:
  assumes "calls_ok es s" and "(t, k, c) \<in> set (tool_calls es)"
  shows "calls_by_id es (tc_id c) = Some (t, k, c)" and "call_of es (tc_id c) = Some c"
    and "v_calls s (tc_id c) = Some (tc_id c \<in> settled_calls es, t, k)"
proof -
  have d: "distinct (map tc_id (map (\<lambda>(t, k, c). c) (tool_calls es)))"
    using assms(1) by (simp add: calls_ok_def call_ids_def comp_def case_prod_unfold)
  have keyed: "distinct (map fst (map (\<lambda>(t, k, c). (tc_id c, f t k c)) (tool_calls es)))" for f :: "u32 \<Rightarrow> u32 \<Rightarrow> tool_call \<Rightarrow> 'b"
    using d by (simp add: comp_def case_prod_unfold)
  have mem: "(tc_id c, f t k c) \<in> set (map (\<lambda>(t, k, c). (tc_id c, f t k c)) (tool_calls es))" for f :: "u32 \<Rightarrow> u32 \<Rightarrow> tool_call \<Rightarrow> 'b"
    using assms(2) by force
  show "call_of es (tc_id c) = Some c"
    unfolding call_of_def by (rule map_of_is_SomeI [OF keyed mem])
  have "call_coords es (tc_id c) = Some (t, k)"
    unfolding call_coords_def by (rule map_of_is_SomeI [OF keyed mem])
  with assms(1) show "v_calls s (tc_id c) = Some (tc_id c \<in> settled_calls es, t, k)"
    by (simp add: calls_ok_def call_status_def settled_calls_def)
  show "calls_by_id es (tc_id c) = Some (t, k, c)"
    unfolding calls_by_id_def
    using keyed [of "\<lambda>t k c. (t, k, c)"] mem [of "\<lambda>t k c. (t, k, c)"]
    by (intro map_of_is_SomeI) (simp_all add: rev_map [symmetric] del: map_map)
qed

lemma calls_by_id_Some:
  "calls_by_id es i = Some (t, k, c) \<Longrightarrow> (t, k, c) \<in> set (tool_calls es) \<and> tc_id c = i"
  unfolding calls_by_id_def by (auto dest!: map_of_SomeD)

lemma calls_by_id_dom: "calls_by_id es i \<noteq> None \<longleftrightarrow> i \<in> set (call_ids es)"
  by (force simp: calls_by_id_def call_ids_def map_of_eq_None_iff)

lemma filter_map_cong: "(\<And>x. x \<in> set xs \<Longrightarrow> f x = g x) \<Longrightarrow> filter_map f xs = filter_map g xs"
  by (induction xs) (auto simp: List.map_filter_simps split: option.splits)

lemma filter_map_if: "filter_map (\<lambda>x. if P (f x) then Some (f x) else None) xs = filter P (map f xs)"
  by (induction xs) (auto simp: List.map_filter_simps)

lemma collect_recoverable_distinct:
  "distinct order \<Longrightarrow>
     collect_recoverable settled calls order qs =
       filter_map (\<lambda>i. Option.bind (map_of qs i) (recoverable_of settled calls)) order"
proof (induction order arbitrary: qs)
  case (Cons i order)
  then have "filter_map (\<lambda>j. Option.bind (map_of (AList.delete i qs) j) (recoverable_of settled calls)) order =
      filter_map (\<lambda>j. Option.bind (map_of qs j) (recoverable_of settled calls)) order"
    by (intro filter_map_cong) (auto simp: delete_conv')
  with Cons show ?case
    by (cases "map_of qs i"; cases "Option.bind (map_of qs i) (recoverable_of settled calls)")
      (auto simp: List.map_filter_simps)
qed (simp add: List.map_filter_simps)

text \<open>The recoverable questions of a valid log: one for each requested question whose call has no result.\<close>

lemma recoverable_valid:
  assumes "questions_ok es s"
  shows "recoverable_user_questions es =
    Some (filter_map (\<lambda>(i, x). recoverable_of (settled_calls es) (calls_by_id es) x) (v_questions s))"
proof -
  note keys = question_keys [OF assms]
  have "filter_map (\<lambda>i. Option.bind (map_of qs i) f) (map fst qs) = filter_map (\<lambda>(i, x). f x) qs"
    if "distinct (map fst qs)" for qs :: "(string \<times> question_interaction) list"
      and f :: "question_interaction \<Rightarrow> recoverable_user_question option"
  proof -
    have "map_of qs (fst p) = Some (snd p)" if "p \<in> set qs" for p
      using \<open>distinct (map fst qs)\<close> that by (simp add: map_of_is_SomeI)
    then show ?thesis
      unfolding List.map_filter_def filter_map comp_def map_map
      by (intro map_cong filter_cong) (auto simp: split_beta)
  qed
  from this [OF keys(2)] keys assms show ?thesis
    by (simp add: recoverable_user_questions_def collect_recoverable_distinct questions_ok_def)
qed

lemma in_fst_image: "i \<in> fst ` S \<longleftrightarrow> (\<exists>r. (i, r) \<in> S)"
  by force

lemma terminal_state_pending: "terminal_state x = QPending \<longleftrightarrow> qx_terminal x = None"
  by (auto simp: terminal_state_def split: option.splits interaction_terminal.splits)

lemma recoverable_of_Some:
  "recoverable_of settled (calls_by_id es) x = Some q \<Longrightarrow>
     rq_invocation q = qx_invocation x \<and> rq_terminal q = terminal_state x \<and>
     tc_id (rq_call q) = qi_execution_id (qx_invocation x) \<and>
     (rq_turn q, rq_step q, rq_call q) \<in> set (tool_calls es)"
  by (auto simp: recoverable_of_def Let_def dest!: calls_by_id_Some split: if_splits option.splits)

lemma settled_none:
  assumes "settled_by_log es i x"
  shows "qx_terminal x = None \<longleftrightarrow>
    i \<notin> fst ` set (question_resolutions es) \<union> fst ` set (question_cancellations es)"
proof -
  have "i \<in> fst ` set (question_resolutions es) \<longleftrightarrow> (\<exists>res. qx_terminal x = Some (TResolved res))"
    "i \<in> fst ` set (question_cancellations es) \<longleftrightarrow> (\<exists>reason. qx_terminal x = Some (TCancelled reason))"
    using assms by (simp_all add: settled_by_log_def in_fst_image)
  then show ?thesis
    by (cases "qx_terminal x"; cases "the (qx_terminal x)") simp_all
qed

lemma recoverable_spec:
  assumes "validate_log dec rv es = Inr ()"
  shows "\<exists>qs. recoverable_user_questions es = Some qs \<and>
    map rq_invocation qs =
      filter (\<lambda>iv. qi_execution_id iv \<notin> settled_calls es \<and> qi_execution_id iv \<in> set (call_ids es)) (question_requests es) \<and>
    (\<forall>q\<in>set qs. tc_id (rq_call q) = qi_execution_id (rq_invocation q) \<and>
       (rq_turn q, rq_step q, rq_call q) \<in> set (tool_calls es) \<and>
       (rq_terminal q = QPending \<longleftrightarrow>
          qi_interaction_id (rq_invocation q) \<notin>
            fst ` (set (question_resolutions es)) \<union> fst ` (set (question_cancellations es))))"
proof -
  define s where "s = after_log dec es"
  have J: "questions_ok es s" using questions_at_end [OF assms] by (simp add: s_def)
  let ?rec = "\<lambda>x. recoverable_of (settled_calls es) (calls_by_id es) x"
  let ?qs = "filter_map (\<lambda>(i, x). ?rec x) (v_questions s)"
  note calls = calls_by_id_dom
  have ivs: "map (qx_invocation \<circ> snd) (v_questions s) = question_requests es"
  proof -
    have "map snd (map (\<lambda>(i, x). (i, qx_invocation x)) (v_questions s)) =
        map snd (map (\<lambda>iv. (qi_interaction_id iv, iv)) (question_requests es))"
      using J unfolding questions_ok_def by presburger
    then show ?thesis by (simp add: comp_def split_beta)
  qed
  have "map rq_invocation ?qs = filter_map (\<lambda>p. if qi_execution_id (qx_invocation (snd p)) \<notin> settled_calls es \<and>
      qi_execution_id (qx_invocation (snd p)) \<in> set (call_ids es) then Some (qx_invocation (snd p)) else None) (v_questions s)"
    unfolding map_filter_map
    by (rule arg_cong2 [where f = List.map_filter])
      (auto simp: fun_eq_iff recoverable_of_def Let_def calls [symmetric] split: option.splits)
  also have "\<dots> = filter (\<lambda>iv. qi_execution_id iv \<notin> settled_calls es \<and> qi_execution_id iv \<in> set (call_ids es))
      (map (qx_invocation \<circ> snd) (v_questions s))"
    using filter_map_if [of "\<lambda>iv. qi_execution_id iv \<notin> settled_calls es \<and> qi_execution_id iv \<in> set (call_ids es)"
        "qx_invocation \<circ> snd" "v_questions s"] by (simp only: comp_def)
  finally have shape: "map rq_invocation ?qs = filter (\<lambda>iv. qi_execution_id iv \<notin> settled_calls es \<and>
      qi_execution_id iv \<in> set (call_ids es)) (question_requests es)" unfolding ivs .
  have each: "tc_id (rq_call q) = qi_execution_id (rq_invocation q) \<and>
      (rq_turn q, rq_step q, rq_call q) \<in> set (tool_calls es) \<and>
      (rq_terminal q = QPending \<longleftrightarrow> qi_interaction_id (rq_invocation q) \<notin>
        fst ` (set (question_resolutions es)) \<union> fst ` (set (question_cancellations es)))"
    if q: "q \<in> set ?qs" for q
  proof -
    from q obtain i x where x: "(i, x) \<in> set (v_questions s)" and r: "?rec x = Some q" by auto
    have i: "qi_interaction_id (qx_invocation x) = i"
    proof -
      have "(i, qx_invocation x) \<in> set (map (\<lambda>(i, x). (i, qx_invocation x)) (v_questions s))" using x by force
      then show ?thesis using J unfolding questions_ok_def by auto
    qed
    have "qx_terminal x = None \<longleftrightarrow>
        i \<notin> fst ` (set (question_resolutions es)) \<union> fst ` (set (question_cancellations es))"
      using questions_okD [OF J x] by (intro settled_none) simp
    with recoverable_of_Some [OF r] i show ?thesis by (simp add: terminal_state_pending)
  qed
  show ?thesis
  proof (intro exI conjI)
    show "recoverable_user_questions es = Some ?qs" by (rule recoverable_valid [OF J])
    show "map rq_invocation ?qs = filter (\<lambda>iv. qi_execution_id iv \<notin> settled_calls es \<and>
      qi_execution_id iv \<in> set (call_ids es)) (question_requests es)" by (rule shape)
  qed (rule ballI, rule each)
qed

text \<open>On a valid log the recovery fold over question events never panics, and it reports exactly
  the requested questions whose tool call has no result, each with its call and with the draft and
  settlement the validator reached.\<close>

theorem recoverable_questions_complete:
  assumes "validate_log dec rv es = Inr ()"
  shows "\<exists>qs. recoverable_user_questions es = Some qs \<and>
    map rq_invocation qs =
      filter (\<lambda>iv. qi_execution_id iv \<notin> settled_calls es \<and> qi_execution_id iv \<in> set (call_ids es)) (question_requests es) \<and>
    (\<forall>q\<in>set qs. tc_id (rq_call q) = qi_execution_id (rq_invocation q) \<and>
       (rq_turn q, rq_step q, rq_call q) \<in> set (tool_calls es) \<and>
       (rq_terminal q = QPending \<longleftrightarrow>
          qi_interaction_id (rq_invocation q) \<notin>
            fst ` (set (question_resolutions es)) \<union> fst ` (set (question_cancellations es))))"
  using assms by (rule recoverable_spec)

theorem recoverable_questions_complete_witness:
  "recoverable_user_questions (stage 0 1 7 example_events) = Some []"
  using recoverable_questions_complete [OF example_valid]
  by (auto simp: stage_def example_events_def events_where_def List.map_filter_simps)

subsection \<open>Appending recovery results\<close>

lemma check_question_result_seq: "check_question_result n r s = Inr () \<longleftrightarrow> check_question_result m r s = Inr ()"
  by (auto simp: check_question_result_def split: option.splits)

text \<open>When a settlement can be appended to a log that ended in state \<open>s\<close>.\<close>

definition settles :: "(string \<Rightarrow> string + ask_request) \<Rightarrow> vstate \<Rightarrow> u32 \<times> u32 \<times> tool_result_data \<Rightarrow> bool" where
  "settles dec s x \<longleftrightarrow>
     (case x of (t, k, r) \<Rightarrow>
        v_calls s (tr_call_id r) = Some (False, t, k) \<and>
        (tr_outcome r = OutcomeUnknown \<or> tr_outcome r = ToolError \<and> invalid_question dec s (tr_call_id r)) \<and>
        check_question_result 0 r s = Inr ())"

definition result_event :: "u32 \<times> u32 \<times> tool_result_data \<Rightarrow> event_data" where
  "result_event x = (case x of (t, k, r) \<Rightarrow> ToolResult t k r)"

lemma question_result_frame [simp]:
  "check_question_result seq r (s\<lparr>v_revision := rv\<rparr>) = check_question_result seq r s"
  "check_question_result seq r (s\<lparr>v_calls := m\<rparr>) = check_question_result seq r s"
  "invalid_question dec (s\<lparr>v_revision := rv\<rparr>) i = invalid_question dec s i"
  "invalid_question dec (s\<lparr>v_calls := m\<rparr>) i = invalid_question dec s i"
  by (cases "v_question_by_call s (tr_call_id r)"; simp add: check_question_result_def)+
    (simp_all add: invalid_question_def)

lemma settles_frame [simp]: "settles dec (s\<lparr>v_revision := rv\<rparr>) x = settles dec s x"
  by (simp add: settles_def)

lemma settles_other:
  assumes "settles dec s x" and "tr_call_id (snd (snd x)) \<noteq> i"
  shows "settles dec (s\<lparr>v_calls := (v_calls s)(i \<mapsto> y)\<rparr>) x"
  using assms
  by (auto simp: settles_def)

lemma result_event_simp [simp]: "result_event (t, k, r) = ToolResult t k r"
  by (simp add: result_event_def)

lemma validate_settlements:
  assumes "distinct (map (\<lambda>x. tr_call_id (snd (snd x))) rs)" and "\<forall>x\<in>set rs. settles dec s x"
    and "check_open_calls 0 s = Inr ()" and "rv \<noteq> 0"
    and "v_revision s = rv \<or> checked_add (v_revision s) 1 = Some rv"
  shows "\<exists>s'. validate_events dec evs pos s (stage pos rv ts (map result_event rs)) = Inr s' \<and>
    check_open_calls 0 s' = Inr () \<and> (rs \<noteq> [] \<longrightarrow> v_revision s' = rv)"
  using assms
proof (induction rs arbitrary: s pos)
  case (Cons x rs)
  obtain t k r where x: "x = (t, k, r)" by (cases x)
  let ?s = "s\<lparr>v_revision := rv, v_calls := (v_calls s)(tr_call_id r \<mapsto> (True, t, k))\<rparr>"
  have open_calls: "check_open_calls pos s = Inr ()"
    using Cons.prems(3) check_open_calls_seq by blast
  have "check_question_result pos r (s\<lparr>v_revision := rv\<rparr>) = Inr ()"
    using Cons.prems(2) check_question_result_seq [of 0 r s pos] by (simp add: x settles_def)
  then have step: "check_logged dec evs pos \<lparr>le_seq = pos, le_revision = rv, le_timestamp_ms = ts, le_event = ToolResult t k r\<rparr> s = Inr ?s"
    using Cons.prems open_calls
    by (auto simp: x check_logged_accepts accepts settles_def)
  have "\<exists>s'. validate_events dec evs (Suc pos) ?s (stage (Suc pos) rv ts (map result_event rs)) = Inr s' \<and>
      check_open_calls 0 s' = Inr () \<and> (rs \<noteq> [] \<longrightarrow> v_revision s' = rv)"
  proof (rule Cons.IH)
    show "\<forall>y\<in>set rs. settles dec ?s y"
    proof
      fix y assume y: "y \<in> set rs"
      with Cons.prems(2) have "settles dec (s\<lparr>v_revision := rv\<rparr>) y" by simp
      moreover have "tr_call_id (snd (snd y)) \<noteq> tr_call_id r" using Cons.prems(1) y by (force simp: x)
      ultimately show "settles dec ?s y" using settles_other [of dec "s\<lparr>v_revision := rv\<rparr>" y] by simp
    qed
  qed (use Cons.prems in \<open>simp_all add: check_open_calls_def\<close>)
  moreover have "v_revision ?s = rv" by simp
  ultimately show ?case
    using step by (cases rs) (auto simp: stage_Cons x)
qed simp

lemma append_settlements:
  assumes ok: "session_ok dec s" and room: "checked_add (se_revision s) 1 = Some r"
    and "distinct (map (\<lambda>x. tr_call_id (snd (snd x))) rs)" and "\<forall>x\<in>set rs. settles dec (after_log dec (se_events s)) x"
  shows "\<exists>s' receipt. append_batch_at dec s (se_revision s) (map result_event rs) t = (s', Inr receipt) \<and>
    se_events s' = se_events s @ stage (next_seq s) r t (map result_event rs)"
proof (cases "rs = []")
  case True
  then show ?thesis by (simp add: append_batch_at_def)
next
  case False
  let ?v = "after_log dec (se_events s)" and ?evs = "se_events s @ stage (next_seq s) r t (map result_event rs)"
  have log: "validate_log dec (se_revision s) (se_events s) = Inr ()" using ok by (simp add: session_ok_def)
  note v = valid_after_log [OF log]
  have "r \<noteq> 0" using room checked_add_unat by fastforce
  moreover have "check_open_calls 0 ?v = Inr ()" using v check_open_calls_seq by blast
  ultimately have "\<exists>s'. validate_events dec ?evs (next_seq s) ?v (stage (next_seq s) r t (map result_event rs)) = Inr s' \<and>
      check_open_calls 0 s' = Inr () \<and> (rs \<noteq> [] \<longrightarrow> v_revision s' = r)"
    using v room assms(3,4) by (intro validate_settlements) auto
  moreover have "next_revision_differs (se_events s) (stage (next_seq s) r t (map result_event rs))"
    by (rule next_revision_fresh [OF log room]) (auto dest: set_stage)
  from validate_events_extend [OF this, of "[]" "se_events s" dec init_vstate]
  have "validate_events dec ?evs 0 init_vstate (se_events s) = Inr ?v" using v by simp
  ultimately have "validate_log dec r ?evs = Inr ()"
    using False check_open_calls_seq [of 0 _ "le_seq (last ?evs)"]
    by (auto simp: validate_log_iff validate_events_append next_seq_def)
  with room False show ?thesis by (simp add: append_batch_at_def Let_def)
qed

subsection \<open>Recovery closes what it may close\<close>

lemma parse_request_fails:
  "parse_request d f a = Inl e \<Longrightarrow> \<exists>e'. parse_request d g a = Inl e'"
  by (cases "d a"; cases "validate_request (projr (d a))") (simp_all add: parse_request_def)

lemma recovery_result_outcome:
  "tr_call_id (recovery_result d f g c) = tc_id c \<and>
   (tr_outcome (recovery_result d f g c) = OutcomeUnknown \<or>
    tr_outcome (recovery_result d f g c) = ToolError \<and> tc_name c = ASK_USER_QUESTION_TOOL \<and>
    (\<exists>e. parse_request d (\<lambda>_. []) (tc_arguments_json c) = Inl e))"
  using parse_request_fails [of d f "tc_arguments_json c" _ "\<lambda>_. []"]
  by (auto simp: recovery_result_def Let_def split: option.splits sum.splits)

lemma recovery_settles:
  assumes J: "questions_ok es s" and c: "(t, k, c) \<in> set (tool_calls es)" "tc_id c \<notin> settled_calls es"
    and q: "v_question_by_call s (tc_id c) = None"
  shows "settles dec s (t, k, recovery_result dec f g c)"
proof -
  have calls: "calls_ok es s" using J by (simp add: questions_ok_def)
  note at = tool_call_by_id [OF calls c(1)]
  have names: "v_call_names s (tc_id c) = Some (tc_name c)"
    and args: "v_call_arguments s (tc_id c) = question_arguments c"
    using J at(2) by (simp_all add: questions_ok_def)
  have inv: "invalid_question dec s (tc_id c)"
    if "tc_name c = ASK_USER_QUESTION_TOOL" "parse_request dec (\<lambda>_. []) (tc_arguments_json c) = Inl e" for e
    using that args q by (simp add: invalid_question_def question_arguments_def)
  from recovery_result_outcome [of dec f g c] show ?thesis
    using at(3) c(2) q names inv by (auto simp: settles_def check_question_result_def)
qed

lemma requested_is_recoverable:
  assumes log: "validate_log dec rv es = Inr ()" and qs: "recoverable_user_questions es = Some qs"
    and q: "v_question_by_call (after_log dec es) i = Some j" and i: "i \<notin> settled_calls es" "i \<in> set (call_ids es)"
  shows "i \<in> set (map (tc_id \<circ> rq_call) qs)"
proof -
  from q questions_at_end [OF log] obtain iv where iv: "iv \<in> set (question_requests es)" "qi_execution_id iv = i"
    by (auto simp: questions_ok_def dest!: map_of_SomeD)
  from recoverable_spec [OF log] qs
  have "map rq_invocation qs =
      filter (\<lambda>iv. qi_execution_id iv \<notin> settled_calls es \<and> qi_execution_id iv \<in> set (call_ids es)) (question_requests es)"
    and ids: "\<forall>q\<in>set qs. tc_id (rq_call q) = qi_execution_id (rq_invocation q)"
    by auto
  with iv i have "iv \<in> set (map rq_invocation qs)" by simp
  with ids iv(2) show ?thesis by auto
qed

lemma events_where_events: "events_where f es = filter_map f (map le_event es)"
  by (simp add: events_where_def List.map_filter_def comp_def filter_map)

lemma staged_results:
  "tool_calls (stage n r t (map result_event rs)) = []"
  "tool_results (stage n r t (map result_event rs)) = rs"
proof -
  have "filter_map tool_called (map result_event rs) = [] \<and> filter_map tool_settled (map result_event rs) = rs"
    by (induction rs) (auto simp: List.map_filter_simps)
  then show "tool_calls (stage n r t (map result_event rs)) = []"
    "tool_results (stage n r t (map result_event rs)) = rs"
    by (simp_all only: events_where_events map_stage)
qed

lemma incomplete_tool_calls_alt:
  "map (\<lambda>p. (ic_turn p, ic_step p, ic_call p)) (incomplete_tool_calls es) =
     filter (\<lambda>(t, k, c). tc_id c \<notin> settled_calls es) (tool_calls es)"
  by (simp add: incomplete_tool_calls_def comp_def case_prod_unfold)

text \<open>The calls recovery must leave alone.\<close>

definition resumable :: "logged_event list \<Rightarrow> incomplete_tool_call \<Rightarrow> bool" where
  "resumable es p \<longleftrightarrow>
     tc_id (ic_call p) \<in> set (map pa_call_id (pending_tool_approvals es)) \<or>
     (\<exists>qs. recoverable_user_questions es = Some qs \<and> tc_id (ic_call p) \<in> set (map (tc_id \<circ> rq_call) qs))"

lemma resumable_id: "tc_id (ic_call p) = tc_id (ic_call q) \<Longrightarrow> resumable es p = resumable es q"
  by (simp add: resumable_def)

text \<open>Property C9. Crash recovery is complete and acceptable: on every session the recovery events are defined,
  appending them succeeds (unless the revision counter is exhausted), and afterwards the only calls
  without a result are those waiting for an approval or held by a recoverable question.\<close>

theorem recovery_append_accepted:
  assumes ok: "session_ok dec s" and room: "se_revision s \<noteq> - 1"
  shows "\<exists>events s' receipt. outcome_unknown_recovery dec show_error render (se_events s) = Some events \<and>
    append_batch_at dec s (se_revision s) events t = (s', Inr receipt) \<and>
    incomplete_tool_calls (se_events s') = filter (resumable (se_events s)) (incomplete_tool_calls (se_events s))"
proof -
  let ?es = "se_events s" and ?v = "after_log dec (se_events s)"
  let ?data = "\<lambda>p. (ic_turn p, ic_step p, recovery_result dec show_error render (ic_call p))"
  define sel where "sel = filter (\<lambda>p. \<not> resumable ?es p) (incomplete_tool_calls ?es)"
  have log: "validate_log dec (se_revision s) ?es = Inr ()" using ok by (simp add: session_ok_def)
  have J: "questions_ok ?es ?v" by (rule questions_at_end [OF log])
  obtain qs where qs: "recoverable_user_questions ?es = Some qs" using recoverable_spec [OF log] by blast
  obtain r where r: "checked_add (se_revision s) 1 = Some r" using checked_add_one [OF room] by blast
  have calls: "calls_ok ?es ?v" using J by (simp add: questions_ok_def)
  have ev: "outcome_unknown_recovery dec show_error render ?es = Some (map result_event (map ?data sel))"
    by (simp add: outcome_unknown_recovery_def qs sel_def resumable_def comp_def)
  have mem: "(ic_turn p, ic_step p, ic_call p) \<in> set (tool_calls ?es) \<and> tc_id (ic_call p) \<notin> settled_calls ?es \<and>
      \<not> resumable ?es p" if "p \<in> set sel" for p
    using that by (auto simp: sel_def incomplete_tool_calls_def)
  have "\<forall>x\<in>set (map ?data sel). settles dec ?v x"
  proof
    fix x assume "x \<in> set (map ?data sel)"
    then obtain p where p: "p \<in> set sel" "x = ?data p" by auto
    have "v_question_by_call ?v (tc_id (ic_call p)) = None"
    proof (rule ccontr)
      assume "v_question_by_call ?v (tc_id (ic_call p)) \<noteq> None"
      then obtain j where "v_question_by_call ?v (tc_id (ic_call p)) = Some j" by blast
      moreover have "tc_id (ic_call p) \<in> set (call_ids ?es)"
        using mem [OF p(1)] by (force simp: call_ids_def)
      ultimately show False
        using requested_is_recoverable [OF log qs] mem [OF p(1)] qs by (auto simp: resumable_def)
    qed
    with recovery_settles [OF J, of "ic_turn p" "ic_step p" "ic_call p"] mem [OF p(1)] p(2)
    show "settles dec ?v x" by simp
  qed
  moreover have "distinct (map (\<lambda>x. tr_call_id (snd (snd x))) (map ?data sel))"
  proof -
    have "distinct (map (\<lambda>p. tc_id (ic_call p)) (incomplete_tool_calls ?es))"
      using calls by (simp add: calls_ok_def call_ids_def incomplete_tool_calls_def comp_def case_prod_unfold
        distinct_map_filter)
    then show ?thesis
      by (simp add: comp_def recovery_result_outcome sel_def distinct_map_filter)
  qed
  ultimately obtain s' receipt where app:
      "append_batch_at dec s (se_revision s) (map result_event (map ?data sel)) t = (s', Inr receipt)"
    and s': "se_events s' = ?es @ stage (next_seq s) r t (map result_event (map ?data sel))"
    using append_settlements [OF ok r, of "map ?data sel" t] by blast
  have same: "tool_calls (se_events s') = tool_calls ?es"
    and settled: "settled_calls (se_events s') = settled_calls ?es \<union> (\<lambda>p. tc_id (ic_call p)) ` set sel"
    unfolding settled_calls_def result_ids_def s' events_where_append staged_results
    by (auto simp: recovery_result_outcome image_image)
  have "incomplete_tool_calls (se_events s') =
      filter (\<lambda>p. tc_id (ic_call p) \<notin> (\<lambda>p. tc_id (ic_call p)) ` set sel) (incomplete_tool_calls ?es)"
    by (simp add: incomplete_tool_calls_def same settled filter_map comp_def case_prod_unfold conj_commute)
  also have "\<dots> = filter (resumable ?es) (incomplete_tool_calls ?es)"
    by (rule filter_cong) (auto simp: sel_def dest: resumable_id)
  finally have "incomplete_tool_calls (se_events s') = filter (resumable ?es) (incomplete_tool_calls ?es)" .
  with ev app show ?thesis by blast
qed

text \<open>A session that stopped after the audit of a call.\<close>

definition crashed_session :: session where
  "crashed_session = example_start\<lparr>se_events := stage 0 1 7 (take 7 example_events), se_revision := 1\<rparr>"

lemma crashed_ok: "session_ok no_questions crashed_session"
proof -
  have "validate_log no_questions 1 (stage 0 1 7 (take 7 example_events)) = Inr ()"
    by (simp add: run_validator example_defs)
  moreover have "validate_header (se_header example_start) = Inr ()"
    by (simp add: validate_header_def example_start_def new_header_def FORMAT_VERSION_def)
  ultimately show ?thesis by (simp add: session_ok_def crashed_session_def)
qed

theorem recovery_append_accepted_witness:
  "\<exists>events s' receipt. outcome_unknown_recovery no_questions (\<lambda>_. []) (\<lambda>e. e) (se_events crashed_session) = Some events \<and>
    append_batch_at no_questions crashed_session 1 events 8 = (s', Inr receipt) \<and>
    incomplete_tool_calls (se_events s') =
      filter (resumable (se_events crashed_session)) (incomplete_tool_calls (se_events crashed_session)) \<and>
    length (incomplete_tool_calls (se_events crashed_session)) = 1"
proof -
  have "se_revision crashed_session = 1" by (simp add: crashed_session_def)
  moreover have "length (incomplete_tool_calls (se_events crashed_session)) = 1"
    by (simp add: crashed_session_def stage_def example_events_def incomplete_tool_calls_def settled_calls_def
        result_ids_def events_where_def List.map_filter_simps)
  ultimately show ?thesis
    using recovery_append_accepted [OF crashed_ok, of "\<lambda>_. []" "\<lambda>e. e" 8] by auto
qed

subsection \<open>Questions and results\<close>

lemma question_lookup:
  assumes J: "questions_ok es s" and i: "v_question_by_call s call = Some i"
  obtains iv x where "iv \<in> set (question_requests es)" and "qi_execution_id iv = call" and "qi_interaction_id iv = i"
    and "(i, x) \<in> set (v_questions s)" and "map_of (v_questions s) i = Some x"
proof -
  from i J obtain iv where iv: "iv \<in> set (question_requests es)" "qi_execution_id iv = call" "qi_interaction_id iv = i"
    by (auto simp: questions_ok_def dest!: map_of_SomeD)
  have "i \<in> set (map fst (v_questions s))" unfolding question_keys(1) [OF J] using iv by auto
  then obtain x where x: "(i, x) \<in> set (v_questions s)" by auto
  then have "map_of (v_questions s) i = Some x" by (rule map_of_is_SomeI [OF question_keys(2) [OF J]])
  with iv x show ?thesis by (rule that)
qed


text \<open>A log on which the user dismissed a question and the tool then reported it.\<close>

definition question_call :: tool_call where
  "question_call = example_call\<lparr>tc_id := ''exec-1'', tc_name := ASK_USER_QUESTION_TOOL\<rparr>"

definition question_events :: "event_data list" where
  "question_events =
     [TurnStart 1, StepStart 1 1, AssistantMessage 1 1 ((assistant_message ''ok'')\<lparr>msg_tool_calls := [question_call]\<rparr>) None,
      ToolCall 1 1 question_call, QuestionRequested example_invocation,
      QuestionCancelled ''question:exec-1'' ''dismissed'',
      ToolResult 1 1 (example_result\<lparr>tr_call_id := ''exec-1''\<rparr>)]"

definition decode_example :: "string \<Rightarrow> string + ask_request" where
  "decode_example arguments = Inr (qi_request example_invocation)"

lemma question_valid: "validate_log decode_example 1 (stage 0 1 7 question_events) = Inr ()"
proof -
  note example_ok [simp]
  have [simp]: "\<not> blank ''question:exec-1''" "\<not> blank ''dismissed''" by code_simp+
  have [simp]: "qi_execution_id example_invocation = ''exec-1''"
    "qi_interaction_id example_invocation = ''question:exec-1''"
    by (simp_all add: example_invocation_def)
  have [simp]: "cancel example_interaction reason = (example_interaction\<lparr>qx_terminal := Some (TCancelled reason)\<rparr>, Inr ())" for reason
    by (simp add: cancel_def example_interaction_def)
  show ?thesis
    by (simp add: run_validator question_events_def question_call_def example_call_def example_result_def
        decoded_arguments_def decode_example_def set_question_def terminal_state_def)
qed


subsection \<open>Pending approvals\<close>

definition approvals_ok :: "logged_event list \<Rightarrow> vstate \<Rightarrow> bool" where
  "approvals_ok es s \<longleftrightarrow>
     calls_ok es s \<and> (\<forall>a\<in>set (events_where approval_asked es). \<forall>cid. fst (snd (snd a)) = Some cid \<longrightarrow> cid \<in> set (call_ids es))"

interpretation approvals: event_invariant "\<lambda>_. approvals_ok"
proof
  show "approvals_ok [] init_vstate" using calls.event_start by (simp add: approvals_ok_def)
next
  fix es s r
  show "approvals_ok es (s\<lparr>v_revision := r\<rparr>) = approvals_ok es s"
    by (simp add: approvals_ok_def calls.revision)
next
  fix dec es s and l :: logged_event and evs s'
  assume J: "approvals_ok es s" and pre: "prefix (es @ [l]) evs"
    and all: "is_tool_call (le_event l) \<or> check_open_calls (length es) s = Inr ()"
    and check: "check_data dec evs (length es) (length es) (le_revision l) (le_event l) s = Inr s'"
  have calls: "calls_ok es s" using J by (simp add: approvals_ok_def)
  show "approvals_ok (es @ [l]) s'"
  proof (cases "approval_asked (le_event l)")
    case None
    with J calls.event [OF calls pre all check] show ?thesis by (auto simp: approvals_ok_def)
  next
    case (Some a)
    then obtain i tn ci rs where e: "le_event l = ApprovalAsked i tn ci rs" and a: "a = (i, tn, ci, rs)"
      by (cases "le_event l") auto
    have "cid \<in> set (call_ids es)" if "ci = Some cid" for cid
    proof -
      from check e that obtain t k where "v_calls s cid = Some (False, t, k)" by (auto simp: accepts)
      with calls have "call_coords es cid \<noteq> None" by (auto simp: calls_ok_def call_status_def)
      then show ?thesis by (simp add: dom_call_coords)
    qed
    with J calls.event [OF calls pre all check] Some a show ?thesis by (auto simp: approvals_ok_def)
  qed
qed

text \<open>No approval is lost: on a valid log the projection reports, in order, every approval that was
  asked for a call and has neither a decision nor a result of that call.\<close>

theorem pending_approvals_complete:
  assumes "validate_log dec rv es = Inr ()"
  shows "map (\<lambda>p. (pa_id p, pa_tool_name p, Some (pa_call_id p), pa_reason p)) (pending_tool_approvals es) =
    filter (\<lambda>(i, tool_name, call_id, reason). i \<notin> set (events_where approval_decided es) \<and>
        (\<exists>cid. call_id = Some cid \<and> cid \<notin> settled_calls es)) (events_where approval_asked es)"
  using assms
proof (rule approvals.at_end)
  fix s assume J: "approvals_ok es s"
  have found: "calls_by_id es cid \<noteq> None" if "cid \<in> set (call_ids es)" for cid
    using that calls_by_id_dom by blast
  let ?P = "\<lambda>(i, tool_name, call_id, reason). i \<notin> set (events_where approval_decided es) \<and>
        (\<exists>cid. call_id = Some cid \<and> cid \<notin> settled_calls es)"
  have "filter_map (\<lambda>a. map_option (\<lambda>p. (pa_id p, pa_tool_name p, Some (pa_call_id p), pa_reason p)) (pending_approval_of es a))
      (events_where approval_asked es) = filter_map (\<lambda>a. if ?P a then Some a else None) (events_where approval_asked es)"
    using J found
    by (intro filter_map_cong) (fastforce simp: approvals_ok_def pending_approval_of_def split: prod.splits option.splits)
  also have "\<dots> = filter ?P (events_where approval_asked es)"
    using filter_map_if [of ?P "\<lambda>x. x"] by simp
  finally show ?thesis by (simp add: pending_tool_approvals_def map_filter_map)
qed

theorem pending_approvals_complete_witness:
  "pending_tool_approvals (stage 0 1 7 example_events) = []"
  using pending_approvals_complete [OF example_valid]
  by (simp add: stage_def example_events_def events_where_def List.map_filter_simps)

end
