(* ===== verification/Store.thy ===== *)
theory Store
  imports Session_Log "HOL-Library.List_Lexorder" "HOL-Library.Char_ord"
begin

text \<open>
  The storage seam of crates/xharness-session/src/store.rs: the error type, the trait \<open>Store\<close> as a
  record of its methods over a state \<open>'st\<close>, its contract as a locale, and the in-process store, a map
  from session ids to sessions.  Every method holds the store's lock for its whole body, so a method is
  one step; the clock an append reads is an argument.
\<close>

subsection \<open>The trait\<close>

datatype store_error =
    InvalidSessionId string
  | AlreadyExists string
  | NotFound string
  | StoreRevisionConflict string revision revision
  | Backend string
  | InvalidSession session_error

record 'st store_ops =
  so_list_headers :: "'st \<Rightarrow> store_error + session_header list"
  so_create :: "session_header \<Rightarrow> 'st \<Rightarrow> 'st \<times> (store_error + session)"
  so_load :: "string \<Rightarrow> 'st \<Rightarrow> store_error + session option"
  so_append :: "u64 \<Rightarrow> string \<Rightarrow> revision \<Rightarrow> event_data list \<Rightarrow> 'st \<Rightarrow> 'st \<times> (store_error + append_receipt)"
  so_flush :: "string \<Rightarrow> 'st \<Rightarrow> store_error + revision"
  so_inspect :: "string \<Rightarrow> 'st \<Rightarrow> store_error + session_inspection option"

subsection \<open>The in-process store\<close>

text \<open>The \<open>HashMap\<close> behind the lock: at most one entry per id.\<close>

type_synonym memory_store = "(string \<times> session) list"

definition memory_list_headers :: "memory_store \<Rightarrow> store_error + session_header list" where
  "memory_list_headers st = Inr (sort_key sh_id (map (\<lambda>p. se_header (snd p)) st))"

definition memory_create :: "session_header \<Rightarrow> memory_store \<Rightarrow> memory_store \<times> (store_error + session)" where
  "memory_create header st =
     (case new_session header of
        Inl error \<Rightarrow> (st, Inl (InvalidSession error))
      | Inr s \<Rightarrow>
          (if map_of st (sh_id (se_header s)) \<noteq> None
           then (st, Inl (AlreadyExists (sh_id (se_header s))))
           else (AList.update (sh_id (se_header s)) s st, Inr s)))"

definition memory_load :: "string \<Rightarrow> memory_store \<Rightarrow> store_error + session option" where
  "memory_load i st = Inr (map_of st i)"

definition memory_append ::
  "(string \<Rightarrow> string + ask_request) \<Rightarrow> u64 \<Rightarrow> string \<Rightarrow> revision \<Rightarrow> event_data list \<Rightarrow> memory_store \<Rightarrow>
     memory_store \<times> (store_error + append_receipt)" where
  "memory_append dec now i expected events st =
     (case map_of st i of
        None \<Rightarrow> (st, Inl (NotFound i))
      | Some s \<Rightarrow>
          (if se_revision s \<noteq> expected
           then (st, Inl (StoreRevisionConflict i expected (se_revision s)))
           else (case append_batch_at dec s expected events now of
                   (s1, res) \<Rightarrow> (AList.update i s1 st, map_err InvalidSession res))))"

definition memory_flush :: "string \<Rightarrow> memory_store \<Rightarrow> store_error + revision" where
  "memory_flush i st = (case map_of st i of None \<Rightarrow> Inl (NotFound i) | Some s \<Rightarrow> Inr (se_revision s))"

definition memory_inspect :: "string \<Rightarrow> memory_store \<Rightarrow> store_error + session_inspection option" where
  "memory_inspect i st = Inr (map_option inspect (map_of st i))"

definition memory_ops :: "(string \<Rightarrow> string + ask_request) \<Rightarrow> memory_store store_ops" where
  "memory_ops dec =
     \<lparr>so_list_headers = memory_list_headers, so_create = memory_create, so_load = memory_load,
      so_append = memory_append dec, so_flush = memory_flush, so_inspect = memory_inspect\<rparr>"

subsection \<open>Growth of a session\<close>

text \<open>What other writers may do to a session between two looks at it.\<close>

definition extends :: "session \<Rightarrow> session \<Rightarrow> bool" where
  "extends s s' \<longleftrightarrow>
     se_header s' = se_header s \<and> prefix (se_events s) (se_events s') \<and> se_revision s \<le> se_revision s' \<and>
     (se_revision s' = se_revision s \<longrightarrow> s' = s)"

lemma extends_refl [simp]: "extends s s"
  by (simp add: extends_def)

lemma extends_trans: "extends s t \<Longrightarrow> extends t u \<Longrightarrow> extends s u"
  unfolding extends_def by (metis order_antisym order_trans prefix_order.trans)

lemma extends_same: "extends s s' \<Longrightarrow> se_revision s' = se_revision s \<Longrightarrow> s' = s"
  by (simp add: extends_def)

lemma append_extends:
  assumes "append_batch_at dec s expected es t = (s', res)"
  shows "extends s s'"
  using append_batch_cases [OF assms]
  by (auto simp: extends_def word_le_nat_alt dest: checked_add_unat)

text \<open>Everything the users of a store can do to it.\<close>

inductive store_run :: "'st store_ops \<Rightarrow> 'st \<Rightarrow> 'st \<Rightarrow> bool" for ops where
  idle: "store_run ops st st"
| created: "store_run ops st st1 \<Longrightarrow> store_run ops st (fst (so_create ops header st1))"
| appended: "store_run ops st st1 \<Longrightarrow> store_run ops st (fst (so_append ops now i expected events st1))"

lemma store_run_trans: "store_run ops st1 st2 \<Longrightarrow> store_run ops st0 st1 \<Longrightarrow> store_run ops st0 st2"
  by (induction rule: store_run.induct) (auto intro: store_run.intros)

subsection \<open>The contract\<close>

text \<open>What a client may rely on in a state that is \<open>ok\<close>; the laws for \<open>append\<close> say that it is the
  compare-and-swap append of the stored session.\<close>

locale store_contract =
  fixes ops :: "'st store_ops" and dec :: "string \<Rightarrow> string + ask_request" and ok :: "'st \<Rightarrow> bool"
  assumes loaded: "\<lbrakk>ok st; so_load ops i st = Inr (Some s)\<rbrakk> \<Longrightarrow> session_ok dec s \<and> sh_id (se_header s) = i"
    and create_ok: "ok st \<Longrightarrow> ok (fst (so_create ops header st))"
    and append_ok: "ok st \<Longrightarrow> ok (fst (so_append ops now i expected events st))"
    and create_new: "\<lbrakk>ok st; so_load ops (sh_id header) st = Inr None; new_session header = Inr s\<rbrakk> \<Longrightarrow>
      snd (so_create ops header st) = Inr s \<and>
      so_load ops (sh_id header) (fst (so_create ops header st)) = Inr (Some s)"
    and create_old: "\<lbrakk>ok st; so_load ops (sh_id header) st = Inr (Some s); new_session header = Inr s'\<rbrakk> \<Longrightarrow>
      so_create ops header st = (st, Inl (AlreadyExists (sh_id header)))"
    and create_invalid: "\<lbrakk>ok st; new_session header = Inl e\<rbrakk> \<Longrightarrow> \<exists>e'. so_create ops header st = (st, Inl e')"
    and create_frame: "\<lbrakk>ok st; i \<noteq> sh_id header\<rbrakk> \<Longrightarrow> so_load ops i (fst (so_create ops header st)) = so_load ops i st"
    and append_missing: "\<lbrakk>ok st; so_load ops i st = Inr None\<rbrakk> \<Longrightarrow>
      snd (so_append ops now i expected events st) = Inl (NotFound i) \<and>
      so_load ops i (fst (so_append ops now i expected events st)) = Inr None"
    and append_stale: "\<lbrakk>ok st; so_load ops i st = Inr (Some s); expected \<noteq> se_revision s\<rbrakk> \<Longrightarrow>
      snd (so_append ops now i expected events st) = Inl (StoreRevisionConflict i expected (se_revision s)) \<and>
      so_load ops i (fst (so_append ops now i expected events st)) = Inr (Some s)"
    and append_current: "\<lbrakk>ok st; so_load ops i st = Inr (Some s);
        append_batch_at dec s (se_revision s) events now = (s', res)\<rbrakk> \<Longrightarrow>
      snd (so_append ops now i (se_revision s) events st) = map_err InvalidSession res \<and>
      so_load ops i (fst (so_append ops now i (se_revision s) events st)) = Inr (Some s')"
    and append_frame: "\<lbrakk>ok st; j \<noteq> i\<rbrakk> \<Longrightarrow>
      so_load ops j (fst (so_append ops now i expected events st)) = so_load ops j st"
    and flush_present: "\<lbrakk>ok st; so_load ops i st = Inr (Some s)\<rbrakk> \<Longrightarrow> so_flush ops i st = Inr (se_revision s)"
    and flush_missing: "\<lbrakk>ok st; so_load ops i st = Inr None\<rbrakk> \<Longrightarrow> so_flush ops i st = Inl (NotFound i)"
    and inspected: "ok st \<Longrightarrow> so_inspect ops i st = and_then (so_load ops i st) (\<lambda>s. Inr (map_option inspect s))"
    and listed: "ok st \<Longrightarrow> \<exists>hs. so_list_headers ops st = Inr hs \<and> sorted (map sh_id hs) \<and> distinct (map sh_id hs) \<and>
      set hs = {se_header s | i s. so_load ops i st = Inr (Some s)}"
begin

lemma append_any:
  assumes "ok st" and "so_load ops i st = Inr (Some s)"
  obtains s' where "so_load ops i (fst (so_append ops now i expected events st)) = Inr (Some s')" and "extends s s'"
proof (cases "expected = se_revision s")
  case True
  obtain s' res where "append_batch_at dec s (se_revision s) events now = (s', res)" by fastforce
  with append_current [OF assms this] append_extends [OF this] True that show thesis by blast
next
  case False
  with append_stale [OF assms False] assms that [of s] show thesis by simp
qed

lemma create_view:
  assumes "ok st" and "so_load ops (sh_id header) st = Inr s0"
  shows "so_load ops (sh_id header) (fst (so_create ops header st)) =
    Inr (case s0 of Some s \<Rightarrow> Some s | None \<Rightarrow> (case new_session header of Inl _ \<Rightarrow> None | Inr s \<Rightarrow> Some s))"
proof (cases "new_session header")
  case (Inl e)
  with create_invalid [OF assms(1) Inl] assms(2) show ?thesis by (auto split: option.split)
next
  case (Inr s)
  with assms show ?thesis by (cases s0) (simp_all add: create_new create_old)
qed

lemma run_ok: "store_run ops st st' \<Longrightarrow> ok st \<Longrightarrow> ok st'"
  by (induction rule: store_run.induct) (auto intro: create_ok append_ok)

lemma run_extends:
  assumes "store_run ops st st'" and "ok st" and "so_load ops i st = Inr (Some s)"
  shows "\<exists>s'. so_load ops i st' = Inr (Some s') \<and> extends s s'"
  using assms
proof (induction rule: store_run.induct)
  case idle
  then show ?case by auto
next
  case (created st st1 header)
  then obtain s1 where s1: "so_load ops i st1 = Inr (Some s1)" "extends s s1" by blast
  have ok1: "ok st1" using created by (blast intro: run_ok)
  show ?case
  proof (cases "i = sh_id header")
    case True
    with ok1 s1 show ?thesis
    proof (cases "new_session header")
      case (Inl e)
      with create_invalid [OF ok1] s1 show ?thesis by fastforce
    qed (auto simp: create_old)
  qed (use s1 ok1 in \<open>auto simp: create_frame\<close>)
next
  case (appended st st1 now j expected events)
  then obtain s1 where s1: "so_load ops i st1 = Inr (Some s1)" "extends s s1" by blast
  have ok1: "ok st1" using appended by (blast intro: run_ok)
  show ?case
  proof (cases "i = j")
    case True
    with append_any [OF ok1 s1(1), of now expected events] s1(2) show ?thesis
      by (metis extends_trans)
  qed (use s1 ok1 in \<open>auto simp: append_frame\<close>)
qed

end

text \<open>Two stores agree: for every id both accept they hold the same session, and no other.\<close>

definition stores_agree ::
  "'l store_ops \<Rightarrow> ('l \<Rightarrow> bool) \<Rightarrow> 'r store_ops \<Rightarrow> ('r \<Rightarrow> bool) \<Rightarrow> (string \<Rightarrow> bool) \<Rightarrow> 'l \<Rightarrow> 'r \<Rightarrow> bool" where
  "stores_agree opsL okL opsR okR valid l r \<longleftrightarrow>
     okL l \<and> okR r \<and>
     (\<forall>i. valid i \<longrightarrow> so_load opsL i l = so_load opsR i r \<and> (\<exists>s. so_load opsR i r = Inr s)) \<and>
     (\<forall>i s. so_load opsL i l = Inr (Some s) \<or> so_load opsR i r = Inr (Some s) \<longrightarrow> valid i)"

lemma same_listing:
  assumes "sorted (map f xs)" "distinct (map f xs)" "sorted (map f ys)" "distinct (map f ys)" "set xs = set ys"
  shows "xs = ys"
proof (rule map_inj_on)
  show "map f xs = map f ys"
    using assms by (intro sorted_distinct_set_unique) simp_all
  show "inj_on f (set xs \<union> set ys)" using assms(2,5) by (simp add: distinct_map)
qed

locale store_pair = left: store_contract opsL dec okL + right: store_contract opsR dec okR
  for opsL :: "'l store_ops" and okL and opsR :: "'r store_ops" and okR and dec +
  fixes valid :: "string \<Rightarrow> bool"
begin

lemma agree_create:
  assumes "stores_agree opsL okL opsR okR valid l r" and "valid (sh_id header)"
  shows "stores_agree opsL okL opsR okR valid (fst (so_create opsL header l)) (fst (so_create opsR header r))"
    "new_session header = Inr s \<Longrightarrow> snd (so_create opsL header l) = snd (so_create opsR header r)"
proof -
  note agree = assms(1) [unfolded stores_agree_def]
  obtain s0 where load: "so_load opsL (sh_id header) l = Inr s0" "so_load opsR (sh_id header) r = Inr s0"
    using agree assms(2) by fastforce
  have new: "so_load opsL i (fst (so_create opsL header l)) = so_load opsR i (fst (so_create opsR header r)) \<and>
      (\<exists>s. so_load opsR i (fst (so_create opsR header r)) = Inr s)" if "valid i" for i
    using that agree load left.create_view [of l header s0] right.create_view [of r header s0]
      left.create_frame [of l i header] right.create_frame [of r i header]
    by (cases "i = sh_id header") simp_all
  have "valid i" if "so_load opsL i (fst (so_create opsL header l)) = Inr (Some s) \<or>
      so_load opsR i (fst (so_create opsR header r)) = Inr (Some s)" for i s
    using that agree assms(2) left.create_frame [of l i header] right.create_frame [of r i header]
    by (cases "i = sh_id header") auto
  with new agree show "stores_agree opsL okL opsR okR valid (fst (so_create opsL header l)) (fst (so_create opsR header r))"
    unfolding stores_agree_def by (blast intro: left.create_ok right.create_ok)
  show "snd (so_create opsL header l) = snd (so_create opsR header r)" if "new_session header = Inr s"
    using that agree load left.create_new [of l header] right.create_new [of r header]
      left.create_old [of l header] right.create_old [of r header] by (cases s0) auto
qed

lemma agree_append:
  assumes "stores_agree opsL okL opsR okR valid l r" and "valid i"
  shows "stores_agree opsL okL opsR okR valid
      (fst (so_append opsL now i expected events l)) (fst (so_append opsR now i expected events r))"
    "snd (so_append opsL now i expected events l) = snd (so_append opsR now i expected events r)"
proof -
  note agree = assms(1) [unfolded stores_agree_def]
  obtain s0 where load: "so_load opsL i l = Inr s0" "so_load opsR i r = Inr s0"
    using agree assms(2) by fastforce
  let ?l = "so_append opsL now i expected events l" and ?r = "so_append opsR now i expected events r"
  have same: "snd ?l = snd ?r \<and> so_load opsL i (fst ?l) = so_load opsR i (fst ?r) \<and> (\<exists>s. so_load opsR i (fst ?r) = Inr s)"
  proof (cases s0)
    case None
    with agree load left.append_missing [of l i now expected events] right.append_missing [of r i now expected events]
    show ?thesis by simp
  next
    case (Some s)
    obtain s' res where app: "append_batch_at dec s (se_revision s) events now = (s', res)" by fastforce
    show ?thesis
    proof (cases "expected = se_revision s")
      case True
      with agree load Some left.append_current [of l i s events now s' res] right.append_current [of r i s events now s' res] app
      show ?thesis by simp
    next
      case False
      with agree load Some left.append_stale [of l i s expected now events] right.append_stale [of r i s expected now events]
      show ?thesis by simp
    qed
  qed
  then show "snd ?l = snd ?r" by blast
  have "so_load opsL j (fst ?l) = so_load opsR j (fst ?r) \<and> (\<exists>s. so_load opsR j (fst ?r) = Inr s)" if "valid j" for j
    using that agree same left.append_frame [of l j i now expected events] right.append_frame [of r j i now expected events]
    by (cases "j = i") simp_all
  moreover have "valid j" if "so_load opsL j (fst ?l) = Inr (Some s) \<or> so_load opsR j (fst ?r) = Inr (Some s)" for j s
    using that agree assms(2) left.append_frame [of l j i now expected events] right.append_frame [of r j i now expected events]
    by (cases "j = i") auto
  ultimately show "stores_agree opsL okL opsR okR valid (fst ?l) (fst ?r)"
    using agree unfolding stores_agree_def by (blast intro: left.append_ok right.append_ok)
qed

lemma agree_read:
  assumes "stores_agree opsL okL opsR okR valid l r" and "valid i"
  shows "so_load opsL i l = so_load opsR i r" "so_flush opsL i l = so_flush opsR i r"
    "so_inspect opsL i l = so_inspect opsR i r"
proof -
  note agree = assms(1) [unfolded stores_agree_def]
  obtain s0 where load: "so_load opsL i l = Inr s0" "so_load opsR i r = Inr s0"
    using agree assms(2) by fastforce
  then show "so_load opsL i l = so_load opsR i r" by simp
  show "so_flush opsL i l = so_flush opsR i r"
    using agree load by (cases s0) (simp_all add: left.flush_present right.flush_present left.flush_missing right.flush_missing)
  show "so_inspect opsL i l = so_inspect opsR i r"
    using agree load by (simp add: left.inspected right.inspected)
qed

lemma agree_list:
  assumes "stores_agree opsL okL opsR okR valid l r"
  shows "so_list_headers opsL l = so_list_headers opsR r"
proof -
  note agree = assms [unfolded stores_agree_def]
  then have "so_load opsL i l = Inr (Some s) \<longleftrightarrow> so_load opsR i r = Inr (Some s)" for i s by metis
  moreover obtain hsl where "so_list_headers opsL l = Inr hsl" "sorted (map sh_id hsl)" "distinct (map sh_id hsl)"
    "set hsl = {se_header s | i s. so_load opsL i l = Inr (Some s)}" using left.listed agree by blast
  moreover obtain hsr where "so_list_headers opsR r = Inr hsr" "sorted (map sh_id hsr)" "distinct (map sh_id hsr)"
    "set hsr = {se_header s | i s. so_load opsR i r = Inr (Some s)}" using right.listed agree by blast
  ultimately show ?thesis using same_listing [of sh_id hsl hsr] by simp
qed

end

subsection \<open>The in-process store meets the contract\<close>

definition memory_ok :: "(string \<Rightarrow> string + ask_request) \<Rightarrow> memory_store \<Rightarrow> bool" where
  "memory_ok dec st \<longleftrightarrow>
     distinct (map fst st) \<and> (\<forall>(i, s)\<in>set st. session_ok dec s \<and> sh_id (se_header s) = i)"

lemma memory_okD: "memory_ok dec st \<Longrightarrow> map_of st i = Some s \<Longrightarrow> session_ok dec s \<and> sh_id (se_header s) = i"
  by (auto simp: memory_ok_def dest: map_of_SomeD)

lemma memory_ok_update:
  assumes "memory_ok dec st" and "session_ok dec s" and "sh_id (se_header s) = i"
  shows "memory_ok dec (AList.update i s st)"
proof -
  have d: "distinct (map fst (AList.update i s st))"
    using assms(1) by (simp add: memory_ok_def AList.distinct_update)
  have "session_ok dec t \<and> sh_id (se_header t) = j" if "(j, t) \<in> set (AList.update i s st)" for j t
  proof -
    from d that have "map_of (AList.update i s st) j = Some t" by simp
    then show ?thesis using assms memory_okD [OF assms(1)] by (auto simp: AList.update_conv' split: if_splits)
  qed
  with d show ?thesis by (auto simp: memory_ok_def)
qed

lemma new_session_header: "new_session h = Inr s \<Longrightarrow> se_header s = h"
  by (auto simp: new_session_def)

lemma memory_append_ok:
  assumes ok: "memory_ok dec st"
  shows "memory_ok dec (fst (memory_append dec now i expected events st))"
proof (cases "map_of st i")
  case (Some s)
  obtain s' res where run: "append_batch_at dec s expected events now = (s', res)" by fastforce
  then have "extends s s'" by (rule append_extends)
  moreover have "session_ok dec s'"
    using memory_okD [OF ok Some] run by (auto intro: append_batch_ok)
  ultimately show ?thesis
    using ok run Some memory_okD [OF ok Some] by (simp add: memory_append_def memory_ok_update extends_def)
qed (use ok in \<open>simp add: memory_append_def\<close>)

lemma memory_listed:
  assumes "memory_ok dec st"
  shows "\<exists>hs. memory_list_headers st = Inr hs \<and> sorted (map sh_id hs) \<and> distinct (map sh_id hs) \<and>
    set hs = {se_header s | i s. memory_load i st = Inr (Some s)}"
proof -
  let ?hs = "map (\<lambda>p. se_header (snd p)) st"
  have d: "distinct (map fst st)" using assms by (simp add: memory_ok_def)
  have ids: "map sh_id ?hs = map fst st" using assms by (auto simp: memory_ok_def)
  have "mset (map sh_id (sort_key sh_id ?hs)) = mset (map sh_id ?hs)"
    unfolding mset_map mset_sort ..
  then have "distinct (map sh_id (sort_key sh_id ?hs))"
    using d ids mset_eq_imp_distinct_iff by metis
  moreover have "set ?hs = {se_header s | i s. memory_load i st = Inr (Some s)}"
  proof -
    have "se_header s \<in> set ?hs" if "(i, s) \<in> set st" for i s using that by force
    with d show ?thesis by (auto simp: memory_load_def) blast+
  qed
  ultimately show ?thesis by (auto simp: memory_list_headers_def)
qed

interpretation memory: store_contract "memory_ops dec" dec "memory_ok dec" for dec
proof
  fix st i s
  assume "memory_ok dec st" and "so_load (memory_ops dec) i st = Inr (Some s)"
  then show "session_ok dec s \<and> sh_id (se_header s) = i"
    by (simp add: memory_ops_def memory_load_def memory_okD)
next
  fix st header assume "memory_ok dec st"
  then show "memory_ok dec (fst (so_create (memory_ops dec) header st))"
    by (auto simp: memory_ops_def memory_create_def new_session_ok memory_ok_update split: sum.split)
next
  fix st now i expected events assume "memory_ok dec st"
  then show "memory_ok dec (fst (so_append (memory_ops dec) now i expected events st))"
    by (simp add: memory_ops_def memory_append_ok)
next
  fix st header s
  assume "so_load (memory_ops dec) (sh_id header) st = Inr None" and "new_session header = Inr s"
  then show "snd (so_create (memory_ops dec) header st) = Inr s \<and>
      so_load (memory_ops dec) (sh_id header) (fst (so_create (memory_ops dec) header st)) = Inr (Some s)"
    using new_session_header [of header s]
    by (auto simp: memory_ops_def memory_create_def memory_load_def AList.update_conv')
next
  fix st header s s'
  assume "so_load (memory_ops dec) (sh_id header) st = Inr (Some s)" and "new_session header = Inr s'"
  then show "so_create (memory_ops dec) header st = (st, Inl (AlreadyExists (sh_id header)))"
    using new_session_header [of header s'] by (auto simp: memory_ops_def memory_create_def memory_load_def)
next
  fix st i s s' res events now
  assume "so_load (memory_ops dec) i st = Inr (Some s)"
    and "append_batch_at dec s (se_revision s) events now = (s', res)"
  then show "snd (so_append (memory_ops dec) now i (se_revision s) events st) = map_err InvalidSession res \<and>
      so_load (memory_ops dec) i (fst (so_append (memory_ops dec) now i (se_revision s) events st)) = Inr (Some s')"
    by (simp add: memory_ops_def memory_load_def memory_append_def AList.update_conv')
next
  fix st i and header :: session_header assume "i \<noteq> sh_id header"
  then show "so_load (memory_ops dec) i (fst (so_create (memory_ops dec) header st)) = so_load (memory_ops dec) i st"
    by (auto simp: memory_ops_def memory_load_def memory_create_def AList.update_conv' new_session_header split: sum.split)
next
  fix st i j now expected events assume "(j :: string) \<noteq> i"
  then show "so_load (memory_ops dec) j (fst (so_append (memory_ops dec) now i expected events st)) =
      so_load (memory_ops dec) j st"
    by (auto simp: memory_ops_def memory_load_def memory_append_def AList.update_conv' split: option.split prod.split)
next
  fix st assume "memory_ok dec st"
  from memory_listed [OF this]
  show "\<exists>hs. so_list_headers (memory_ops dec) st = Inr hs \<and> sorted (map sh_id hs) \<and> distinct (map sh_id hs) \<and>
      set hs = {se_header s | i s. so_load (memory_ops dec) i st = Inr (Some s)}"
    by (simp add: memory_ops_def)
qed (auto simp: memory_ops_def memory_load_def memory_append_def memory_create_def memory_flush_def memory_inspect_def)

subsection \<open>Properties\<close>

lemma memory_append_stale:
  "map_of st i = Some s \<Longrightarrow> expected \<noteq> se_revision s \<Longrightarrow>
     so_append (memory_ops dec) now i expected events st = (st, Inl (StoreRevisionConflict i expected (se_revision s)))"
  by (simp add: memory_ops_def memory_append_def)

text \<open>The store is append-only: whatever sequence of creations and appends it sees, a session once
  stored stays stored with its header, every event it had stays where it was, its revision never goes
  back, an unchanged revision means an unchanged session, and every stored log obeys the append rules.\<close>

theorem store_is_append_only:
  assumes "memory_ok dec st" and "store_run (memory_ops dec) st st'" and "map_of st i = Some s"
  shows "\<exists>s'. map_of st' i = Some s' \<and> se_header s' = se_header s \<and> prefix (se_events s) (se_events s') \<and>
    se_revision s \<le> se_revision s' \<and> (se_revision s' = se_revision s \<longrightarrow> s' = s) \<and>
    validate_log dec (se_revision s') (se_events s') = Inr ()"
proof -
  have "so_load (memory_ops dec) i st = Inr (Some s)" using assms(3) by (simp add: memory_ops_def memory_load_def)
  with memory.run_extends [OF assms(2,1)] obtain s' where s': "map_of st' i = Some s'" "extends s s'"
    by (auto simp: memory_ops_def memory_load_def)
  with memory_okD [OF memory.run_ok [OF assms(2,1)]] show ?thesis
    by (auto simp: extends_def session_ok_def)
qed

text \<open>Startup discovery sees every session exactly once, in ascending order of ids.\<close>

theorem list_headers_complete:
  assumes "memory_ok dec st"
  shows "\<exists>hs. memory_list_headers st = Inr hs \<and> sorted (map sh_id hs) \<and> distinct (map sh_id hs) \<and>
    set hs = {se_header s | i s. memory_load i st = Inr (Some s)}"
  using assms by (rule memory_listed)

definition example_store :: memory_store where
  "example_store = [(''s'', example_session)]"

lemma example_store_ok: "memory_ok no_questions example_store"
  using example_session_ok
  by (simp add: memory_ok_def example_store_def) (simp add: example_session_def example_start_def new_header_def)

theorem store_is_append_only_witness:
  "\<exists>s'. map_of (fst (memory_append no_questions 9 ''s'' 1 [TurnStart 2] example_store)) ''s'' = Some s' \<and>
     prefix (se_events example_session) (se_events s')"
proof -
  have "store_run (memory_ops no_questions) example_store
      (fst (so_append (memory_ops no_questions) 9 ''s'' 1 [TurnStart 2] example_store))"
    by (intro store_run.intros)
  from store_is_append_only [OF example_store_ok this, of "''s''" example_session]
  show ?thesis by (auto simp: example_store_def memory_ops_def)
qed

theorem list_headers_complete_witness:
  "\<exists>hs. memory_list_headers example_store = Inr hs \<and> set hs = {se_header example_session}"
proof -
  have "{se_header s | i s. memory_load i example_store = Inr (Some s)} = {se_header example_session}"
    by (auto simp: memory_load_def example_store_def split: if_splits)
  with list_headers_complete [OF example_store_ok] show ?thesis by auto
qed

end
