(* ===== verification/Inbox.thy ===== *)
theory Inbox
  imports Store Log_Turns
begin

text \<open>
  The durable inbox of an agent (crates/xharness-agent/src/inbox.rs): the two lists of pending messages
  replayed from the splice events of a session, and the operations that change them through the
  compare-and-swap append of a \<open>Store\<close>.

  A handle's operation is not one step: other handles and processes may use the store between its
  load and its append.  The argument \<open>w\<close> says what they do, and when the clock is read: before the
  load and before the append of attempt \<open>k\<close> the store moves by \<open>wo_env w\<close>.  The gate that serialises
  the operations of one handle needs no model of its own.
\<close>

definition MAX_CAS_RETRIES :: nat where
  "MAX_CAS_RETRIES = 16"

subsection \<open>The projection\<close>

record inbox_projection =
  ip_next_turn :: "inbox_message list"
  ip_next_step :: "inbox_message list"

datatype inbox_error =
    InboxStore store_error
  | SessionDisappeared string
  | EmptyMessageId
  | DuplicateMessage string
  | ProjectionCorrupt
  | Contended nat

definition empty_projection :: inbox_projection where
  "empty_projection = \<lparr>ip_next_turn = [], ip_next_step = []\<rparr>"

definition ip_list :: "inbox_projection \<Rightarrow> inbox_target \<Rightarrow> inbox_message list" where
  "ip_list p target = (case target of NextTurn \<Rightarrow> ip_next_turn p | NextStep \<Rightarrow> ip_next_step p)"

definition ip_set :: "inbox_projection \<Rightarrow> inbox_target \<Rightarrow> inbox_message list \<Rightarrow> inbox_projection" where
  "ip_set p target ms =
     (case target of NextTurn \<Rightarrow> p\<lparr>ip_next_turn := ms\<rparr> | NextStep \<Rightarrow> p\<lparr>ip_next_step := ms\<rparr>)"

definition has_pending :: "inbox_projection \<Rightarrow> bool" where
  "has_pending p \<longleftrightarrow> ip_next_turn p \<noteq> [] \<or> ip_next_step p \<noteq> []"

definition apply_splice ::
  "inbox_projection \<Rightarrow> inbox_target \<Rightarrow> nat \<Rightarrow> nat \<Rightarrow> inbox_message list \<Rightarrow>
     inbox_error + (inbox_projection \<times> inbox_message list)" where
  "apply_splice p target start removed_count inserted =
     (let pending = ip_list p target in
      case checked_add_usize start removed_count of
        None \<Rightarrow> Inl ProjectionCorrupt
      | Some stop \<Rightarrow>
          and_then (ensure (start > length pending \<or> stop > length pending) ProjectionCorrupt) (\<lambda>_.
          Inr (ip_set p target (splice start stop inserted pending), drop start (take stop pending))))"

fun project_event :: "event_data \<Rightarrow> inbox_projection \<Rightarrow> inbox_error + inbox_projection" where
  "project_event (AgentInboxSpliced target start removed_count inserted _) p =
     and_then (apply_splice p target start removed_count inserted) (\<lambda>r. Inr (fst r))"
| "project_event _ p = Inr p"

fun project_events :: "event_data list \<Rightarrow> inbox_projection \<Rightarrow> inbox_error + inbox_projection" where
  "project_events [] p = Inr p"
| "project_events (e # es) p = and_then (project_event e p) (project_events es)"

definition from_session :: "session \<Rightarrow> inbox_error + inbox_projection" where
  "from_session s = project_events (map le_event (se_events s)) empty_projection"

definition locate :: "inbox_projection \<Rightarrow> string \<Rightarrow> (inbox_target \<times> nat) option" where
  "locate p message_id =
     (case position (\<lambda>m. im_id m = message_id) (ip_next_turn p) of
        Some index \<Rightarrow> Some (NextTurn, index)
      | None \<Rightarrow>
          (case position (\<lambda>m. im_id m = message_id) (ip_next_step p) of
             Some index \<Rightarrow> Some (NextStep, index) | None \<Rightarrow> None))"

definition validate_insert :: "inbox_projection \<Rightarrow> inbox_message \<Rightarrow> string option \<Rightarrow> inbox_error + unit" where
  "validate_insert p m replacing =
     and_then (ensure (im_id m = []) EmptyMessageId) (\<lambda>_.
     ensure (locate p (im_id m) \<noteq> None \<and> replacing \<noteq> Some (im_id m)) (DuplicateMessage (im_id m)))"

subsection \<open>What the operations propose\<close>

datatype insert_position = Front | Back

definition insert_plan ::
  "inbox_target \<Rightarrow> insert_position \<Rightarrow> inbox_message \<Rightarrow> inbox_projection \<Rightarrow> inbox_error + event_data option" where
  "insert_plan target pos m p =
     and_then (validate_insert p m None) (\<lambda>_.
     let start = (case pos of Front \<Rightarrow> 0 | Back \<Rightarrow> length (ip_list p target)) in
     Inr (Some (AgentInboxSpliced target start 0 [m] None)))"

definition replace_plan :: "string \<Rightarrow> inbox_message \<Rightarrow> inbox_projection \<Rightarrow> inbox_error + event_data option" where
  "replace_plan message_id replacement p =
     (case locate p message_id of
        None \<Rightarrow> Inr None
      | Some (target, index) \<Rightarrow>
          and_then (validate_insert p replacement (Some message_id)) (\<lambda>_.
          Inr (Some (AgentInboxSpliced target index 1 [replacement] (Some SpliceCancelled)))))"

definition remove_plan :: "string \<Rightarrow> inbox_projection \<Rightarrow> inbox_error + event_data option" where
  "remove_plan message_id p =
     Inr (map_option (\<lambda>(target, index). AgentInboxSpliced target index 1 [] (Some SpliceCancelled))
            (locate p message_id))"

definition clear_plan :: "inbox_target \<Rightarrow> inbox_projection \<Rightarrow> inbox_error + event_data option" where
  "clear_plan target p =
     (let count = length (ip_list p target) in
      Inr (if count > 0 then Some (AgentInboxSpliced target 0 count [] (Some SpliceCancelled)) else None))"

text \<open>Identities that already have a durable \<open>user/message\<close>.\<close>

fun consumed_id :: "event_data \<Rightarrow> string option" where
  "consumed_id (UserMessage m _) = msg_id m"
| "consumed_id _ = None"

definition consumed_ids :: "session \<Rightarrow> string set" where
  "consumed_ids s = set (events_where consumed_id (se_events s))"

text \<open>Deletions of one list from the back: \<open>for index in (0..len).rev()\<close>.\<close>

fun delete_from_back :: "inbox_target \<Rightarrow> string set \<Rightarrow> inbox_message list \<Rightarrow> nat \<Rightarrow> event_data list" where
  "delete_from_back target consumed ms 0 = []"
| "delete_from_back target consumed ms (Suc index) =
     (if im_id (ms ! index) \<in> consumed then [AgentInboxSpliced target index 1 [] None] else []) @
     delete_from_back target consumed ms index"

definition reconcile_events :: "string set \<Rightarrow> inbox_projection \<Rightarrow> event_data list" where
  "reconcile_events consumed p =
     delete_from_back NextStep consumed (ip_next_step p) (length (ip_next_step p)) @
     delete_from_back NextTurn consumed (ip_next_turn p) (length (ip_next_turn p))"

subsection \<open>The compare-and-swap loop\<close>

record 'st world =
  wo_env :: "nat \<Rightarrow> 'st \<Rightarrow> 'st"
  wo_now :: "nat \<Rightarrow> u64"

definition inbox_load :: "'st store_ops \<Rightarrow> string \<Rightarrow> 'st \<Rightarrow> inbox_error + session" where
  "inbox_load ops i st =
     (case so_load ops i st of
        Inl error \<Rightarrow> Inl (InboxStore error)
      | Inr None \<Rightarrow> Inl (SessionDisappeared i)
      | Inr (Some s) \<Rightarrow> Inr s)"

text \<open>The loop of \<open>mutate\<close> and \<open>reconcile_consumed\<close>, with \<open>n\<close> attempts left: \<open>plan\<close> is the batch the
  operation wants appended to the session it loaded, \<open>None\<close> when there is nothing to do.\<close>

fun cas_loop ::
  "'st store_ops \<Rightarrow> 'st world \<Rightarrow> string \<Rightarrow> (session \<Rightarrow> inbox_error + event_data list option) \<Rightarrow> nat \<Rightarrow> nat \<Rightarrow>
     'st \<Rightarrow> 'st \<times> (inbox_error + append_receipt option)" where
  "cas_loop ops w i plan 0 k st = (st, Inl (Contended MAX_CAS_RETRIES))"
| "cas_loop ops w i plan (Suc n) k st =
     (let st1 = wo_env w (2 * k) st in
      case and_then (inbox_load ops i st1) (\<lambda>s. and_then (plan s) (\<lambda>batch. Inr (s, batch))) of
        Inl error \<Rightarrow> (st1, Inl error)
      | Inr (s, None) \<Rightarrow> (st1, Inr None)
      | Inr (s, Some events) \<Rightarrow>
          (case so_append ops (wo_now w k) i (se_revision s) events (wo_env w (2 * k + 1) st1) of
             (st2, Inr receipt) \<Rightarrow>
               (st2, map_err InboxStore (and_then (so_flush ops i st2) (\<lambda>_. Inr (Some receipt))))
           | (st2, Inl (StoreRevisionConflict _ _ _)) \<Rightarrow> cas_loop ops w i plan n (Suc k) st2
           | (st2, Inl error) \<Rightarrow> (st2, Inl (InboxStore error))))"

definition mutate ::
  "'st store_ops \<Rightarrow> 'st world \<Rightarrow> string \<Rightarrow> (inbox_projection \<Rightarrow> inbox_error + event_data option) \<Rightarrow> 'st \<Rightarrow>
     'st \<times> (inbox_error + append_receipt option)" where
  "mutate ops w i build st =
     cas_loop ops w i (\<lambda>s. and_then (from_session s) (\<lambda>p.
                           and_then (build p) (\<lambda>event. Inr (map_option (\<lambda>e. [e]) event)))) MAX_CAS_RETRIES 0 st"

definition reconcile_consumed ::
  "'st store_ops \<Rightarrow> 'st world \<Rightarrow> string \<Rightarrow> 'st \<Rightarrow> 'st \<times> (inbox_error + append_receipt option)" where
  "reconcile_consumed ops w i st =
     cas_loop ops w i (\<lambda>s. and_then (from_session s) (\<lambda>p.
                           let events = reconcile_events (consumed_ids s) p in
                           Inr (if events = [] then None else Some events))) MAX_CAS_RETRIES 0 st"

subsection \<open>The operations\<close>

definition insert_at ::
  "'st store_ops \<Rightarrow> 'st world \<Rightarrow> string \<Rightarrow> inbox_target \<Rightarrow> insert_position \<Rightarrow> inbox_message \<Rightarrow> 'st \<Rightarrow>
     'st \<times> (inbox_error + append_receipt)" where
  "insert_at ops w i target pos m st =
     (case mutate ops w i (insert_plan target pos m) st of
        (st1, Inl error) \<Rightarrow> (st1, Inl error)
      | (st1, Inr None) \<Rightarrow> (st1, Inl ProjectionCorrupt)
      | (st1, Inr (Some receipt)) \<Rightarrow> (st1, Inr receipt))"

definition inbox_append ::
  "'st store_ops \<Rightarrow> 'st world \<Rightarrow> string \<Rightarrow> inbox_target \<Rightarrow> inbox_message \<Rightarrow> 'st \<Rightarrow> 'st \<times> (inbox_error + append_receipt)" where
  "inbox_append ops w i target m = insert_at ops w i target Back m"

definition inbox_prepend ::
  "'st store_ops \<Rightarrow> 'st world \<Rightarrow> string \<Rightarrow> inbox_target \<Rightarrow> inbox_message \<Rightarrow> 'st \<Rightarrow> 'st \<times> (inbox_error + append_receipt)" where
  "inbox_prepend ops w i target m = insert_at ops w i target Front m"

definition inbox_replace ::
  "'st store_ops \<Rightarrow> 'st world \<Rightarrow> string \<Rightarrow> string \<Rightarrow> inbox_message \<Rightarrow> 'st \<Rightarrow> 'st \<times> (inbox_error + append_receipt option)" where
  "inbox_replace ops w i message_id replacement = mutate ops w i (replace_plan message_id replacement)"

definition inbox_remove ::
  "'st store_ops \<Rightarrow> 'st world \<Rightarrow> string \<Rightarrow> string \<Rightarrow> 'st \<Rightarrow> 'st \<times> (inbox_error + append_receipt option)" where
  "inbox_remove ops w i message_id = mutate ops w i (remove_plan message_id)"

text \<open>The world as the second operation of a handle sees it.\<close>

definition later :: "'st world \<Rightarrow> 'st world" where
  "later w = \<lparr>wo_env = (\<lambda>k. wo_env w (k + 2 * MAX_CAS_RETRIES)), wo_now = (\<lambda>k. wo_now w (k + MAX_CAS_RETRIES))\<rparr>"

definition inbox_clear ::
  "'st store_ops \<Rightarrow> 'st world \<Rightarrow> string \<Rightarrow> 'st \<Rightarrow> 'st \<times> (inbox_error + append_receipt list)" where
  "inbox_clear ops w i st =
     (case mutate ops w i (clear_plan NextStep) st of
        (st1, Inl error) \<Rightarrow> (st1, Inl error)
      | (st1, Inr first) \<Rightarrow>
          (case mutate ops (later w) i (clear_plan NextTurn) st1 of
             (st2, Inl error) \<Rightarrow> (st2, Inl error)
           | (st2, Inr second) \<Rightarrow> (st2, Inr (opt_list first @ opt_list second))))"

definition inbox_open ::
  "'st store_ops \<Rightarrow> session_header \<Rightarrow> ('st \<Rightarrow> 'st) \<Rightarrow> 'st \<Rightarrow> 'st \<times> (inbox_error + string)" where
  "inbox_open ops header env st =
     (case so_load ops (sh_id header) st of
        Inl error \<Rightarrow> (st, Inl (InboxStore error))
      | Inr (Some _) \<Rightarrow> (st, Inr (sh_id header))
      | Inr None \<Rightarrow>
          (case so_create ops header (env st) of
             (st1, Inr _) \<Rightarrow> (st1, Inr (sh_id header))
           | (st1, Inl (AlreadyExists _)) \<Rightarrow> (st1, Inr (sh_id header))
           | (st1, Inl error) \<Rightarrow> (st1, Inl (InboxStore error))))"

definition inbox_snapshot :: "'st store_ops \<Rightarrow> string \<Rightarrow> 'st \<Rightarrow> inbox_error + inbox_projection" where
  "inbox_snapshot ops i st = and_then (inbox_load ops i st) from_session"

subsection \<open>Claims\<close>

record prepared_claim =
  pc_expected_revision :: revision
  pc_messages :: "inbox_message list"
  pc_deletion_events :: "event_data list"

record claim_receipt =
  cl_messages :: "inbox_message list"
  cl_append :: append_receipt

definition claim_of :: "inbox_target \<Rightarrow> session \<Rightarrow> inbox_projection \<Rightarrow> prepared_claim" where
  "claim_of target s p =
     (let first_turn = (if target = NextTurn then take 1 (ip_next_turn p) else []) in
      \<lparr>pc_expected_revision = se_revision s,
       pc_messages = ip_next_step p @ first_turn,
       pc_deletion_events =
         (if ip_next_step p \<noteq> [] then [AgentInboxSpliced NextStep 0 (length (ip_next_step p)) [] None] else []) @
         (if first_turn \<noteq> [] then [AgentInboxSpliced NextTurn 0 1 [] None] else [])\<rparr>)"

definition prepare_claim :: "'st store_ops \<Rightarrow> string \<Rightarrow> inbox_target \<Rightarrow> 'st \<Rightarrow> inbox_error + prepared_claim" where
  "prepare_claim ops i target st =
     and_then (inbox_load ops i st) (\<lambda>s.
     and_then (from_session s) (\<lambda>p. Inr (claim_of target s p)))"

definition commit_claim ::
  "'st store_ops \<Rightarrow> u64 \<Rightarrow> string \<Rightarrow> prepared_claim \<Rightarrow> event_data list \<Rightarrow> event_data list \<Rightarrow> 'st \<Rightarrow>
     'st \<times> (inbox_error + claim_receipt)" where
  "commit_claim ops now i claim prefix_events suffix_events st =
     (case so_append ops now i (pc_expected_revision claim)
             (prefix_events @ pc_deletion_events claim @ suffix_events) st of
        (st1, Inl error) \<Rightarrow> (st1, Inl (InboxStore error))
      | (st1, Inr receipt) \<Rightarrow>
          (st1, map_err InboxStore (and_then (so_flush ops i st1) (\<lambda>_.
                  Inr \<lparr>cl_messages = pc_messages claim, cl_append = receipt\<rparr>))))"

subsection \<open>The projection on valid logs\<close>

definition inbox_view :: "vstate \<Rightarrow> inbox_projection" where
  "inbox_view s = \<lparr>ip_next_turn = v_next_turn_inbox s, ip_next_step = v_next_step_inbox s\<rparr>"

definition wf_message :: "inbox_message \<Rightarrow> bool" where
  "wf_message m \<longleftrightarrow> im_id m \<noteq> [] \<and> msg_role (im_message m) = RUser \<and> msg_id (im_message m) = Some (im_id m)"

definition wf_inbox :: "inbox_projection \<Rightarrow> bool" where
  "wf_inbox p \<longleftrightarrow>
     distinct (map im_id (ip_next_turn p @ ip_next_step p)) \<and>
     (\<forall>m\<in>set (ip_next_turn p @ ip_next_step p). wf_message m)"

text \<open>When the validator accepts a splice of the lists \<open>p\<close>.\<close>

definition splice_fits ::
  "inbox_projection \<Rightarrow> inbox_target \<Rightarrow> nat \<Rightarrow> nat \<Rightarrow> inbox_message list \<Rightarrow> inbox_splice_outcome option \<Rightarrow> bool" where
  "splice_fits p target start removed inserted outcome \<longleftrightarrow>
     start + removed \<le> usize_max \<and> start + removed \<le> length (ip_list p target) \<and>
     (outcome \<noteq> None \<longrightarrow> removed \<noteq> 0) \<and> (\<forall>m\<in>set inserted. wf_message m) \<and>
     distinct (map im_id (splice start (start + removed) inserted (ip_list p target) @
                            ip_list p (other_target target)))"

lemma ip_simps [simp]:
  "ip_list p NextTurn = ip_next_turn p" "ip_list p NextStep = ip_next_step p"
  "ip_set p NextTurn ms = p\<lparr>ip_next_turn := ms\<rparr>" "ip_set p NextStep ms = p\<lparr>ip_next_step := ms\<rparr>"
  "other_target NextTurn = NextStep" "other_target NextStep = NextTurn"
  by (simp_all add: ip_list_def ip_set_def other_target_def)

lemma inbox_view_simps [simp]:
  "ip_list (inbox_view s) target = inbox_of target s"
  "inbox_view (set_inbox target ms s) = ip_set (inbox_view s) target ms"
  "inbox_view (s\<lparr>v_revision := r\<rparr>) = inbox_view s"
  by (cases target; simp add: inbox_view_def inbox_of_def set_inbox_def)+

lemma spliced_iff:
  "on_inbox_spliced seq target start removed inserted outcome s = Inr s' \<longleftrightarrow>
     splice_fits (inbox_view s) target start removed inserted outcome \<and>
     s' = set_inbox target (splice start (start + removed) inserted (inbox_of target s)) s"
  by (auto simp: on_inbox_spliced_accepts splice_fits_def wf_message_def)

lemma apply_splice_fits:
  "splice_fits p target start removed inserted outcome \<Longrightarrow>
     apply_splice p target start removed inserted =
       Inr (ip_set p target (splice start (start + removed) inserted (ip_list p target)),
            drop start (take (start + removed) (ip_list p target)))"
  by (auto simp: splice_fits_def apply_splice_def checked_add_usize_def Let_def)

lemma splice_fits_wf:
  assumes "wf_inbox p" and fits: "splice_fits p target start removed inserted outcome"
  shows "wf_inbox (ip_set p target (splice start (start + removed) inserted (ip_list p target)))"
proof -
  have "distinct (map im_id (ip_next_turn (ip_set p target (splice start (start + removed) inserted (ip_list p target))) @
      ip_next_step (ip_set p target (splice start (start + removed) inserted (ip_list p target)))))"
    using fits by (cases target) (auto simp: splice_fits_def)
  then show ?thesis
    using assms unfolding wf_inbox_def splice_fits_def by (cases target) (auto dest!: set_splice_subset [THEN subsetD])
qed

lemma check_data_inbox:
  assumes "check_data dec evs pos seq rv e s = Inr s'"
  shows "project_event e (inbox_view s) = Inr (inbox_view s') \<and> (wf_inbox (inbox_view s) \<longrightarrow> wf_inbox (inbox_view s'))"
proof (cases "\<exists>target start removed inserted outcome. e = AgentInboxSpliced target start removed inserted outcome")
  case True
  then obtain target start removed inserted outcome where "e = AgentInboxSpliced target start removed inserted outcome"
    by blast
  with assms show ?thesis
    using splice_fits_wf [of "inbox_view s"] by (auto simp: spliced_iff apply_splice_fits)
next
  case False
  then have "project_event e p = Inr p" for p by (cases e) auto
  moreover from False assms have "v_next_turn_inbox s' = v_next_turn_inbox s \<and> v_next_step_inbox s' = v_next_step_inbox s"
    by (cases e)
      (auto simp: accepts handler_frames
        split: goal_change.splits schedule_change.splits inbox_target.splits option.splits if_splits
        dest!: on_session_title_accepts)
  ultimately show ?thesis by (simp add: inbox_view_def)
qed

lemma project_events_append:
  "project_events (xs @ ys) p = and_then (project_events xs p) (project_events ys)"
proof (induction xs arbitrary: p)
  case (Cons e xs)
  then show ?case by (cases "project_event e p") auto
qed simp

definition inbox_ok :: "logged_event list \<Rightarrow> vstate \<Rightarrow> bool" where
  "inbox_ok es s \<longleftrightarrow> project_events (map le_event es) empty_projection = Inr (inbox_view s) \<and> wf_inbox (inbox_view s)"

interpretation inboxes: event_invariant "\<lambda>_. inbox_ok"
proof
  show "inbox_ok [] init_vstate"
    by (simp add: inbox_ok_def inbox_view_def init_vstate_def empty_projection_def wf_inbox_def)
next
  fix es s r show "inbox_ok es (s\<lparr>v_revision := r\<rparr>) = inbox_ok es s" by (simp add: inbox_ok_def)
next
  fix dec es s and l :: logged_event and evs s'
  assume "inbox_ok es s" and "check_data dec evs (length es) (length es) (le_revision l) (le_event l) s = Inr s'"
  then show "inbox_ok (es @ [l]) s'"
    using check_data_inbox by (auto simp: inbox_ok_def project_events_append)
qed

lemma inbox_of_session:
  assumes "session_ok dec s"
  shows "from_session s = Inr (inbox_view (after_log dec (se_events s))) \<and>
    wf_inbox (inbox_view (after_log dec (se_events s)))"
proof -
  have log: "validate_log dec (se_revision s) (se_events s) = Inr ()" using assms by (simp add: session_ok_def)
  have "inbox_ok (se_events s) (after_log dec (se_events s))"
    using inboxes.at_prefix [of dec "se_events s" "se_events s"] valid_after_log [OF log] by simp
  then show ?thesis by (simp add: inbox_ok_def from_session_def)
qed

subsection \<open>Appending splices\<close>

fun is_splice :: "event_data \<Rightarrow> bool" where
  "is_splice (AgentInboxSpliced _ _ _ _ _) = True"
| "is_splice _ = False"

text \<open>The lists after a batch of splices the validator accepts.\<close>

fun splices_run :: "event_data list \<Rightarrow> inbox_projection \<Rightarrow> inbox_projection option" where
  "splices_run [] p = Some p"
| "splices_run (AgentInboxSpliced target start removed inserted outcome # es) p =
     (if splice_fits p target start removed inserted outcome
      then splices_run es (ip_set p target (splice start (start + removed) inserted (ip_list p target)))
      else None)"
| "splices_run (_ # es) p = None"

lemma splices_run_append:
  "splices_run (xs @ ys) p = (case splices_run xs p of None \<Rightarrow> None | Some q \<Rightarrow> splices_run ys q)"
  by (induction xs p rule: splices_run.induct) auto

lemma splices_run_project: "splices_run es p = Some q \<Longrightarrow> project_events es p = Inr q"
  by (induction es p rule: splices_run.induct) (auto simp: apply_splice_fits split: if_splits)

lemma check_open_calls_inbox [simp]: "check_open_calls seq (set_inbox target ms s) = check_open_calls seq s"
  by (cases target) (simp_all add: check_open_calls_def set_inbox_def)

lemma data_run_splices:
  assumes "splices_run es (inbox_view s) = Some q" and "check_open_calls 0 s = Inr ()"
  shows "\<exists>s'. data_run dec evs pos rv es s = Inr s' \<and> check_open_calls 0 s' = Inr ()"
  using assms
proof (induction es "inbox_view s" arbitrary: s pos rule: splices_run.induct)
  case (2 target start removed inserted outcome es)
  then show ?case
    using check_open_calls_seq [of 0 s pos] by (auto simp: spliced_iff split: if_splits)
qed auto

lemma append_splices:
  assumes ok: "session_ok dec s" and room: "se_revision s \<noteq> - 1" and ne: "es \<noteq> []"
    and p: "from_session s = Inr p" and run: "splices_run es p = Some q"
  obtains s' rc where "append_batch_at dec s (se_revision s) es t = (s', Inr rc)" and "from_session s' = Inr q"
proof -
  let ?v = "after_log dec (se_events s)"
  have log: "validate_log dec (se_revision s) (se_events s) = Inr ()" using ok by (simp add: session_ok_def)
  have p': "p = inbox_view ?v" using inbox_of_session [OF ok] p by simp
  obtain r where r: "checked_add (se_revision s) 1 = Some r" using checked_add_one [OF room] by blast
  have "check_open_calls 0 (?v\<lparr>v_revision := r\<rparr>) = Inr ()"
    using valid_after_log [OF log] check_open_calls_seq [of _ ?v 0] by auto
  then have "\<exists>s'. data_run dec (se_events s @ stage (next_seq s) r t es) (next_seq s) r es (?v\<lparr>v_revision := r\<rparr>) = Inr s' \<and>
      check_open_calls 0 s' = Inr ()"
    using run p' by (intro data_run_splices) simp_all
  then obtain s1 where s1: "data_run dec (se_events s @ stage (next_seq s) r t es) (next_seq s) r es (?v\<lparr>v_revision := r\<rparr>) = Inr s1"
    "check_open_calls 0 s1 = Inr ()" by blast
  obtain rc where app: "append_batch_at dec s (se_revision s) es t =
      (s\<lparr>se_events := se_events s @ stage (next_seq s) r t es, se_revision := r\<rparr>, Inr rc)"
    using append_runs(1) [OF ok r ne s1] by blast
  moreover have "from_session (s\<lparr>se_events := se_events s @ stage (next_seq s) r t es, se_revision := r\<rparr>) = Inr q"
    using p splices_run_project [OF run] by (simp add: from_session_def project_events_append)
  ultimately show thesis by (rule that)
qed

subsection \<open>The loop under interference\<close>

text \<open>Other users of the store only use its operations.\<close>

definition steady :: "'st store_ops \<Rightarrow> 'st world \<Rightarrow> bool" where
  "steady ops w \<longleftrightarrow> (\<forall>k st. store_run ops st (wo_env w k st))"

lemma extends_grows:
  "extends s s' \<Longrightarrow> se_revision s' \<noteq> se_revision s \<Longrightarrow> unat (se_revision s) < unat (se_revision s')"
  by (simp add: extends_def word_le_nat_alt order_less_le word_unat_eq_iff)

text \<open>
  The specification of an operation with plan \<open>plan\<close>, started in \<open>st\<close> and ended in \<open>st'\<close>: it read one
  state of the session and either had nothing to do or was refused there, or its whole batch was
  appended, or rejected, at a moment when the session was exactly the one the batch was planned on.
  Giving up means that the session went through at least \<open>bound\<close> revisions.
\<close>

inductive atomic_update ::
  "'st store_ops \<Rightarrow> (string \<Rightarrow> string + ask_request) \<Rightarrow> string \<Rightarrow> (session \<Rightarrow> inbox_error + event_data list option) \<Rightarrow>
     nat \<Rightarrow> 'st \<Rightarrow> 'st \<Rightarrow> inbox_error + append_receipt option \<Rightarrow> bool"
  for ops dec i plan bound st st' where
  nothing: "\<lbrakk>so_load ops i st' = Inr (Some s); plan s = Inr None\<rbrakk> \<Longrightarrow>
    atomic_update ops dec i plan bound st st' (Inr None)"
| committed: "\<lbrakk>store_run ops st st2; so_load ops i st2 = Inr (Some s); plan s = Inr (Some events);
    so_append ops now i (se_revision s) events st2 = (st', Inr rc)\<rbrakk> \<Longrightarrow>
    atomic_update ops dec i plan bound st st' (Inr (Some rc))"
| refused: "\<lbrakk>so_load ops i st' = Inr (Some s); plan s = Inl e\<rbrakk> \<Longrightarrow>
    atomic_update ops dec i plan bound st st' (Inl e)"
| rejected: "\<lbrakk>so_load ops i st' = Inr (Some s); plan s = Inr (Some events);
    append_batch_at dec s (se_revision s) events now = (s, Inl err)\<rbrakk> \<Longrightarrow>
    atomic_update ops dec i plan bound st st' (Inl (InboxStore (InvalidSession err)))"
| gave_up: "\<lbrakk>so_load ops i st' = Inr (Some s); bound \<le> unat (se_revision s)\<rbrakk> \<Longrightarrow>
    atomic_update ops dec i plan bound st st' (Inl (Contended MAX_CAS_RETRIES))"

lemma atomic_update_earlier:
  assumes "atomic_update ops dec i plan bound st1 st' res" and "store_run ops st st1" and "bound' \<le> bound"
  shows "atomic_update ops dec i plan bound' st st' res"
  using assms(1)
proof cases
  case (committed st2 s events now rc)
  then show ?thesis
    using atomic_update.committed [of ops st st2] store_run_trans [OF _ assms(2)] by blast
qed (use assms(3) in \<open>auto intro: atomic_update.intros\<close>)

context store_contract
begin

lemma inbox_load_present: "so_load ops i st = Inr (Some s) \<Longrightarrow> inbox_load ops i st = Inr s"
  by (simp add: inbox_load_def)

text \<open>An append with the revision of an earlier look: it conflicts exactly when the session has moved.\<close>

lemma append_after_look:
  assumes "ok st" and "so_load ops i st = Inr (Some s2)" and "extends s1 s2"
    and run: "so_append ops now i (se_revision s1) events st = (st', res)"
  shows "(se_revision s2 \<noteq> se_revision s1 \<and> so_load ops i st' = Inr (Some s2) \<and> (\<exists>a b. res = Inl (StoreRevisionConflict i a b))) \<or>
    (s2 = s1 \<and> (\<exists>r. snd (append_batch_at dec s1 (se_revision s1) events now) = r \<and> res = map_err InvalidSession r) \<and>
     so_load ops i st' = Inr (Some (fst (append_batch_at dec s1 (se_revision s1) events now))))"
proof (cases "se_revision s2 = se_revision s1")
  case True
  with assms(3) have "s2 = s1" by (rule extends_same)
  with append_current [of st i s1 events now] assms run show ?thesis
    by (cases "append_batch_at dec s1 (se_revision s1) events now") auto
next
  case False
  with append_stale [OF assms(1,2), of "se_revision s1" now events] run show ?thesis by simp
qed

text \<open>Whatever the others do, the loop implements the specification.\<close>

lemma cas_loop_atomic:
  assumes "steady ops w" and "ok st" and "so_load ops i st = Inr (Some s0)"
    and "cas_loop ops w i plan n k st = (st', res)"
  shows "store_run ops st st' \<and> atomic_update ops dec i plan (unat (se_revision s0) + n) st st' res"
  using assms
proof (induction n arbitrary: k st s0)
  case 0
  then show ?case by (auto intro: store_run.intros atomic_update.intros)
next
  case (Suc n)
  define st1 where "st1 = wo_env w (2 * k) st"
  define st2 where "st2 = wo_env w (2 * k + 1) st1"
  have run1: "store_run ops st st1" and run12: "store_run ops st1 st2"
    using Suc.prems(1) by (simp_all add: steady_def st1_def st2_def)
  have run2: "store_run ops st st2" by (rule store_run_trans [OF run12 run1])
  have ok1: "ok st1" and ok2: "ok st2" using run_ok Suc.prems(2) run1 run2 by blast+
  obtain s1 where s1: "so_load ops i st1 = Inr (Some s1)" "extends s0 s1"
    using run_extends [OF run1 Suc.prems(2,3)] by blast
  obtain s2 where s2: "so_load ops i st2 = Inr (Some s2)" "extends s1 s2"
    using run_extends [OF run12 ok1 s1(1)] by blast
  note loop = Suc.prems(4) [unfolded cas_loop.simps Let_def, folded st1_def, folded st2_def]
  consider (refuse) e where "plan s1 = Inl e" | (skip) "plan s1 = Inr None" | (go) events where "plan s1 = Inr (Some events)"
    by (cases "plan s1") auto
  then show ?case
  proof cases
    case refuse
    with loop s1 run1 show ?thesis by (auto simp: inbox_load_present intro: atomic_update.refused)
  next
    case skip
    with loop s1 run1 show ?thesis by (auto simp: inbox_load_present intro: atomic_update.nothing)
  next
    case go
    obtain st3 res3 where app: "so_append ops (wo_now w k) i (se_revision s1) events st2 = (st3, res3)" by fastforce
    have run3: "store_run ops st st3"
      using store_run.appended [OF run2, of "wo_now w k" i "se_revision s1" events] app by simp
    note loop' = loop [unfolded inbox_load_present [OF s1(1)] go and_then_simps sum.case prod.case option.case app]
    obtain s3 r where batch: "append_batch_at dec s1 (se_revision s1) events (wo_now w k) = (s3, r)" by fastforce
    from append_after_look [OF ok2 s2 app, unfolded batch fst_conv snd_conv] show ?thesis
    proof (elim disjE conjE exE)
      fix a b assume moved: "se_revision s2 \<noteq> se_revision s1" and load3: "so_load ops i st3 = Inr (Some s2)"
        and "res3 = Inl (StoreRevisionConflict i a b)"
      with loop' have rest: "cas_loop ops w i plan n (Suc k) st3 = (st', res)" by simp
      have "unat (se_revision s0) \<le> unat (se_revision s1)" using s1(2) by (simp add: extends_def word_le_nat_alt)
      then have "unat (se_revision s0) + Suc n \<le> unat (se_revision s2) + n"
        using extends_grows [OF s2(2) moved] by simp
      with Suc.IH [OF Suc.prems(1) run_ok [OF run3 Suc.prems(2)] load3 rest] run3 show ?thesis
        by (blast intro: atomic_update_earlier store_run_trans)
    next
      fix r' assume "s2 = s1" and "r = r'" and res3: "res3 = map_err InvalidSession r'"
        and after: "so_load ops i st3 = Inr (Some s3)"
      show ?thesis
      proof (cases r)
        case (Inl err)
        with batch have "s3 = s1" using append_batch_cases by blast
        moreover have "st' = st3" "res = Inl (InboxStore (InvalidSession err))"
          using loop' res3 Inl \<open>r = r'\<close> by auto
        ultimately show ?thesis
          using run3 after go batch Inl by (auto intro: atomic_update.rejected)
      next
        case (Inr rc)
        have "so_flush ops i st3 = Inr (se_revision s3)"
          using flush_present [OF run_ok [OF run3 Suc.prems(2)] after] .
        with loop' res3 Inr \<open>r = r'\<close> have "st' = st3" "res = Inr (Some rc)" by auto
        with run2 run3 app res3 Inr \<open>r = r'\<close> s2(1) \<open>s2 = s1\<close> go show ?thesis
          by (auto intro: atomic_update.committed)
      qed
    qed
  qed
qed

end

subsection \<open>What the proposals do\<close>

lemma distinct_at:
  assumes "distinct (map f (a @ x # b))"
  shows "filter (\<lambda>z. f z \<noteq> f x) (a @ x # b) = a @ b"
    and "map (\<lambda>z. if f z = f x then y else z) (a @ x # b) = a @ y # b"
proof -
  from assms have "f x \<notin> f ` set a" and "f x \<notin> f ` set b" by simp_all
  then have "\<forall>z\<in>set a. f z \<noteq> f x" and "\<forall>z\<in>set b. f z \<noteq> f x" by (metis imageI)+
  then show "filter (\<lambda>z. f z \<noteq> f x) (a @ x # b) = a @ b"
    and "map (\<lambda>z. if f z = f x then y else z) (a @ x # b) = a @ y # b"
    by (simp_all add: filter_id_conv map_idI)
qed

lemma drop_nth_filter:
  assumes "distinct (map f xs)" and "i < length xs"
  shows "take i xs @ drop (Suc i) xs = filter (\<lambda>x. f x \<noteq> f (xs ! i)) xs"
    and "take i xs @ y # drop (Suc i) xs = map (\<lambda>x. if f x = f (xs ! i) then y else x) xs"
  using distinct_at [of f "take i xs" "xs ! i" "drop (Suc i) xs"] assms
  by (simp_all only: id_take_nth_drop [OF assms(2), symmetric])

text \<open>A vector in memory has fewer than \<open>2 ^ 63\<close> elements.\<close>

definition bounded :: "inbox_projection \<Rightarrow> bool" where
  "bounded p \<longleftrightarrow> length (ip_next_turn p) < usize_max \<and> length (ip_next_step p) < usize_max"

lemma bounded_list: "bounded p \<Longrightarrow> length (ip_list p target) < usize_max"
  by (cases target) (simp_all add: bounded_def)

lemma wf_inbox_list:
  assumes "wf_inbox p"
  shows "distinct (map im_id (ip_list p target @ ip_list p (other_target target)))"
    and "distinct (map im_id (ip_list p target))"
    and "im_id ` set (ip_list p target) \<inter> im_id ` set (ip_list p (other_target target)) = {}"
    and "\<forall>m\<in>set (ip_list p target). wf_message m"
  using assms by (cases target; auto simp: wf_inbox_def)+

lemma removal_fits:
  assumes "wf_inbox p" and "bounded p" and "start + removed \<le> length (ip_list p target)"
    and "outcome \<noteq> None \<longrightarrow> removed \<noteq> 0"
  shows "splice_fits p target start removed [] outcome"
proof -
  have "set (splice start (start + removed) [] (ip_list p target)) \<subseteq> set (ip_list p target)"
    by (auto dest!: set_splice_subset [THEN subsetD])
  moreover have "distinct (map im_id (splice start (start + removed) [] (ip_list p target)))"
    using wf_inbox_list(2) [OF assms(1), of target]
    by (auto simp: splice_def take_map [symmetric] drop_map [symmetric] distinct_append
        dest: set_take_disj_set_drop_if_distinct [of _ start "start + removed"])
  ultimately show ?thesis
    using assms wf_inbox_list [OF assms(1), of target] bounded_list [OF assms(2), of target]
    by (auto simp: splice_fits_def)
qed

lemma locate_cases:
  assumes "wf_inbox p"
  shows "(locate p i = None \<longleftrightarrow> i \<notin> im_id ` set (ip_next_turn p) \<union> im_id ` set (ip_next_step p)) \<and>
    (locate p i = Some (target, n) \<longrightarrow> n < length (ip_list p target) \<and> im_id (ip_list p target ! n) = i \<and>
      i \<notin> im_id ` set (ip_list p (other_target target)))"
proof -
  have "i \<notin> im_id ` set (ip_list p (other_target target)) \<and> n < length (ip_list p target) \<and> im_id (ip_list p target ! n) = i"
    if "locate p i = Some (target, n)"
  proof -
    have at: "n < length (ip_list p target)" "im_id (ip_list p target ! n) = i"
      using that by (auto simp: locate_def split: option.splits dest!: position_SomeD)
    then have "i \<in> im_id ` set (ip_list p target)" using nth_mem by blast
    with at wf_inbox_list(3) [OF assms, of target] show ?thesis by blast
  qed
  moreover have pos: "position (\<lambda>m. im_id m = i) ms = None \<longleftrightarrow> i \<notin> im_id ` set ms" for ms
    by (auto simp: position_None_iff)
  have "locate p i = None \<longleftrightarrow> i \<notin> im_id ` set (ip_next_turn p) \<union> im_id ` set (ip_next_step p)"
    using pos [of "ip_next_turn p"] pos [of "ip_next_step p"]
    by (cases "position (\<lambda>m. im_id m = i) (ip_next_turn p)"; cases "position (\<lambda>m. im_id m = i) (ip_next_step p)")
      (simp_all add: locate_def)
  ultimately show ?thesis by blast
qed

text \<open>The lists after an operation, as a person using the inbox would say it.\<close>

definition on_both :: "(inbox_message list \<Rightarrow> inbox_message list) \<Rightarrow> inbox_projection \<Rightarrow> inbox_projection" where
  "on_both f p = \<lparr>ip_next_turn = f (ip_next_turn p), ip_next_step = f (ip_next_step p)\<rparr>"

definition without :: "string set \<Rightarrow> inbox_message list \<Rightarrow> inbox_message list" where
  "without ids ms = filter (\<lambda>m. im_id m \<notin> ids) ms"

definition substituted :: "string \<Rightarrow> inbox_message \<Rightarrow> inbox_message list \<Rightarrow> inbox_message list" where
  "substituted i r ms = map (\<lambda>m. if im_id m = i then r else m) ms"

lemma on_both_other:
  "f (ip_list p (other_target target)) = ip_list p (other_target target) \<Longrightarrow>
     ip_set p target (f (ip_list p target)) = on_both f p"
  by (cases target) (simp_all add: on_both_def)

lemma remove_run:
  assumes wf: "wf_inbox p" and "bounded p"
  shows "case locate p i of None \<Rightarrow> remove_plan i p = Inr None \<and> on_both (without {i}) p = p
    | Some _ \<Rightarrow> \<exists>e. remove_plan i p = Inr (Some e) \<and> splices_run [e] p = Some (on_both (without {i}) p)"
proof (cases "locate p i")
  case None
  with locate_cases [OF wf, of i]
  have "without {i} (ip_next_turn p) = ip_next_turn p" "without {i} (ip_next_step p) = ip_next_step p"
    by (auto simp: without_def filter_id_conv)
  with None show ?thesis by (simp add: remove_plan_def on_both_def)
next
  case (Some x)
  then obtain target n where x: "x = (target, n)" by (cases x)
  with Some locate_cases [OF wf, of i target n]
  have n: "n < length (ip_list p target)" "im_id (ip_list p target ! n) = i"
    and other: "i \<notin> im_id ` set (ip_list p (other_target target))" by auto
  have "splice_fits p target n 1 [] (Some SpliceCancelled)"
    using n by (intro removal_fits [OF assms]) auto
  moreover have "splice n (n + 1) [] (ip_list p target) = without {i} (ip_list p target)"
    using drop_nth_filter(1) [OF wf_inbox_list(2) [OF wf] n(1)] n(2) by (simp add: splice_def without_def)
  moreover have "without {i} (ip_list p (other_target target)) = ip_list p (other_target target)"
    using other by (auto simp: without_def filter_id_conv)
  ultimately show ?thesis
    using Some x on_both_other [of "without {i}" p target] by (auto simp: remove_plan_def)
qed

lemma delete_from_back_run:
  assumes "wf_inbox p" and "bounded p" and "n \<le> length ms"
    and "ip_list p target = take n ms @ without ids (drop n ms)"
  shows "splices_run (delete_from_back target ids ms n) p = Some (ip_set p target (without ids ms))"
  using assms
proof (induction n arbitrary: p)
  case 0
  then show ?case by (cases target) simp_all
next
  case (Suc n)
  then have n: "n < length ms" by simp
  then have d: "drop n ms = ms ! n # drop (Suc n) ms" "take (Suc n) ms = take n ms @ [ms ! n]"
    by (simp_all add: Cons_nth_drop_Suc take_Suc_conv_app_nth)
  show ?case
  proof (cases "im_id (ms ! n) \<in> ids")
    case False
    with Suc n d show ?thesis by (simp add: without_def)
  next
    case True
    let ?q = "ip_set p target (splice n (n + 1) [] (ip_list p target))"
    have fits: "splice_fits p target n 1 [] None"
      using Suc.prems n by (intro removal_fits) auto
    have l: "splice n (n + 1) [] (ip_list p target) = take n ms @ without ids (drop n ms)"
      using Suc.prems(4) True n d by (simp add: splice_def without_def)
    have "wf_inbox ?q" by (rule splice_fits_wf [OF Suc.prems(1) fits])
    moreover have "bounded ?q"
      using Suc.prems(2) length_splice [of n "n + 1" "ip_list p target" "[]"] Suc.prems(4) n
      by (cases target) (auto simp: bounded_def)
    moreover have "ip_list ?q target = take n ms @ without ids (drop n ms)"
      using l by (cases target) simp_all
    moreover have "ip_set ?q target xs = ip_set p target xs" for xs by (cases target) simp_all
    ultimately show ?thesis
      using Suc.IH [of ?q] n fits True by simp
  qed
qed

lemma insert_run:
  assumes wf: "wf_inbox p" and b: "bounded p" and m: "wf_message m"
  shows "case locate p (im_id m) of
      Some _ \<Rightarrow> insert_plan target pos m p = Inl (DuplicateMessage (im_id m))
    | None \<Rightarrow> \<exists>e. insert_plan target pos m p = Inr (Some e) \<and>
        splices_run [e] p = Some (ip_set p target
          (case pos of Front \<Rightarrow> m # ip_list p target | Back \<Rightarrow> ip_list p target @ [m]))"
proof (cases "locate p (im_id m)")
  case None
  with locate_cases [OF wf, of "im_id m"]
  have "im_id m \<notin> im_id ` set (ip_list p target)" "im_id m \<notin> im_id ` set (ip_list p (other_target target))"
    by (cases target; auto)+
  then have "splice_fits p target (case pos of Front \<Rightarrow> 0 | Back \<Rightarrow> length (ip_list p target)) 0 [m] None"
    using wf_inbox_list [OF wf, of target] bounded_list [OF b, of target] m
    by (auto simp: splice_fits_def splice_def split: insert_position.split)
  with None m show ?thesis
    by (auto simp: insert_plan_def validate_insert_def wf_message_def splice_def Let_def split: insert_position.split)
next
  case (Some x)
  with m show ?thesis by (auto simp: insert_plan_def validate_insert_def wf_message_def)
qed

lemma replace_run:
  assumes wf: "wf_inbox p" and b: "bounded p" and r: "wf_message r"
  shows "case locate p i of
      None \<Rightarrow> replace_plan i r p = Inr None
    | Some _ \<Rightarrow>
        if im_id r \<noteq> i \<and> locate p (im_id r) \<noteq> None then replace_plan i r p = Inl (DuplicateMessage (im_id r))
        else \<exists>e. replace_plan i r p = Inr (Some e) \<and> splices_run [e] p = Some (on_both (substituted i r) p)"
proof (cases "locate p i")
  case None
  then show ?thesis by (simp add: replace_plan_def)
next
  case (Some x)
  then obtain target n where x: "x = (target, n)" by (cases x)
  with Some locate_cases [OF wf, of i target n]
  have n: "n < length (ip_list p target)" "im_id (ip_list p target ! n) = i"
    and other: "i \<notin> im_id ` set (ip_list p (other_target target))" by auto
  show ?thesis
  proof (cases "im_id r \<noteq> i \<and> locate p (im_id r) \<noteq> None")
    case True
    with Some x r show ?thesis by (auto simp: replace_plan_def validate_insert_def wf_message_def)
  next
    case False
    let ?l = "ip_list p target"
    have new: "splice n (n + 1) [r] ?l = substituted i r ?l"
      using drop_nth_filter(2) [OF wf_inbox_list(2) [OF wf] n(1)] n(2) by (simp add: splice_def substituted_def)
    have ids: "map im_id (splice n (n + 1) [r] ?l) = take n (map im_id ?l) @ im_id r # drop (Suc n) (map im_id ?l)"
      by (simp add: splice_def take_map drop_map)
    have fresh: "im_id r \<notin> set (take n (map im_id ?l) @ drop (Suc n) (map im_id ?l)) \<and>
        im_id r \<notin> im_id ` set (ip_list p (other_target target))"
    proof (cases "im_id r = i")
      case True
      have "map im_id ?l = take n (map im_id ?l) @ i # drop (Suc n) (map im_id ?l)"
        using n id_take_nth_drop [of n "map im_id ?l"] by simp
      moreover have "distinct (map im_id ?l)" by (rule wf_inbox_list(2) [OF wf])
      ultimately have "distinct (take n (map im_id ?l) @ i # drop (Suc n) (map im_id ?l))" by metis
      with True other show ?thesis by simp
    next
      case False': False
      with \<open>\<not> (im_id r \<noteq> i \<and> locate p (im_id r) \<noteq> None)\<close> locate_cases [OF wf, of "im_id r"]
      have "im_id r \<notin> im_id ` set ?l \<and> im_id r \<notin> im_id ` set (ip_list p (other_target target))"
        by (cases target) auto
      then show ?thesis by (auto dest: in_set_takeD in_set_dropD)
    qed
    have "distinct (map im_id (splice n (n + 1) [r] ?l @ ip_list p (other_target target)))"
    proof -
      have l: "map im_id ?l = take n (map im_id ?l) @ im_id (?l ! n) # drop (Suc n) (map im_id ?l)"
        using n(1) id_take_nth_drop [of n "map im_id ?l"] by simp
      have "distinct (map im_id ?l @ map im_id (ip_list p (other_target target)))"
        using wf_inbox_list(1) [OF wf, of target] by simp
      then have "distinct ((take n (map im_id ?l) @ im_id (?l ! n) # drop (Suc n) (map im_id ?l)) @
          map im_id (ip_list p (other_target target)))"
        using l by metis
      with fresh show ?thesis unfolding map_append ids by auto
    qed
    then have "splice_fits p target n 1 [r] (Some SpliceCancelled)"
      using n(1) r bounded_list [OF b, of target] by (simp add: splice_fits_def)
    moreover have "substituted i r (ip_list p (other_target target)) = ip_list p (other_target target)"
      using other by (auto simp: substituted_def intro!: map_idI)
    ultimately show ?thesis
      using False Some x new on_both_other [of "substituted i r" p target] r
      by (auto simp: replace_plan_def validate_insert_def wf_message_def)
  qed
qed

lemma clear_run:
  assumes wf: "wf_inbox p" and b: "bounded p"
  shows "if ip_list p target = [] then clear_plan target p = Inr None
    else \<exists>e. clear_plan target p = Inr (Some e) \<and> splices_run [e] p = Some (ip_set p target [])"
  using removal_fits [OF wf b, of 0 "length (ip_list p target)" target "Some SpliceCancelled"]
  by (auto simp: clear_plan_def splice_def Let_def)

lemma reconcile_run:
  assumes wf: "wf_inbox p" and b: "bounded p"
  shows "splices_run (reconcile_events ids p) p = Some (on_both (without ids) p)"
proof -
  let ?q = "ip_set p NextStep (without ids (ip_next_step p))"
  have one: "splices_run (delete_from_back NextStep ids (ip_next_step p) (length (ip_next_step p))) p = Some ?q"
    using delete_from_back_run [OF wf b, of _ "ip_next_step p" NextStep ids] by (simp add: without_def)
  have "wf_inbox ?q"
    using wf by (auto simp: wf_inbox_def without_def distinct_map_filter)
  moreover have "bounded ?q"
    using b by (auto simp: bounded_def without_def intro: le_less_trans [OF length_filter_le])
  ultimately have "splices_run (delete_from_back NextTurn ids (ip_next_turn p) (length (ip_next_turn p))) ?q =
      Some (ip_set ?q NextTurn (without ids (ip_next_turn p)))"
    using delete_from_back_run [of ?q _ "ip_next_turn p" NextTurn ids] by (simp add: without_def)
  with one show ?thesis by (simp add: reconcile_events_def splices_run_append on_both_def)
qed

lemma delete_from_back_none:
  "delete_from_back target ids ms n = [] \<longleftrightarrow> (\<forall>k<n. im_id (ms ! k) \<notin> ids)"
  by (induction n) (auto simp: less_Suc_eq)

lemma reconcile_none:
  "reconcile_events ids p = [] \<longleftrightarrow> (\<forall>m\<in>set (ip_next_turn p @ ip_next_step p). im_id m \<notin> ids)"
  by (auto simp: reconcile_events_def delete_from_back_none all_set_conv_all_nth ball_Un)

lemma claim_run:
  assumes wf: "wf_inbox p" and b: "bounded p"
  shows "splices_run (pc_deletion_events (claim_of target s p)) p =
    Some \<lparr>ip_next_turn = (if target = NextTurn then drop 1 (ip_next_turn p) else ip_next_turn p), ip_next_step = []\<rparr>"
proof -
  let ?steps = "if ip_next_step p \<noteq> [] then [AgentInboxSpliced NextStep 0 (length (ip_next_step p)) [] None] else []"
  let ?q = "p\<lparr>ip_next_step := []\<rparr>"
  have one: "splices_run ?steps p = Some ?q"
    using removal_fits [OF wf b, of 0 "length (ip_next_step p)" NextStep None] by (simp add: splice_def)
  have "wf_inbox ?q" "bounded ?q" using wf b by (auto simp: wf_inbox_def bounded_def)
  then have "splice_fits ?q NextTurn 0 1 [] None" if "ip_next_turn p \<noteq> []"
    using that removal_fits [of ?q 0 1 NextTurn None] by (simp add: Suc_le_eq)
  then have "splices_run (if target = NextTurn \<and> ip_next_turn p \<noteq> [] then [AgentInboxSpliced NextTurn 0 1 [] None] else []) ?q =
      Some \<lparr>ip_next_turn = (if target = NextTurn then drop 1 (ip_next_turn p) else ip_next_turn p), ip_next_step = []\<rparr>"
    by (auto simp: splice_def)
  moreover have "pc_deletion_events (claim_of target s p) =
      ?steps @ (if target = NextTurn \<and> ip_next_turn p \<noteq> [] then [AgentInboxSpliced NextTurn 0 1 [] None] else [])"
    by (simp add: claim_of_def Let_def)
  ultimately show ?thesis using one by (simp only: splices_run_append option.case)
qed

subsection \<open>Operations without interference\<close>

definition idle_world :: "'st world \<Rightarrow> bool" where
  "idle_world w \<longleftrightarrow> (\<forall>k st. wo_env w k st = st)"

context store_contract
begin

lemma cas_loop_idle:
  assumes "idle_world w" and "ok st" and "so_load ops i st = Inr (Some s)" and "plan s = Inr (Some events)"
    and "append_batch_at dec s (se_revision s) events (wo_now w k) = (s', Inr rc)"
  shows "\<exists>st'. cas_loop ops w i plan (Suc n) k st = (st', Inr (Some rc)) \<and> ok st' \<and> so_load ops i st' = Inr (Some s')"
proof -
  obtain st' res where app: "so_append ops (wo_now w k) i (se_revision s) events st = (st', res)" by fastforce
  with append_current [OF assms(2,3,5)] append_ok [OF assms(2), of "wo_now w k" i "se_revision s" events]
  have st': "res = Inr rc" "so_load ops i st' = Inr (Some s')" "ok st'" by auto
  moreover have "so_flush ops i st' = Inr (se_revision s')" using st' by (auto intro: flush_present)
  ultimately show ?thesis
    using assms app by (simp add: idle_world_def inbox_load_present)
qed

lemma cas_loop_idle_other:
  assumes "idle_world w" and "so_load ops i st = Inr (Some s)"
  shows "plan s = Inr None \<Longrightarrow> cas_loop ops w i plan (Suc n) k st = (st, Inr None)"
    and "plan s = Inl e \<Longrightarrow> cas_loop ops w i plan (Suc n) k st = (st, Inl e)"
  using assms by (simp_all add: idle_world_def inbox_load_present)

text \<open>A batch of splices the validator accepts goes through on the first attempt.\<close>

lemma cas_loop_splices:
  assumes "idle_world w" and "ok st" and "so_load ops i st = Inr (Some s)" and "from_session s = Inr p"
    and "se_revision s \<noteq> - 1" and "plan s = Inr (Some events)" and "events \<noteq> []" and "splices_run events p = Some q"
  shows "\<exists>st' rc s'. cas_loop ops w i plan (Suc n) k st = (st', Inr (Some rc)) \<and> ok st' \<and>
    so_load ops i st' = Inr (Some s') \<and> from_session s' = Inr q \<and> unat (se_revision s') = Suc (unat (se_revision s))"
proof -
  have "session_ok dec s" using loaded [OF assms(2,3)] by simp
  then obtain s' rc where app: "append_batch_at dec s (se_revision s) events (wo_now w k) = (s', Inr rc)"
    and q: "from_session s' = Inr q"
    by (rule append_splices [OF _ assms(5,7,4,8)])
  moreover have "unat (se_revision s') = Suc (unat (se_revision s))"
    using append_batch_cases [OF app] assms(7) by (auto dest: checked_add_unat)
  ultimately show ?thesis
    using cas_loop_idle [of w st i s plan events k s' rc n] assms by blast
qed

lemma mutate_splice:
  assumes "idle_world w" and "ok st" and "so_load ops i st = Inr (Some s)" and "from_session s = Inr p"
    and "se_revision s \<noteq> - 1" and "build p = Inr (Some e)" and "splices_run [e] p = Some q"
  shows "\<exists>st' rc s'. mutate ops w i build st = (st', Inr (Some rc)) \<and> ok st' \<and>
    so_load ops i st' = Inr (Some s') \<and> from_session s' = Inr q \<and> unat (se_revision s') = Suc (unat (se_revision s))"
  unfolding mutate_def MAX_CAS_RETRIES_def numeral_eq_Suc
  by (rule cas_loop_splices [OF assms(1-5) _ _ assms(7)]) (simp_all add: assms)

lemma mutate_other:
  assumes "idle_world w" and "so_load ops i st = Inr (Some s)" and "from_session s = Inr p"
  shows "build p = Inr None \<Longrightarrow> mutate ops w i build st = (st, Inr None)"
    and "build p = Inl e \<Longrightarrow> mutate ops w i build st = (st, Inl e)"
  using cas_loop_idle_other [OF assms(1,2)] assms(3)
  by (simp_all add: mutate_def MAX_CAS_RETRIES_def numeral_eq_Suc del: cas_loop.simps)

lemma snapshot_present:
  "so_load ops i st = Inr (Some s) \<Longrightarrow> inbox_snapshot ops i st = from_session s"
  by (simp add: inbox_snapshot_def inbox_load_present)

text \<open>The state an undisturbed operation leaves.\<close>

definition settled :: "string \<Rightarrow> 'st \<Rightarrow> session \<Rightarrow> inbox_projection \<Rightarrow> bool" where
  "settled i st s p \<longleftrightarrow> ok st \<and> so_load ops i st = Inr (Some s) \<and> from_session s = Inr p \<and> wf_inbox p"

lemma settledI:
  assumes "ok st" and "so_load ops i st = Inr (Some s)" and "from_session s = Inr p"
  shows "settled i st s p"
  using assms inbox_of_session [of dec s] loaded [OF assms(1,2)] by (simp add: settled_def)

lemma settled_snapshot: "settled i st s p \<Longrightarrow> inbox_snapshot ops i st = Inr p"
  by (simp add: settled_def snapshot_present)

lemma mutate_settled:
  assumes "idle_world w" and "settled i st s p" and "se_revision s \<noteq> - 1"
    and "case build p of Inl _ \<Rightarrow> False | Inr None \<Rightarrow> q = p | Inr (Some e) \<Rightarrow> splices_run [e] p = Some q"
  shows "\<exists>st' out s'. mutate ops w i build st = (st', Inr out) \<and> settled i st' s' q \<and>
    unat (se_revision s') \<le> Suc (unat (se_revision s)) \<and> (build p \<noteq> Inr None \<longrightarrow> out \<noteq> None)"
proof -
  note st = assms(2) [unfolded settled_def]
  consider (skip) "build p = Inr None" | (go) e where "build p = Inr (Some e)"
    using assms(4) by (cases "build p") auto
  then show ?thesis
  proof cases
    case skip
    with mutate_other(1) [OF assms(1), of i st s p build] assms st show ?thesis by auto
  next
    case go
    with assms(4) have run: "splices_run [e] p = Some q" by simp
    from st obtain st' rc s' where res: "mutate ops w i build st = (st', Inr (Some rc))" "ok st'"
      "so_load ops i st' = Inr (Some s')" "from_session s' = Inr q" "unat (se_revision s') = Suc (unat (se_revision s))"
      using mutate_splice [of w st i s p build e q] assms(1,3) go run by blast
    then have "settled i st' s' q" by (intro settledI)
    with res show ?thesis by auto
  qed
qed

lemma remove_settled:
  assumes "idle_world w" and "settled i st s p" and "se_revision s \<noteq> - 1" and "bounded p"
  shows "inbox_snapshot ops i (fst (inbox_remove ops w i x st)) = Inr (on_both (without {x}) p)"
proof -
  have "case remove_plan x p of Inl _ \<Rightarrow> False | Inr None \<Rightarrow> on_both (without {x}) p = p
      | Inr (Some e) \<Rightarrow> splices_run [e] p = Some (on_both (without {x}) p)"
    using remove_run [of p x] assms by (auto simp: settled_def split: option.splits)
  from mutate_settled [where build = "remove_plan x", OF assms(1-3) this] show ?thesis
    by (auto simp: inbox_remove_def settled_snapshot)
qed

lemma clear_settled:
  assumes "idle_world w" and "settled i st s p" and room: "unat (se_revision s) + 2 < 2 ^ 64" and "bounded p"
  shows "inbox_snapshot ops i (fst (inbox_clear ops w i st)) = Inr empty_projection"
proof -
  have not_max: "r \<noteq> - 1" if "unat r + 1 < 2 ^ 64" for r :: revision
    using that by (auto simp: unsigned_minus_1_eq_mask mask_eq_exp_minus_1)
  let ?p1 = "p\<lparr>ip_next_step := []\<rparr>"
  have wf: "wf_inbox p" using assms(2) by (simp add: settled_def)
  have same: "p\<lparr>ip_next_step := []\<rparr> = p" if "ip_next_step p = []" using that by simp
  have "case clear_plan NextStep p of Inl _ \<Rightarrow> False | Inr None \<Rightarrow> ?p1 = p
      | Inr (Some e) \<Rightarrow> splices_run [e] p = Some ?p1"
    using clear_run [OF wf assms(4), of NextStep] same by (auto split: if_splits)
  from mutate_settled [where build = "clear_plan NextStep", OF assms(1,2) not_max this] room
  obtain st1 out1 s1 where one: "mutate ops w i (clear_plan NextStep) st = (st1, Inr out1)"
    "settled i st1 s1 ?p1" "unat (se_revision s1) \<le> Suc (unat (se_revision s))" by auto
  have wf1: "wf_inbox ?p1" "bounded ?p1" using one(2) assms(4) by (auto simp: settled_def bounded_def)
  have same1: "ip_next_turn p = [] \<Longrightarrow> empty_projection = ?p1" by (cases p) (simp add: empty_projection_def)
  have "?p1\<lparr>ip_next_turn := []\<rparr> = empty_projection" by (cases p) (simp add: empty_projection_def)
  then have "case clear_plan NextTurn ?p1 of Inl _ \<Rightarrow> False | Inr None \<Rightarrow> empty_projection = ?p1
      | Inr (Some e) \<Rightarrow> splices_run [e] ?p1 = Some empty_projection"
    using clear_run [OF wf1, of NextTurn] same1 by (auto split: if_splits)
  moreover have "idle_world (later w)" using assms(1) by (simp add: idle_world_def later_def)
  moreover have "se_revision s1 \<noteq> - 1" using one(3) room by (intro not_max) simp
  ultimately obtain st2 out2 s2 where "mutate ops (later w) i (clear_plan NextTurn) st1 = (st2, Inr out2)"
    "settled i st2 s2 empty_projection"
    using mutate_settled [where build = "clear_plan NextTurn", OF _ one(2)] by blast
  with one(1) show ?thesis by (simp add: inbox_clear_def settled_snapshot)
qed

lemma replace_settled:
  assumes "idle_world w" and "settled i st s p" and "se_revision s \<noteq> - 1" and "bounded p" and "wf_message m"
    and "im_id m = x \<or> locate p (im_id m) = None"
  shows "inbox_snapshot ops i (fst (inbox_replace ops w i x m st)) = Inr (on_both (substituted x m) p)"
proof -
  have wf: "wf_inbox p" using assms(2) by (simp add: settled_def)
  have "on_both (substituted x m) p = p" if "locate p x = None"
  proof -
    have "substituted x m (ip_next_turn p) = ip_next_turn p" "substituted x m (ip_next_step p) = ip_next_step p"
      using that locate_cases [OF wf, of x] by (auto simp: substituted_def intro!: map_idI)
    then show ?thesis by (simp add: on_both_def)
  qed
  then have "case replace_plan x m p of Inl _ \<Rightarrow> False | Inr None \<Rightarrow> on_both (substituted x m) p = p
      | Inr (Some e) \<Rightarrow> splices_run [e] p = Some (on_both (substituted x m) p)"
    using replace_run [OF wf assms(4,5), of x] assms(6) by (auto split: option.splits)
  from mutate_settled [where build = "replace_plan x m", OF assms(1-3) this] show ?thesis
    by (auto simp: inbox_replace_def settled_snapshot)
qed

lemma insert_settled:
  assumes "idle_world w" and "settled i st s p" and "se_revision s \<noteq> - 1" and "bounded p" and "wf_message m"
  shows "if locate p (im_id m) = None
    then inbox_snapshot ops i (fst (insert_at ops w i target pos m st)) =
      Inr (ip_set p target (case pos of Front \<Rightarrow> m # ip_list p target | Back \<Rightarrow> ip_list p target @ [m]))
    else insert_at ops w i target pos m st = (st, Inl (DuplicateMessage (im_id m)))"
proof -
  have wf: "wf_inbox p" and load: "so_load ops i st = Inr (Some s)" "from_session s = Inr p"
    using assms(2) by (simp_all add: settled_def)
  note run = insert_run [OF wf assms(4,5), of target pos]
  show ?thesis
  proof (cases "locate p (im_id m)")
    case None
    then obtain e where e: "insert_plan target pos m p = Inr (Some e)" "splices_run [e] p = Some (ip_set p target
          (case pos of Front \<Rightarrow> m # ip_list p target | Back \<Rightarrow> ip_list p target @ [m]))"
      using run by auto
    then obtain st' out s' where "mutate ops w i (insert_plan target pos m) st = (st', Inr (Some out))"
      "settled i st' s' (ip_set p target (case pos of Front \<Rightarrow> m # ip_list p target | Back \<Rightarrow> ip_list p target @ [m]))"
      using mutate_settled [where build = "insert_plan target pos m" and q = "ip_set p target
          (case pos of Front \<Rightarrow> m # ip_list p target | Back \<Rightarrow> ip_list p target @ [m])", OF assms(1-3)] by auto
    with None show ?thesis by (simp add: insert_at_def settled_snapshot)
  next
    case (Some x)
    with run have "insert_plan target pos m p = Inl (DuplicateMessage (im_id m))" by simp
    with Some mutate_other(2) [OF assms(1) load, of "insert_plan target pos m"] show ?thesis
      by (simp add: insert_at_def)
  qed
qed

lemma reconcile_settled:
  assumes "idle_world w" and "settled i st s p" and "se_revision s \<noteq> - 1" and "bounded p"
  shows "inbox_snapshot ops i (fst (reconcile_consumed ops w i st)) = Inr (on_both (without (consumed_ids s)) p)"
proof -
  have wf: "wf_inbox p" and st: "ok st" "so_load ops i st = Inr (Some s)" "from_session s = Inr p"
    using assms(2) by (simp_all add: settled_def)
  let ?plan = "\<lambda>s. and_then (from_session s) (\<lambda>p. let events = reconcile_events (consumed_ids s) p in
                           Inr (if events = [] then None else Some events))"
  show ?thesis
  proof (cases "reconcile_events (consumed_ids s) p = []")
    case True
    then have "without (consumed_ids s) (ip_next_turn p) = ip_next_turn p"
      "without (consumed_ids s) (ip_next_step p) = ip_next_step p"
      by (auto simp: reconcile_none without_def filter_id_conv)
    moreover have "cas_loop ops w i ?plan (Suc n) 0 st = (st, Inr None)" for n
      using cas_loop_idle_other(1) [OF assms(1) st(2), of ?plan n 0] st(3) True by simp
    ultimately show ?thesis
      using settled_snapshot [OF assms(2)]
      by (simp add: reconcile_consumed_def MAX_CAS_RETRIES_def numeral_eq_Suc on_both_def del: cas_loop.simps)
  next
    case False
    have "\<exists>st' rc s'. cas_loop ops w i ?plan (Suc n) 0 st = (st', Inr (Some rc)) \<and> ok st' \<and>
        so_load ops i st' = Inr (Some s') \<and> from_session s' = Inr (on_both (without (consumed_ids s)) p) \<and>
        unat (se_revision s') = Suc (unat (se_revision s))" for n
      using False st reconcile_run [OF wf assms(4)]
      by (intro cas_loop_splices [OF assms(1) st assms(3)]) simp_all
    from this [of 15] show ?thesis
      by (auto simp: reconcile_consumed_def MAX_CAS_RETRIES_def numeral_eq_Suc snapshot_present simp del: cas_loop.simps)
  qed
qed

end

subsection \<open>Properties\<close>

lemma memory_load_iff: "so_load (memory_ops dec) i st = Inr (Some s) \<longleftrightarrow> map_of st i = Some s"
  by (simp add: memory_ops_def memory_load_def)

text \<open>The inbox projection never fails on a session, and its two lists hold well-formed user
  messages whose ids are pairwise distinct across both lists.\<close>

theorem inbox_projection_valid:
  assumes "session_ok dec s"
  shows "\<exists>p. from_session s = Inr p \<and> distinct (map im_id (ip_next_turn p @ ip_next_step p)) \<and>
    (\<forall>m\<in>set (ip_next_turn p @ ip_next_step p). im_id m \<noteq> [] \<and> msg_role (im_message m) = RUser \<and>
       msg_id (im_message m) = Some (im_id m))"
  using inbox_of_session [OF assms] by (auto simp: wf_inbox_def wf_message_def)

lemma memory_mutation:
  assumes "steady (memory_ops dec) w" and "memory_ok dec st" and "map_of st i = Some s0"
    and "mutate (memory_ops dec) w i build st = (st', res)"
  shows "case res of
      Inr (Some rc) \<Rightarrow> \<exists>s p e now s'. extends s0 s \<and> from_session s = Inr p \<and> build p = Inr (Some e) \<and>
        append_batch_at dec s (se_revision s) [e] now = (s', Inr rc) \<and> map_of st' i = Some s'
    | Inr None \<Rightarrow> \<exists>s' p. extends s0 s' \<and> map_of st' i = Some s' \<and> from_session s' = Inr p \<and> build p = Inr None
    | Inl (Contended n) \<Rightarrow> \<exists>s'. map_of st' i = Some s' \<and>
        ((\<exists>p. from_session s' = Inr p \<and> build p = Inl (Contended n)) \<or>
         unat (se_revision s0) + 16 \<le> unat (se_revision s'))
    | Inl _ \<Rightarrow> True"
proof -
  have load: "so_load (memory_ops dec) i st = Inr (Some s0)" using assms(3) by (simp add: memory_load_iff)
  let ?plan = "\<lambda>s. and_then (from_session s) (\<lambda>p. and_then (build p) (\<lambda>event. Inr (map_option (\<lambda>e. [e]) event)))"
  from assms(4) have "store_run (memory_ops dec) st st'"
    and upd: "atomic_update (memory_ops dec) dec i ?plan (unat (se_revision s0) + 16) st st' res"
    using memory.cas_loop_atomic [OF assms(1,2) load] unfolding mutate_def MAX_CAS_RETRIES_def by blast+
  then obtain s1 where s1: "map_of st' i = Some s1" "extends s0 s1"
    using memory.run_extends [OF _ assms(2) load] by (auto simp: memory_load_iff)
  have ok1: "session_ok dec s1"
    using s1(1) memory.run_ok [OF \<open>store_run (memory_ops dec) st st'\<close> assms(2)] by (auto dest: memory_okD)
  note p1 = inbox_of_session [OF ok1]
  from upd show ?thesis
  proof cases
    case (committed st2 s events now rc)
    obtain s2 where "map_of st2 i = Some s2" "extends s0 s2"
      using memory.run_extends [OF committed(2) assms(2) load] by (auto simp: memory_load_iff)
    moreover have "map_of st2 i = Some s" using committed(3) by (simp add: memory_load_iff)
    ultimately have s: "extends s0 s" "map_of st2 i = Some s" by simp_all
    obtain s' r where app: "append_batch_at dec s (se_revision s) events now = (s', r)" by fastforce
    with committed(5) s(2) have "r = Inr rc" "map_of st' i = Some s'"
      by (auto simp: memory_ops_def memory_append_def AList.update_conv')
    with committed(1,4) app s(1) show ?thesis by (auto 0 4)
  next
    case (nothing s)
    with s1 show ?thesis by (auto simp: memory_load_iff)
  next
    case (refused s e)
    then show ?thesis using s1 p1 by (cases e) (auto simp: memory_load_iff and_then_eq_Inl)
  next
    case (rejected s events now err)
    then show ?thesis by simp
  next
    case (gave_up s)
    then show ?thesis by (auto simp: memory_load_iff MAX_CAS_RETRIES_def)
  qed
qed

text \<open>Property C31. Whatever other users of the store do in the meantime, an inbox mutation is one atomic step: a
  success appended the event proposed on the very state of the session it was appended to, "nothing to
  do" was true of the state it returns in, and the retries run out only after sixteen foreign
  revisions.\<close>

theorem inbox_mutation_atomic:
  assumes "steady (memory_ops dec) w" and "memory_ok dec st" and "map_of st i = Some s0"
    and "mutate (memory_ops dec) w i build st = (st', res)"
  shows "case res of
      Inr (Some rc) \<Rightarrow> \<exists>s p e now s'. extends s0 s \<and> from_session s = Inr p \<and> build p = Inr (Some e) \<and>
        append_batch_at dec s (se_revision s) [e] now = (s', Inr rc) \<and> map_of st' i = Some s'
    | Inr None \<Rightarrow> \<exists>s' p. extends s0 s' \<and> map_of st' i = Some s' \<and> from_session s' = Inr p \<and> build p = Inr None
    | Inl (Contended n) \<Rightarrow> \<exists>s'. map_of st' i = Some s' \<and>
        ((\<exists>p. from_session s' = Inr p \<and> build p = Inl (Contended n)) \<or>
         unat (se_revision s0) + 16 \<le> unat (se_revision s'))
    | Inl _ \<Rightarrow> True"
  using assms by (rule memory_mutation)

text \<open>Undisturbed, the inbox operations are the list operations they are named after: on the state
  they leave, removal and reconciliation have dropped exactly the messages with the given or consumed
  ids from both lists, replacement has substituted in place, clearing has emptied both, insertion has
  put a fresh message at the chosen end and refused a pending one.\<close>

theorem inbox_operations:
  assumes w: "idle_world w" and ok: "memory_ok dec st" and s: "map_of st i = Some s"
    and p: "from_session s = Inr p" and b: "bounded p" and room: "unat (se_revision s) + 2 < 2 ^ 64"
    and m: "wf_message m"
  shows "inbox_snapshot (memory_ops dec) i (fst (inbox_remove (memory_ops dec) w i x st)) = Inr (on_both (without {x}) p) \<and>
    inbox_snapshot (memory_ops dec) i (fst (reconcile_consumed (memory_ops dec) w i st)) =
      Inr (on_both (without (consumed_ids s)) p) \<and>
    inbox_snapshot (memory_ops dec) i (fst (inbox_clear (memory_ops dec) w i st)) = Inr empty_projection \<and>
    (im_id m = x \<or> locate p (im_id m) = None \<longrightarrow>
      inbox_snapshot (memory_ops dec) i (fst (inbox_replace (memory_ops dec) w i x m st)) = Inr (on_both (substituted x m) p)) \<and>
    (if locate p (im_id m) = None
     then inbox_snapshot (memory_ops dec) i (fst (insert_at (memory_ops dec) w i target pos m st)) =
       Inr (ip_set p target (case pos of Front \<Rightarrow> m # ip_list p target | Back \<Rightarrow> ip_list p target @ [m]))
     else insert_at (memory_ops dec) w i target pos m st = (st, Inl (DuplicateMessage (im_id m))))"
proof -
  have st: "memory.settled dec i st s p"
    using ok s p by (intro memory.settledI) (simp_all add: memory_load_iff)
  have "se_revision s \<noteq> - 1" using room by (auto simp: unsigned_minus_1_eq_mask mask_eq_exp_minus_1)
  with memory.remove_settled [OF w st] memory.reconcile_settled [OF w st] memory.clear_settled [OF w st room]
    memory.replace_settled [OF w st] memory.insert_settled [OF w st] b m
  show ?thesis by simp
qed

lemma project_without_splices:
  "\<forall>e\<in>set es. \<not> is_splice e \<Longrightarrow> project_events es p = Inr p"
proof (induction es)
  case (Cons e es)
  then have "project_event e p = Inr p" by (cases e) simp_all
  with Cons show ?case by simp
qed simp

lemma apply_removal:
  "apply_splice p target 0 n [] = Inr r \<Longrightarrow> fst r = ip_set p target (drop n (ip_list p target))"
  by (auto simp: apply_splice_def Let_def checked_add_usize_def splice_def split: if_splits)

lemma project_claim:
  assumes "project_events (pc_deletion_events (claim_of target s p)) p = Inr q"
  shows "q = \<lparr>ip_next_turn = (if target = NextTurn then drop 1 (ip_next_turn p) else ip_next_turn p), ip_next_step = []\<rparr>"
proof -
  have steps: "ip_next_step p = [] \<Longrightarrow> p = p\<lparr>ip_next_step := []\<rparr>" by simp
  have turns: "q = p\<lparr>ip_next_turn := ip_next_turn p\<rparr> \<longleftrightarrow> q = p" for q p :: inbox_projection by simp
  show ?thesis
    using assms steps
    by (cases "ip_next_step p = []"; cases "target = NextTurn \<and> ip_next_turn p \<noteq> []")
      (auto simp: claim_of_def Let_def dest!: apply_removal split: if_splits)
qed

text \<open>Property C32. A claim is consumed at most once and never loses input, as long as the events its caller adds to the
  batch do not edit the inbox themselves: it commits only if the session is still the one it was prepared on, it
  returns all next-step messages and at most one next-turn message, and those and only those have left the
  inbox in the same batch.  Unless that batch was empty (a claim of nothing, to which the caller adds
  nothing), every later commit of the same claim, whatever the caller adds, is a revision conflict that
  changes nothing.\<close>

theorem claim_commits_once:
  assumes ok: "memory_ok dec st" and s: "map_of st i = Some s" and p: "from_session s = Inr p"
    and claim: "prepare_claim (memory_ops dec) i target st = Inr claim"
    and run: "store_run (memory_ops dec) st st1"
    and commit: "commit_claim (memory_ops dec) now i claim before after st1 = (st2, Inr receipt)"
    and plain: "\<forall>e\<in>set (before @ after). \<not> is_splice e"
  shows "map_of st1 i = Some s \<and>
    cl_messages receipt = ip_next_step p @ (if target = NextTurn then take 1 (ip_next_turn p) else []) \<and>
    inbox_snapshot (memory_ops dec) i st2 =
      Inr \<lparr>ip_next_turn = (if target = NextTurn then drop 1 (ip_next_turn p) else ip_next_turn p), ip_next_step = []\<rparr> \<and>
    (before @ pc_deletion_events claim @ after \<noteq> [] \<longrightarrow>
      (\<forall>st3 now' before' after'. store_run (memory_ops dec) st2 st3 \<longrightarrow>
        (\<exists>r. commit_claim (memory_ops dec) now' i claim before' after' st3 =
           (st3, Inl (InboxStore (StoreRevisionConflict i (se_revision s) r))))))"
proof -
  have load: "so_load (memory_ops dec) i st = Inr (Some s)" using s by (simp add: memory_load_iff)
  have claim: "claim = claim_of target s p"
    using claim p by (simp add: prepare_claim_def memory.inbox_load_present [OF load])
  obtain s1 where s1: "map_of st1 i = Some s1" "extends s s1"
    using memory.run_extends [OF run ok load] by (auto simp: memory_load_iff)
  have ok1: "memory_ok dec st1" by (rule memory.run_ok [OF run ok])
  let ?batch = "before @ pc_deletion_events claim @ after"
  obtain res where app: "so_append (memory_ops dec) now i (se_revision s) ?batch st1 = (st2, res)"
    using commit claim by (auto simp: commit_claim_def claim_of_def Let_def split: prod.splits sum.splits)
  with commit obtain rc where rc: "res = Inr rc" and receipt: "cl_messages receipt = pc_messages claim"
    using claim by (auto simp: commit_claim_def claim_of_def Let_def split: sum.splits)
  obtain s' r where batch: "append_batch_at dec s (se_revision s) ?batch now = (s', r)" by fastforce
  have load1: "so_load (memory_ops dec) i st1 = Inr (Some s1)" using s1(1) by (simp add: memory_load_iff)
  from memory.append_after_look [OF ok1 load1 s1(2) app] rc batch
  have "s1 = s" and r: "r = Inr rc" and load2: "so_load (memory_ops dec) i st2 = Inr (Some s')"
    by (auto simp: map_err_def split: sum.splits)
  have ok2: "memory_ok dec st2" using memory.append_ok [OF ok1, of now i "se_revision s" ?batch] app by simp
  have "se_events s' = se_events s @ ap_events rc \<and> map le_event (ap_events rc) = ?batch"
    using append_batch_cases [OF batch] batch r by (auto simp: append_batch_at_def)
  then have "from_session s' = project_events ?batch p"
    using p by (simp add: from_session_def project_events_append)
  also have "\<dots> = project_events (pc_deletion_events claim) p"
    using plain project_without_splices [of before] project_without_splices [of after]
    by (cases "project_events (pc_deletion_events claim) p") (simp_all add: project_events_append)
  finally have proj: "from_session s' = project_events (pc_deletion_events (claim_of target s p)) p"
    by (simp add: claim)
  have "\<exists>q. from_session s' = Inr q"
    using inbox_of_session [of dec s'] memory.loaded [OF ok2 load2] by blast
  with proj project_claim have "from_session s' =
      Inr \<lparr>ip_next_turn = (if target = NextTurn then drop 1 (ip_next_turn p) else ip_next_turn p), ip_next_step = []\<rparr>"
    by metis
  moreover have "\<exists>r. commit_claim (memory_ops dec) now' i claim before' after' st3 =
           (st3, Inl (InboxStore (StoreRevisionConflict i (se_revision s) r)))"
    if ne: "?batch \<noteq> []" and run3: "store_run (memory_ops dec) st2 st3" for st3 now' before' after'
  proof -
    obtain s3 where s3: "so_load (memory_ops dec) i st3 = Inr (Some s3)" "extends s' s3"
      using memory.run_extends [OF run3 ok2 load2] by blast
    have "unat (se_revision s') = Suc (unat (se_revision s))"
      using append_batch_cases [OF batch] r ne by (auto dest: checked_add_unat)
    with s3(2) have "se_revision s \<noteq> se_revision s3" by (auto simp: extends_def word_le_nat_alt)
    from memory_append_stale [OF s3(1) [unfolded memory_load_iff] this]
    show ?thesis by (simp add: commit_claim_def claim claim_of_def Let_def)
  qed
  ultimately show ?thesis
    using s1(1) \<open>s1 = s\<close> receipt claim memory.snapshot_present [OF load2]
    by (simp add: claim_of_def Let_def)
qed

subsection \<open>An example inbox\<close>

definition pending_session :: session where
  "pending_session =
     \<lparr>se_header = new_header ''s'' 0, se_revision = 1,
      se_events = stage 0 1 7 [AgentInboxSpliced NextTurn 0 0 [inbox_user ''m1'' ''hello''] None]\<rparr>"

definition pending_store :: memory_store where
  "pending_store = [(''s'', pending_session)]"

definition pending_projection :: inbox_projection where
  "pending_projection = \<lparr>ip_next_turn = [inbox_user ''m1'' ''hello''], ip_next_step = []\<rparr>"

definition quiet :: "'st world" where
  "quiet = \<lparr>wo_env = (\<lambda>k st. st), wo_now = (\<lambda>k. 8)\<rparr>"

lemma quiet_world: "idle_world quiet" "steady ops quiet"
  by (simp_all add: quiet_def idle_world_def steady_def store_run.idle)

lemma pending_ok: "memory_ok no_questions pending_store"
  by (simp add: memory_ok_def pending_store_def session_ok_def pending_session_def validate_header_def new_header_def
      FORMAT_VERSION_def run_validator)

lemma pending_inbox: "from_session pending_session = Inr pending_projection"
  by (simp add: from_session_def pending_session_def empty_projection_def apply_splice_def checked_add_usize_def
      usize_max_def splice_def pending_projection_def Let_def)

lemma pending_at: "map_of pending_store ''s'' = Some pending_session"
  by (simp add: pending_store_def)

lemma pending_memory: "so_load (memory_ops no_questions) ''s'' pending_store = Inr (Some pending_session)"
  by (simp add: memory_load_iff pending_at)

theorem inbox_projection_valid_witness:
  "\<exists>p. from_session pending_session = Inr p \<and> distinct (map im_id (ip_next_turn p @ ip_next_step p))"
  using inbox_projection_valid [of no_questions pending_session] pending_ok
  by (auto simp: memory_ok_def pending_store_def)

theorem inbox_mutation_atomic_witness:
  "\<exists>s' p. map_of pending_store ''s'' = Some s' \<and> from_session s' = Inr p \<and> remove_plan ''x'' p = Inr None"
proof -
  have "remove_plan ''x'' pending_projection = Inr None"
    by (simp add: remove_plan_def locate_def pending_projection_def inbox_user_def)
  then have "mutate (memory_ops no_questions) quiet ''s'' (remove_plan ''x'') pending_store = (pending_store, Inr None)"
    by (rule memory.mutate_other(1) [OF quiet_world(1) pending_memory pending_inbox])
  from inbox_mutation_atomic [OF quiet_world(2) pending_ok pending_at this] show ?thesis by auto
qed

theorem inbox_operations_witness:
  "inbox_snapshot (memory_ops no_questions) ''s''
     (fst (insert_at (memory_ops no_questions) quiet ''s'' NextTurn Front (inbox_user ''m2'' ''again'') pending_store)) =
   Inr \<lparr>ip_next_turn = [inbox_user ''m2'' ''again'', inbox_user ''m1'' ''hello''], ip_next_step = []\<rparr>"
proof -
  have "wf_message (inbox_user ''m2'' ''again'')"
    by (simp add: wf_message_def inbox_user_def with_id_def user_message_def new_message_def)
  moreover have "bounded pending_projection" by (simp add: bounded_def pending_projection_def usize_max_def)
  moreover have "unat (se_revision pending_session) + 2 < 2 ^ 64" by (simp add: pending_session_def)
  moreover have "locate pending_projection (im_id (inbox_user ''m2'' ''again'')) = None"
    by (simp add: locate_def pending_projection_def inbox_user_def)
  ultimately show ?thesis
    using inbox_operations [OF quiet_world(1) pending_ok pending_at pending_inbox, of "inbox_user ''m2'' ''again''" _ NextTurn Front]
    by (simp add: pending_projection_def)
qed

lemma pending_claim:
  "prepare_claim (memory_ops no_questions) ''s'' NextTurn pending_store =
     Inr \<lparr>pc_expected_revision = 1, pc_messages = [inbox_user ''m1'' ''hello''],
          pc_deletion_events = [AgentInboxSpliced NextTurn 0 1 [] None]\<rparr>"
  by (simp add: prepare_claim_def memory.inbox_load_present [OF pending_memory] pending_inbox claim_of_def
      pending_projection_def) (simp add: pending_session_def)

theorem claim_commits_once_witness:
  "\<exists>st2 receipt claim. prepare_claim (memory_ops no_questions) ''s'' NextTurn pending_store = Inr claim \<and>
     commit_claim (memory_ops no_questions) 8 ''s'' claim [TurnStart 1] [] pending_store = (st2, Inr receipt) \<and>
     cl_messages receipt = [inbox_user ''m1'' ''hello''] \<and>
     inbox_snapshot (memory_ops no_questions) ''s'' st2 = Inr \<lparr>ip_next_turn = [], ip_next_step = []\<rparr> \<and>
     (\<exists>r. commit_claim (memory_ops no_questions) 9 ''s'' claim [] [] st2 =
        (st2, Inl (InboxStore (StoreRevisionConflict ''s'' 1 r))))"
proof -
  let ?claim = "\<lparr>pc_expected_revision = 1, pc_messages = [inbox_user ''m1'' ''hello''],
          pc_deletion_events = [AgentInboxSpliced NextTurn 0 1 [] None]\<rparr>"
  let ?batch = "[TurnStart 1, AgentInboxSpliced NextTurn 0 1 [] None]"
  have "validate_log no_questions 2 (se_events pending_session @ stage 1 2 8 ?batch) = Inr ()"
    by (simp add: pending_session_def run_validator)
  moreover have "checked_add (1 :: revision) 1 = Some 2" by (simp add: checked_add_def)
  moreover have "se_revision pending_session = 1" "next_seq pending_session = 1"
    by (simp_all add: pending_session_def next_seq_def)
  ultimately have "\<exists>s' rc. append_batch_at no_questions pending_session 1 ?batch 8 = (s', Inr rc)"
    by (simp add: append_batch_at_def Let_def)
  with \<open>se_revision pending_session = 1\<close>
  have "\<exists>st2 receipt. commit_claim (memory_ops no_questions) 8 ''s'' ?claim [TurnStart 1] [] pending_store = (st2, Inr receipt)"
    by (auto simp: commit_claim_def memory_ops_def memory_append_def memory_flush_def pending_at AList.update_conv')
  then obtain st2 receipt where
    "commit_claim (memory_ops no_questions) 8 ''s'' ?claim [TurnStart 1] [] pending_store = (st2, Inr receipt)" by blast
  with claim_commits_once [OF pending_ok pending_at pending_inbox pending_claim store_run.idle this]
  show ?thesis
    using pending_claim store_run.idle [of "memory_ops no_questions" st2]
    by (auto simp: pending_projection_def pending_session_def)
qed

end
