(* ===== verification/Jsonl_Store.thy ===== *)
theory Jsonl_Store
  imports Store
begin

text \<open>
  The filesystem store of crates/xharness-session-jsonl/src/lib.rs: one append-only file of newline-
  terminated records per session, a header record and then one record per batch, a parser that drops
  a torn last record, and a cache of parsed files.

  The JSON codec is serde's: the argument \<open>c\<close> of type \<open>codec\<close>.  The identity of a file's content, which
  the code takes from metadata and a sample hash, is the argument \<open>fp\<close>.  A file is its bytes; a write
  may stop after \<open>n\<close> bytes with an I/O error, the argument \<open>fault\<close>.
\<close>

type_synonym bytes = string

definition newline :: char where "newline = CHR 0x0A"

definition FILE_FORMAT :: string where "FILE_FORMAT = ''xharness.session.jsonl''"
definition FILE_FORMAT_VERSION :: u32 where "FILE_FORMAT_VERSION = 1"
definition HEADER_RECORD :: string where "HEADER_RECORD = ''header''"
definition BATCH_RECORD :: string where "BATCH_RECORD = ''batch''"
definition MAX_SESSION_ID_BYTES :: nat where "MAX_SESSION_ID_BYTES = 200"

record header_record =
  hr_record :: string
  hr_format :: string
  hr_format_version :: u32
  hr_header :: session_header

record batch_record =
  br_record :: string
  br_previous_revision :: revision
  br_revision :: revision
  br_events :: "logged_event list"

record loaded_file =
  ld_session :: session
  ld_valid_len :: nat
  ld_needs_separator :: bool

record codec =
  cd_encode_header :: "header_record \<Rightarrow> bytes"
  cd_decode_header :: "bytes \<Rightarrow> header_record option"
  cd_encode_batch :: "batch_record \<Rightarrow> bytes"
  cd_decode_batch :: "bytes \<Rightarrow> batch_record option"

definition corrupt :: "nat \<Rightarrow> string \<Rightarrow> store_error" where
  "corrupt line message = Backend (''corrupt session {} at line '' @ show_nat line @ '': '' @ message)"

definition validate_session_id :: "string \<Rightarrow> store_error + unit" where
  "validate_session_id i =
     ensure (\<not> ((i \<noteq> [] \<and> length i \<le> MAX_SESSION_ID_BYTES) \<and>
        (take 1 i \<noteq> ''.'' \<and> list_all (\<lambda>b. is_ascii_alphanumeric b \<or> b = CHR ''-'' \<or> b = CHR ''_'' \<or> b = CHR ''.'') i)))
       (InvalidSessionId i)"

subsection \<open>Parsing\<close>

text \<open>The rest of the file from the cursor on, split at its first newline.\<close>

definition next_line :: "bytes \<Rightarrow> bytes \<times> bytes \<times> bool" where
  "next_line rest =
     (case position (\<lambda>b. b = newline) rest of
        Some n \<Rightarrow> (take n rest, drop (Suc n) rest, True)
      | None \<Rightarrow> (rest, [], False))"

definition validate_header_record :: "string \<Rightarrow> header_record \<Rightarrow> store_error + unit" where
  "validate_header_record requested_id r =
     and_then (ensure (hr_record r \<noteq> HEADER_RECORD) (corrupt 1 ''expected {HEADER_RECORD:?} record, got {:?}'')) (\<lambda>_.
     and_then (ensure (hr_format r \<noteq> FILE_FORMAT) (corrupt 1 ''unsupported file format {:?}'')) (\<lambda>_.
     and_then (ensure (hr_format_version r \<noteq> FILE_FORMAT_VERSION)
                 (corrupt 1 ''unsupported JSONL format version {}; expected {}'')) (\<lambda>_.
     ensure (sh_id (hr_header r) \<noteq> requested_id)
       (corrupt 1 ''header session id {:?} does not match requested id {requested_id:?}''))))"

definition extend_batch_record ::
  "nat \<Rightarrow> revision \<Rightarrow> logged_event list \<Rightarrow> batch_record \<Rightarrow> store_error + (revision \<times> logged_event list)" where
  "extend_batch_record line revision events r =
     and_then (ensure (br_record r \<noteq> BATCH_RECORD) (corrupt line ''expected {BATCH_RECORD:?} record, got {:?}'')) (\<lambda>_.
     and_then (ensure (br_events r = []) (corrupt line ''persisted batch is empty'')) (\<lambda>_.
     and_then (ensure (br_previous_revision r \<noteq> revision)
                 (corrupt line ''batch previous revision {:?} is not continuous from {:?}'')) (\<lambda>_.
     case checked_add (br_previous_revision r) 1 of
       None \<Rightarrow> Inl (corrupt line ''batch revision overflow'')
     | Some expected \<Rightarrow>
         and_then (ensure (br_revision r \<noteq> expected)
                     (corrupt line ''batch revision {:?} is not the successor of {:?}'')) (\<lambda>_.
         Inr (br_revision r, events @ br_events r)))))"

lemma next_line_length:
  "next_line rest = (line, rest', True) \<Longrightarrow> length rest' < length rest"
  by (auto simp: next_line_def split: option.splits dest!: position_SomeD)

text \<open>
  The loop over the batch records: \<open>rest\<close> are the bytes from \<open>cursor\<close> on, and the result is the revision
  and events collected, the length of the accepted prefix, whether its last record lacks its newline,
  and the line counter.
\<close>

function parse_batches ::
  "codec \<Rightarrow> bytes \<Rightarrow> nat \<Rightarrow> nat \<Rightarrow> revision \<Rightarrow> logged_event list \<Rightarrow> nat \<Rightarrow> bool \<Rightarrow>
     store_error + (revision \<times> logged_event list \<times> nat \<times> bool \<times> nat)" where
  "parse_batches c rest cursor line revision events valid_len needs_separator =
     (if rest = [] then Inr (revision, events, valid_len, needs_separator, line)
      else (case next_line rest of (ln, rest1, terminated) \<Rightarrow>
        (let cursor1 = cursor + (length rest - length rest1) in
         if ln = [] then Inl (corrupt line ''empty record'')
         else (case cd_decode_batch c ln of
            Some r \<Rightarrow>
              (case extend_batch_record line revision events r of
                 Inl e \<Rightarrow> Inl e
               | Inr (revision1, events1) \<Rightarrow>
                   (if terminated then parse_batches c rest1 cursor1 (Suc line) revision1 events1 cursor1 False
                    else Inr (revision1, events1, cursor1, True, Suc line)))
          | None \<Rightarrow>
              (if \<not> terminated then Inr (revision, events, cursor, False, line)
               else Inl (corrupt line ''invalid batch JSON: {error}''))))))"
  by pat_completeness auto

termination
  by (relation "measure (\<lambda>(c, rest, _). length rest)") (auto dest!: next_line_length [OF sym])

declare parse_batches.simps [simp del]

definition parse_file ::
  "(string \<Rightarrow> string + ask_request) \<Rightarrow> codec \<Rightarrow> string \<Rightarrow> bytes \<Rightarrow> store_error + loaded_file" where
  "parse_file dec c session_id bytes =
     (if bytes = [] then Inl (corrupt 1 ''missing header record'')
      else (case next_line bytes of (header_line, rest, header_terminated) \<Rightarrow>
        (case cd_decode_header c header_line of
           None \<Rightarrow> Inl (corrupt 1 ''invalid header JSON: {error}'')
         | Some r \<Rightarrow>
             and_then (validate_header_record session_id r) (\<lambda>_.
             if \<not> header_terminated then
               and_then (map_err InvalidSession (new_session (hr_header r))) (\<lambda>s.
               Inr \<lparr>ld_session = s, ld_valid_len = length bytes, ld_needs_separator = True\<rparr>)
             else
               and_then (parse_batches c rest (length bytes - length rest) 2 0 [] (length bytes - length rest) False)
                 (\<lambda>(revision, events, valid_len, needs_separator, line).
               and_then (map_err (\<lambda>e. corrupt (line - 1) ''invalid event log: {error}'')
                           (restore dec (hr_header r) revision events)) (\<lambda>s.
               Inr \<lparr>ld_session = s, ld_valid_len = valid_len, ld_needs_separator = needs_separator\<rparr>))))))"

subsection \<open>The cache\<close>

record 'f jsonl_state =
  js_files :: "(string \<times> bytes) list"
  js_cache :: "string \<rightharpoonup> 'f \<times> loaded_file"

definition load_file ::
  "(string \<Rightarrow> string + ask_request) \<Rightarrow> codec \<Rightarrow> string \<Rightarrow> 'f jsonl_state \<Rightarrow> store_error + loaded_file option" where
  "load_file dec c i st =
     (case map_of (js_files st) i of None \<Rightarrow> Inr None
      | Some b \<Rightarrow> and_then (parse_file dec c i b) (\<lambda>loaded. Inr (Some loaded)))"

definition cache_store :: "string \<Rightarrow> 'f \<Rightarrow> loaded_file \<Rightarrow> 'f jsonl_state \<Rightarrow> 'f jsonl_state" where
  "cache_store i f loaded st = st\<lparr>js_cache := (js_cache st)(i \<mapsto> (f, loaded))\<rparr>"

definition cache_remove :: "string \<Rightarrow> 'f jsonl_state \<Rightarrow> 'f jsonl_state" where
  "cache_remove i st = st\<lparr>js_cache := (js_cache st)(i := None)\<rparr>"

definition load_file_cached ::
  "(string \<Rightarrow> string + ask_request) \<Rightarrow> codec \<Rightarrow> (bytes \<Rightarrow> 'f) \<Rightarrow> string \<Rightarrow> 'f jsonl_state \<Rightarrow>
     'f jsonl_state \<times> (store_error + loaded_file option)" where
  "load_file_cached dec c fp i st =
     (case map_of (js_files st) i of
        None \<Rightarrow> (cache_remove i st, Inr None)
      | Some b \<Rightarrow>
          (case js_cache st i of
             Some (f, loaded) \<Rightarrow>
               (if f = fp b then (st, Inr (Some loaded))
                else (case load_file dec c i st of
                        Inr (Some fresh) \<Rightarrow> (cache_store i (fp b) fresh st, Inr (Some fresh))
                      | Inr None \<Rightarrow> (cache_remove i st, Inr None)
                      | Inl e \<Rightarrow> (st, Inl e)))
           | None \<Rightarrow>
               (case load_file dec c i st of
                  Inr (Some fresh) \<Rightarrow> (cache_store i (fp b) fresh st, Inr (Some fresh))
                | Inr None \<Rightarrow> (cache_remove i st, Inr None)
                | Inl e \<Rightarrow> (st, Inl e))))"

definition take_file_cached ::
  "(string \<Rightarrow> string + ask_request) \<Rightarrow> codec \<Rightarrow> (bytes \<Rightarrow> 'f) \<Rightarrow> string \<Rightarrow> 'f jsonl_state \<Rightarrow>
     'f jsonl_state \<times> (store_error + loaded_file option)" where
  "take_file_cached dec c fp i st =
     (case map_of (js_files st) i of
        None \<Rightarrow> (cache_remove i st, Inr None)
      | Some b \<Rightarrow>
          (case js_cache st i of
             Some (f, loaded) \<Rightarrow>
               (cache_remove i st, if f = fp b then Inr (Some loaded) else load_file dec c i st)
           | None \<Rightarrow> (st, load_file dec c i st)))"

subsection \<open>The operations\<close>

definition header_record_of :: "session_header \<Rightarrow> header_record" where
  "header_record_of header =
     \<lparr>hr_record = HEADER_RECORD, hr_format = FILE_FORMAT, hr_format_version = FILE_FORMAT_VERSION, hr_header = header\<rparr>"

text \<open>A write that fails removes the new file; a crash leaves the bytes written so far.\<close>

definition jsonl_create ::
  "codec \<Rightarrow> (bytes \<Rightarrow> 'f) \<Rightarrow> nat option \<Rightarrow> session_header \<Rightarrow> 'f jsonl_state \<Rightarrow> 'f jsonl_state \<times> (store_error + session)" where
  "jsonl_create c fp fault header st =
     (case validate_session_id (sh_id header) of
        Inl e \<Rightarrow> (st, Inl e)
      | Inr _ \<Rightarrow>
          (case new_session header of
             Inl e \<Rightarrow> (st, Inl (InvalidSession e))
           | Inr s \<Rightarrow>
               (let bytes = cd_encode_header c (header_record_of (se_header s)) @ [newline] in
                if map_of (js_files st) (sh_id header) \<noteq> None then (st, Inl (AlreadyExists (sh_id header)))
                else (case fault of
                        Some _ \<Rightarrow> (st, Inl (Backend ''durably write session header {}: {error}''))
                      | None \<Rightarrow>
                          (cache_store (sh_id header) (fp bytes)
                             \<lparr>ld_session = s, ld_valid_len = length bytes, ld_needs_separator = False\<rparr>
                             (st\<lparr>js_files := AList.update (sh_id header) bytes (js_files st)\<rparr>),
                           Inr s)))))"

definition jsonl_load ::
  "(string \<Rightarrow> string + ask_request) \<Rightarrow> codec \<Rightarrow> (bytes \<Rightarrow> 'f) \<Rightarrow> string \<Rightarrow> 'f jsonl_state \<Rightarrow>
     'f jsonl_state \<times> (store_error + session option)" where
  "jsonl_load dec c fp i st =
     (case validate_session_id i of
        Inl e \<Rightarrow> (st, Inl e)
      | Inr _ \<Rightarrow>
          (case load_file_cached dec c fp i st of
             (st1, Inl e) \<Rightarrow> (st1, Inl e)
           | (st1, Inr loaded) \<Rightarrow> (st1, Inr (map_option ld_session loaded))))"

definition batch_record_of :: "append_receipt \<Rightarrow> batch_record" where
  "batch_record_of receipt =
     \<lparr>br_record = BATCH_RECORD, br_previous_revision = ap_previous_revision receipt,
      br_revision = ap_revision receipt, br_events = ap_events receipt\<rparr>"

text \<open>The file without a torn tail, the bytes an append adds to it, and the file when the write stops
  after \<open>n\<close> of them.\<close>

definition kept_bytes :: "loaded_file \<Rightarrow> bytes \<Rightarrow> bytes" where
  "kept_bytes loaded b = (if length b \<noteq> ld_valid_len loaded then take (ld_valid_len loaded) b else b)"

definition added_bytes :: "codec \<Rightarrow> loaded_file \<Rightarrow> batch_record \<Rightarrow> bytes" where
  "added_bytes c loaded r =
     (if ld_needs_separator loaded then [newline] else []) @ cd_encode_batch c r @ [newline]"

definition jsonl_append ::
  "(string \<Rightarrow> string + ask_request) \<Rightarrow> codec \<Rightarrow> (bytes \<Rightarrow> 'f) \<Rightarrow> nat option \<Rightarrow> u64 \<Rightarrow> string \<Rightarrow> revision \<Rightarrow>
     event_data list \<Rightarrow> 'f jsonl_state \<Rightarrow> 'f jsonl_state \<times> (store_error + append_receipt)" where
  "jsonl_append dec c fp fault now i expected events st =
     (case validate_session_id i of
        Inl e \<Rightarrow> (st, Inl e)
      | Inr _ \<Rightarrow>
          (case take_file_cached dec c fp i st of
             (st1, Inl e) \<Rightarrow> (st1, Inl e)
           | (st1, Inr None) \<Rightarrow> (st1, Inl (NotFound i))
           | (st1, Inr (Some loaded)) \<Rightarrow>
               (let b = the (map_of (js_files st) i); s = ld_session loaded in
                if se_revision s \<noteq> expected
                then (cache_store i (fp b) loaded st1, Inl (StoreRevisionConflict i expected (se_revision s)))
                else (case append_batch_at dec s expected events now of
                        (s1, Inl e) \<Rightarrow> (st1, Inl (InvalidSession e))
                      | (s1, Inr receipt) \<Rightarrow>
                          (if ap_events receipt = []
                           then (cache_store i (fp b) (loaded\<lparr>ld_session := s1\<rparr>) st1, Inr receipt)
                           else (let added = added_bytes c loaded (batch_record_of receipt);
                                     b1 = kept_bytes loaded b @ (case fault of None \<Rightarrow> added | Some n \<Rightarrow> take n added);
                                     st2 = st1\<lparr>js_files := AList.update i b1 (js_files st1)\<rparr>
                                 in case fault of
                                      Some n \<Rightarrow> (st2, Inl (Backend ''append session batch {}: {error}''))
                                    | None \<Rightarrow>
                                        (cache_store i (fp b1)
                                           \<lparr>ld_session = s1, ld_valid_len = length b1, ld_needs_separator = False\<rparr> st2,
                                         Inr receipt)))))))"

definition jsonl_flush ::
  "(string \<Rightarrow> string + ask_request) \<Rightarrow> codec \<Rightarrow> (bytes \<Rightarrow> 'f) \<Rightarrow> string \<Rightarrow> 'f jsonl_state \<Rightarrow>
     'f jsonl_state \<times> (store_error + revision)" where
  "jsonl_flush dec c fp i st =
     (case validate_session_id i of
        Inl e \<Rightarrow> (st, Inl e)
      | Inr _ \<Rightarrow>
          (case take_file_cached dec c fp i st of
             (st1, Inl e) \<Rightarrow> (st1, Inl e)
           | (st1, Inr None) \<Rightarrow> (st1, Inl (NotFound i))
           | (st1, Inr (Some loaded)) \<Rightarrow>
               (cache_store i (fp (the (map_of (js_files st) i))) loaded st1, Inr (se_revision (ld_session loaded)))))"

definition jsonl_inspect ::
  "(string \<Rightarrow> string + ask_request) \<Rightarrow> codec \<Rightarrow> (bytes \<Rightarrow> 'f) \<Rightarrow> string \<Rightarrow> 'f jsonl_state \<Rightarrow>
     'f jsonl_state \<times> (store_error + session_inspection option)" where
  "jsonl_inspect dec c fp i st =
     (case jsonl_load dec c fp i st of
        (st1, Inl e) \<Rightarrow> (st1, Inl e)
      | (st1, Inr s) \<Rightarrow> (st1, Inr (map_option inspect s)))"

text \<open>\<open>discover_session_ids\<close>: every \<open>.jsonl\<close> file of the directory, or the first invalid name.\<close>

fun discover_session_ids :: "(string \<times> bytes) list \<Rightarrow> store_error + string list" where
  "discover_session_ids [] = Inr []"
| "discover_session_ids ((i, b) # files) =
     and_then (validate_session_id i) (\<lambda>_. and_then (discover_session_ids files) (\<lambda>is. Inr (i # is)))"

fun load_headers ::
  "(string \<Rightarrow> string + ask_request) \<Rightarrow> codec \<Rightarrow> (bytes \<Rightarrow> 'f) \<Rightarrow> string list \<Rightarrow> 'f jsonl_state \<Rightarrow>
     'f jsonl_state \<times> (store_error + session_header list)" where
  "load_headers dec c fp [] st = (st, Inr [])"
| "load_headers dec c fp (i # is) st =
     (case jsonl_load dec c fp i st of
        (st1, Inl e) \<Rightarrow> (st1, Inl e)
      | (st1, Inr None) \<Rightarrow> (st1, Inl (Backend ''session {session_id:?} disappeared during startup enumeration''))
      | (st1, Inr (Some s)) \<Rightarrow>
          (case load_headers dec c fp is st1 of
             (st2, Inl e) \<Rightarrow> (st2, Inl e)
           | (st2, Inr hs) \<Rightarrow> (st2, Inr (se_header s # hs))))"

definition jsonl_list_headers ::
  "(string \<Rightarrow> string + ask_request) \<Rightarrow> codec \<Rightarrow> (bytes \<Rightarrow> 'f) \<Rightarrow> 'f jsonl_state \<Rightarrow>
     'f jsonl_state \<times> (store_error + session_header list)" where
  "jsonl_list_headers dec c fp st =
     (case discover_session_ids (js_files st) of
        Inl e \<Rightarrow> (st, Inl e)
      | Inr ids \<Rightarrow> load_headers dec c fp (sort ids) st)"

subsection \<open>Parsing a grown file\<close>

lemma next_line_cases:
  "next_line rest = (ln, rest1, terminated) \<Longrightarrow>
     newline \<notin> set ln \<and> (if terminated then rest = ln @ newline # rest1 else rest = ln \<and> rest1 = [])"
proof (cases "position (\<lambda>b. b = newline) rest")
  case None
  then show "next_line rest = (ln, rest1, terminated) \<Longrightarrow> ?thesis"
    by (auto simp: next_line_def position_None_iff)
next
  case (Some n)
  then have n: "n < length rest" "rest ! n = newline" "\<forall>j<n. rest ! j \<noteq> newline"
    by (auto dest: position_SomeD)
  then have "newline \<notin> set (take n rest)" by (auto simp: in_set_conv_nth)
  moreover have "rest = take n rest @ newline # drop (Suc n) rest" using n id_take_nth_drop by metis
  ultimately show "next_line rest = (ln, rest1, terminated) \<Longrightarrow> ?thesis"
    using Some by (auto simp: next_line_def)
qed

lemma position_append:
  "x \<notin> set xs \<Longrightarrow> position (\<lambda>b. b = x) (xs @ ys) = map_option (\<lambda>n. length xs + n) (position (\<lambda>b. b = x) ys)"
proof (induction xs)
  case Nil
  then show ?case by (cases "position (\<lambda>b. b = x) ys") auto
next
  case (Cons a xs)
  then show ?case by (cases "position (\<lambda>b. b = x) ys") auto
qed

lemma next_line_line:
  "newline \<notin> set ln \<Longrightarrow> next_line (ln @ newline # rest) = (ln, rest, True)"
  "newline \<notin> set ln \<Longrightarrow> next_line ln = (ln, [], False)"
proof -
  assume "newline \<notin> set ln"
  moreover from this have "position (\<lambda>b. b = newline) ln = None" by (auto simp: position_None_iff)
  ultimately show "next_line (ln @ newline # rest) = (ln, rest, True)" "next_line ln = (ln, [], False)"
    by (simp_all add: next_line_def position_append)
qed

lemma rest_induct [case_names Nil tail line]:
  assumes "P []"
    and "\<And>ln. ln \<noteq> [] \<Longrightarrow> newline \<notin> set ln \<Longrightarrow> P ln"
    and "\<And>ln rest. newline \<notin> set ln \<Longrightarrow> P rest \<Longrightarrow> P (ln @ newline # rest)"
  shows "P rest"
proof (induction "length rest" arbitrary: rest rule: less_induct)
  case less
  obtain ln rest1 terminated where line: "next_line rest = (ln, rest1, terminated)" by (cases "next_line rest")
  note split = next_line_cases [OF line]
  show ?case
  proof (cases terminated)
    case True
    with split have "newline \<notin> set ln" "rest = ln @ newline # rest1" by simp_all
    then show ?thesis using less [of rest1] assms(3) by simp
  next
    case False
    with split assms(1,2) show ?thesis by (cases "rest = []") auto
  qed
qed

lemma parse_Nil [simp]:
  "parse_batches c [] cursor line revision events valid needs = Inr (revision, events, valid, needs, line)"
  by (simp add: parse_batches.simps)

lemma parse_line:
  "newline \<notin> set ln \<Longrightarrow>
     parse_batches c (ln @ newline # rest) cursor line revision events valid needs =
       (if ln = [] then Inl (corrupt line ''empty record'')
        else (case cd_decode_batch c ln of
                None \<Rightarrow> Inl (corrupt line ''invalid batch JSON: {error}'')
              | Some r \<Rightarrow> and_then (extend_batch_record line revision events r) (\<lambda>(revision1, events1).
                  parse_batches c rest (cursor + Suc (length ln)) (Suc line) revision1 events1 (cursor + Suc (length ln)) False)))"
  by (subst parse_batches.simps) (simp add: next_line_line and_then_def split: option.split sum.split)

lemma parse_tail:
  "newline \<notin> set ln \<Longrightarrow> ln \<noteq> [] \<Longrightarrow>
     parse_batches c ln cursor line revision events valid needs =
       (case cd_decode_batch c ln of
          None \<Rightarrow> Inr (revision, events, cursor, False, line)
        | Some r \<Rightarrow> and_then (extend_batch_record line revision events r) (\<lambda>(revision1, events1).
            Inr (revision1, events1, cursor + length ln, True, Suc line)))"
  by (subst parse_batches.simps) (simp add: next_line_line and_then_def split: option.split sum.split)

text \<open>What the parser accepted stays accepted: cut behind the accepted prefix, it gives the same result, and
  bytes put behind that prefix (after the separator it may need) are parsed from there on.\<close>

lemma parse_batches_grow:
  assumes "parse_batches c rest cursor line revision events cursor False = Inr (revision', events', valid, needs, line')"
  shows "cursor \<le> valid" "valid \<le> cursor + length rest"
    "parse_batches c (take (valid - cursor) rest) cursor line revision events cursor False =
     Inr (revision', events', valid, needs, line')"
    "parse_batches c (take (valid - cursor) rest @ (if needs then [newline] else []) @ extra) cursor line revision events cursor False =
     parse_batches c extra (valid + of_bool needs) line' revision' events' (valid + of_bool needs) False"
proof -
  have "cursor \<le> valid \<and> valid \<le> cursor + length rest \<and>
    parse_batches c (take (valid - cursor) rest) cursor line revision events cursor False =
      Inr (revision', events', valid, needs, line') \<and>
    parse_batches c (take (valid - cursor) rest @ (if needs then [newline] else []) @ extra) cursor line revision events cursor False =
      parse_batches c extra (valid + of_bool needs) line' revision' events' (valid + of_bool needs) False"
    using assms
  proof (induction rest arbitrary: cursor line revision events rule: rest_induct)
    case Nil
    then show ?case by simp
  next
    case (tail ln)
    then show ?case by (auto simp: parse_tail parse_line and_then_def split: option.splits sum.splits)
  next
    case (line ln rest)
    from line.prems line.hyps obtain r revision1 events1
      where r: "ln \<noteq> []" "cd_decode_batch c ln = Some r" "extend_batch_record line revision events r = Inr (revision1, events1)"
        "parse_batches c rest (cursor + Suc (length ln)) (Suc line) revision1 events1 (cursor + Suc (length ln)) False =
           Inr (revision', events', valid, needs, line')"
      by (auto simp: parse_line and_then_def split: option.splits sum.splits if_splits)
    note IH = line.IH [OF r(4)]
    then obtain k where k: "valid = cursor + Suc (length ln) + k" using le_Suc_ex by blast
    with IH r(1-3) line.hyps show ?case by (simp add: parse_line and_then_def)
  qed
  then show "cursor \<le> valid" "valid \<le> cursor + length rest"
    "parse_batches c (take (valid - cursor) rest) cursor line revision events cursor False =
     Inr (revision', events', valid, needs, line')"
    "parse_batches c (take (valid - cursor) rest @ (if needs then [newline] else []) @ extra) cursor line revision events cursor False =
     parse_batches c extra (valid + of_bool needs) line' revision' events' (valid + of_bool needs) False" by simp_all
qed

text \<open>The end of \<open>parse_file\<close>.\<close>

definition finish_file ::
  "(string \<Rightarrow> string + ask_request) \<Rightarrow> session_header \<Rightarrow> store_error + (revision \<times> logged_event list \<times> nat \<times> bool \<times> nat) \<Rightarrow>
     store_error + loaded_file" where
  "finish_file dec header parsed =
     and_then parsed (\<lambda>(revision, events, valid_len, needs_separator, line).
       and_then (map_err (\<lambda>e. corrupt (line - 1) ''invalid event log: {error}'') (restore dec header revision events)) (\<lambda>s.
       Inr \<lparr>ld_session = s, ld_valid_len = valid_len, ld_needs_separator = needs_separator\<rparr>))"

lemma finish_fileE:
  assumes "finish_file dec h parsed = Inr ld"
  obtains revision events valid needs line s where "parsed = Inr (revision, events, valid, needs, line)"
    "restore dec h revision events = Inr s" "ld = \<lparr>ld_session = s, ld_valid_len = valid, ld_needs_separator = needs\<rparr>"
proof (cases parsed)
  case (Inr p)
  obtain revision events valid needs line where p: "p = (revision, events, valid, needs, line)" by (cases p)
  with assms Inr that show ?thesis
    by (cases "restore dec h revision events") (auto simp: finish_file_def map_err_def)
qed (use assms in \<open>simp add: finish_file_def\<close>)

lemma parse_file_lines:
  assumes "newline \<notin> set hl"
  shows "parse_file dec c i (hl @ newline # rest) =
     (case cd_decode_header c hl of
        None \<Rightarrow> Inl (corrupt 1 ''invalid header JSON: {error}'')
      | Some r \<Rightarrow> and_then (validate_header_record i r) (\<lambda>_.
          finish_file dec (hr_header r) (parse_batches c rest (Suc (length hl)) 2 0 [] (Suc (length hl)) False)))"
  using assms by (simp add: parse_file_def next_line_line finish_file_def split: option.split)

lemma parse_file_header:
  assumes "newline \<notin> set hl" and "hl \<noteq> []"
  shows "parse_file dec c i hl =
     (case cd_decode_header c hl of
        None \<Rightarrow> Inl (corrupt 1 ''invalid header JSON: {error}'')
      | Some r \<Rightarrow> and_then (validate_header_record i r) (\<lambda>_.
          and_then (map_err InvalidSession (new_session (hr_header r))) (\<lambda>s.
            Inr \<lparr>ld_session = s, ld_valid_len = length hl, ld_needs_separator = True\<rparr>)))"
  using assms by (simp add: parse_file_def next_line_line split: option.split)

lemma bytes_cases [case_names Nil header lines]:
  obtains "b = []" | "b \<noteq> []" "newline \<notin> set b" | hl rest where "newline \<notin> set hl" "b = hl @ newline # rest"
  by (induction b rule: rest_induct) auto

lemma restored:
  "restore dec h r es = Inr s \<Longrightarrow> s = \<lparr>se_header = h, se_revision = r, se_events = es\<rparr>"
  by (auto simp: restore_def)

lemma new_restored: "new_session h = Inr s \<Longrightarrow> restore dec h 0 [] = Inr s"
  using new_session_ok [of h s dec] by (auto simp: new_session_def restore_def session_ok_def)

text \<open>A file that parses can be resumed behind its accepted prefix.\<close>

lemma parse_file_resume:
  assumes "parse_file dec c i b = Inr ld"
  obtains line where "ld_valid_len ld \<le> length b"
    "parse_file dec c i (take (ld_valid_len ld) b) = Inr ld"
    "\<And>extra. parse_file dec c i (take (ld_valid_len ld) b @ (if ld_needs_separator ld then [newline] else []) @ extra) =
       finish_file dec (se_header (ld_session ld))
         (parse_batches c extra (ld_valid_len ld + of_bool (ld_needs_separator ld)) line
            (se_revision (ld_session ld)) (se_events (ld_session ld))
            (ld_valid_len ld + of_bool (ld_needs_separator ld)) False)"
    "restore dec (se_header (ld_session ld)) (se_revision (ld_session ld)) (se_events (ld_session ld)) = Inr (ld_session ld)"
    "sh_id (se_header (ld_session ld)) = i"
proof (cases b rule: bytes_cases)
  case Nil
  with assms show ?thesis by (simp add: parse_file_def)
next
  case header
  with assms obtain r s where r: "cd_decode_header c b = Some r" "validate_header_record i r = Inr ()"
    "new_session (hr_header r) = Inr s" "ld = \<lparr>ld_session = s, ld_valid_len = length b, ld_needs_separator = True\<rparr>"
    by (auto simp: parse_file_header map_err_def split: option.splits sum.splits)
  note s = new_restored [OF r(3), of dec] restored [OF new_restored [OF r(3)]]
  show ?thesis
    by (rule that [of 2]) (use r s header assms in \<open>auto simp: parse_file_lines validate_header_record_def\<close>)
next
  case (lines hl rest)
  with assms obtain r revision events valid needs line s where r: "cd_decode_header c hl = Some r" "validate_header_record i r = Inr ()"
    "parse_batches c rest (Suc (length hl)) 2 0 [] (Suc (length hl)) False = Inr (revision, events, valid, needs, line)"
    "restore dec (hr_header r) revision events = Inr s" "ld = \<lparr>ld_session = s, ld_valid_len = valid, ld_needs_separator = needs\<rparr>"
    by (auto simp: parse_file_lines split: option.splits elim!: finish_fileE)
  note grow = parse_batches_grow [OF r(3)]
  from grow(1) obtain k where k: "valid = Suc (length hl) + k" using le_Suc_ex by blast
  note s = restored [OF r(4)]
  show ?thesis
    by (rule that [of line]) (use r s k grow lines in \<open>auto simp: parse_file_lines finish_file_def validate_header_record_def\<close>)
qed

subsection \<open>Appending to a file\<close>

text \<open>What the store needs of the codec for one record: its text is one non-empty line, decodes to the
  record, and no shorter prefix decodes (the text of a JSON object ends with its closing brace).\<close>

definition encodes_batch :: "codec \<Rightarrow> batch_record \<Rightarrow> bool" where
  "encodes_batch c r \<longleftrightarrow>
     (let e = cd_encode_batch c r in
      e \<noteq> [] \<and> newline \<notin> set e \<and> cd_decode_batch c e = Some r \<and>
      (\<forall>k\<in>{0<..<length e}. cd_decode_batch c (take k e) = None))"

lemma parse_appended:
  assumes enc: "encodes_batch c r" and ext: "extend_batch_record line revision events r = Inr (revision1, events1)"
  defines "e \<equiv> cd_encode_batch c r"
  shows "parse_batches c (take n (e @ [newline])) cursor line revision events cursor False =
    (if n < length e then Inr (revision, events, cursor, False, line)
     else if n = length e then Inr (revision1, events1, cursor + length e, True, Suc line)
     else Inr (revision1, events1, Suc (cursor + length e), False, Suc line))"
proof -
  have e: "e \<noteq> []" "newline \<notin> set e" "cd_decode_batch c e = Some r"
    and torn: "\<And>k. 0 < k \<Longrightarrow> k < length e \<Longrightarrow> cd_decode_batch c (take k e) = None"
    using enc by (auto simp: encodes_batch_def Let_def e_def)
  have line: "newline \<notin> set (take k e)" for k using e(2) by (meson in_set_takeD)
  consider "n = 0" | "0 < n" "n < length e" | "n = length e" | "length e < n" by linarith
  then show ?thesis
  proof cases
    case 2
    moreover from this have "take n e \<noteq> []" by auto
    ultimately show ?thesis using torn line by (simp add: parse_tail)
  next
    case 3
    then show ?thesis using e ext by (simp add: parse_tail)
  next
    case 4
    then have "take n (e @ [newline]) = e @ newline # []" by simp
    then show ?thesis using 4 e ext by (simp add: parse_line)
  qed (use e in simp)
qed

text \<open>Wherever a write stops, the file parses, to the old session or to the new one.\<close>

lemma parse_cut:
  assumes parsed: "parse_file dec c i b = Inr ld"
    and app: "append_batch_at dec (ld_session ld) expected events now = (s1, Inr receipt)"
    and ne: "ap_events receipt \<noteq> []" and enc: "encodes_batch c (batch_record_of receipt)"
  defines "added \<equiv> added_bytes c ld (batch_record_of receipt)"
  obtains ld' where "parse_file dec c i (kept_bytes ld b @ take n added) = Inr ld'"
    "ld_session ld' = (if Suc n < length added then ld_session ld else s1)"
    "length added \<le> n \<Longrightarrow>
       ld' = \<lparr>ld_session = s1, ld_valid_len = length (kept_bytes ld b @ added), ld_needs_separator = False\<rparr>"
proof -
  let ?s = "ld_session ld" and ?sep = "if ld_needs_separator ld then [newline] else []"
  let ?e = "cd_encode_batch c (batch_record_of receipt)"
  obtain line where resume: "ld_valid_len ld \<le> length b" "parse_file dec c i (take (ld_valid_len ld) b) = Inr ld"
    "\<And>extra. parse_file dec c i (take (ld_valid_len ld) b @ ?sep @ extra) =
       finish_file dec (se_header ?s)
         (parse_batches c extra (ld_valid_len ld + of_bool (ld_needs_separator ld)) line (se_revision ?s) (se_events ?s)
            (ld_valid_len ld + of_bool (ld_needs_separator ld)) False)"
    and rs: "restore dec (se_header ?s) (se_revision ?s) (se_events ?s) = Inr ?s"
    using parse_file_resume [OF parsed] by blast
  have kept: "kept_bytes ld b = take (ld_valid_len ld) b" using resume(1) by (simp add: kept_bytes_def)
  obtain r where r: "checked_add (se_revision ?s) 1 = Some r" "ap_previous_revision receipt = se_revision ?s"
    "ap_revision receipt = r" "s1 = ?s\<lparr>se_events := se_events ?s @ ap_events receipt, se_revision := r\<rparr>"
    "validate_log dec r (se_events ?s @ ap_events receipt) = Inr ()"
    using append_batch_cases [OF app] ne app by (auto simp: append_batch_at_def)
  have ext: "extend_batch_record line (se_revision ?s) (se_events ?s) (batch_record_of receipt) = Inr (r, se_events ?s @ ap_events receipt)"
    using r ne by (simp add: extend_batch_record_def batch_record_of_def)
  have rs1: "restore dec (se_header ?s) r (se_events ?s @ ap_events receipt) = Inr s1"
    using rs r(4,5) by (auto simp: restore_def)
  note tail = resume(3) [of "take m (?e @ [newline])" for m, unfolded parse_appended [OF enc ext]]
  show ?thesis
  proof (cases "ld_needs_separator ld \<and> n = 0")
    case True
    with resume(2) have "parse_file dec c i (kept_bytes ld b @ take n added) = Inr ld" by (simp add: kept)
    then show ?thesis by (rule that) (use True in \<open>simp_all add: added_def added_bytes_def\<close>)
  next
    case False
    let ?m = "n - of_bool (ld_needs_separator ld)"
    have cut: "take n added = ?sep @ take ?m (?e @ [newline])"
      using False by (cases n) (auto simp: added_def added_bytes_def)
    have len: "length added = of_bool (ld_needs_separator ld) + Suc (length ?e)" by (simp add: added_def added_bytes_def)
    let ?cursor = "ld_valid_len ld + of_bool (ld_needs_separator ld)"
    have X: "kept_bytes ld b @ take n added = take (ld_valid_len ld) b @ ?sep @ take ?m (?e @ [newline])"
      by (simp only: kept cut)
    note result = tail [of ?m, folded X]
    have m: "Suc n < length added \<longleftrightarrow> ?m < length ?e" "length added \<le> n \<longleftrightarrow> length ?e < ?m"
      using False by (auto simp: len)
    consider "?m < length ?e" | "?m = length ?e" | "length ?e < ?m" by linarith
    then show ?thesis
    proof cases
      case 1
      with result rs have "parse_file dec c i (kept_bytes ld b @ take n added) =
          Inr \<lparr>ld_session = ?s, ld_valid_len = ?cursor, ld_needs_separator = False\<rparr>"
        by (simp add: finish_file_def)
      then show ?thesis by (rule that) (use 1 m in simp_all)
    next
      case 2
      with result rs1 have "parse_file dec c i (kept_bytes ld b @ take n added) =
          Inr \<lparr>ld_session = s1, ld_valid_len = ?cursor + length ?e, ld_needs_separator = True\<rparr>"
        by (simp add: finish_file_def)
      then show ?thesis by (rule that) (use 2 m in simp_all)
    next
      case 3
      with result rs1 have "parse_file dec c i (kept_bytes ld b @ take n added) =
          Inr \<lparr>ld_session = s1, ld_valid_len = Suc (?cursor + length ?e), ld_needs_separator = False\<rparr>"
        by (simp add: finish_file_def)
      then show ?thesis by (rule that) (use 3 m resume(1) in \<open>simp_all add: kept len\<close>)
    qed
  qed
qed

definition encodes_header :: "codec \<Rightarrow> header_record \<Rightarrow> bool" where
  "encodes_header c r \<longleftrightarrow>
     (let e = cd_encode_header c r in e \<noteq> [] \<and> newline \<notin> set e \<and> cd_decode_header c e = Some r)"

lemma parse_created:
  assumes "new_session header = Inr s" and "encodes_header c (header_record_of header)"
  defines "b \<equiv> cd_encode_header c (header_record_of header) @ [newline]"
  shows "parse_file dec c (sh_id header) b =
    Inr \<lparr>ld_session = s, ld_valid_len = length b, ld_needs_separator = False\<rparr>"
  using assms new_restored [OF assms(1), of dec]
  by (simp add: encodes_header_def Let_def parse_file_lines validate_header_record_def header_record_of_def
      finish_file_def)

subsection \<open>The cache is transparent\<close>

text \<open>An entry holds the parse of every content it is taken for.\<close>

definition cache_ok ::
  "(string \<Rightarrow> string + ask_request) \<Rightarrow> codec \<Rightarrow> (bytes \<Rightarrow> 'f) \<Rightarrow> 'f jsonl_state \<Rightarrow> bool" where
  "cache_ok dec c fp st \<longleftrightarrow>
     (\<forall>i b ld. js_cache st i = Some (fp b, ld) \<longrightarrow> parse_file dec c i b = Inr ld)"

lemma cache_ok_remove [simp]: "cache_ok dec c fp st \<Longrightarrow> cache_ok dec c fp (cache_remove i st)"
  by (simp add: cache_ok_def cache_remove_def)

lemma cache_ok_store [simp]:
  "inj fp \<Longrightarrow> cache_ok dec c fp st \<Longrightarrow> parse_file dec c i b = Inr ld \<Longrightarrow> cache_ok dec c fp (cache_store i (fp b) ld st)"
  by (auto simp: cache_ok_def cache_store_def dest: injD)

lemma cache_ok_files [simp]: "cache_ok dec c fp (st\<lparr>js_files := fs\<rparr>) = cache_ok dec c fp st"
  by (simp add: cache_ok_def)

lemma files_of_cache [simp]:
  "js_files (cache_store i f ld st) = js_files st" "js_files (cache_remove i st) = js_files st"
  by (simp_all add: cache_store_def cache_remove_def)

lemma load_file_cached_eq:
  assumes "cache_ok dec c fp st" and "inj fp"
  shows "snd (load_file_cached dec c fp i st) = load_file dec c i st"
    "js_files (fst (load_file_cached dec c fp i st)) = js_files st"
    "cache_ok dec c fp (fst (load_file_cached dec c fp i st))"
proof -
  have hit: "parse_file dec c i b = Inr ld" if "js_cache st i = Some (fp b, ld)" for b ld
    using assms(1) that by (simp add: cache_ok_def)
  have "snd (load_file_cached dec c fp i st) = load_file dec c i st \<and>
      js_files (fst (load_file_cached dec c fp i st)) = js_files st \<and>
      cache_ok dec c fp (fst (load_file_cached dec c fp i st))"
    by (cases "map_of (js_files st) i"; cases "js_cache st i"; cases "parse_file dec c i (the (map_of (js_files st) i))")
      (auto simp: load_file_cached_def load_file_def assms hit)
  then show "snd (load_file_cached dec c fp i st) = load_file dec c i st"
    "js_files (fst (load_file_cached dec c fp i st)) = js_files st"
    "cache_ok dec c fp (fst (load_file_cached dec c fp i st))" by simp_all
qed

lemma take_file_cached_eq:
  assumes "cache_ok dec c fp st"
  shows "snd (take_file_cached dec c fp i st) = load_file dec c i st"
    "js_files (fst (take_file_cached dec c fp i st)) = js_files st"
    "cache_ok dec c fp (fst (take_file_cached dec c fp i st))"
proof -
  have hit: "parse_file dec c i b = Inr ld" if "js_cache st i = Some (fp b, ld)" for b ld
    using assms(1) that by (simp add: cache_ok_def)
  have "snd (take_file_cached dec c fp i st) = load_file dec c i st \<and>
      js_files (fst (take_file_cached dec c fp i st)) = js_files st \<and>
      cache_ok dec c fp (fst (take_file_cached dec c fp i st))"
    by (cases "map_of (js_files st) i"; cases "js_cache st i") (auto simp: take_file_cached_def load_file_def assms hit)
  then show "snd (take_file_cached dec c fp i st) = load_file dec c i st"
    "js_files (fst (take_file_cached dec c fp i st)) = js_files st"
    "cache_ok dec c fp (fst (take_file_cached dec c fp i st))" by simp_all
qed

text \<open>What a store's user sees of a session, read from the file alone.\<close>

definition stored ::
  "(string \<Rightarrow> string + ask_request) \<Rightarrow> codec \<Rightarrow> string \<Rightarrow> 'f jsonl_state \<Rightarrow> store_error + session option" where
  "stored dec c i st = and_then (validate_session_id i) (\<lambda>_.
     and_then (load_file dec c i st) (\<lambda>loaded. Inr (map_option ld_session loaded)))"

lemma jsonl_load_eq:
  assumes "cache_ok dec c fp st" and "inj fp"
  shows "snd (jsonl_load dec c fp i st) = stored dec c i st"
    "js_files (fst (jsonl_load dec c fp i st)) = js_files st"
    "cache_ok dec c fp (fst (jsonl_load dec c fp i st))"
proof -
  obtain st1 res where run: "load_file_cached dec c fp i st = (st1, res)" by fastforce
  note eq = load_file_cached_eq [OF assms, of i, unfolded run fst_conv snd_conv]
  show "snd (jsonl_load dec c fp i st) = stored dec c i st"
    "js_files (fst (jsonl_load dec c fp i st)) = js_files st"
    "cache_ok dec c fp (fst (jsonl_load dec c fp i st))"
    using eq assms by (auto simp: jsonl_load_def stored_def run and_then_def split: sum.split)
qed

definition codec_ok :: "codec \<Rightarrow> bool" where
  "codec_ok c \<longleftrightarrow> (\<forall>r. encodes_batch c r) \<and> (\<forall>r. encodes_header c r)"

lemma stored_SomeE:
  assumes "stored dec c i st = Inr (Some s)"
  obtains b ld where "validate_session_id i = Inr ()" "map_of (js_files st) i = Some b" "parse_file dec c i b = Inr ld"
    "ld_session ld = s"
  using assms by (auto simp: stored_def load_file_def split: option.splits)

lemma stored_file:
  "validate_session_id i = Inr () \<Longrightarrow> map_of (js_files st) i = Some b \<Longrightarrow> parse_file dec c i b = Inr ld \<Longrightarrow>
     stored dec c i st = Inr (Some (ld_session ld))"
  by (simp add: stored_def load_file_def)

lemma stored_frame: "map_of (js_files st') i = map_of (js_files st) i \<Longrightarrow> stored dec c i st' = stored dec c i st"
  by (simp add: stored_def load_file_def)

lemma files_update [simp]: "js_files (st\<lparr>js_files := fs\<rparr>) = fs" "js_cache (st\<lparr>js_files := fs\<rparr>) = js_cache st"
  by simp_all

text \<open>An append, with or without a fault: what is reported, what is stored, and that the cache stays right.\<close>

lemma jsonl_append_run:
  fixes st :: "'f jsonl_state"
  assumes cache: "cache_ok dec c fp st" and inj: "inj fp" and codec: "\<And>r. encodes_batch c r"
    and stored: "stored dec c i st = Inr (Some s)"
    and app: "append_batch_at dec s expected events now = (s', res)"
    and run: "jsonl_append dec c fp fault now i expected events st = (st', res')"
  shows "cache_ok dec c fp st' \<and> (js_files st' = js_files st \<or> (\<exists>b'. js_files st' = AList.update i b' (js_files st))) \<and>
    (\<exists>s''. stored dec c i st' = Inr (Some s'') \<and> (s'' = s \<or> s'' = s') \<and>
       ((fault = None \<or> s' = s) \<and> expected = se_revision s \<and> res' = map_err InvalidSession res \<and> s'' = s' \<or>
        expected \<noteq> se_revision s \<and> res' = Inl (StoreRevisionConflict i expected (se_revision s)) \<or>
        (\<exists>n m. fault = Some n \<and> res' = Inl (Backend m))))"
proof -
  obtain b ld where valid: "validate_session_id i = Inr ()" and b: "map_of (js_files st) i = Some b"
    and parsed: "parse_file dec c i b = Inr ld" and s: "ld_session ld = s"
    using stored by (rule stored_SomeE)
  obtain st1 where taken: "take_file_cached dec c fp i st = (st1, Inr (Some ld))"
    using take_file_cached_eq(1) [OF cache, of i] b parsed by (cases "take_file_cached dec c fp i st") (auto simp: load_file_def)
  note st1 = take_file_cached_eq(2,3) [OF cache, of i, unfolded taken fst_conv]
  have frame: "stored dec c i st2 = Inr (Some s)" if "js_files st2 = js_files st" for st2 :: "'f jsonl_state"
    using stored that by (simp add: stored_def load_file_def)
  note run' = run [unfolded jsonl_append_def valid sum.case taken prod.case option.case Let_def s b option.sel]
  show ?thesis
  proof (cases "expected = se_revision s")
    case False
    with run' cache inj parsed st1 show ?thesis by (auto simp: frame)
  next
    case True
    note run'' = run' [unfolded app prod.case]
    show ?thesis
    proof (cases res)
      case (Inl e)
      then have "s' = s" using append_batch_cases [OF app] by auto
      with run'' Inl True st1 show ?thesis by (auto simp: frame map_err_def)
    next
      case (Inr rc)
      show ?thesis
      proof (cases "ap_events rc = []")
        case empty: True
        then have "s' = s" using append_batch_cases [OF app] Inr by (metis Inl_Inr_False stage_eq_Nil sum.sel(2))
        with run'' Inr empty True st1 cache inj parsed s show ?thesis by (auto simp: frame map_err_def)
      next
        case False
        let ?added = "added_bytes c ld (batch_record_of rc)"
        note cut = parse_cut [OF parsed app [folded s, unfolded Inr] False codec]
        show ?thesis
        proof (cases fault)
          case None
          obtain ld' where "parse_file dec c i (kept_bytes ld b @ take (length ?added) ?added) = Inr ld'"
            and "ld' = \<lparr>ld_session = s', ld_valid_len = length (kept_bytes ld b @ ?added), ld_needs_separator = False\<rparr>"
            by (rule cut [of "length ?added"]) (use order_refl in blast)
          with run'' Inr False None True st1 inj show ?thesis
            by (auto simp: map_err_def stored_file [OF valid] AList.update_conv')
        next
          case (Some n)
          obtain ld' where ld': "parse_file dec c i (kept_bytes ld b @ take n ?added) = Inr ld'"
            "ld_session ld' = (if Suc n < length ?added then s else s')"
            by (rule cut [of n]) (use s in blast)
          with run'' Inr False Some True st1 show ?thesis
            by (auto simp: stored_file [OF valid] AList.update_conv')
        qed
      qed
    qed
  qed
qed

subsection \<open>The filesystem store meets the contract\<close>

definition jsonl_ops ::
  "(string \<Rightarrow> string + ask_request) \<Rightarrow> codec \<Rightarrow> (bytes \<Rightarrow> 'f) \<Rightarrow> 'f jsonl_state store_ops" where
  "jsonl_ops dec c fp =
     \<lparr>so_list_headers = (\<lambda>st. snd (jsonl_list_headers dec c fp st)), so_create = jsonl_create c fp None,
      so_load = (\<lambda>i st. snd (jsonl_load dec c fp i st)), so_append = jsonl_append dec c fp None,
      so_flush = (\<lambda>i st. snd (jsonl_flush dec c fp i st)), so_inspect = (\<lambda>i st. snd (jsonl_inspect dec c fp i st))\<rparr>"

definition jsonl_ok ::
  "(string \<Rightarrow> string + ask_request) \<Rightarrow> codec \<Rightarrow> (bytes \<Rightarrow> 'f) \<Rightarrow> 'f jsonl_state \<Rightarrow> bool" where
  "jsonl_ok dec c fp st \<longleftrightarrow>
     codec_ok c \<and> inj fp \<and> cache_ok dec c fp st \<and> distinct (map fst (js_files st)) \<and>
     (\<forall>(i, b)\<in>set (js_files st). \<exists>s. stored dec c i st = Inr (Some s))"

lemma jsonl_ops_sel:
  "so_create (jsonl_ops dec c fp) = jsonl_create c fp None"
  "so_append (jsonl_ops dec c fp) = jsonl_append dec c fp None"
  "so_flush (jsonl_ops dec c fp) i st = snd (jsonl_flush dec c fp i st)"
  "so_list_headers (jsonl_ops dec c fp) st = snd (jsonl_list_headers dec c fp st)"
  by (simp_all add: jsonl_ops_def)

lemma jsonl_okD:
  assumes "jsonl_ok dec c fp st"
  shows "inj fp" "cache_ok dec c fp st" "encodes_batch c r" "encodes_header c h" "distinct (map fst (js_files st))"
    "map_of (js_files st) i = Some b \<Longrightarrow> \<exists>s. stored dec c i st = Inr (Some s)"
  using assms by (auto simp: jsonl_ok_def codec_ok_def dest: map_of_SomeD)

lemma stored_ok:
  assumes "stored dec c i st = Inr (Some s)"
  shows "session_ok dec s" "sh_id (se_header s) = i"
proof -
  from assms obtain b ld where parsed: "parse_file dec c i b = Inr ld" and s: "ld_session ld = s" by (rule stored_SomeE)
  show "session_ok dec s" "sh_id (se_header s) = i"
    using parse_file_resume [OF parsed] s restore_ok by metis+
qed

lemma jsonl_ok_update:
  fixes st st' :: "'f jsonl_state"
  assumes ok: "jsonl_ok dec c fp st" and cache: "cache_ok dec c fp st'"
    and files: "js_files st' = AList.update i b (js_files st)" and stored: "stored dec c i st' = Inr (Some s)"
  shows "jsonl_ok dec c fp st'"
proof -
  have d: "distinct (map fst (js_files st'))" using jsonl_okD(5) [OF ok] by (simp add: files AList.distinct_update)
  have "\<exists>t. stored dec c j st' = Inr (Some t)" if "(j, x) \<in> set (js_files st')" for j x
  proof (cases "j = i")
    case False
    from d that have "map_of (js_files st') j = Some x" by simp
    with False have "map_of (js_files st) j = Some x" by (simp add: files AList.update_conv')
    with jsonl_okD(6) [OF ok] stored_frame [of st' j st] \<open>map_of (js_files st') j = Some x\<close> show ?thesis by metis
  qed (use stored in simp)
  with ok cache d show ?thesis by (auto simp: jsonl_ok_def)
qed

lemma jsonl_load_view:
  "jsonl_ok dec c fp st \<Longrightarrow> so_load (jsonl_ops dec c fp) i st = stored dec c i st"
  by (simp add: jsonl_ops_def jsonl_load_eq jsonl_okD)

lemma jsonl_create_cases:
  fixes st :: "'f jsonl_state"
  assumes ok: "jsonl_ok dec c fp st"
  obtains (failed) e where "jsonl_create c fp None header st = (st, Inl e)"
      "validate_session_id (sh_id header) = Inl e \<or> new_session header = Inl (case e of InvalidSession x \<Rightarrow> x | _ \<Rightarrow> EmptySessionId) \<or>
       e = AlreadyExists (sh_id header) \<and> stored dec c (sh_id header) st \<noteq> Inr None"
  | (created) s st' where "jsonl_create c fp None header st = (st', Inr s)" "new_session header = Inr s"
      "validate_session_id (sh_id header) = Inr ()" "stored dec c (sh_id header) st = Inr None"
      "jsonl_ok dec c fp st'" "stored dec c (sh_id header) st' = Inr (Some s)"
      "\<And>j. j \<noteq> sh_id header \<Longrightarrow> stored dec c j st' = stored dec c j st"
proof (cases "validate_session_id (sh_id header)")
  case (Inl e)
  then show thesis by (intro failed [of e]) (simp_all add: jsonl_create_def)
next
  case (Inr u)
  then have valid: "validate_session_id (sh_id header) = Inr ()" by simp
  show thesis
  proof (cases "new_session header")
    case (Inl e)
    with valid show thesis by (intro failed [of "InvalidSession e"]) (simp_all add: jsonl_create_def)
  next
    case s: (Inr s)
    show thesis
    proof (cases "map_of (js_files st) (sh_id header)")
      case (Some b)
      with jsonl_okD(6) [OF ok Some] valid s show thesis
        by (intro failed [of "AlreadyExists (sh_id header)"]) (auto simp: jsonl_create_def Let_def)
    next
      case None
      let ?b = "cd_encode_header c (header_record_of header) @ [newline]"
      note parsed = parse_created [OF s jsonl_okD(4) [OF ok], of dec]
      define st' where "st' = cache_store (sh_id header) (fp ?b)
        \<lparr>ld_session = s, ld_valid_len = length ?b, ld_needs_separator = False\<rparr>
        (st\<lparr>js_files := AList.update (sh_id header) ?b (js_files st)\<rparr>)"
      have files: "js_files st' = AList.update (sh_id header) ?b (js_files st)" by (simp add: st'_def)
      have new: "stored dec c (sh_id header) st' = Inr (Some s)"
        using stored_file [of "sh_id header" st' ?b dec c] valid parsed by (simp add: files AList.update_conv')
      have "cache_ok dec c fp st'" unfolding st'_def
        using ok parsed by (intro cache_ok_store) (simp_all add: jsonl_okD)
      from jsonl_ok_update [OF ok this files new] have ok': "jsonl_ok dec c fp st'" .
      have c: "jsonl_create c fp None header st = (st', Inr s)"
        using valid s None new_session_header [OF s] by (simp add: jsonl_create_def Let_def st'_def)
      have none: "stored dec c (sh_id header) st = Inr None" using valid None by (simp add: stored_def load_file_def)
      have "stored dec c j st' = stored dec c j st" if "j \<noteq> sh_id header" for j
        using that by (intro stored_frame) (simp add: files AList.update_conv')
      with c s valid none ok' new show thesis by (rule created)
    qed
  qed
qed

lemma jsonl_append_keeps:
  fixes st st' :: "'f jsonl_state"
  assumes ok: "jsonl_ok dec c fp st" and run: "jsonl_append dec c fp fault now i expected events st = (st', res)"
  shows "jsonl_ok dec c fp st'" "j \<noteq> i \<Longrightarrow> stored dec c j st' = stored dec c j st"
proof -
  note D = jsonl_okD [OF ok]
  have "jsonl_ok dec c fp st' \<and> (j \<noteq> i \<longrightarrow> stored dec c j st' = stored dec c j st)"
  proof (cases "\<exists>s. stored dec c i st = Inr (Some s)")
    case True
    then obtain s where s: "stored dec c i st = Inr (Some s)" by blast
    obtain s' r where app: "append_batch_at dec s expected events now = (s', r)" by fastforce
    note ran = jsonl_append_run [OF D(2,1,3) s app run]
    then have cache: "cache_ok dec c fp st'" by (rule conjunct1)
    obtain s'' where after: "stored dec c i st' = Inr (Some s'')"
      using conjunct2 [OF conjunct2 [OF ran]] by (elim exE conjE) (rule that)
    show ?thesis using conjunct1 [OF conjunct2 [OF ran]]
    proof (elim disjE exE)
      assume files: "js_files st' = js_files st"
      then have "stored dec c k st' = stored dec c k st" for k by (intro stored_frame) simp
      with ok cache files show ?thesis by (simp add: jsonl_ok_def)
    next
      fix b' assume files: "js_files st' = AList.update i b' (js_files st)"
      then have "j \<noteq> i \<longrightarrow> stored dec c j st' = stored dec c j st" by (intro impI stored_frame) (simp add: AList.update_conv')
      with jsonl_ok_update [OF ok cache files after] show ?thesis by blast
    qed
  next
    case False
    have "js_files st' = js_files st \<and> cache_ok dec c fp st'"
    proof (cases "validate_session_id i")
      case (Inr u)
      obtain st1 taken where take: "take_file_cached dec c fp i st = (st1, taken)" by fastforce
      note st1 = take_file_cached_eq [OF D(2), of i, unfolded take fst_conv snd_conv]
      from False Inr have "map_of (js_files st) i = None" using D(6) [of i] by (cases "map_of (js_files st) i") auto
      with st1(1) take have "take_file_cached dec c fp i st = (st1, Inr None)" by (simp add: load_file_def)
      with run Inr st1(2,3) show ?thesis by (auto simp: jsonl_append_def)
    qed (use run D(2) in \<open>simp add: jsonl_append_def\<close>)
    moreover from this have "stored dec c k st' = stored dec c k st" for k by (intro stored_frame) simp
    ultimately show ?thesis using ok by (simp add: jsonl_ok_def)
  qed
  then show "jsonl_ok dec c fp st'" "j \<noteq> i \<Longrightarrow> stored dec c j st' = stored dec c j st" by simp_all
qed

text \<open>Startup discovery.\<close>

lemma discover_valid:
  "\<forall>(i, b)\<in>set fs. validate_session_id i = Inr () \<Longrightarrow> discover_session_ids fs = Inr (map fst fs)"
  by (induction fs) auto

lemma discover_ids: "discover_session_ids fs = Inr is \<Longrightarrow> is = map fst fs"
  by (induction fs arbitrary: "is") auto

lemma load_headers_valid:
  assumes "inj fp" and "cache_ok dec c fp st" and "\<forall>i\<in>set is. stored dec c i st = Inr (Some (f i))"
  shows "snd (load_headers dec c fp is st) = Inr (map (\<lambda>i. se_header (f i)) is)"
  using assms(2,3)
proof (induction "is" arbitrary: st)
  case (Cons i "is")
  obtain st1 res where run: "jsonl_load dec c fp i st = (st1, res)" by fastforce
  note eq = jsonl_load_eq [OF Cons.prems(1) assms(1), of i, unfolded run fst_conv snd_conv]
  from eq(2) have "\<forall>j\<in>set is. stored dec c j st1 = Inr (Some (f j))" using Cons.prems(2) stored_frame [of st1 _ st] by simp
  with Cons.IH [OF eq(3)] have "snd (load_headers dec c fp is st1) = Inr (map (\<lambda>i. se_header (f i)) is)" .
  with eq(1) Cons.prems(2) show ?case by (cases "load_headers dec c fp is st1") (simp add: run)
qed simp

lemma jsonl_listed:
  fixes st :: "'f jsonl_state"
  assumes ok: "jsonl_ok dec c fp st"
  shows "\<exists>hs. snd (jsonl_list_headers dec c fp st) = Inr hs \<and> sorted (map sh_id hs) \<and> distinct (map sh_id hs) \<and>
    set hs = {se_header s | i s. stored dec c i st = Inr (Some s)}"
proof -
  note D = jsonl_okD [OF ok]
  let ?ids = "map fst (js_files st)"
  define f where "f i = (case stored dec c i st of Inr (Some s) \<Rightarrow> s | _ \<Rightarrow> undefined)" for i
  have f: "stored dec c i st = Inr (Some (f i)) \<and> sh_id (se_header (f i)) = i" if "i \<in> set ?ids" for i
  proof -
    from that obtain s where "stored dec c i st = Inr (Some s)" using ok by (auto simp: jsonl_ok_def)
    then show ?thesis using stored_ok(2) by (simp add: f_def)
  qed
  have listed: "i \<in> set ?ids" if "stored dec c i st = Inr (Some s)" for i s
    using that by (auto elim!: stored_SomeE dest: map_of_SomeD) (metis fst_conv image_eqI map_of_SomeD)
  have "\<forall>(i, b)\<in>set (js_files st). validate_session_id i = Inr ()"
    using ok by (fastforce simp: jsonl_ok_def elim: stored_SomeE)
  with load_headers_valid [OF D(1,2), of "sort ?ids" f] f
  have run: "snd (jsonl_list_headers dec c fp st) = Inr (map (\<lambda>i. se_header (f i)) (sort ?ids))"
    by (simp add: jsonl_list_headers_def discover_valid)
  have ids: "map sh_id (map (\<lambda>i. se_header (f i)) (sort ?ids)) = sort ?ids"
    by (simp only: map_map comp_def, rule map_idI) (use f in simp)
  have "set (map (\<lambda>i. se_header (f i)) (sort ?ids)) = {se_header s | i s. stored dec c i st = Inr (Some s)}"
    using f listed by (auto simp: f_def) force+
  with run ids D(5) show ?thesis by (metis distinct_sort sorted_sort)
qed

lemma jsonl_append_kept:
  "jsonl_ok dec c fp st \<Longrightarrow> jsonl_ok dec c fp (fst (jsonl_append dec c fp fault now i expected events st))"
  using jsonl_append_keeps(1) [of dec c fp st fault now i expected events] by (metis prod.collapse)

lemma jsonl_append_missing:
  assumes "jsonl_ok dec c fp st" and "stored dec c i st = Inr None"
  shows "snd (jsonl_append dec c fp fault now i expected events st) = Inl (NotFound i) \<and>
    stored dec c i (fst (jsonl_append dec c fp fault now i expected events st)) = Inr None"
proof -
  note D = jsonl_okD [OF assms(1)]
  have valid: "validate_session_id i = Inr ()" and none: "map_of (js_files st) i = None"
    using assms D(6) [of i] by (auto simp: stored_def load_file_def split: option.splits)
  obtain st1 taken where take: "take_file_cached dec c fp i st = (st1, taken)" by fastforce
  note st1 = take_file_cached_eq [OF D(2), of i, unfolded take fst_conv snd_conv]
  with none take have "take_file_cached dec c fp i st = (st1, Inr None)" by (simp add: load_file_def)
  with valid none st1(2) show ?thesis by (simp add: jsonl_append_def stored_def load_file_def)
qed

lemma jsonl_append_done:
  fixes st :: "'f jsonl_state"
  assumes ok: "jsonl_ok dec c fp st" and s: "stored dec c i st = Inr (Some s)"
    and app: "append_batch_at dec s expected events now = (s', res)"
  shows "snd (jsonl_append dec c fp None now i expected events st) =
      (if expected = se_revision s then map_err InvalidSession res
       else Inl (StoreRevisionConflict i expected (se_revision s)))"
    "stored dec c i (fst (jsonl_append dec c fp None now i expected events st)) = Inr (Some s')"
proof -
  obtain st' res' where run: "jsonl_append dec c fp None now i expected events st = (st', res')" by fastforce
  have "expected \<noteq> se_revision s \<Longrightarrow> s' = s" using app by (simp add: append_batch_at_def)
  with conjunct2 [OF conjunct2 [OF jsonl_append_run [OF jsonl_okD(2,1,3) [OF ok] s app run]]]
  show "snd (jsonl_append dec c fp None now i expected events st) =
      (if expected = se_revision s then map_err InvalidSession res
       else Inl (StoreRevisionConflict i expected (se_revision s)))"
    "stored dec c i (fst (jsonl_append dec c fp None now i expected events st)) = Inr (Some s')"
    unfolding run by auto
qed

lemma jsonl_flush_eq:
  assumes "jsonl_ok dec c fp st" and "stored dec c i st = Inr (Some s)"
  shows "snd (jsonl_flush dec c fp i st) = Inr (se_revision s)"
proof -
  note D = jsonl_okD [OF assms(1)]
  from assms(2) obtain b ld where "validate_session_id i = Inr ()" "map_of (js_files st) i = Some b"
    "parse_file dec c i b = Inr ld" "ld_session ld = s" by (rule stored_SomeE)
  moreover from this have "snd (take_file_cached dec c fp i st) = Inr (Some ld)"
    using take_file_cached_eq(1) [OF D(2), of i] by (simp add: load_file_def)
  ultimately show ?thesis
    by (cases "take_file_cached dec c fp i st") (simp add: jsonl_flush_def)
qed

lemma jsonl_flush_missing:
  assumes "jsonl_ok dec c fp st" and "stored dec c i st = Inr None"
  shows "snd (jsonl_flush dec c fp i st) = Inl (NotFound i)"
proof -
  note D = jsonl_okD [OF assms(1)]
  have "validate_session_id i = Inr ()" and "map_of (js_files st) i = None"
    using assms D(6) [of i] by (auto simp: stored_def load_file_def split: option.splits)
  moreover from this have "snd (take_file_cached dec c fp i st) = Inr None"
    using take_file_cached_eq(1) [OF D(2), of i] by (simp add: load_file_def)
  ultimately show ?thesis
    by (cases "take_file_cached dec c fp i st") (simp add: jsonl_flush_def)
qed

interpretation jsonl: store_contract "jsonl_ops dec c fp" dec "jsonl_ok dec c fp" for dec c and fp :: "bytes \<Rightarrow> 'f"
proof
  fix st :: "'f jsonl_state" and header
  assume ok: "jsonl_ok dec c fp st"
  show "jsonl_ok dec c fp (fst (so_create (jsonl_ops dec c fp) header st))"
    by (rule jsonl_create_cases [OF ok, of header]) (simp_all add: jsonl_ops_sel ok)
next
  fix st :: "'f jsonl_state" and now i expected events
  assume ok: "jsonl_ok dec c fp st"
  show "jsonl_ok dec c fp (fst (so_append (jsonl_ops dec c fp) now i expected events st))"
    by (simp add: jsonl_ops_sel jsonl_append_kept [OF ok])
next
  fix st :: "'f jsonl_state" and i s
  assume "jsonl_ok dec c fp st" and "so_load (jsonl_ops dec c fp) i st = Inr (Some s)"
  then show "session_ok dec s \<and> sh_id (se_header s) = i" by (simp add: jsonl_load_view stored_ok)
next
  fix st :: "'f jsonl_state" and header s
  assume ok: "jsonl_ok dec c fp st" and none: "so_load (jsonl_ops dec c fp) (sh_id header) st = Inr None"
    and new: "new_session header = Inr s"
  have none': "stored dec c (sh_id header) st = Inr None" using none by (simp add: jsonl_load_view [OF ok])
  then have valid: "validate_session_id (sh_id header) = Inr ()" by (auto simp: stored_def)
  show "snd (so_create (jsonl_ops dec c fp) header st) = Inr s \<and>
      so_load (jsonl_ops dec c fp) (sh_id header) (fst (so_create (jsonl_ops dec c fp) header st)) = Inr (Some s)"
    by (rule jsonl_create_cases [OF ok, of header])
      (use none' valid new in \<open>auto simp: jsonl_ops_sel jsonl_load_view\<close>)
next
  fix st :: "'f jsonl_state" and header s s'
  assume ok: "jsonl_ok dec c fp st" and old: "so_load (jsonl_ops dec c fp) (sh_id header) st = Inr (Some s)"
    and "new_session header = Inr s'"
  moreover have "stored dec c (sh_id header) st = Inr (Some s)" using old by (simp add: jsonl_load_view [OF ok])
  ultimately show "so_create (jsonl_ops dec c fp) header st = (st, Inl (AlreadyExists (sh_id header)))"
    by (auto simp: jsonl_ops_sel jsonl_create_def Let_def elim!: stored_SomeE)
next
  fix st :: "'f jsonl_state" and header e
  assume "new_session header = Inl e"
  then show "\<exists>e'. so_create (jsonl_ops dec c fp) header st = (st, Inl e')"
    by (auto simp: jsonl_ops_sel jsonl_create_def split: sum.split)
next
  fix st :: "'f jsonl_state" and i and header :: session_header
  assume ok: "jsonl_ok dec c fp st" and i: "i \<noteq> sh_id header"
  show "so_load (jsonl_ops dec c fp) i (fst (so_create (jsonl_ops dec c fp) header st)) = so_load (jsonl_ops dec c fp) i st"
    by (rule jsonl_create_cases [OF ok, of header])
      (use i ok in \<open>simp_all add: jsonl_ops_sel jsonl_load_view\<close>)
next
  fix st :: "'f jsonl_state" and i now expected events
  assume ok: "jsonl_ok dec c fp st" and "so_load (jsonl_ops dec c fp) i st = Inr None"
  then show "snd (so_append (jsonl_ops dec c fp) now i expected events st) = Inl (NotFound i) \<and>
      so_load (jsonl_ops dec c fp) i (fst (so_append (jsonl_ops dec c fp) now i expected events st)) = Inr None"
    using jsonl_append_missing [OF ok, of i None now expected events]
    by (simp add: jsonl_ops_sel jsonl_load_view jsonl_append_kept)
next
  fix st :: "'f jsonl_state" and i s now expected events
  assume ok: "jsonl_ok dec c fp st" and s: "so_load (jsonl_ops dec c fp) i st = Inr (Some s)"
    and "expected \<noteq> se_revision s"
  moreover from this have "append_batch_at dec s expected events now = (s, Inl (RevisionConflict expected (se_revision s)))"
    by (simp add: append_batch_at_def)
  moreover have "stored dec c i st = Inr (Some s)" using s by (simp add: jsonl_load_view [OF ok])
  ultimately show "snd (so_append (jsonl_ops dec c fp) now i expected events st) =
        Inl (StoreRevisionConflict i expected (se_revision s)) \<and>
      so_load (jsonl_ops dec c fp) i (fst (so_append (jsonl_ops dec c fp) now i expected events st)) = Inr (Some s)"
    using jsonl_append_done [OF ok] by (simp add: jsonl_ops_sel jsonl_load_view jsonl_append_kept)
next
  fix st :: "'f jsonl_state" and i s now events s' res
  assume ok: "jsonl_ok dec c fp st" and s: "so_load (jsonl_ops dec c fp) i st = Inr (Some s)"
    and app: "append_batch_at dec s (se_revision s) events now = (s', res)"
  moreover have "stored dec c i st = Inr (Some s)" using s by (simp add: jsonl_load_view [OF ok])
  ultimately show "snd (so_append (jsonl_ops dec c fp) now i (se_revision s) events st) = map_err InvalidSession res \<and>
      so_load (jsonl_ops dec c fp) i (fst (so_append (jsonl_ops dec c fp) now i (se_revision s) events st)) = Inr (Some s')"
    using jsonl_append_done [OF ok _ app, of i] by (simp add: jsonl_ops_sel jsonl_load_view jsonl_append_kept)
next
  fix st :: "'f jsonl_state" and i j :: string and now expected events
  assume ok: "jsonl_ok dec c fp st" and "j \<noteq> i"
  then show "so_load (jsonl_ops dec c fp) j (fst (so_append (jsonl_ops dec c fp) now i expected events st)) =
      so_load (jsonl_ops dec c fp) j st"
    using jsonl_append_keeps(2) [OF ok, of None now i expected events _ _ j]
    by (cases "jsonl_append dec c fp None now i expected events st")
      (simp add: jsonl_ops_sel jsonl_load_view jsonl_append_keeps(1) [OF ok])
next
  fix st :: "'f jsonl_state" and i s
  assume "jsonl_ok dec c fp st" and "so_load (jsonl_ops dec c fp) i st = Inr (Some s)"
  then show "so_flush (jsonl_ops dec c fp) i st = Inr (se_revision s)"
    by (simp add: jsonl_ops_sel jsonl_load_view jsonl_flush_eq)
next
  fix st :: "'f jsonl_state"
  assume ok: "jsonl_ok dec c fp st"
  from jsonl_listed [OF this]
  show "\<exists>hs. so_list_headers (jsonl_ops dec c fp) st = Inr hs \<and> sorted (map sh_id hs) \<and> distinct (map sh_id hs) \<and>
      set hs = {se_header s | i s. so_load (jsonl_ops dec c fp) i st = Inr (Some s)}"
    by (simp add: jsonl_ops_sel jsonl_load_view [OF ok])
next
  fix st :: "'f jsonl_state" and i
  assume ok: "jsonl_ok dec c fp st" and "so_load (jsonl_ops dec c fp) i st = Inr None"
  then show "so_flush (jsonl_ops dec c fp) i st = Inl (NotFound i)"
    by (simp add: jsonl_ops_sel jsonl_load_view jsonl_flush_missing)
next
  fix st :: "'f jsonl_state" and i
  show "so_inspect (jsonl_ops dec c fp) i st =
      and_then (so_load (jsonl_ops dec c fp) i st) (\<lambda>s. Inr (map_option inspect s))"
    by (simp add: jsonl_ops_def jsonl_inspect_def and_then_def split: sum.split prod.split)
qed

end
