(* ===== verification/Reference_Codec.thy ===== *)
theory Reference_Codec
  imports Jsonl_Store "HOL-Library.Countable"
begin

text \<open>
  A codec with the properties \<open>codec_ok\<close> asks of serde's JSON: the records the store writes are countable,
  and a record is written as a block of its number's length, closed by a brace.  It shows that the
  hypothesis on the codec can hold, for all records at once, and instantiates it in the witnesses of the
  properties of the store.
\<close>

subsection \<open>The records are countable\<close>

instance word :: (len) countable
  by (rule countable_classI [of "unat"]) (simp add: word_unat_eq_iff)

instance json :: countable
  by countable_datatype

instance message_role :: countable
  by countable_datatype

instance tool_call_ext :: (countable) countable
  by (rule countable_classI [of "\<lambda>r. to_nat (tc_id r, tc_provider_call_id r, tc_index r, tc_name r, tc_arguments_json r, tool_call.more r)"]) simp

instance message_ext :: (countable) countable
  by (rule countable_classI [of "\<lambda>r. to_nat (msg_id r, msg_role r, msg_content r, msg_reasoning r, msg_tool_calls r, msg_tool_call_id r, msg_provider_items r, msg_interrupted r, message.more r)"]) simp

instance sequence_range_ext :: (countable) countable
  by (rule countable_classI [of "\<lambda>r. to_nat (sr_start r, sr_end r, sequence_range.more r)"]) simp

instance surface_replace_ext :: (countable) countable
  by (rule countable_classI [of "\<lambda>r. to_nat (rp_compaction_id r, rp_shadowed_range r, rp_shadowed_seqs r, surface_replace.more r)"]) simp

instance inbox_target :: countable
  by countable_datatype

instance inbox_message_ext :: (countable) countable
  by (rule countable_classI [of "\<lambda>r. to_nat (im_id r, im_message r, im_source r, inbox_message.more r)"]) simp

instance inbox_splice_outcome :: countable
  by countable_datatype

instance request_header_ext :: (countable) countable
  by (rule countable_classI [of "\<lambda>r. to_nat (rh_provider r, rh_model r, rh_reasoning_effort r, rh_system r, rh_tools r, rh_input r, rh_options r, request_header.more r)"]) simp

instance assistant_chunk :: countable
  by countable_datatype

instance turn_end_reason :: countable
  by countable_datatype

instance tool_outcome :: countable
  by countable_datatype

instance approval_outcome :: countable
  by countable_datatype

instance approval_policy :: countable
  by countable_datatype

instance sandbox_mode :: countable
  by countable_datatype

instance policy_source :: countable
  by countable_datatype

instance command_source :: countable
  by countable_datatype

instance command_result_kind :: countable
  by countable_datatype

instance mutation_receipt_ext :: (countable) countable
  by (rule countable_classI [of "\<lambda>r. to_nat (mr_rpc_id r, mr_method r, mr_fingerprint r, mr_response r, mr_response_event_seq_field r, mutation_receipt.more r)"]) simp

instance title_provenance_ext :: (countable) countable
  by (rule countable_classI [of "\<lambda>r. to_nat (tp_provider r, tp_model r, title_provenance.more r)"]) simp

instance session_title_source :: countable
  by countable_datatype

instance goal_phase :: countable
  by countable_datatype

instance goal_block_reason_ext :: (countable) countable
  by (rule countable_classI [of "\<lambda>r. to_nat (gb_code r, gb_message r, goal_block_reason.more r)"]) simp

instance goal_snapshot_ext :: (countable) countable
  by (rule countable_classI [of "\<lambda>r. to_nat (gs_id r, gs_revision r, gs_objective r, gs_phase r, gs_blocked_reason r, gs_max_goal_rounds r, goal_snapshot.more r)"]) simp

instance goal_snapshot_operation :: countable
  by countable_datatype

instance goal_snapshot_change_ext :: (countable) countable
  by (rule countable_classI [of "\<lambda>r. to_nat (gc_version r, gc_operation r, gc_goal r, gc_rounds_started r, gc_created_at r, gc_updated_at r, goal_snapshot_change.more r)"]) simp

instance goal_ref_ext :: (countable) countable
  by (rule countable_classI [of "\<lambda>r. to_nat (gr_id r, gr_revision r, goal_ref.more r)"]) simp

instance goal_clear_change_ext :: (countable) countable
  by (rule countable_classI [of "\<lambda>r. to_nat (gl_version r, gl_cleared r, gl_cleared_at r, goal_clear_change.more r)"]) simp

instance goal_change :: countable
  by countable_datatype

instance schedule_kind :: countable
  by countable_datatype

instance schedule_record_ext :: (countable) countable
  by (rule countable_classI [of "\<lambda>r. to_nat (sc_id r, sc_kind r, sc_prompt r, sc_after_seconds r, sc_every_seconds r, sc_scheduled_at r, schedule_record.more r)"]) simp

instance schedule_change :: countable
  by countable_datatype

instance llm_failure_ext :: (countable) countable
  by (rule countable_classI [of "\<lambda>r. to_nat (lf_message r, lf_code r, lf_status r, lf_provider_retry_after_ms r, lf_request_id r, llm_failure.more r)"]) simp

instance llm_retry_mode :: countable
  by countable_datatype

instance tool_result_data_ext :: (countable) countable
  by (rule countable_classI [of "\<lambda>r. to_nat (tr_call_id r, tr_outcome r, tr_content r, tr_metadata r, tool_result_data.more r)"]) simp

instance llm_retry_ext :: (countable) countable
  by (rule countable_classI [of "\<lambda>r. to_nat (lr_retry_id r, lr_turn r, lr_step r, lr_provider r, lr_mode r, lr_policy_key r, lr_retry r, lr_max_retries r, lr_delay_ms r, lr_failure r, llm_retry.more r)"]) simp

instance compaction_summary_ext :: (countable) countable
  by (rule countable_classI [of "\<lambda>r. to_nat (cs_compaction_id r, cs_source_command_id r, cs_summary r, cs_shadowed_range r, cs_shadowed_seqs r, cs_shadowed_token_count r, cs_provider r, cs_model r, cs_max_tokens r, cs_usage r, compaction_summary.more r)"]) simp

instance answer_destination :: countable
  by countable_datatype

instance question_option_ext :: (countable) countable
  by (rule countable_classI [of "\<lambda>r. to_nat (qo_id r, qo_label r, qo_description r, qo_recommended r, question_option.more r)"]) simp

instance question_spec_ext :: (countable) countable
  by (rule countable_classI [of "\<lambda>r. to_nat (qs_id r, qs_header r, qs_question r, qs_options r, qs_allow_custom r, qs_destination r, question_spec.more r)"]) simp

instance ask_request_ext :: (countable) countable
  by (rule countable_classI [of "\<lambda>r. to_nat (ar_questions r, ask_request.more r)"]) simp

instance question_answer_ext :: (countable) countable
  by (rule countable_classI [of "\<lambda>r. to_nat (qa_question_id r, qa_selected_option_id r, qa_custom_text r, question_answer.more r)"]) simp

instance resolve_action :: countable
  by countable_datatype

instance resolution_status :: countable
  by countable_datatype

instance resolved_answer_ext :: (countable) countable
  by (rule countable_classI [of "\<lambda>r. to_nat (ra_question_id r, ra_selected_option_id r, ra_selected_label r, ra_custom_text r, ra_destination r, resolved_answer.more r)"]) simp

instance question_resolution_ext :: (countable) countable
  by (rule countable_classI [of "\<lambda>r. to_nat (qr_status r, qr_action r, qr_answers r, qr_unanswered_question_ids r, question_resolution.more r)"]) simp

instance question_invocation_ext :: (countable) countable
  by (rule countable_classI [of "\<lambda>r. to_nat (qi_interaction_id r, qi_execution_id r, qi_request r, question_invocation.more r)"]) simp

instance event_data :: countable
  by countable_datatype

instance logged_event_ext :: (countable) countable
  by (rule countable_classI [of "\<lambda>r. to_nat (le_seq r, le_revision r, le_timestamp_ms r, le_event r, logged_event.more r)"]) simp

instance session_header_ext :: (countable) countable
  by (rule countable_classI [of "\<lambda>r. to_nat (sh_version r, sh_id r, sh_created_at_ms r, sh_cwd r, session_header.more r)"]) simp

instance header_record_ext :: (countable) countable
  by (rule countable_classI [of "\<lambda>r. to_nat (hr_record r, hr_format r, hr_format_version r, hr_header r, header_record.more r)"]) simp

instance batch_record_ext :: (countable) countable
  by (rule countable_classI [of "\<lambda>r. to_nat (br_record r, br_previous_revision r, br_revision r, br_events r, batch_record.more r)"]) simp

subsection \<open>The codec\<close>

definition unary :: "nat \<Rightarrow> bytes" where
  "unary n = replicate n CHR ''1'' @ ''}''"

definition from_unary :: "bytes \<Rightarrow> nat option" where
  "from_unary b = (if b = unary (length b - 1) then Some (length b - 1) else None)"

definition reference_codec :: codec where
  "reference_codec =
     \<lparr>cd_encode_header = (\<lambda>r. unary (to_nat r)), cd_decode_header = (\<lambda>b. map_option from_nat (from_unary b)),
      cd_encode_batch = (\<lambda>r. unary (to_nat r)), cd_decode_batch = (\<lambda>b. map_option from_nat (from_unary b))\<rparr>"

lemma from_unary [simp]: "from_unary (unary n) = Some n"
  by (simp add: from_unary_def unary_def)

lemma unary_line [simp]: "newline \<notin> set (unary n)" "unary n \<noteq> []"
  by (auto simp: unary_def newline_def)

lemma unary_torn [simp]:
  assumes "k < length (unary n)"
  shows "from_unary (take k (unary n)) = None"
proof -
  have "take k (unary n) = replicate k CHR ''1''" using assms by (simp add: unary_def min_def)
  moreover have "replicate k CHR ''1'' \<noteq> unary m" for m
  proof
    assume eq: "replicate k CHR ''1'' = unary m"
    have "CHR ''}'' \<in> set (unary m)" by (simp add: unary_def)
    then have "CHR ''}'' \<in> set (replicate k CHR ''1'')" unfolding eq .
    then show False by (simp add: set_replicate_conv_if split: if_splits)
  qed
  ultimately show ?thesis by (simp add: from_unary_def)
qed

lemma reference_codec_ok: "codec_ok reference_codec"
  by (simp add: codec_ok_def encodes_batch_def encodes_header_def reference_codec_def Let_def)

end
