(* ===== verification/Jsonl_Safety.thy ===== *)
theory Jsonl_Safety
  imports Reference_Codec
begin

text \<open>
  The properties of the filesystem store: it behaves as the in-process store, an append that is cut short
  leaves the old or the new session, the file alone determines what a restarted process sees, the cache
  never changes an answer, and what a crash inside \<open>create\<close> does to startup discovery.
\<close>

interpretation jsonl_memory: store_pair "jsonl_ops dec c fp" "jsonl_ok dec c fp" "memory_ops dec" "memory_ok dec" dec
    "\<lambda>i. validate_session_id i = Inr ()" for dec c and fp :: "bytes \<Rightarrow> 'f"
  by unfold_locales

abbreviation agrees ::
  "(string \<Rightarrow> string + ask_request) \<Rightarrow> codec \<Rightarrow> (bytes \<Rightarrow> 'f) \<Rightarrow> 'f jsonl_state \<Rightarrow> memory_store \<Rightarrow> bool" where
  "agrees dec c fp \<equiv> stores_agree (jsonl_ops dec c fp) (jsonl_ok dec c fp) (memory_ops dec) (memory_ok dec)
     (\<lambda>i. validate_session_id i = Inr ())"

definition empty_disk :: "'f jsonl_state" where
  "empty_disk = \<lparr>js_files = [], js_cache = Map.empty\<rparr>"

text \<open>What a new process finds: the files, and no cache.\<close>

definition restarted :: "'f jsonl_state \<Rightarrow> 'f jsonl_state" where
  "restarted st = st\<lparr>js_cache := Map.empty\<rparr>"

lemma empty_disk_ok: "codec_ok c \<Longrightarrow> inj fp \<Longrightarrow> jsonl_ok dec c fp empty_disk"
  by (simp add: jsonl_ok_def empty_disk_def cache_ok_def)

lemma empty_disk_agrees: "codec_ok c \<Longrightarrow> inj fp \<Longrightarrow> agrees dec c fp empty_disk []"
  by (auto simp: stores_agree_def empty_disk_ok jsonl_load_view memory_ok_def memory_ops_def memory_load_def)
    (auto simp: stored_def load_file_def empty_disk_def)

lemma restarted_stored [simp]: "stored dec c i (restarted st) = stored dec c i st"
  by (intro stored_frame) (simp add: restarted_def)

lemma restarted_ok: "jsonl_ok dec c fp st \<Longrightarrow> jsonl_ok dec c fp (restarted st)"
  by (simp add: jsonl_ok_def) (simp add: restarted_def cache_ok_def)

lemma jsonl_load_stored: "jsonl_ok dec c fp st \<Longrightarrow> snd (jsonl_load dec c fp i st) = stored dec c i st"
  by (simp add: jsonl_load_eq jsonl_okD)

subsection \<open>The filesystem store is the in-process store\<close>

text \<open>Property C34. As long as no write fails, the filesystem store and the in-process store cannot be told apart:
  started in agreement, every operation on a well-formed session id returns the same result on both and
  leaves them in agreement, and both list the same headers in the same order.\<close>

theorem jsonl_matches_memory:
  assumes agree: "agrees dec c fp st mem" and valid: "validate_session_id i = Inr ()"
  shows "(sh_id header = i \<longrightarrow>
      agrees dec c fp (fst (jsonl_create c fp None header st)) (fst (memory_create header mem)) \<and>
      snd (jsonl_create c fp None header st) = snd (memory_create header mem)) \<and>
    agrees dec c fp (fst (jsonl_append dec c fp None now i expected events st)) (fst (memory_append dec now i expected events mem)) \<and>
    snd (jsonl_append dec c fp None now i expected events st) = snd (memory_append dec now i expected events mem) \<and>
    snd (jsonl_load dec c fp i st) = memory_load i mem \<and>
    snd (jsonl_flush dec c fp i st) = memory_flush i mem \<and>
    snd (jsonl_inspect dec c fp i st) = memory_inspect i mem \<and>
    snd (jsonl_list_headers dec c fp st) = memory_list_headers mem"
proof -
  note create = jsonl_memory.agree_create [OF agree, of header]
  have "snd (jsonl_create c fp None header st) = snd (memory_create header mem)" if "sh_id header = i"
  proof (cases "new_session header")
    case (Inl e)
    with valid that show ?thesis by (simp add: jsonl_create_def memory_create_def)
  next
    case (Inr s)
    with create(2) valid that show ?thesis by (simp add: jsonl_ops_def memory_ops_def)
  qed
  moreover have "agrees dec c fp (fst (jsonl_create c fp None header st)) (fst (memory_create header mem))"
    if "sh_id header = i"
    using create(1) valid that by (simp add: jsonl_ops_sel) (simp add: memory_ops_def)
  moreover have "agrees dec c fp (fst (jsonl_append dec c fp None now i expected events st)) (fst (memory_append dec now i expected events mem)) \<and>
      snd (jsonl_append dec c fp None now i expected events st) = snd (memory_append dec now i expected events mem)"
    using jsonl_memory.agree_append [OF agree valid, of now expected events]
    by (simp add: jsonl_ops_sel) (simp add: memory_ops_def)
  moreover have "snd (jsonl_load dec c fp i st) = memory_load i mem \<and> snd (jsonl_flush dec c fp i st) = memory_flush i mem \<and>
      snd (jsonl_inspect dec c fp i st) = memory_inspect i mem \<and> snd (jsonl_list_headers dec c fp st) = memory_list_headers mem"
    using jsonl_memory.agree_read [OF agree valid] jsonl_memory.agree_list [OF agree] by (simp add: jsonl_ops_def memory_ops_def)
  ultimately show ?thesis by blast
qed

subsection \<open>Crashes\<close>

text \<open>Property C33. An append survives a crash at any byte: wherever the write stops, and whatever the process
  reported, a restarted process reads a session that is either the one from before the append or the one
  after it, never a mixture and never an error; an append that reported success has its batch in the
  file; no other session changes.\<close>

theorem append_survives_crash:
  assumes ok: "jsonl_ok dec c fp st" and s: "snd (jsonl_load dec c fp i st) = Inr (Some s)"
    and app: "append_batch_at dec s expected events now = (s', r)"
    and run: "jsonl_append dec c fp fault now i expected events st = (st', res)"
  shows "jsonl_ok dec c fp (restarted st') \<and>
    (\<exists>s''. snd (jsonl_load dec c fp i (restarted st')) = Inr (Some s'') \<and> (s'' = s \<or> s'' = s') \<and>
       (\<forall>receipt. res = Inr receipt \<longrightarrow> s'' = s' \<and> r = Inr receipt)) \<and>
    (\<forall>j. j \<noteq> i \<longrightarrow> snd (jsonl_load dec c fp j (restarted st')) = snd (jsonl_load dec c fp j st))"
proof -
  have load: "stored dec c i st = Inr (Some s)" using s by (simp add: jsonl_load_stored [OF ok])
  have ok': "jsonl_ok dec c fp (restarted st')" using jsonl_append_keeps(1) [OF ok run] by (rule restarted_ok)
  from conjunct2 [OF conjunct2 [OF jsonl_append_run [OF jsonl_okD(2,1,3) [OF ok] load app run]]]
  obtain s'' where s'': "stored dec c i st' = Inr (Some s'')" "s'' = s \<or> s'' = s'"
    "\<And>receipt. res = Inr receipt \<Longrightarrow> s'' = s' \<and> r = Inr receipt"
    by (auto simp: map_err_def split: sum.splits)
  then show ?thesis
    using ok' jsonl_append_keeps(2) [OF ok run] by (auto simp: jsonl_load_stored [OF ok'] jsonl_load_stored [OF ok])
qed

text \<open>The file is the log: a reported append has cut the file behind its last good record and added
  exactly one record, and parsing the new file gives exactly the session the append computed, with no
  tail to drop.\<close>

theorem append_file_roundtrip:
  assumes ok: "jsonl_ok dec c fp st" and b: "map_of (js_files st) i = Some b" and parsed: "parse_file dec c i b = Inr ld"
    and run: "jsonl_append dec c fp None now i expected events st = (st', Inr receipt)" and ne: "events \<noteq> []"
  shows "\<exists>b' s'. map_of (js_files st') i = Some b' \<and>
    b' = take (ld_valid_len ld) b @ (if ld_needs_separator ld then [newline] else []) @
           cd_encode_batch c (batch_record_of receipt) @ [newline] \<and>
    append_batch_at dec (ld_session ld) expected events now = (s', Inr receipt) \<and>
    parse_file dec c i b' = Inr \<lparr>ld_session = s', ld_valid_len = length b', ld_needs_separator = False\<rparr>"
proof -
  obtain st1 where take: "take_file_cached dec c fp i st = (st1, Inr (Some ld))" and files: "js_files st1 = js_files st"
    using take_file_cached_eq [OF jsonl_okD(2) [OF ok], of i] b parsed
    by (cases "take_file_cached dec c fp i st") (auto simp: load_file_def)
  obtain s' r where app: "append_batch_at dec (ld_session ld) expected events now = (s', r)" by fastforce
  from run take app have r: "r = Inr receipt"
    by (auto simp: jsonl_append_def Let_def split: sum.splits if_splits)
  have rc: "ap_events receipt \<noteq> []" using append_batch_cases [OF app] ne r by auto
  obtain ld' where "parse_file dec c i (kept_bytes ld b @ take (length (added_bytes c ld (batch_record_of receipt)))
        (added_bytes c ld (batch_record_of receipt))) = Inr ld'"
    "ld' = \<lparr>ld_session = s', ld_valid_len = length (kept_bytes ld b @ added_bytes c ld (batch_record_of receipt)),
            ld_needs_separator = False\<rparr>"
    by (rule parse_cut [OF parsed app [unfolded r] rc jsonl_okD(3) [OF ok], of "length (added_bytes c ld (batch_record_of receipt))"])
      (use order_refl in blast)
  moreover have "ld_valid_len ld \<le> length b" by (rule parse_file_resume [OF parsed])
  moreover have "map_of (js_files st') i = Some (kept_bytes ld b @ added_bytes c ld (batch_record_of receipt))"
    using run take app r rc b files
    by (auto simp: jsonl_append_def Let_def AList.update_conv' split: sum.splits if_splits)
  ultimately show ?thesis using app r by (auto simp: kept_bytes_def added_bytes_def)
qed

subsection \<open>The cache\<close>

text \<open>The cache of parsed files never changes an answer: every operation returns what it returns with
  a cold cache and writes the same bytes.\<close>

theorem cache_is_transparent:
  assumes ok: "jsonl_ok dec c fp st"
  shows "snd (jsonl_load dec c fp i st) = snd (jsonl_load dec c fp i (restarted st)) \<and>
    snd (jsonl_flush dec c fp i st) = snd (jsonl_flush dec c fp i (restarted st)) \<and>
    snd (jsonl_list_headers dec c fp st) = snd (jsonl_list_headers dec c fp (restarted st)) \<and>
    snd (jsonl_append dec c fp fault now i expected events st) = snd (jsonl_append dec c fp fault now i expected events (restarted st)) \<and>
    js_files (fst (jsonl_append dec c fp fault now i expected events st)) =
      js_files (fst (jsonl_append dec c fp fault now i expected events (restarted st)))"
proof -
  note ok' = restarted_ok [OF ok]
  have files: "js_files (restarted st) = js_files st" by (simp add: restarted_def)
  obtain st1 res where take: "take_file_cached dec c fp i st = (st1, res)" by fastforce
  obtain st2 res' where take': "take_file_cached dec c fp i (restarted st) = (st2, res')" by fastforce
  note eq = take_file_cached_eq [OF jsonl_okD(2) [OF ok], of i, unfolded take fst_conv snd_conv]
  note eq' = take_file_cached_eq [OF jsonl_okD(2) [OF ok'], of i, unfolded take' fst_conv snd_conv files]
  have res: "res' = res" using eq(1) eq'(1) by (simp add: load_file_def files)
  then have "snd (jsonl_flush dec c fp i st) = snd (jsonl_flush dec c fp i (restarted st))"
    by (simp add: jsonl_flush_def take take' split: sum.split option.split)
  moreover have "snd (jsonl_append dec c fp fault now i expected events st) = snd (jsonl_append dec c fp fault now i expected events (restarted st)) \<and>
      js_files (fst (jsonl_append dec c fp fault now i expected events st)) =
      js_files (fst (jsonl_append dec c fp fault now i expected events (restarted st)))"
    using res eq(2) eq'(2)
    by (simp add: jsonl_append_def take take' files Let_def split: sum.split option.split prod.split)
  moreover have "snd (jsonl_list_headers dec c fp st) = snd (jsonl_list_headers dec c fp (restarted st))"
  proof -
    from jsonl_listed [OF ok] obtain hs where hs: "snd (jsonl_list_headers dec c fp st) = Inr hs" "sorted (map sh_id hs)"
      "distinct (map sh_id hs)" "set hs = {se_header s | i s. stored dec c i st = Inr (Some s)}" by blast
    from jsonl_listed [OF ok'] obtain hs' where "snd (jsonl_list_headers dec c fp (restarted st)) = Inr hs'" "sorted (map sh_id hs')"
      "distinct (map sh_id hs')" "set hs' = {se_header s | i s. stored dec c i (restarted st) = Inr (Some s)}" by blast
    with hs same_listing [of sh_id hs hs'] show ?thesis by simp
  qed
  ultimately show ?thesis by (simp add: jsonl_load_stored ok ok')
qed

subsection \<open>A crash inside create\<close>

lemma load_headers_error:
  assumes "inj fp" and "cache_ok dec c fp st" and "i \<in> set is" and "stored dec c i st = Inl e"
  shows "\<exists>e. snd (load_headers dec c fp is st) = Inl e"
  using assms(2-4)
proof (induction "is" arbitrary: st)
  case (Cons j "is")
  obtain st1 res where run: "jsonl_load dec c fp j st = (st1, res)" by fastforce
  note eq = jsonl_load_eq [OF Cons.prems(1) assms(1), of j, unfolded run fst_conv snd_conv]
  from eq(2) have "stored dec c i st1 = Inl e" using Cons.prems(3) stored_frame [of st1 i st] by simp
  with Cons.IH [OF eq(3)] Cons.prems(2,3) eq(1) show ?case
    by (auto simp: run split: sum.splits option.splits prod.splits)
qed simp

text \<open>Property C37. A process that dies between creating a session's file and finishing its header record leaves a
  torn, unterminated final record that recovery does not ignore: loading the session fails, and so does
  listing the headers, whatever other sessions the directory holds.\<close>

theorem torn_header_stops_discovery:
  assumes ok: "jsonl_ok dec c fp st" and valid: "validate_session_id i = Inr ()"
    and torn: "n < length (cd_encode_header c r)" "cd_decode_header c (take n (cd_encode_header c r)) = None"
  defines "b \<equiv> take n (cd_encode_header c r @ [newline])"
  defines "st' \<equiv> restarted (st\<lparr>js_files := AList.update i b (js_files st)\<rparr>)"
  shows "(\<exists>e. snd (jsonl_load dec c fp i st') = Inl e) \<and> (\<exists>e. snd (jsonl_list_headers dec c fp st') = Inl e)"
proof -
  note D = jsonl_okD [OF ok]
  have cache: "cache_ok dec c fp st'" by (simp add: st'_def restarted_def cache_ok_def)
  have "b = take n (cd_encode_header c r)" "newline \<notin> set (cd_encode_header c r)"
    using torn(1) D(4) [of r] by (simp_all add: b_def encodes_header_def Let_def)
  then have "parse_file dec c i b = Inl (corrupt 1 (if b = [] then ''missing header record'' else ''invalid header JSON: {error}''))"
    using torn(2) parse_file_header [of b dec c i] by (cases "b = []") (auto simp: parse_file_def [of _ _ _ "[]"] dest: in_set_takeD)
  then have err: "stored dec c i st' = Inl (corrupt 1 (if b = [] then ''missing header record'' else ''invalid header JSON: {error}''))"
    using valid by (simp add: stored_def load_file_def st'_def restarted_def AList.update_conv')
  have i: "i \<in> set (sort (map fst (js_files st')))" by (simp add: st'_def restarted_def AList.dom_update)
  have "\<exists>e. snd (jsonl_list_headers dec c fp st') = Inl e"
  proof (cases "discover_session_ids (js_files st')")
    case (Inr ids)
    with discover_ids [OF Inr] i load_headers_error [OF D(1) cache, of i "sort ids"] err show ?thesis
      by (simp add: jsonl_list_headers_def)
  qed (simp add: jsonl_list_headers_def)
  then show ?thesis using err jsonl_load_eq(1) [OF cache D(1), of i] by simp
qed

subsection \<open>Witnesses\<close>

lemma reference_agrees: "agrees dec reference_codec id empty_disk []"
  by (rule empty_disk_agrees) (simp_all add: reference_codec_ok)

definition example_disk :: "bytes jsonl_state" where
  "example_disk = fst (jsonl_create reference_codec id None (new_header ''s'' 0) empty_disk)"

lemma example_id: "validate_session_id ''s'' = Inr ()"
  by (simp add: validate_session_id_def MAX_SESSION_ID_BYTES_def is_ascii_alphanumeric_def)

lemma example_disk_agrees:
  "agrees dec reference_codec id example_disk (fst (memory_create (new_header ''s'' 0) []))"
  unfolding example_disk_def
  using jsonl_memory.agree_create(1) [OF reference_agrees, of "new_header ''s'' 0"] example_id
  by (simp add: jsonl_ops_sel new_header_def) (simp add: memory_ops_def)

lemma example_disk_ok: "jsonl_ok dec reference_codec id example_disk"
  using example_disk_agrees by (simp add: stores_agree_def)

lemma example_disk_stored: "stored dec reference_codec ''s'' example_disk = Inr (Some example_start)"
proof -
  have "stored dec reference_codec ''s'' (empty_disk :: bytes jsonl_state) = Inr None"
    using example_id by (simp add: stored_def load_file_def empty_disk_def)
  moreover have empty: "jsonl_ok dec reference_codec id (empty_disk :: bytes jsonl_state)"
    by (rule empty_disk_ok) (simp_all add: reference_codec_ok)
  ultimately have "so_load (jsonl_ops dec reference_codec id) ''s'' (empty_disk :: bytes jsonl_state) = Inr None"
    by (simp only: jsonl_load_view [OF empty])
  moreover have "example_disk = fst (so_create (jsonl_ops dec reference_codec id) (new_header ''s'' 0) empty_disk)"
    by (simp only: jsonl_ops_sel example_disk_def)
  moreover have "sh_id (new_header ''s'' 0) = ''s''" by (simp add: new_header_def)
  ultimately have "so_load (jsonl_ops dec reference_codec id) ''s'' example_disk = Inr (Some example_start)"
    using jsonl.create_new [OF empty, of "new_header ''s'' 0" example_start] example_start_ok by (simp only:)
  then show ?thesis by (simp only: jsonl_load_view [OF example_disk_ok])
qed

lemma example_disk_append:
  obtains st' receipt where
    "jsonl_append no_questions reference_codec id None 7 ''s'' 0 example_events example_disk = (st', Inr receipt)"
proof -
  obtain receipt where app: "append_batch_at no_questions example_start 0 example_events 7 = (example_session, Inr receipt)"
    using example_append by blast
  have "snd (jsonl_append no_questions reference_codec id None 7 ''s'' 0 example_events example_disk) = Inr receipt"
    using jsonl_append_done(1) [OF example_disk_ok example_disk_stored app] by (simp add: example_start_def)
  with that show thesis
    by (cases "jsonl_append no_questions reference_codec id None 7 ''s'' 0 example_events example_disk") simp
qed

theorem jsonl_matches_memory_witness:
  "snd (jsonl_append no_questions reference_codec id None 7 ''s'' 0 [TurnStart 1] example_disk) =
     snd (memory_append no_questions 7 ''s'' 0 [TurnStart 1] (fst (memory_create (new_header ''s'' 0) [])))"
  using jsonl_matches_memory [OF example_disk_agrees example_id, of "new_header ''s'' 0" no_questions 7 0 "[TurnStart 1]"]
  by blast

theorem append_survives_crash_witness:
  "\<exists>s''. snd (jsonl_load no_questions reference_codec id ''s''
      (restarted (fst (jsonl_append no_questions reference_codec id (Some 5) 7 ''s'' 0 example_events example_disk)))) = Inr (Some s'') \<and>
    (s'' = example_start \<or> s'' = example_session)"
proof -
  obtain receipt where app: "append_batch_at no_questions example_start 0 example_events 7 = (example_session, Inr receipt)"
    using example_append by blast
  have load: "snd (jsonl_load no_questions reference_codec id ''s'' example_disk) = Inr (Some example_start)"
    by (simp add: jsonl_load_stored [OF example_disk_ok] example_disk_stored)
  obtain st' res where run: "jsonl_append no_questions reference_codec id (Some 5) 7 ''s'' 0 example_events example_disk = (st', res)"
    by fastforce
  from append_survives_crash [OF example_disk_ok load app run] show ?thesis unfolding run by auto
qed

theorem append_file_roundtrip_witness:
  "\<exists>st' receipt b' s'. jsonl_append no_questions reference_codec id None 7 ''s'' 0 example_events example_disk = (st', Inr receipt) \<and>
     map_of (js_files st') ''s'' = Some b' \<and>
     parse_file no_questions reference_codec ''s'' b' =
       Inr \<lparr>ld_session = s', ld_valid_len = length b', ld_needs_separator = False\<rparr>"
proof -
  obtain st' receipt where run: "jsonl_append no_questions reference_codec id None 7 ''s'' 0 example_events example_disk = (st', Inr receipt)"
    by (rule example_disk_append)
  obtain b ld where b: "map_of (js_files example_disk) ''s'' = Some b" "parse_file no_questions reference_codec ''s'' b = Inr ld"
    using stored_SomeE [OF example_disk_stored] by metis
  have "example_events \<noteq> []" by (simp add: example_events_def)
  with append_file_roundtrip [OF example_disk_ok b run] run show ?thesis by blast
qed

theorem cache_is_transparent_witness:
  "snd (jsonl_flush no_questions reference_codec id ''s'' example_disk) =
     snd (jsonl_flush no_questions reference_codec id ''s'' (restarted example_disk))"
  using cache_is_transparent [OF example_disk_ok, of no_questions "''s''"] by blast

theorem torn_header_stops_discovery_witness:
  "\<exists>e. snd (jsonl_list_headers no_questions reference_codec id
     (restarted (example_disk\<lparr>js_files := AList.update ''t'' [] (js_files example_disk)\<rparr>))) = Inl e"
proof -
  let ?r = "header_record_of (new_header ''t'' 0)"
  have "validate_session_id ''t'' = Inr ()"
    by (simp add: validate_session_id_def MAX_SESSION_ID_BYTES_def is_ascii_alphanumeric_def)
  moreover have "cd_decode_header reference_codec [] = None" "0 < length (cd_encode_header reference_codec ?r)"
    by (simp_all add: reference_codec_def from_unary_def unary_def)
  ultimately show ?thesis
    using torn_header_stops_discovery [OF example_disk_ok, of "''t''" 0 ?r no_questions] by simp
qed

end
