(* ===== verification/Compaction_Config.thy ===== *)
theory Compaction_Config
  imports Session_Types
begin

text \<open>
  The policy of context compaction (crates/xharness-compaction/src/config.rs): global defaults, overrides
  for exact provider/model routes, their validation, and the resolution of a policy against a context
  window, which scales its ratios in binary floating point.

  An \<open>f64\<close> is its sign, mantissa and exponent; a product is rounded to 53 bits, ties to even.  Exponents are
  not bounded: the only product is of a token count and a ratio of at most 1, which cannot overflow, and a
  subnormal one is below 1 however it is rounded.
\<close>

subsection \<open>Binary floating point\<close>

datatype f64 = NaN | Infinite bool | Finite bool nat int

fun bits :: "nat \<Rightarrow> nat" where
  "bits n = (if n = 0 then 0 else Suc (bits (n div 2)))"

declare bits.simps [simp del]

definition shift_even :: "nat \<Rightarrow> nat \<Rightarrow> nat" where
  "shift_even m s =
     (let q = m div 2 ^ s; r = m mod 2 ^ s in
      if 2 * r < 2 ^ s then q else if 2 ^ s < 2 * r then Suc q else if even q then q else Suc q)"

text \<open>A mantissa rounded to 53 bits, and what was added to its exponent.\<close>

definition round53 :: "nat \<Rightarrow> nat \<times> nat" where
  "round53 m = (if bits m \<le> 53 then (m, 0) else (shift_even m (bits m - 53), bits m - 53))"

definition f64_of :: "u64 \<Rightarrow> f64" where
  "f64_of n = (case round53 (unat n) of (m, s) \<Rightarrow> Finite False m (int s))"

definition is_finite :: "f64 \<Rightarrow> bool" where
  "is_finite x = (case x of Finite _ _ _ \<Rightarrow> True | _ \<Rightarrow> False)"

text \<open>The value of a finite number over a common exponent \<open>e0\<close> not above its own.\<close>

definition scaled :: "int \<Rightarrow> bool \<Rightarrow> nat \<Rightarrow> int \<Rightarrow> int" where
  "scaled e0 neg m e = (if neg then - 1 else 1) * (int m * 2 ^ nat (e - e0))"

fun f64_le :: "f64 \<Rightarrow> f64 \<Rightarrow> bool" where
  "f64_le (Finite a m e) (Finite b n d) = (scaled (min e d) a m e \<le> scaled (min e d) b n d)"
| "f64_le (Infinite a) (Infinite b) = (a \<or> \<not> b)"
| "f64_le (Infinite a) (Finite _ _ _) = a"
| "f64_le (Finite _ _ _) (Infinite b) = (\<not> b)"
| "f64_le _ _ = False"

definition f64_zero :: f64 where "f64_zero = Finite False 0 0"
definition f64_one :: f64 where "f64_one = Finite False 1 0"

text \<open>\<open>(tokens as f64 * ratio).floor() as u64\<close>; the cast saturates and sends NaN to 0.\<close>

definition f64_floor_u64 :: "f64 \<Rightarrow> u64" where
  "f64_floor_u64 x = (case x of
     Finite False m e \<Rightarrow> of_nat (min (if 0 \<le> e then m * 2 ^ nat e else m div 2 ^ nat (- e)) (2 ^ 64 - 1))
   | Infinite False \<Rightarrow> - 1
   | _ \<Rightarrow> 0)"

fun f64_mult :: "f64 \<Rightarrow> f64 \<Rightarrow> f64" where
  "f64_mult (Finite a m e) (Finite b n d) =
     (case round53 (m * n) of (k, s) \<Rightarrow> Finite (a \<noteq> b) k (e + d + int s))"
| "f64_mult (Infinite a) (Infinite b) = Infinite (a \<noteq> b)"
| "f64_mult (Infinite a) (Finite b n d) = (if n = 0 then NaN else Infinite (a \<noteq> b))"
| "f64_mult (Finite a m e) (Infinite b) = (if m = 0 then NaN else Infinite (a \<noteq> b))"
| "f64_mult _ _ = NaN"

definition scale_floor :: "u64 \<Rightarrow> f64 \<Rightarrow> u64" where
  "scale_floor tokens ratio = f64_floor_u64 (f64_mult (f64_of tokens) ratio)"

subsection \<open>Policies\<close>

datatype compaction_error =
    InvalidConfig string
  | InvalidSurface string
  | Summary string
  | Cancelled

definition DEFAULT_THRESHOLD_RATIO :: f64 where
  "DEFAULT_THRESHOLD_RATIO = Finite False 7205759403792794 (- 53)"
definition DEFAULT_RETAIN_RATIO :: f64 where
  "DEFAULT_RETAIN_RATIO = Finite False 5764607523034235 (- 55)"
definition DEFAULT_MAX_SUMMARY_TOKENS :: u64 where "DEFAULT_MAX_SUMMARY_TOKENS = 8192"
definition DEFAULT_COMPACTION_RETRIES :: u32 where "DEFAULT_COMPACTION_RETRIES = 1"
definition DEFAULT_MAX_OVERFLOW_RETRIES :: u32 where "DEFAULT_MAX_OVERFLOW_RETRIES = 1"

record model_target =
  mt_provider :: string
  mt_model :: string

definition validate_target :: "string \<Rightarrow> model_target \<Rightarrow> compaction_error + unit" where
  "validate_target name t =
     and_then (ensure (blank (mt_provider t)) (InvalidConfig (name @ ''.provider must not be empty''))) (\<lambda>_.
     ensure (blank (mt_model t)) (InvalidConfig (name @ ''.model must not be empty'')))"

datatype retention_policy = Ratio f64 | Tokens u64

definition validate_ratio :: "f64 \<Rightarrow> string \<Rightarrow> compaction_error + unit" where
  "validate_ratio v name =
     ensure (\<not> is_finite v \<or> f64_le v f64_zero \<or> (f64_le f64_one v \<and> \<not> f64_le v f64_one))
       (InvalidConfig (name @ '' ({value}) must be finite and in (0, 1]''))"

fun validate_retention :: "retention_policy \<Rightarrow> f64 \<Rightarrow> string \<Rightarrow> compaction_error + unit" where
  "validate_retention (Ratio ratio) threshold_ratio name =
     and_then (validate_ratio ratio (name @ ''.retainRatio'')) (\<lambda>_.
     ensure (f64_le threshold_ratio ratio)
       (InvalidConfig (name @ ''.retainRatio ({ratio}) must be smaller than thresholdRatio ({threshold_ratio})'')))"
| "validate_retention (Tokens n) threshold_ratio name = Inr ()"

fun resolve_tokens :: "retention_policy \<Rightarrow> u64 \<Rightarrow> u64" where
  "resolve_tokens (Ratio ratio) context_window_tokens = scale_floor context_window_tokens ratio"
| "resolve_tokens (Tokens tokens) context_window_tokens = tokens"

record compaction_policy_override =
  po_threshold_ratio :: "f64 option"
  po_retain_ratio :: "f64 option"
  po_retain_tokens :: "u64 option"
  po_summarization_provider :: "string option"
  po_summarization_model :: "string option"
  po_max_tokens :: "u64 option"
  po_compaction_retries :: "u32 option"
  po_max_overflow_retries :: "u32 option"

record model_compaction_policy =
  mp_provider :: string
  mp_model :: string
  mp_policy :: compaction_policy_override

definition policy_target :: "model_compaction_policy \<Rightarrow> model_target" where
  "policy_target e = \<lparr>mt_provider = mp_provider e, mt_model = mp_model e\<rparr>"

record compaction_config =
  cc_threshold_ratio :: f64
  cc_retain_ratio :: "f64 option"
  cc_retain_tokens :: "u64 option"
  cc_summarization_provider :: string
  cc_summarization_model :: string
  cc_max_tokens :: u64
  cc_compaction_retries :: u32
  cc_max_overflow_retries :: u32
  cc_model_policies :: "model_compaction_policy list"
  cc_auto :: bool

definition default_config :: compaction_config where
  "default_config =
     \<lparr>cc_threshold_ratio = DEFAULT_THRESHOLD_RATIO, cc_retain_ratio = Some DEFAULT_RETAIN_RATIO,
      cc_retain_tokens = None, cc_summarization_provider = [], cc_summarization_model = [],
      cc_max_tokens = DEFAULT_MAX_SUMMARY_TOKENS, cc_compaction_retries = DEFAULT_COMPACTION_RETRIES,
      cc_max_overflow_retries = DEFAULT_MAX_OVERFLOW_RETRIES, cc_model_policies = [], cc_auto = True\<rparr>"

record compaction_spec =
  sp_target :: model_target
  sp_context_window_tokens :: u64
  sp_threshold_ratio :: f64
  sp_threshold_tokens :: u64
  sp_retain_tokens :: u64
  sp_summarization_target :: "model_target option"
  sp_max_tokens :: u64
  sp_compaction_retries :: u32
  sp_max_overflow_retries :: u32

definition resolve_retention :: "f64 option \<Rightarrow> u64 option \<Rightarrow> string \<Rightarrow> compaction_error + retention_policy" where
  "resolve_retention retain_ratio retain_tokens name =
     (case (retain_ratio, retain_tokens) of
        (Some _, Some _) \<Rightarrow> Inl (InvalidConfig (name @ ''.retainRatio and retainTokens are mutually exclusive''))
      | (Some ratio, None) \<Rightarrow> Inr (Ratio ratio)
      | (None, Some tokens) \<Rightarrow> Inr (Tokens tokens)
      | (None, None) \<Rightarrow> Inl (InvalidConfig (name @ '' must define retainRatio or retainTokens'')))"

definition validate_summary_pair :: "string option \<Rightarrow> string option \<Rightarrow> string \<Rightarrow> compaction_error + unit" where
  "validate_summary_pair provider model name =
     (let bad = InvalidConfig (name @ ''.summarizationProvider and summarizationModel must be set together as an empty or non-empty pair'') in
      case (provider, model) of
        (None, None) \<Rightarrow> Inr ()
      | (Some p, Some m) \<Rightarrow> if (p = []) = (m = []) then Inr () else Inl bad
      | _ \<Rightarrow> Inl bad)"

definition validate_override ::
  "compaction_policy_override \<Rightarrow> compaction_config \<Rightarrow> string \<Rightarrow> compaction_error + unit" where
  "validate_override policy defaults name =
     and_then (case po_threshold_ratio policy of
                 Some ratio \<Rightarrow> validate_ratio ratio (name @ ''.thresholdRatio'') | None \<Rightarrow> Inr ()) (\<lambda>_.
     let threshold_ratio = (case po_threshold_ratio policy of Some r \<Rightarrow> r | None \<Rightarrow> cc_threshold_ratio defaults) in
     and_then (if po_retain_ratio policy \<noteq> None \<or> po_retain_tokens policy \<noteq> None
               then resolve_retention (po_retain_ratio policy) (po_retain_tokens policy) name
               else resolve_retention (cc_retain_ratio defaults) (cc_retain_tokens defaults) ''CompactionConfig'') (\<lambda>retention.
     and_then (validate_retention retention threshold_ratio name) (\<lambda>_.
     and_then (validate_summary_pair (po_summarization_provider policy) (po_summarization_model policy) name) (\<lambda>_.
     ensure (po_max_tokens policy = Some 0) (InvalidConfig (name @ ''.maxTokens must be greater than zero''))))))"

text \<open>The loop over the overrides: its position and the routes seen so far.\<close>

fun validate_policies ::
  "compaction_config \<Rightarrow> nat \<Rightarrow> model_target set \<Rightarrow> model_compaction_policy list \<Rightarrow> compaction_error + unit" where
  "validate_policies defaults index targets [] = Inr ()"
| "validate_policies defaults index targets (e # es) =
     (let name = ''CompactionConfig.modelPolicies['' @ show_nat index @ '']''; target = policy_target e in
      and_then (validate_target name target) (\<lambda>_.
      and_then (ensure (target \<in> targets)
                  (InvalidConfig (''duplicate model policy for '' @ mt_provider target @ ''/'' @ mt_model target))) (\<lambda>_.
      and_then (validate_override (mp_policy e) defaults name) (\<lambda>_.
      validate_policies defaults (Suc index) (insert target targets) es))))"

definition validate_config :: "compaction_config \<Rightarrow> compaction_error + unit" where
  "validate_config c =
     and_then (validate_ratio (cc_threshold_ratio c) ''CompactionConfig.thresholdRatio'') (\<lambda>_.
     and_then (resolve_retention (cc_retain_ratio c) (cc_retain_tokens c) ''CompactionConfig'') (\<lambda>retention.
     and_then (validate_retention retention (cc_threshold_ratio c) ''CompactionConfig'') (\<lambda>_.
     and_then (validate_summary_pair (Some (cc_summarization_provider c)) (Some (cc_summarization_model c)) ''CompactionConfig'') (\<lambda>_.
     and_then (ensure (cc_max_tokens c = 0) (InvalidConfig ''CompactionConfig.maxTokens must be greater than zero'')) (\<lambda>_.
     validate_policies c 0 {} (cc_model_policies c))))))"

text \<open>The policy of a route, \<open>find\<close> over the overrides.\<close>

definition override_for :: "compaction_config \<Rightarrow> model_target \<Rightarrow> compaction_policy_override option" where
  "override_for c target =
     map_option mp_policy (find (\<lambda>e. mp_provider e = mt_provider target \<and> mp_model e = mt_model target) (cc_model_policies c))"

definition overridden :: "('p \<Rightarrow> 'a option) \<Rightarrow> 'p option \<Rightarrow> 'a \<Rightarrow> 'a" where
  "overridden field policy dflt =
     (case policy of None \<Rightarrow> dflt | Some p \<Rightarrow> (case field p of None \<Rightarrow> dflt | Some v \<Rightarrow> v))"

definition retention_for :: "compaction_config \<Rightarrow> compaction_policy_override option \<Rightarrow> compaction_error + retention_policy" where
  "retention_for c policy =
     (case policy of
        Some p \<Rightarrow>
          if po_retain_tokens p \<noteq> None \<or> po_retain_ratio p \<noteq> None
          then resolve_retention (po_retain_ratio p) (po_retain_tokens p) ''model policy''
          else resolve_retention (cc_retain_ratio c) (cc_retain_tokens c) ''CompactionConfig''
      | None \<Rightarrow> resolve_retention (cc_retain_ratio c) (cc_retain_tokens c) ''CompactionConfig'')"

definition summarizer_for :: "compaction_config \<Rightarrow> compaction_policy_override option \<Rightarrow> model_target option" where
  "summarizer_for c policy =
     (let dflt = (cc_summarization_provider c, cc_summarization_model c);
          pair = (case policy of
            Some p \<Rightarrow>
              if po_summarization_provider p \<noteq> None \<or> po_summarization_model p \<noteq> None
              then (case_option [] id (po_summarization_provider p), case_option [] id (po_summarization_model p))
              else dflt
          | None \<Rightarrow> dflt)
      in if fst pair = [] then None else Some \<lparr>mt_provider = fst pair, mt_model = snd pair\<rparr>)"

definition resolve_config :: "compaction_config \<Rightarrow> model_target \<Rightarrow> u64 \<Rightarrow> compaction_error + compaction_spec" where
  "resolve_config c target context_window_tokens =
     and_then (validate_config c) (\<lambda>_.
     and_then (validate_target ''target'' target) (\<lambda>_.
     and_then (ensure (context_window_tokens = 0) (InvalidConfig ''contextWindowTokens must be greater than zero'')) (\<lambda>_.
     let policy = override_for c target;
         threshold_ratio = overridden po_threshold_ratio policy (cc_threshold_ratio c) in
     and_then (retention_for c policy) (\<lambda>retention.
     and_then (validate_retention retention threshold_ratio ''resolved policy'') (\<lambda>_.
     let threshold_tokens = scale_floor context_window_tokens threshold_ratio;
         retain_tokens = resolve_tokens retention context_window_tokens in
     and_then (ensure (threshold_tokens \<le> retain_tokens)
                 (InvalidConfig ''retainTokens ({retain_tokens}) must be smaller than thresholdTokens ({threshold_tokens}) for {}/{}'')) (\<lambda>_.
     Inr \<lparr>sp_target = target, sp_context_window_tokens = context_window_tokens,
          sp_threshold_ratio = threshold_ratio, sp_threshold_tokens = threshold_tokens,
          sp_retain_tokens = retain_tokens, sp_summarization_target = summarizer_for c policy,
          sp_max_tokens = overridden po_max_tokens policy (cc_max_tokens c),
          sp_compaction_retries = overridden po_compaction_retries policy (cc_compaction_retries c),
          sp_max_overflow_retries = overridden po_max_overflow_retries policy (cc_max_overflow_retries c)\<rparr>))))))"

subsection \<open>Scaling never leaves the window\<close>

lemma bits_less: "bits m \<le> k \<longleftrightarrow> m < 2 ^ k"
proof (induction m arbitrary: k rule: bits.induct)
  case (1 m)
  show ?case
  proof (cases "m = 0")
    case True
    then show ?thesis by (simp add: bits.simps)
  next
    case False
    then have "bits m = Suc (bits (m div 2))" by (simp add: bits.simps [of m])
    then show ?thesis using False 1 [OF False, of "k - 1"] by (cases k) (simp_all, presburger)
  qed
qed

lemma shift_even_le: "m \<le> x * 2 ^ s \<Longrightarrow> shift_even m s \<le> x"
proof -
  assume m: "m \<le> x * 2 ^ s"
  show "shift_even m s \<le> x"
  proof (cases "m mod 2 ^ s = 0")
    case True
    have "m div 2 ^ s \<le> x * 2 ^ s div 2 ^ s" using m by (rule div_le_mono)
    with True show ?thesis by (simp add: shift_even_def Let_def)
  next
    case False
    have "m = m div 2 ^ s * 2 ^ s + m mod 2 ^ s" by (rule div_mult_mod_eq [symmetric])
    with False m have "m div 2 ^ s * 2 ^ s < x * 2 ^ s" by linarith
    then have "m div 2 ^ s < x" by simp
    then show ?thesis by (simp add: shift_even_def Let_def)
  qed
qed

text \<open>A ratio in \<open>(0, 1]\<close>.\<close>

lemma validate_ratio_iff:
  "validate_ratio v name = Inr () \<longleftrightarrow>
     (\<exists>m e. v = Finite False m e \<and> 0 < m \<and> (if 0 \<le> e then m * 2 ^ nat e \<le> 1 else m \<le> 2 ^ nat (- e)))"
proof (cases v)
  case (Finite neg m e)
  have pow: "int m * 2 ^ k \<le> 1 \<longleftrightarrow> m * 2 ^ k \<le> 1" "int m \<le> 2 ^ k \<longleftrightarrow> m \<le> 2 ^ k" for k
    using of_nat_le_iff [of "m * 2 ^ k" 1, where 'a = int] of_nat_le_iff [of m "2 ^ k", where 'a = int] by simp_all
  have zero: "f64_le v f64_zero \<longleftrightarrow> neg \<or> m = 0"
    by (simp add: Finite f64_zero_def scaled_def mult_le_0_iff)
  show ?thesis
  proof (cases neg)
    case True
    with Finite zero show ?thesis by (simp add: validate_ratio_def)
  next
    case False
    have "f64_le v f64_one \<longleftrightarrow> (if 0 \<le> e then m * 2 ^ nat e \<le> 1 else m \<le> 2 ^ nat (- e))"
      using False pow by (simp add: Finite f64_one_def scaled_def min_def)
    moreover have "f64_le f64_one v \<or> f64_le v f64_one"
      by (simp add: Finite f64_one_def min.commute linear)
    ultimately show ?thesis using Finite zero False by (auto simp: validate_ratio_def is_finite_def)
  qed
qed (auto simp: validate_ratio_def is_finite_def)

lemma scale_floor_le:
  assumes "validate_ratio ratio name = Inr ()" and small: "unat tokens < 2 ^ 53"
  shows "unat (scale_floor tokens ratio) \<le> unat tokens"
proof -
  let ?w = "unat tokens"
  obtain n d where r: "ratio = Finite False n d" and n: "if 0 \<le> d then n * 2 ^ nat d \<le> 1 else n \<le> 2 ^ nat (- d)"
    using assms(1) unfolding validate_ratio_iff by blast
  have f: "f64_of tokens = Finite False ?w 0"
    using small bits_less [of ?w 53] by (simp add: f64_of_def round53_def)
  obtain k s where ks: "round53 (?w * n) = (k, s)" by fastforce
  have x: "(if 0 \<le> d + int s then k * 2 ^ nat (d + int s) else k div 2 ^ nat (- (d + int s))) \<le> ?w"
  proof (cases "0 \<le> d")
    case True
    with n have one: "n * 2 ^ nat d \<le> 1" by simp
    have "n = 0 \<or> n = 1 \<and> nat d = 0"
    proof (cases n)
      case (Suc k)
      with one have "2 ^ nat d + k * 2 ^ nat d \<le> 1" by simp
      moreover have "0 < (2 :: nat) ^ nat d" by simp
      ultimately have "2 ^ nat d \<le> (1 :: nat)" "k * 2 ^ nat d = 0" by linarith+
      moreover from this(1) have "nat d = 0" using less_exp [of "nat d"] by linarith
      ultimately show ?thesis using Suc by simp
    qed simp
    then have "?w * n < 2 ^ 53" using small by auto
    then have "k = ?w * n" "s = 0" using ks bits_less [of "?w * n" 53] by (simp_all add: round53_def)
    with True \<open>n = 0 \<or> n = 1 \<and> nat d = 0\<close> show ?thesis by auto
  next
    case False
    define D where "D = nat (- d)"
    with False have d: "d = - int D" and D: "n \<le> 2 ^ D" using n by auto
    have prod: "?w * n \<le> ?w * 2 ^ D" using D by simp
    also have "\<dots> < 2 ^ (53 + D)" using small by (simp add: power_add)
    finally have b: "bits (?w * n) \<le> 53 + D" by (simp only: bits_less)
    then have s: "s \<le> D" using ks by (auto simp: round53_def split: if_splits)
    then have "?w * 2 ^ D = ?w * 2 ^ (D - s) * 2 ^ s" by (simp flip: power_add)
    with prod have "k \<le> ?w * 2 ^ (D - s)"
      using ks shift_even_le [of "?w * n" "?w * 2 ^ (D - s)" s] by (auto simp: round53_def split: if_splits)
    then have "k div 2 ^ (D - s) \<le> ?w"
      by (metis div_le_mono nonzero_mult_div_cancel_right power_not_zero zero_neq_numeral)
    moreover have "0 \<le> d + int s \<longleftrightarrow> s = D" "nat (- (d + int s)) = D - s" "nat (d + int s) = 0" using s d by auto
    ultimately show ?thesis by auto
  qed
  let ?x = "if 0 \<le> d + int s then k * 2 ^ nat (d + int s) else k div 2 ^ nat (- (d + int s))"
  have "scale_floor tokens ratio = of_nat (min ?x (2 ^ 64 - 1))"
    unfolding scale_floor_def f r f64_mult.simps ks by (simp add: f64_floor_u64_def)
  moreover have "?x < 2 ^ 64" by (rule le_less_trans [OF x]) (use small in simp)
  ultimately show ?thesis using x by (auto simp: unat_of_nat take_bit_nat_eq_self min_def split: if_splits)
qed

subsection \<open>Resolved policies\<close>

lemma validate_policies_sound:
  "validate_policies c k ts es = Inr () \<Longrightarrow>
     (\<forall>e\<in>set es. policy_target e \<notin> ts \<and> (\<exists>name. validate_override (mp_policy e) c name = Inr ())) \<and>
     distinct (map policy_target es)"
  by (induction es arbitrary: k ts) (fastforce simp: Let_def)+

lemma override_for_sound:
  assumes "validate_config c = Inr ()" and "override_for c target = Some p"
  obtains e name where "e \<in> set (cc_model_policies c)" "p = mp_policy e" "policy_target e = target"
    "validate_override p c name = Inr ()"
proof -
  from assms(2) obtain e where e: "find (\<lambda>e. mp_provider e = mt_provider target \<and> mp_model e = mt_model target) (cc_model_policies c) = Some e"
    "p = mp_policy e" by (auto simp: override_for_def)
  then have "e \<in> set (cc_model_policies c)" "policy_target e = target"
    by (auto simp: find_Some_iff policy_target_def)
  moreover have "validate_policies c 0 {} (cc_model_policies c) = Inr ()"
    using assms(1) by (auto simp: validate_config_def)
  ultimately show ?thesis using that e(2) validate_policies_sound by blast
qed

text \<open>A resolved compaction policy is usable: it keeps fewer tokens than the pressure that starts a
  compaction, its ratio is a finite number in (0, 1] (so that on any window below 2^53 tokens it starts
  within the window), it allows a non-empty summary, and its summarizer route is complete.\<close>

theorem resolved_policy_sound:
  assumes "resolve_config c target window = Inr spec"
  shows "sp_retain_tokens spec < sp_threshold_tokens spec \<and>
    (\<exists>m e. sp_threshold_ratio spec = Finite False m e \<and> 0 < m) \<and>
    (unat window < 2 ^ 53 \<longrightarrow> sp_threshold_tokens spec \<le> window) \<and>
    sp_max_tokens spec \<noteq> 0 \<and> sp_target spec = target \<and> sp_context_window_tokens spec = window \<and>
    (\<forall>t. sp_summarization_target spec = Some t \<longrightarrow> mt_provider t \<noteq> [] \<and> mt_model t \<noteq> [])"
proof -
  let ?policy = "override_for c target"
  from assms have valid: "validate_config c = Inr ()" by (auto simp: resolve_config_def)
  note c = valid [unfolded validate_config_def]
  have ratio: "\<exists>name. validate_ratio (overridden po_threshold_ratio ?policy (cc_threshold_ratio c)) name = Inr ()"
  proof (cases ?policy)
    case None
    then show ?thesis using c by (auto simp: overridden_def)
  next
    case (Some p)
    then obtain name where "validate_override p c name = Inr ()" by (rule override_for_sound [OF valid])
    then show ?thesis using c Some by (auto simp: overridden_def validate_override_def split: option.splits)
  qed
  have max: "overridden po_max_tokens ?policy (cc_max_tokens c) \<noteq> 0"
  proof (cases ?policy)
    case None
    then show ?thesis using c by (auto simp: overridden_def)
  next
    case (Some p)
    then obtain name where "validate_override p c name = Inr ()" by (rule override_for_sound [OF valid])
    then show ?thesis using c Some by (auto simp: overridden_def validate_override_def Let_def split: option.splits)
  qed
  have summarizer: "mt_provider t \<noteq> [] \<and> mt_model t \<noteq> []" if "summarizer_for c ?policy = Some t" for t
  proof (cases "\<exists>p. ?policy = Some p \<and> (po_summarization_provider p \<noteq> None \<or> po_summarization_model p \<noteq> None)")
    case True
    then obtain p where p: "?policy = Some p" "po_summarization_provider p \<noteq> None \<or> po_summarization_model p \<noteq> None" by blast
    obtain name where "validate_override p c name = Inr ()" by (rule override_for_sound [OF valid p(1)])
    then have "validate_summary_pair (po_summarization_provider p) (po_summarization_model p) name = Inr ()"
      by (auto simp: validate_override_def Let_def)
    with p that show ?thesis
      by (auto simp: summarizer_for_def validate_summary_pair_def Let_def split: option.splits if_splits)
  next
    case False
    have "validate_summary_pair (Some (cc_summarization_provider c)) (Some (cc_summarization_model c)) ''CompactionConfig'' = Inr ()"
      using c by auto
    with False that show ?thesis
      by (auto simp: summarizer_for_def validate_summary_pair_def Let_def split: option.splits if_splits)
  qed
  obtain name where r: "validate_ratio (overridden po_threshold_ratio ?policy (cc_threshold_ratio c)) name = Inr ()"
    using ratio by blast
  from assms obtain retention where spec: "sp_retain_tokens spec < sp_threshold_tokens spec"
    "sp_threshold_ratio spec = overridden po_threshold_ratio ?policy (cc_threshold_ratio c)"
    "sp_threshold_tokens spec = scale_floor window (overridden po_threshold_ratio ?policy (cc_threshold_ratio c))"
    "sp_max_tokens spec = overridden po_max_tokens ?policy (cc_max_tokens c)" "sp_target spec = target"
    "sp_context_window_tokens spec = window" "sp_summarization_target spec = summarizer_for c ?policy"
    by (auto simp: resolve_config_def Let_def not_le)
  have "\<exists>m e. sp_threshold_ratio spec = Finite False m e \<and> 0 < m"
    using r unfolding spec(2) validate_ratio_iff by blast
  moreover have "sp_threshold_tokens spec \<le> window" if "unat window < 2 ^ 53"
    using scale_floor_le [OF r that] by (simp add: spec(3) word_le_nat_alt)
  ultimately show ?thesis using spec max summarizer by simp
qed

definition example_target :: model_target where
  "example_target = \<lparr>mt_provider = ''openai'', mt_model = ''qwen3''\<rparr>"

lemma example_scaled:
  "scale_floor 53248 DEFAULT_THRESHOLD_RATIO = 42598" "scale_floor 53248 DEFAULT_RETAIN_RATIO = 8519"
  by (simp_all add: scale_floor_def f64_of_def round53_def bits.simps shift_even_def f64_floor_u64_def
      DEFAULT_THRESHOLD_RATIO_def DEFAULT_RETAIN_RATIO_def Let_def)

lemma example_resolved:
  "\<exists>spec. resolve_config default_config example_target 53248 = Inr spec \<and>
     sp_threshold_tokens spec = 42598 \<and> sp_retain_tokens spec = 8519"
proof -
  have ratios: "validate_ratio DEFAULT_THRESHOLD_RATIO name = Inr ()" "validate_ratio DEFAULT_RETAIN_RATIO name = Inr ()" for name
    by (simp_all add: validate_ratio_iff DEFAULT_THRESHOLD_RATIO_def DEFAULT_RETAIN_RATIO_def)
  have less: "\<not> f64_le DEFAULT_THRESHOLD_RATIO DEFAULT_RETAIN_RATIO"
    by (simp add: DEFAULT_THRESHOLD_RATIO_def DEFAULT_RETAIN_RATIO_def scaled_def)
  have valid: "validate_config default_config = Inr ()"
    by (simp add: validate_config_def default_config_def resolve_retention_def ratios less validate_summary_pair_def
        DEFAULT_MAX_SUMMARY_TOKENS_def)
  have target: "validate_target ''target'' example_target = Inr ()"
    by (simp add: validate_target_def example_target_def) code_simp
  have none: "override_for default_config t = None" for t by (simp add: override_for_def default_config_def)
  have fields: "cc_threshold_ratio default_config = DEFAULT_THRESHOLD_RATIO" "cc_retain_ratio default_config = Some DEFAULT_RETAIN_RATIO"
    "cc_retain_tokens default_config = None" by (simp_all add: default_config_def)
  show ?thesis
    by (simp add: resolve_config_def valid target none overridden_def retention_for_def resolve_retention_def fields ratios less
        example_scaled Let_def ensure_def)
qed

theorem resolved_policy_sound_witness:
  "\<exists>spec. resolve_config default_config example_target 53248 = Inr spec \<and> sp_threshold_tokens spec = 42598 \<and>
     sp_retain_tokens spec < sp_threshold_tokens spec \<and> sp_threshold_tokens spec \<le> 53248"
proof -
  obtain spec where "resolve_config default_config example_target 53248 = Inr spec" "sp_threshold_tokens spec = 42598"
    using example_resolved by blast
  with resolved_policy_sound [OF this(1)] show ?thesis by auto
qed

end
