(* ===== verification/Compaction.thy ===== *)
theory Compaction
  imports Compaction_Config
begin

text \<open>
  Context compaction (crates/xharness-compaction/src/planner.rs, pruner.rs, summary.rs): whether to compact
  and which head of the surface, the pruning of long tool results, and the frame of a summary.

  The hash sets of the code are sets; a \<open>chars\<close> iterator is the list of a string's UTF-8 characters.
\<close>

subsection \<open>The planner\<close>

datatype compaction_trigger = Pressure | ContextOverflow | Manual

datatype surface_node_kind =
    Plain
  | AssistantToolCalls "string list"
  | ToolResultNode string

record surface_node =
  sn_seq :: u64
  sn_tokens :: u64
  sn_kind :: surface_node_kind

definition plain_node :: "u64 \<Rightarrow> u64 \<Rightarrow> surface_node" where
  "plain_node seq tokens = \<lparr>sn_seq = seq, sn_tokens = tokens, sn_kind = Plain\<rparr>"

definition calls_node :: "u64 \<Rightarrow> u64 \<Rightarrow> string list \<Rightarrow> surface_node" where
  "calls_node seq tokens call_ids = \<lparr>sn_seq = seq, sn_tokens = tokens, sn_kind = AssistantToolCalls call_ids\<rparr>"

definition result_node :: "u64 \<Rightarrow> u64 \<Rightarrow> string \<Rightarrow> surface_node" where
  "result_node seq tokens call_id = \<lparr>sn_seq = seq, sn_tokens = tokens, sn_kind = ToolResultNode call_id\<rparr>"

record compaction_request =
  rq_trigger :: compaction_trigger
  rq_target :: model_target
  rq_context_window_tokens :: u64
  rq_current_input_tokens :: u64
  rq_surface_generation :: u64
  rq_nodes :: "surface_node list"

record compaction_range =
  cr_start_seq :: u64
  cr_end_seq :: u64
  cr_start_index :: nat
  cr_end_index :: nat
  cr_shadowed_seqs :: "u64 list"
  cr_shadowed_token_count :: u64
  cr_retained_token_count :: u64

record compaction_plan =
  pl_trigger :: compaction_trigger
  pl_surface_generation :: u64
  pl_spec :: compaction_spec
  pl_range :: compaction_range
  pl_max_summary_attempts :: u32

datatype compaction_decision =
    Disabled
  | NotNeeded u64 u64
  | NoBalancedRange u64
  | Planned compaction_plan

definition sum_tokens :: "surface_node list \<Rightarrow> u64" where
  "sum_tokens nodes = fold (\<lambda>n total. saturating_add total (sn_tokens n)) nodes 0"

text \<open>The calls without a result and all calls seen, updated by the ids of an assistant message.\<close>

fun add_calls :: "u64 \<Rightarrow> string list \<Rightarrow> string set \<times> string set \<Rightarrow> compaction_error + string set \<times> string set" where
  "add_calls seq [] ps = Inr ps"
| "add_calls seq (i # is) (pending, seen) =
     and_then (ensure (blank i) (InvalidSurface ''assistant tool-call node {} has an empty call id'')) (\<lambda>_.
     and_then (ensure (i \<in> seen) (InvalidSurface (''duplicate tool call id '' @ i @ '' on current surface''))) (\<lambda>_.
     add_calls seq is (insert i pending, insert i seen)))"

definition node_step :: "surface_node \<Rightarrow> string set \<times> string set \<Rightarrow> compaction_error + string set \<times> string set" where
  "node_step node ps =
     (case sn_kind node of
        Plain \<Rightarrow> Inr ps
      | AssistantToolCalls call_ids \<Rightarrow>
          and_then (ensure (call_ids = []) (InvalidSurface ''assistant tool-call node {} has no call ids'')) (\<lambda>_.
          add_calls (sn_seq node) call_ids ps)
      | ToolResultNode i \<Rightarrow>
          and_then (ensure (blank i) (InvalidSurface ''tool-result node {} has an empty call id'')) (\<lambda>_.
          and_then (ensure (i \<notin> fst ps) (InvalidSurface ''tool-result node {} has no earlier unmatched call {call_id:?}'')) (\<lambda>_.
          Inr (fst ps - {i}, snd ps))))"

text \<open>The loop; the result says of every node whether the surface is balanced after it.\<close>

fun price_nodes :: "u64 set \<Rightarrow> string set \<times> string set \<Rightarrow> surface_node list \<Rightarrow> compaction_error + bool list" where
  "price_nodes seqs ps [] = Inr []"
| "price_nodes seqs ps (node # nodes) =
     and_then (ensure (sn_seq node \<in> seqs) (InvalidSurface ''surface seq {} at index {index} is duplicated'')) (\<lambda>_.
     and_then (node_step node ps) (\<lambda>ps1.
     and_then (price_nodes (insert (sn_seq node) seqs) ps1 nodes) (\<lambda>bs.
     Inr ((fst ps1 = {}) # bs))))"

definition validate_and_price_boundaries :: "surface_node list \<Rightarrow> compaction_error + bool list" where
  "validate_and_price_boundaries nodes =
     and_then (price_nodes {} ({}, {}) nodes) (\<lambda>bs. Inr (True # bs))"

text \<open>The loop over the tail: walk down from \<open>index\<close> until the tokens retained suffice.\<close>

fun keep_from :: "surface_node list \<Rightarrow> u64 \<Rightarrow> nat \<Rightarrow> u64 \<Rightarrow> nat" where
  "keep_from nodes retain 0 accumulated = 0"
| "keep_from nodes retain (Suc index) accumulated =
     (let accumulated1 = saturating_add accumulated (sn_tokens (nodes ! index)) in
      if retain \<le> accumulated1 then index else keep_from nodes retain index accumulated1)"

fun balanced_down :: "bool list \<Rightarrow> nat \<Rightarrow> nat" where
  "balanced_down balanced 0 = 0"
| "balanced_down balanced (Suc k) = (if balanced ! Suc k then Suc k else balanced_down balanced k)"

definition range_at :: "surface_node list \<Rightarrow> nat \<Rightarrow> compaction_range" where
  "range_at nodes k =
     (let shadowed = take k nodes; retained = drop k nodes in
      \<lparr>cr_start_seq = sn_seq (hd shadowed), cr_end_seq = sn_seq (last shadowed), cr_start_index = 0,
       cr_end_index = length shadowed - 1, cr_shadowed_seqs = map sn_seq shadowed,
       cr_shadowed_token_count = sum_tokens shadowed, cr_retained_token_count = sum_tokens retained\<rparr>)"

definition select_compactable_range ::
  "surface_node list \<Rightarrow> u64 \<Rightarrow> compaction_error + compaction_range option" where
  "select_compactable_range nodes retain_tokens =
     (if nodes = [] then Inr None
      else and_then (validate_and_price_boundaries nodes) (\<lambda>balanced_before.
        let keep_from_index = keep_from nodes retain_tokens (length nodes) 0 in
        if keep_from_index = 0 then Inr None
        else (let k = balanced_down balanced_before keep_from_index in
              if k = 0 then Inr None else Inr (Some (range_at nodes k)))))"

definition plan_compaction :: "compaction_config \<Rightarrow> compaction_request \<Rightarrow> compaction_error + compaction_decision" where
  "plan_compaction c request =
     and_then (resolve_config c (rq_target request) (rq_context_window_tokens request)) (\<lambda>spec.
     if rq_trigger request = Pressure \<and> \<not> cc_auto c then Inr Disabled
     else if rq_trigger request = Pressure \<and> rq_current_input_tokens request < sp_threshold_tokens spec
     then Inr (NotNeeded (rq_current_input_tokens request) (sp_threshold_tokens spec))
     else (let retain_tokens = (if rq_trigger request = ContextOverflow then 0 else sp_retain_tokens spec) in
       and_then (select_compactable_range (rq_nodes request) retain_tokens) (\<lambda>selected.
       case selected of
         None \<Rightarrow> Inr (NoBalancedRange retain_tokens)
       | Some rng \<Rightarrow>
           Inr (Planned \<lparr>pl_trigger = rq_trigger request, pl_surface_generation = rq_surface_generation request,
                         pl_spec = spec, pl_range = rng,
                         pl_max_summary_attempts = saturating_add (sp_compaction_retries spec) 1\<rparr>))))"

subsection \<open>The pruner\<close>

definition continuation :: "char \<Rightarrow> bool" where
  "continuation c \<longleftrightarrow> 128 \<le> byte c \<and> byte c < 192"

text \<open>\<open>text.chars()\<close>: each character is a first byte and the continuation bytes behind it.\<close>

function chars :: "string \<Rightarrow> string list" where
  "chars [] = []"
| "chars (b # bs) = (b # takeWhile continuation bs) # chars (dropWhile continuation bs)"
  by pat_completeness auto
termination
  by (relation "measure length") (auto simp: length_dropWhile_le le_imp_less_Suc)

definition PRUNE_MARKER :: string where
  "PRUNE_MARKER = [CHR 0x0A, CHR 0x0A] @ ''[... tool result middle pruned ...]'' @ [CHR 0x0A, CHR 0x0A]"

record pruner_config =
  pr_threshold_chars :: nat
  pr_head_chars :: nat
  pr_tail_chars :: nat

definition default_pruner :: pruner_config where
  "default_pruner = \<lparr>pr_threshold_chars = 8192, pr_head_chars = 4096, pr_tail_chars = 1024\<rparr>"

definition validate_pruner :: "pruner_config \<Rightarrow> compaction_error + unit" where
  "validate_pruner c =
     and_then (ensure (pr_threshold_chars c = 0)
                 (InvalidConfig ''ToolResultPrunerConfig.thresholdChars must be greater than zero'')) (\<lambda>_.
     ensure (pr_threshold_chars c <
               saturating_add_usize (saturating_add_usize (pr_head_chars c) (length (chars PRUNE_MARKER))) (pr_tail_chars c))
       (InvalidConfig ''headChars + marker + tailChars ({emitted_chars}) must not exceed thresholdChars ({})''))"

record pruned_text =
  pt_text :: string
  pt_chars_before :: nat
  pt_chars_after :: nat
  pt_chars_removed :: nat

definition prune :: "pruner_config \<Rightarrow> string \<Rightarrow> pruned_text option" where
  "prune c s =
     (let chars_before = length (chars s) in
      if chars_before \<le> pr_threshold_chars c then None
      else (let head = concat (take (pr_head_chars c) (chars s));
                tail = concat (rev (take (pr_tail_chars c) (rev (chars s))));
                pruned = head @ PRUNE_MARKER @ tail;
                chars_after = length (chars pruned) in
            Some \<lparr>pt_text = pruned, pt_chars_before = chars_before, pt_chars_after = chars_after,
                  pt_chars_removed = chars_before - chars_after\<rparr>))"

subsection \<open>The summary\<close>

definition SUMMARY_OPEN_TAG :: string where "SUMMARY_OPEN_TAG = ''<compacted-summary>''"
definition SUMMARY_CLOSE_TAG :: string where "SUMMARY_CLOSE_TAG = ''</compacted-summary>''"
definition CHECKPOINT_PREAMBLE :: string where
  "CHECKPOINT_PREAMBLE = ''This is an automatically generated checkpoint condensing an earlier conversation span. Treat it as established background, continue from the messages that follow, and do not restate or acknowledge the checkpoint.''"

definition summary_target :: "compaction_plan \<Rightarrow> model_target" where
  "summary_target plan =
     (case sp_summarization_target (pl_spec plan) of None \<Rightarrow> sp_target (pl_spec plan) | Some t \<Rightarrow> t)"

definition frame_summary :: "string \<Rightarrow> compaction_error + string" where
  "frame_summary summary =
     and_then (ensure (blank summary) (Summary ''summarization produced no text content'')) (\<lambda>_.
     Inr (CHECKPOINT_PREAMBLE @ [CHR 0x0A, CHR 0x0A] @ SUMMARY_OPEN_TAG @ [CHR 0x0A] @ summary @ [CHR 0x0A] @ SUMMARY_CLOSE_TAG))"

subsection \<open>Which boundaries are balanced\<close>

fun node_calls :: "surface_node_kind \<Rightarrow> string list" where
  "node_calls (AssistantToolCalls is) = is"
| "node_calls _ = []"

fun node_results :: "surface_node_kind \<Rightarrow> string list" where
  "node_results (ToolResultNode i) = [i]"
| "node_results _ = []"

definition calls_of :: "surface_node list \<Rightarrow> string list" where
  "calls_of nodes = concat (map (node_calls \<circ> sn_kind) nodes)"

definition results_of :: "surface_node list \<Rightarrow> string list" where
  "results_of nodes = concat (map (node_results \<circ> sn_kind) nodes)"

text \<open>Cutting after \<open>k\<close> nodes separates no call from its result and keeps enough behind the cut.\<close>

definition compactable :: "surface_node list \<Rightarrow> u64 \<Rightarrow> nat \<Rightarrow> bool" where
  "compactable nodes retain k \<longleftrightarrow>
     0 < k \<and> k < length nodes \<and> set (calls_of (take k nodes)) = set (results_of (take k nodes)) \<and>
     unat retain \<le> (\<Sum>n\<leftarrow>drop k nodes. unat (sn_tokens n))"

lemma calls_of_simps [simp]:
  "calls_of [] = []" "calls_of (n # ns) = node_calls (sn_kind n) @ calls_of ns" "calls_of (xs @ ys) = calls_of xs @ calls_of ys"
  "results_of [] = []" "results_of (n # ns) = node_results (sn_kind n) @ results_of ns"
  "results_of (xs @ ys) = results_of xs @ results_of ys"
  by (simp_all add: calls_of_def results_of_def)

lemma add_calls_Inr:
  "add_calls seq is (pending, seen) = Inr ps \<longleftrightarrow>
     list_all (\<lambda>i. \<not> blank i) is \<and> distinct is \<and> set is \<inter> seen = {} \<and> ps = (set is \<union> pending, set is \<union> seen)"
  by (induction "is" arbitrary: pending seen) auto

text \<open>The fold's state: pending calls are the calls of the nodes so far without their results.\<close>

definition fold_ok :: "surface_node list \<Rightarrow> string set \<times> string set \<Rightarrow> bool" where
  "fold_ok done ps \<longleftrightarrow>
     distinct (calls_of done) \<and> distinct (results_of done) \<and> set (results_of done) \<subseteq> set (calls_of done) \<and>
     snd ps = set (calls_of done) \<and> fst ps = set (calls_of done) - set (results_of done)"

lemma node_step_ok:
  assumes "node_step node ps = Inr ps1" and "fold_ok done ps"
  shows "fold_ok (done @ [node]) ps1"
proof (cases "sn_kind node")
  case Plain
  with assms show ?thesis by (simp add: node_step_def fold_ok_def)
next
  case (AssistantToolCalls ids)
  with assms show ?thesis
    by (cases ps) (auto simp: node_step_def fold_ok_def add_calls_Inr)
next
  case (ToolResultNode i)
  with assms show ?thesis by (auto simp: node_step_def fold_ok_def)
qed

lemma price_nodes_sound:
  assumes "price_nodes seqs ps nodes = Inr bs" and "fold_ok done ps"
  shows "length bs = length nodes \<and> fold_ok (done @ nodes) (set (calls_of (done @ nodes)) - set (results_of (done @ nodes)), set (calls_of (done @ nodes))) \<and>
    (\<forall>k<length nodes. bs ! k \<longleftrightarrow>
       set (calls_of (done @ take (Suc k) nodes)) = set (results_of (done @ take (Suc k) nodes)))"
  using assms
proof (induction nodes arbitrary: seqs ps bs "done")
  case Nil
  then show ?case by (simp add: fold_ok_def)
next
  case (Cons node nodes)
  from Cons.prems(1) obtain ps1 bs1 where step: "node_step node ps = Inr ps1"
    and rest: "price_nodes (insert (sn_seq node) seqs) ps1 nodes = Inr bs1" and bs: "bs = (fst ps1 = {}) # bs1"
    by auto
  have ok1: "fold_ok (done @ [node]) ps1" by (rule node_step_ok [OF step Cons.prems(2)])
  from Cons.IH [OF rest ok1] have IH: "length bs1 = length nodes"
    "fold_ok (done @ node # nodes) (set (calls_of (done @ node # nodes)) - set (results_of (done @ node # nodes)), set (calls_of (done @ node # nodes)))"
    "\<And>k. k < length nodes \<Longrightarrow> bs1 ! k \<longleftrightarrow>
       set (calls_of (done @ node # take (Suc k) nodes)) = set (results_of (done @ node # take (Suc k) nodes))"
    by (simp_all add: Un_assoc)
  have "fst ps1 = {} \<longleftrightarrow> set (calls_of (done @ [node])) = set (results_of (done @ [node]))"
    using ok1 by (auto simp: fold_ok_def)
  with IH bs show ?case by (auto simp: nth_Cons split: nat.split)
qed

lemma boundaries_sound:
  assumes "validate_and_price_boundaries nodes = Inr bs"
  shows "length bs = Suc (length nodes)" "distinct (calls_of nodes)" "distinct (results_of nodes)"
    "set (results_of nodes) \<subseteq> set (calls_of nodes)"
    "k \<le> length nodes \<Longrightarrow> bs ! k \<longleftrightarrow> set (calls_of (take k nodes)) = set (results_of (take k nodes))"
proof -
  obtain bs1 where run: "price_nodes {} ({}, {}) nodes = Inr bs1" and bs: "bs = True # bs1"
    using assms by (auto simp: validate_and_price_boundaries_def)
  from price_nodes_sound [OF run, of "[]"] have sound: "length bs1 = length nodes"
    "distinct (calls_of nodes)" "distinct (results_of nodes)" "set (results_of nodes) \<subseteq> set (calls_of nodes)"
    "\<forall>k<length nodes. bs1 ! k \<longleftrightarrow> set (calls_of (take (Suc k) nodes)) = set (results_of (take (Suc k) nodes))"
    by (simp_all add: fold_ok_def)
  then show "length bs = Suc (length nodes)" "distinct (calls_of nodes)" "distinct (results_of nodes)"
    "set (results_of nodes) \<subseteq> set (calls_of nodes)" by (simp_all add: bs)
  show "bs ! k \<longleftrightarrow> set (calls_of (take k nodes)) = set (results_of (take k nodes))" if "k \<le> length nodes"
    using that sound(5) by (cases k) (auto simp: bs)
qed

abbreviation tail_tokens :: "surface_node list \<Rightarrow> nat \<Rightarrow> nat" where
  "tail_tokens nodes k \<equiv> (\<Sum>n\<leftarrow>drop k nodes. unat (sn_tokens n))"

lemma tail_tokens_Suc: "k < length nodes \<Longrightarrow> tail_tokens nodes k = unat (sn_tokens (nodes ! k)) + tail_tokens nodes (Suc k)"
  by (simp flip: Cons_nth_drop_Suc)

lemma tail_tokens_mono: "j \<le> k \<Longrightarrow> tail_tokens nodes k \<le> tail_tokens nodes j"
proof (induction k)
  case (Suc k)
  then show ?case
    by (cases "j = Suc k"; cases "k < length nodes") (auto simp: tail_tokens_Suc)
qed simp

lemma keep_from_sound:
  assumes "index \<le> length nodes" and "unat acc = min (tail_tokens nodes index) (2 ^ 64 - 1)"
  shows "let j = keep_from nodes retain index acc in
    j \<le> index \<and> (0 < index \<longrightarrow> j < index) \<and> (0 < j \<longrightarrow> unat retain \<le> tail_tokens nodes j) \<and>
    (\<forall>k. j < k \<and> k < index \<longrightarrow> tail_tokens nodes k < unat retain)"
  using assms
proof (induction index arbitrary: acc)
  case (Suc index)
  let ?acc = "saturating_add acc (sn_tokens (nodes ! index))"
  have sum: "tail_tokens nodes index = unat (sn_tokens (nodes ! index)) + tail_tokens nodes (Suc index)"
    using Suc.prems(1) by (intro tail_tokens_Suc) simp
  have acc: "unat ?acc = min (tail_tokens nodes index) (2 ^ 64 - 1)"
    using Suc.prems(2) by (auto simp: unat_saturating_add sum min_def)
  show ?case
  proof (cases "retain \<le> ?acc")
    case True
    then have "unat retain \<le> tail_tokens nodes index" using acc by (simp add: word_le_nat_alt)
    with True show ?thesis by (simp add: Let_def)
  next
    case False
    have "unat retain < 2 ^ 64" using unsigned_less [of retain] by simp
    with False acc have less: "tail_tokens nodes index < unat retain" by (auto simp: word_le_nat_alt min_def split: if_splits)
    from Suc.IH [OF _ acc] Suc.prems(1) less False show ?thesis by (auto simp: Let_def less_Suc_eq)
  qed
qed simp

lemma balanced_down_sound:
  "balanced_down bs j \<le> j \<and> (0 < balanced_down bs j \<longrightarrow> bs ! balanced_down bs j) \<and>
     (\<forall>k. balanced_down bs j < k \<and> k \<le> j \<longrightarrow> \<not> bs ! k)"
  by (induction j) (auto simp: le_Suc_eq)

lemma selected_range:
  assumes "select_compactable_range nodes retain = Inr selected"
  shows "case selected of
      None \<Rightarrow> \<forall>k. \<not> compactable nodes retain k
    | Some rng \<Rightarrow> \<exists>k. rng = range_at nodes k \<and> compactable nodes retain k \<and>
        (\<forall>k'. compactable nodes retain k' \<longrightarrow> k' \<le> k) \<and>
        set (results_of (drop k nodes)) \<subseteq> set (calls_of (drop k nodes))"
proof (cases "nodes = []")
  case True
  with assms show ?thesis by (auto simp: select_compactable_range_def compactable_def)
next
  case False
  with assms obtain bs where bounds: "validate_and_price_boundaries nodes = Inr bs"
    by (auto simp: select_compactable_range_def)
  note sound = boundaries_sound [OF bounds]
  define j where "j = keep_from nodes retain (length nodes) 0"
  define k where "k = balanced_down bs j"
  have j: "j < length nodes" "0 < j \<Longrightarrow> unat retain \<le> tail_tokens nodes j"
    "\<And>k. j < k \<Longrightarrow> k < length nodes \<Longrightarrow> tail_tokens nodes k < unat retain"
    using keep_from_sound [of "length nodes" nodes 0 retain] False unfolding j_def by (auto simp: Let_def)
  have k: "k \<le> j" "0 < k \<Longrightarrow> bs ! k" "\<And>k'. k < k' \<Longrightarrow> k' \<le> j \<Longrightarrow> \<not> bs ! k'"
    using balanced_down_sound [of bs j] unfolding k_def by auto
  have selected: "selected = (if k = 0 then None else Some (range_at nodes k))"
    using assms False bounds by (auto simp: select_compactable_range_def Let_def j_def k_def split: if_splits)
  have longest: "k' \<le> k" if "compactable nodes retain k'" for k'
  proof -
    from that have c: "k' < length nodes" "unat retain \<le> tail_tokens nodes k'" "bs ! k'"
      using sound(5) [of k'] by (simp_all add: compactable_def)
    with j(3) have "k' \<le> j" by (meson not_le)
    with k(3) c(3) show ?thesis by (meson not_le)
  qed
  show ?thesis
  proof (cases "k = 0")
    case True
    with longest selected show ?thesis by (auto simp: compactable_def)
  next
    case False
    have "unat retain \<le> tail_tokens nodes k"
      using j(2) k(1) False tail_tokens_mono [OF k(1), of nodes] by linarith
    moreover have bal: "set (calls_of (take k nodes)) = set (results_of (take k nodes))"
      using k(1,2) False j(1) sound(5) [of k] by simp
    ultimately have "compactable nodes retain k" using False k(1) j(1) by (simp add: compactable_def)
    moreover have "set (results_of (drop k nodes)) \<subseteq> set (calls_of (drop k nodes))"
    proof
      fix i assume i: "i \<in> set (results_of (drop k nodes))"
      have split: "calls_of nodes = calls_of (take k nodes) @ calls_of (drop k nodes)"
        "results_of nodes = results_of (take k nodes) @ results_of (drop k nodes)"
        by (simp_all flip: calls_of_simps)
      from i sound(3) split have "i \<notin> set (results_of (take k nodes))" by auto
      with i bal sound(4) split show "i \<in> set (calls_of (drop k nodes))" by auto
    qed
    ultimately show ?thesis using selected False longest by auto
  qed
qed

text \<open>Property C13. The planner compacts the longest head it may: the selected range is a proper, non-empty head of
  the surface, the tail behind it keeps at least the tokens asked for, no tool call is separated from its
  result by the cut, and no longer head has these properties; it selects nothing only when no head has
  them.\<close>

theorem selected_range_maximal:
  assumes "select_compactable_range nodes retain = Inr selected"
  shows "case selected of
      None \<Rightarrow> \<forall>k. \<not> compactable nodes retain k
    | Some rng \<Rightarrow> \<exists>k. rng = range_at nodes k \<and> compactable nodes retain k \<and>
        (\<forall>k'. compactable nodes retain k' \<longrightarrow> k' \<le> k) \<and>
        set (results_of (drop k nodes)) \<subseteq> set (calls_of (drop k nodes))"
  using assms by (rule selected_range)

text \<open>A plan is justified and usable: under pressure only an automatic policy plans, and only once the
  input has reached the threshold; the plan resolves the request's own route, replaces a balanced proper
  head that leaves at least the policy's tail (any tail when recovering from an overflow), and allows at
  least one summary attempt.\<close>

theorem plan_justified:
  assumes "plan_compaction c request = Inr (Planned plan)"
  shows "resolve_config c (rq_target request) (rq_context_window_tokens request) = Inr (pl_spec plan) \<and>
    (rq_trigger request = Pressure \<longrightarrow> cc_auto c \<and> sp_threshold_tokens (pl_spec plan) \<le> rq_current_input_tokens request) \<and>
    (\<exists>k. pl_range plan = range_at (rq_nodes request) k \<and>
       compactable (rq_nodes request) (if rq_trigger request = ContextOverflow then 0 else sp_retain_tokens (pl_spec plan)) k) \<and>
    pl_max_summary_attempts plan \<noteq> 0"
proof -
  let ?retain = "\<lambda>spec. if rq_trigger request = ContextOverflow then 0 else sp_retain_tokens spec"
  from assms obtain spec rng where spec: "resolve_config c (rq_target request) (rq_context_window_tokens request) = Inr spec"
    and go: "rq_trigger request = Pressure \<longrightarrow> cc_auto c \<and> \<not> rq_current_input_tokens request < sp_threshold_tokens spec"
    and sel: "select_compactable_range (rq_nodes request) (?retain spec) = Inr (Some rng)"
    and plan: "plan = \<lparr>pl_trigger = rq_trigger request, pl_surface_generation = rq_surface_generation request,
        pl_spec = spec, pl_range = rng, pl_max_summary_attempts = saturating_add (sp_compaction_retries spec) 1\<rparr>"
    unfolding plan_compaction_def Let_def
    by (auto split: if_splits option.splits simp del: not_less)
  have "saturating_add (sp_compaction_retries spec) 1 \<noteq> (0 :: u32)"
    using unat_saturating_add [of "sp_compaction_retries spec" 1] by (auto simp: min_def split: if_splits)
  with spec go selected_range [OF sel] plan show ?thesis by auto
qed

subsection \<open>Pruned tool results\<close>

lemma length_chars_le: "length (chars s) \<le> length s"
  by (induction s rule: chars.induct) (auto intro: order.trans [OF _ length_dropWhile_le])

lemma concat_chars [simp]: "concat (chars s) = s"
  by (induction s rule: chars.induct) simp_all

text \<open>A Rust string starts with the first byte of a character.\<close>

definition utf8_start :: "string \<Rightarrow> bool" where
  "utf8_start s \<longleftrightarrow> (\<forall>b bs. s = b # bs \<longrightarrow> \<not> continuation b)"

fun whole_char :: "string \<Rightarrow> bool" where
  "whole_char [] = False"
| "whole_char (b # bs) = (\<not> continuation b \<and> (\<forall>c\<in>set bs. continuation c))"

lemma chars_whole: "utf8_start s \<Longrightarrow> \<forall>c\<in>set (chars s). whole_char c"
proof (induction s rule: chars.induct)
  case (2 b bs)
  have "utf8_start (dropWhile continuation bs)"
    by (auto simp: utf8_start_def dropWhile_eq_Cons_conv)
  with 2 show ?case by (auto simp: utf8_start_def dest: set_takeWhileD)
qed simp

lemma chars_concat: "\<forall>c\<in>set cs. whole_char c \<Longrightarrow> chars (concat cs) = cs"
proof (induction cs)
  case (Cons c cs)
  obtain b bs where c: "c = b # bs" "\<forall>x\<in>set bs. continuation x" using Cons.prems by (cases c) auto
  have "takeWhile continuation (concat cs) = []" "dropWhile continuation (concat cs) = concat cs"
    using Cons.prems by (cases cs; cases "hd cs"; force)+
  with c Cons show ?case by (simp add: takeWhile_append dropWhile_append)
qed simp

lemma marker_chars: "chars PRUNE_MARKER = map (\<lambda>c. [c]) PRUNE_MARKER"
  "\<forall>c\<in>set (map (\<lambda>c. [c]) PRUNE_MARKER). whole_char c"
proof -
  show whole: "\<forall>c\<in>set (map (\<lambda>c. [c]) PRUNE_MARKER). whole_char c"
    by (simp add: PRUNE_MARKER_def continuation_def)
  have "concat (map (\<lambda>c. [c]) PRUNE_MARKER) = PRUNE_MARKER" by simp
  with chars_concat [OF whole] show "chars PRUNE_MARKER = map (\<lambda>c. [c]) PRUNE_MARKER" by simp
qed

text \<open>Pruning is bounded, honest and idempotent: a text within the threshold is left alone; a longer one
  becomes its first characters, the marker and its last characters, whole characters all of them, with
  exactly the configured lengths and never above the threshold; the accounting adds up, something is
  removed, and the result is not pruned again.\<close>

theorem prune_bounded:
  assumes config: "validate_pruner c = Inr ()" and utf8: "utf8_start s" and room: "length s \<le> usize_max"
  shows "case prune c s of
      None \<Rightarrow> length (chars s) \<le> pr_threshold_chars c
    | Some p \<Rightarrow>
        pr_threshold_chars c < length (chars s) \<and>
        chars (pt_text p) = take (pr_head_chars c) (chars s) @ chars PRUNE_MARKER @ drop (length (chars s) - pr_tail_chars c) (chars s) \<and>
        pt_chars_after p = length (chars (pt_text p)) \<and>
        pt_chars_after p = pr_head_chars c + length (chars PRUNE_MARKER) + pr_tail_chars c \<and>
        pt_chars_after p \<le> pr_threshold_chars c \<and> pt_chars_before p = length (chars s) \<and>
        0 < pt_chars_removed p \<and> pt_chars_before p = pt_chars_after p + pt_chars_removed p \<and>
        prune c (pt_text p) = None"
proof (cases "length (chars s) \<le> pr_threshold_chars c")
  case True
  then show ?thesis by (simp add: prune_def Let_def)
next
  case False
  let ?cs = "chars s" and ?h = "pr_head_chars c" and ?t = "pr_tail_chars c" and ?m = "length (chars PRUNE_MARKER)"
  have "length ?cs \<le> usize_max" using length_chars_le [of s] room by linarith
  with False config have fits: "?h + ?m + ?t \<le> pr_threshold_chars c"
    by (auto simp: validate_pruner_def saturating_add_usize_def)
  define out where "out = take ?h ?cs @ chars PRUNE_MARKER @ drop (length ?cs - ?t) ?cs"
  have whole: "\<forall>x\<in>set out. whole_char x"
    using chars_whole [OF utf8] marker_chars unfolding out_def by (auto dest: in_set_takeD in_set_dropD)
  have joined: "concat (take ?h ?cs) @ PRUNE_MARKER @ concat (rev (take ?t (rev ?cs))) = concat out"
    by (simp add: out_def rev_take)
  have chars_out: "chars (concat out) = out" by (rule chars_concat [OF whole])
  have len: "length out = ?h + ?m + ?t" using fits False by (simp add: out_def)
  have p: "prune c s = Some \<lparr>pt_text = concat out, pt_chars_before = length ?cs, pt_chars_after = length out,
      pt_chars_removed = length ?cs - length out\<rparr>"
    using False by (simp add: prune_def Let_def joined chars_out)
  have "prune c (concat out) = None" using len fits by (simp add: prune_def Let_def chars_out)
  moreover have "length (chars (concat out)) = ?h + ?m + ?t" by (simp add: chars_out len)
  ultimately show ?thesis
    unfolding p option.case using len fits False by (simp add: chars_out flip: out_def)
qed

subsection \<open>Examples\<close>

definition example_nodes :: "surface_node list" where
  "example_nodes = [plain_node 10 100, calls_node 11 5 [''call-1''], result_node 12 5 ''call-1'', plain_node 13 100]"

lemma example_call_id: "\<not> blank ''call-1''"
  by code_simp

lemma example_balance: "validate_and_price_boundaries example_nodes = Inr [True, True, False, True, True]"
  by (simp add: validate_and_price_boundaries_def example_nodes_def plain_node_def calls_node_def result_node_def
      node_step_def example_call_id)

lemma example_selected: "select_compactable_range example_nodes 105 = Inr (Some (range_at example_nodes 1))"
proof -
  have "keep_from example_nodes 105 (length example_nodes) 0 = 2"
    by (simp add: example_nodes_def plain_node_def calls_node_def result_node_def saturating_add_def)
  moreover have "balanced_down [True, True, False, True, True] 2 = 1" by (simp add: numeral_2_eq_2)
  ultimately show ?thesis
    by (simp add: select_compactable_range_def example_balance) (simp add: example_nodes_def)
qed

theorem selected_range_maximal_witness:
  "\<not> (\<exists>k. compactable example_nodes 105 k \<and> 1 < k)"
proof -
  obtain k where "range_at example_nodes 1 = range_at example_nodes k" "k < 4"
    and largest: "\<forall>k'. compactable example_nodes 105 k' \<longrightarrow> k' \<le> k"
    using selected_range_maximal [OF example_selected] by (auto simp: compactable_def example_nodes_def)
  moreover from calculation(1) have "length (cr_shadowed_seqs (range_at example_nodes 1)) = length (cr_shadowed_seqs (range_at example_nodes k))"
    by simp
  ultimately have "k = 1" by (simp add: range_at_def Let_def example_nodes_def)
  with largest show ?thesis by fastforce
qed

definition example_request :: compaction_request where
  "example_request =
     \<lparr>rq_trigger = ContextOverflow, rq_target = example_target, rq_context_window_tokens = 53248,
      rq_current_input_tokens = 1, rq_surface_generation = 9, rq_nodes = example_nodes\<rparr>"

theorem plan_justified_witness:
  "\<exists>plan k. plan_compaction default_config example_request = Inr (Planned plan) \<and>
     pl_range plan = range_at example_nodes k \<and> compactable example_nodes 0 k"
proof -
  obtain spec where spec: "resolve_config default_config example_target 53248 = Inr spec"
    using example_resolved by blast
  have "keep_from example_nodes 0 (length example_nodes) 0 = 3"
    by (simp add: example_nodes_def)
  moreover have "balanced_down [True, True, False, True, True] 3 = 3" by (simp add: numeral_3_eq_3)
  ultimately have "select_compactable_range example_nodes 0 = Inr (Some (range_at example_nodes 3))"
    by (simp add: select_compactable_range_def example_balance) (simp add: example_nodes_def)
  then obtain plan where plan: "plan_compaction default_config example_request = Inr (Planned plan)"
    by (simp add: plan_compaction_def example_request_def spec)
  from plan_justified [OF plan] plan show ?thesis by (auto simp: example_request_def)
qed

definition example_pruner :: pruner_config where
  "example_pruner = \<lparr>pr_threshold_chars = 45, pr_head_chars = 3, pr_tail_chars = 2\<rparr>"

theorem prune_bounded_witness:
  "\<exists>p. prune example_pruner (replicate 60 CHR ''a'') = Some p \<and> pt_chars_after p \<le> 45"
proof -
  have marker: "length (chars PRUNE_MARKER) = 39" by (simp add: marker_chars(1)) (simp add: PRUNE_MARKER_def)
  have config: "validate_pruner example_pruner = Inr ()"
    by (simp add: validate_pruner_def example_pruner_def marker saturating_add_usize_def usize_max_def)
  have whole: "\<forall>c\<in>set (replicate 60 ''a''). whole_char c" by (simp add: continuation_def)
  have "concat (replicate 60 ''a'') = replicate 60 CHR ''a''" by (simp add: numeral_eq_Suc)
  with chars_concat [OF whole] have "chars (replicate 60 CHR ''a'') = replicate 60 ''a''" by simp
  then have "prune example_pruner (replicate 60 CHR ''a'') \<noteq> None"
    by (simp add: prune_def Let_def example_pruner_def)
  moreover have "utf8_start (replicate 60 CHR ''a'')"
    unfolding utf8_start_def
  proof (intro allI impI)
    fix b bs assume "replicate 60 CHR ''a'' = b # bs"
    then have "b = CHR ''a''" by (simp add: numeral_eq_Suc)
    then show "\<not> continuation b" by (simp add: continuation_def)
  qed
  moreover have "length (replicate 60 CHR ''a'') \<le> usize_max" by (simp add: usize_max_def)
  ultimately show ?thesis
    using prune_bounded [OF config, of "replicate 60 CHR ''a''"] by (auto simp: example_pruner_def)
qed

end
