(* ===== verification/Token_Budget.thy ===== *)
theory Token_Budget
  imports Session_Types
begin

text \<open>
  Token metering and the admission of a request to a context window (crates/xharness-token/src/lib.rs).
  A meter is a record of its trait's methods; the length of serde's JSON is the argument \<open>z\<close> of the byte
  meter.
\<close>

record token_estimate_request =
  te_provider :: string
  te_model :: "string option"
  te_system_messages :: "json list"
  te_conversation_messages :: "json list"
  te_tools :: "json list"

record token_breakdown =
  tb_system_tokens :: u64
  tb_message_tokens :: u64
  tb_tool_tokens :: u64
  tb_protocol_tokens :: u64
  tb_total_input_tokens :: u64

datatype token_count_accuracy = ExactRequest | ExactTokenizer | Calibrated | Estimated

record provider_input_token_count =
  pc_counter :: string
  pc_input_tokens :: u64
  pc_accuracy :: token_count_accuracy

definition exact_request :: "string \<Rightarrow> u64 \<Rightarrow> provider_input_token_count" where
  "exact_request counter input_tokens =
     \<lparr>pc_counter = counter, pc_input_tokens = input_tokens, pc_accuracy = ExactRequest\<rparr>"

definition recompute_total :: "token_breakdown \<Rightarrow> token_breakdown" where
  "recompute_total b =
     b\<lparr>tb_total_input_tokens :=
         saturating_add (saturating_add (saturating_add (tb_system_tokens b) (tb_message_tokens b)) (tb_tool_tokens b))
           (tb_protocol_tokens b)\<rparr>"

datatype token_meter_error = MeterFailed string

record token_meter =
  tm_id :: string
  tm_estimate :: "token_estimate_request \<Rightarrow> token_meter_error + token_breakdown"

subsection \<open>The byte meter\<close>

record json_sizes =
  js_values :: "json list \<Rightarrow> string + nat"
  js_route :: "string \<times> string option \<Rightarrow> string + nat"

definition encoded_len :: "string + nat \<Rightarrow> token_meter_error + u64" where
  "encoded_len encoded =
     and_then (map_err MeterFailed encoded) (\<lambda>len. Inr (if len < 2 ^ 64 then of_nat len else - 1))"

definition conservative_estimate :: "json_sizes \<Rightarrow> token_estimate_request \<Rightarrow> token_meter_error + token_breakdown" where
  "conservative_estimate z r =
     and_then (encoded_len (js_values z (te_system_messages r))) (\<lambda>system_tokens.
     and_then (encoded_len (js_values z (te_conversation_messages r))) (\<lambda>message_tokens.
     and_then (encoded_len (js_values z (te_tools r))) (\<lambda>tool_tokens.
     and_then (encoded_len (js_route z (te_provider r, te_model r))) (\<lambda>route.
     Inr (recompute_total
       \<lparr>tb_system_tokens = system_tokens, tb_message_tokens = message_tokens, tb_tool_tokens = tool_tokens,
        tb_protocol_tokens =
          saturating_add (saturating_add (saturating_add (saturating_add route 32)
            (saturating_mul (of_nat (length (te_system_messages r))) 8))
            (saturating_mul (of_nat (length (te_conversation_messages r))) 8))
            (saturating_mul (of_nat (length (te_tools r))) 12),
        tb_total_input_tokens = 0\<rparr>)))))"

definition conservative_byte_meter :: "json_sizes \<Rightarrow> token_meter" where
  "conservative_byte_meter z =
     \<lparr>tm_id = ''conservative-utf8-json-bytes/v1'', tm_estimate = conservative_estimate z\<rparr>"

subsection \<open>The budget\<close>

record token_budget =
  bu_context_window_tokens :: u64
  bu_reserved_output_tokens :: u64
  bu_minimum_output_tokens :: u64
  bu_safety_margin_tokens :: u64

definition new_budget :: "u64 \<Rightarrow> u64 \<Rightarrow> token_budget" where
  "new_budget context_window_tokens reserved_output_tokens =
     \<lparr>bu_context_window_tokens = context_window_tokens, bu_reserved_output_tokens = reserved_output_tokens,
      bu_minimum_output_tokens = reserved_output_tokens, bu_safety_margin_tokens = 1024\<rparr>"

record token_budget_report =
  bt_meter :: string
  bt_accuracy :: token_count_accuracy
  bt_context_window_tokens :: u64
  bt_reserved_output_tokens :: u64
  bt_minimum_output_tokens :: u64
  bt_selected_output_tokens :: u64
  bt_safety_margin_tokens :: u64
  bt_available_input_tokens :: u64
  bt_estimate :: token_breakdown

datatype token_budget_error =
    InvalidBudget string
  | Meter token_meter_error
  | Exceeded u64 u64 u64 u64 u64 u64

definition validate_budget :: "token_budget \<Rightarrow> token_budget_error + unit" where
  "validate_budget b =
     and_then (ensure (bu_context_window_tokens b = 0)
                 (InvalidBudget ''context_window_tokens must be greater than zero'')) (\<lambda>_.
     and_then (ensure (bu_reserved_output_tokens b = 0)
                 (InvalidBudget ''reserved_output_tokens must be greater than zero'')) (\<lambda>_.
     and_then (ensure (bu_minimum_output_tokens b = 0)
                 (InvalidBudget ''minimum_output_tokens must be greater than zero'')) (\<lambda>_.
     and_then (ensure (bu_reserved_output_tokens b < bu_minimum_output_tokens b)
                 (InvalidBudget ''minimum output reserve ({}) must not exceed target output ({})'')) (\<lambda>_.
     ensure (bu_context_window_tokens b \<le> saturating_add (bu_minimum_output_tokens b) (bu_safety_margin_tokens b))
       (InvalidBudget ''output reserve ({}) plus safety margin ({}) must be smaller than context window ({})'')))))"

definition available_input_tokens :: "token_budget \<Rightarrow> u64" where
  "available_input_tokens b =
     saturating_sub (saturating_sub (bu_context_window_tokens b) (bu_minimum_output_tokens b)) (bu_safety_margin_tokens b)"

definition resolve_output_tokens :: "token_budget \<Rightarrow> u64 \<Rightarrow> u64" where
  "resolve_output_tokens b input_tokens =
     min (bu_reserved_output_tokens b)
       (saturating_sub (saturating_sub (bu_context_window_tokens b) input_tokens) (bu_safety_margin_tokens b))"

subsection \<open>The guard\<close>

record token_guard =
  tg_meter :: token_meter
  tg_budget :: token_budget

definition new_guard :: "token_meter \<Rightarrow> token_budget \<Rightarrow> token_budget_error + token_guard" where
  "new_guard meter budget =
     and_then (validate_budget budget) (\<lambda>_. Inr \<lparr>tg_meter = meter, tg_budget = budget\<rparr>)"

definition exceeded :: "token_budget \<Rightarrow> u64 \<Rightarrow> token_budget_error" where
  "exceeded b estimated =
     Exceeded estimated (available_input_tokens b) (bu_context_window_tokens b) (bu_minimum_output_tokens b)
       (bu_minimum_output_tokens b) (bu_safety_margin_tokens b)"

definition report :: "token_budget \<Rightarrow> string \<Rightarrow> token_count_accuracy \<Rightarrow> token_breakdown \<Rightarrow> token_budget_report" where
  "report b meter accuracy estimate =
     \<lparr>bt_meter = meter, bt_accuracy = accuracy, bt_context_window_tokens = bu_context_window_tokens b,
      bt_reserved_output_tokens = bu_reserved_output_tokens b, bt_minimum_output_tokens = bu_minimum_output_tokens b,
      bt_selected_output_tokens = resolve_output_tokens b (tb_total_input_tokens estimate),
      bt_safety_margin_tokens = bu_safety_margin_tokens b, bt_available_input_tokens = available_input_tokens b,
      bt_estimate = estimate\<rparr>"

definition check_request :: "token_guard \<Rightarrow> token_estimate_request \<Rightarrow> token_budget_error + token_budget_report" where
  "check_request g request =
     and_then (map_err Meter (tm_estimate (tg_meter g) request)) (\<lambda>raw.
     let estimate = recompute_total raw in
     and_then (ensure (available_input_tokens (tg_budget g) < tb_total_input_tokens estimate)
                 (exceeded (tg_budget g) (tb_total_input_tokens estimate))) (\<lambda>_.
     Inr (report (tg_budget g) (tm_id (tg_meter g)) Estimated estimate)))"

definition check_provider_count ::
  "token_guard \<Rightarrow> provider_input_token_count \<Rightarrow> token_budget_error + token_budget_report" where
  "check_provider_count g count =
     (let estimate = \<lparr>tb_system_tokens = 0, tb_message_tokens = pc_input_tokens count, tb_tool_tokens = 0,
                      tb_protocol_tokens = 0, tb_total_input_tokens = pc_input_tokens count\<rparr> in
      and_then (ensure (available_input_tokens (tg_budget g) < pc_input_tokens count)
                  (exceeded (tg_budget g) (pc_input_tokens count))) (\<lambda>_.
      Inr (report (tg_budget g) (pc_counter count) (pc_accuracy count) estimate)))"

definition with_context_window :: "token_guard \<Rightarrow> u64 \<Rightarrow> token_budget_error + token_guard" where
  "with_context_window g context_window_tokens =
     new_guard (tg_meter g) ((tg_budget g)\<lparr>bu_context_window_tokens := context_window_tokens\<rparr>)"

subsection \<open>Admitted requests fit\<close>

lemma validate_budget_iff:
  "validate_budget b = Inr () \<longleftrightarrow>
     0 < unat (bu_minimum_output_tokens b) \<and> bu_minimum_output_tokens b \<le> bu_reserved_output_tokens b \<and>
     unat (bu_minimum_output_tokens b) + unat (bu_safety_margin_tokens b) < unat (bu_context_window_tokens b)"
proof -
  have "unat (bu_context_window_tokens b) < 2 ^ 64" using unsigned_less [of "bu_context_window_tokens b"] by simp
  then show ?thesis
    by (auto simp: validate_budget_def word_le_nat_alt word_less_nat_alt unat_saturating_add not_le not_less
        unat_gt_0 min_def unat_eq_0 split: if_splits)
qed

text \<open>The admission condition in exact arithmetic.\<close>

definition fits :: "token_budget \<Rightarrow> u64 \<Rightarrow> bool" where
  "fits b input \<longleftrightarrow>
     unat input + unat (bu_minimum_output_tokens b) + unat (bu_safety_margin_tokens b) \<le> unat (bu_context_window_tokens b)"

lemma available_iff:
  assumes "validate_budget b = Inr ()"
  shows "\<not> available_input_tokens b < input \<longleftrightarrow> fits b input"
  using assms unfolding validate_budget_iff
  by (auto simp: available_input_tokens_def fits_def word_less_nat_alt unat_saturating_sub)

lemma saturating_add_zero: "saturating_add 0 x = x" "saturating_add x 0 = x" for x :: u64
proof -
  have "unat x < 2 ^ 64" using unsigned_less [of x] by simp
  then have "unat (saturating_add 0 x) = unat x" "unat (saturating_add x 0) = unat x"
    by (simp_all add: unat_saturating_add)
  then show "saturating_add 0 x = x" "saturating_add x 0 = x" by (simp_all only: unsigned_word_eqI word_unat_eq_iff)
qed

lemma output_resolved:
  assumes "validate_budget b = Inr ()" and "fits b input"
  shows "unat input + unat (resolve_output_tokens b input) + unat (bu_safety_margin_tokens b) \<le> unat (bu_context_window_tokens b)"
    "bu_minimum_output_tokens b \<le> resolve_output_tokens b input" "resolve_output_tokens b input \<le> bu_reserved_output_tokens b"
  using assms unfolding validate_budget_iff
  by (auto simp: resolve_output_tokens_def fits_def word_le_nat_alt unat_saturating_sub min_def)

text \<open>Admission is exact and safe: a guard admits a request just when its input, the minimum output and
  the safety margin fit the window together, in exact arithmetic although every sum of the code saturates;
  what it admits leaves the margin free after the output it selects, and selects between the minimum and
  the target; shrinking the window keeps the meter and the output policy.\<close>

theorem admission_exact:
  assumes guard: "new_guard meter budget = Inr g"
  shows "(\<forall>count. (\<exists>r. check_provider_count g count = Inr r) \<longleftrightarrow> fits budget (pc_input_tokens count)) \<and>
    (\<forall>request r. check_request g request = Inr r \<or> (\<exists>count. check_provider_count g count = Inr r) \<longrightarrow>
       unat (tb_total_input_tokens (bt_estimate r)) + unat (bt_selected_output_tokens r) + unat (bt_safety_margin_tokens r) \<le>
         unat (bt_context_window_tokens r) \<and>
       bt_minimum_output_tokens r \<le> bt_selected_output_tokens r \<and> bt_selected_output_tokens r \<le> bt_reserved_output_tokens r \<and>
       recompute_total (bt_estimate r) = bt_estimate r) \<and>
    (\<forall>window g'. with_context_window g window = Inr g' \<longrightarrow>
       tg_meter g' = meter \<and> bu_context_window_tokens (tg_budget g') = window \<and>
       bu_minimum_output_tokens (tg_budget g') = bu_minimum_output_tokens budget \<and>
       validate_budget (tg_budget g') = Inr ())"
proof -
  have valid: "validate_budget budget = Inr ()" and g: "g = \<lparr>tg_meter = meter, tg_budget = budget\<rparr>"
    using guard by (auto simp: new_guard_def)
  have count: "(\<exists>r. check_provider_count g count = Inr r) \<longleftrightarrow> fits budget (pc_input_tokens count)" for count
    using available_iff [OF valid, of "pc_input_tokens count"] by (auto simp: check_provider_count_def g Let_def)
  have total: "recompute_total (recompute_total e) = recompute_total e" for e
    by (simp add: recompute_total_def)
  have counted: "recompute_total \<lparr>tb_system_tokens = 0, tb_message_tokens = n, tb_tool_tokens = 0,
      tb_protocol_tokens = 0, tb_total_input_tokens = n\<rparr> =
      \<lparr>tb_system_tokens = 0, tb_message_tokens = n, tb_tool_tokens = 0, tb_protocol_tokens = 0, tb_total_input_tokens = n\<rparr>" for n
    by (simp add: recompute_total_def saturating_add_zero)
  have admitted: "unat (tb_total_input_tokens (bt_estimate r)) + unat (bt_selected_output_tokens r) + unat (bt_safety_margin_tokens r) \<le>
         unat (bt_context_window_tokens r) \<and>
       bt_minimum_output_tokens r \<le> bt_selected_output_tokens r \<and> bt_selected_output_tokens r \<le> bt_reserved_output_tokens r \<and>
       recompute_total (bt_estimate r) = bt_estimate r"
    if "r = report budget m a e" "fits budget (tb_total_input_tokens e)" "recompute_total e = e" for r m a e
    using that output_resolved [OF valid that(2)] by (simp add: report_def)
  have "recompute_total (bt_estimate r) = bt_estimate r \<and>
      (\<exists>m a e. r = report budget m a e \<and> fits budget (tb_total_input_tokens e) \<and> recompute_total e = e)"
    if "check_request g request = Inr r" for request r
    using that available_iff [OF valid] total by (auto simp: check_request_def g Let_def report_def)
  moreover have "\<exists>m a e. r = report budget m a e \<and> fits budget (tb_total_input_tokens e) \<and> recompute_total e = e"
    if "check_provider_count g count = Inr r" for count r
    using that available_iff [OF valid] counted [of "pc_input_tokens count"]
    by (intro exI [of _ "pc_counter count"] exI [of _ "pc_accuracy count"]
        exI [of _ "\<lparr>tb_system_tokens = 0, tb_message_tokens = pc_input_tokens count, tb_tool_tokens = 0,
          tb_protocol_tokens = 0, tb_total_input_tokens = pc_input_tokens count\<rparr>"])
      (auto simp: check_provider_count_def g Let_def split: if_splits)
  ultimately have reported: "\<exists>m a e. r = report budget m a e \<and> fits budget (tb_total_input_tokens e) \<and> recompute_total e = e"
    if "check_request g request = Inr r \<or> (\<exists>count. check_provider_count g count = Inr r)" for request r
    using that by blast
  show ?thesis
  proof (intro conjI allI impI count)
    fix request r
    assume "check_request g request = Inr r \<or> (\<exists>count. check_provider_count g count = Inr r)"
    from reported [OF this] obtain m a e
      where "r = report budget m a e" "fits budget (tb_total_input_tokens e)" "recompute_total e = e" by blast
    note whole = admitted [OF this]
    show "unat (tb_total_input_tokens (bt_estimate r)) + unat (bt_selected_output_tokens r) + unat (bt_safety_margin_tokens r) \<le>
        unat (bt_context_window_tokens r)" by (rule conjunct1 [OF whole])
    show "bt_minimum_output_tokens r \<le> bt_selected_output_tokens r" using whole by (elim conjE)
    show "bt_selected_output_tokens r \<le> bt_reserved_output_tokens r" using whole by (elim conjE)
    show "recompute_total (bt_estimate r) = bt_estimate r" using whole by (elim conjE)
  qed (auto simp: with_context_window_def new_guard_def g)
qed

theorem admission_exact_witness:
  "\<exists>g. new_guard (conservative_byte_meter \<lparr>js_values = (\<lambda>_. Inr 1), js_route = (\<lambda>_. Inr 1)\<rparr>)
       \<lparr>bu_context_window_tokens = 262144, bu_reserved_output_tokens = 49152, bu_minimum_output_tokens = 16384,
        bu_safety_margin_tokens = 4096\<rparr> = Inr g \<and>
     (\<exists>r. check_provider_count g (exact_request ''exact'' 220000) = Inr r \<and> bt_selected_output_tokens r \<le> 49152) \<and>
     \<not> (\<exists>r. check_provider_count g (exact_request ''exact'' 242000) = Inr r)"
proof -
  let ?b = "\<lparr>bu_context_window_tokens = 262144, bu_reserved_output_tokens = 49152, bu_minimum_output_tokens = 16384,
        bu_safety_margin_tokens = 4096\<rparr> :: token_budget"
  let ?m = "conservative_byte_meter \<lparr>js_values = (\<lambda>_. Inr 1), js_route = (\<lambda>_. Inr 1)\<rparr>"
  have "validate_budget ?b = Inr ()" by (simp add: validate_budget_iff)
  then obtain g where g: "new_guard ?m ?b = Inr g" by (simp add: new_guard_def)
  note exact = admission_exact [OF g]
  have "fits ?b 220000" "\<not> fits ?b 242000" by (simp_all add: fits_def)
  with exact have "\<exists>r. check_provider_count g (exact_request ''exact'' 220000) = Inr r"
    "\<not> (\<exists>r. check_provider_count g (exact_request ''exact'' 242000) = Inr r)"
    by (simp_all add: exact_request_def)
  moreover have "bt_selected_output_tokens r \<le> 49152" if "check_provider_count g (exact_request ''exact'' 220000) = Inr r" for r
  proof -
    have "bt_reserved_output_tokens r = 49152"
      using that g by (auto simp: check_provider_count_def new_guard_def report_def Let_def)
    with exact that show ?thesis by metis
  qed
  ultimately show ?thesis using g by blast
qed

end
