(* ===== verification/Sse.thy ===== *)
theory Sse
  imports Prelude
begin

text \<open>
  The incremental parser of server-sent events (crates/xharness-provider-openai/src/sse.rs): bytes arrive in
  chunks of any size, the parser buffers the unfinished line and the unfinished event and returns the events
  a chunk completes.  \<open>consume_line\<close> and \<open>feed\<close> return the parser also when they fail, the way \<open>&mut self\<close>
  leaves it.
\<close>

subsection \<open>Valid UTF-8\<close>

definition continuation :: "char \<Rightarrow> bool" where
  "continuation c \<longleftrightarrow> 128 \<le> byte c \<and> byte c < 192"

text \<open>The well-formed sequences by their first byte: how many bytes follow and the range of the first of them
  (\<open>str::from_utf8\<close>): overlong forms, surrogates and scalars above 10FFFF are refused.\<close>

definition lead_byte :: "nat \<Rightarrow> (nat \<times> nat \<times> nat) option" where
  "lead_byte a =
     (if a < 128 then Some (0, 0, 0)
      else if a < 194 then None
      else if a < 224 then Some (1, 128, 192)
      else if a = 224 then Some (2, 160, 192)
      else if a = 237 then Some (2, 128, 160)
      else if a < 240 then Some (2, 128, 192)
      else if a = 240 then Some (3, 144, 192)
      else if a < 244 then Some (3, 128, 192)
      else if a = 244 then Some (3, 128, 144)
      else None)"

definition continued :: "nat \<Rightarrow> nat \<Rightarrow> nat \<Rightarrow> string \<Rightarrow> bool" where
  "continued n low high s \<longleftrightarrow>
     n \<le> length s \<and> list_all continuation (take n s) \<and> (0 < n \<longrightarrow> low \<le> byte (hd s) \<and> byte (hd s) < high)"

text \<open>Bytes of the character a string starts with, 0 when no character does.\<close>

fun utf8_width :: "string \<Rightarrow> nat" where
  "utf8_width [] = 0"
| "utf8_width (a # s) =
     (case lead_byte (byte a) of
        None \<Rightarrow> 0
      | Some (n, low, high) \<Rightarrow> if continued n low high s then Suc n else 0)"

function utf8_valid :: "string \<Rightarrow> bool" where
  "utf8_valid s =
     (if s = [] then True
      else if utf8_width s = 0 then False
      else utf8_valid (drop (utf8_width s) s))"
  by pat_completeness auto
termination
  by (relation "measure length") auto

declare utf8_valid.simps [simp del]

lemma utf8_valid_Nil [simp]: "utf8_valid []"
  by (simp add: utf8_valid.simps)

lemma continued_append: "continued n low high s \<Longrightarrow> continued n low high (s @ t)"
  by (cases "n = 0") (auto simp: continued_def hd_append)

lemma utf8_width_le: "utf8_width s \<le> length s"
  by (cases s) (auto simp: continued_def split: option.splits)

lemma utf8_width_append: "utf8_width s \<noteq> 0 \<Longrightarrow> utf8_width (s @ t) = utf8_width s"
  by (cases s) (auto simp: continued_append split: option.splits if_splits)

lemma utf8_valid_append: "utf8_valid s \<Longrightarrow> utf8_valid (s @ t) = utf8_valid t"
proof (induction s rule: utf8_valid.induct)
  case (1 s)
  show ?case
  proof (cases "s = []")
    case False
    with "1.prems" have w: "utf8_width s \<noteq> 0" and v: "utf8_valid (drop (utf8_width s) s)"
      by (auto simp: utf8_valid.simps [of s] split: if_splits)
    with "1.IH" False have "utf8_valid (drop (utf8_width s) s @ t) = utf8_valid t" by blast
    with w False show ?thesis
      by (subst utf8_valid.simps) (simp add: utf8_width_append utf8_width_le)
  qed simp
qed

subsection \<open>The parser\<close>

record sse_event =
  sse_event :: string
  sse_data :: string
  sse_id :: string

record sse_parser =
  sp_pending :: string
  sp_data_lines :: "string list"
  sp_data_bytes :: nat
  sp_event_name :: string
  sp_last_event_id :: string
  sp_max_pending_bytes :: nat
  sp_max_event_bytes :: nat

datatype sse_error =
    InvalidUtf8
  | PendingExceeds nat
  | IncompleteUtf8
  | EventExceeds nat

definition with_limits :: "nat \<Rightarrow> nat \<Rightarrow> sse_parser" where
  "with_limits max_pending_bytes max_event_bytes =
     \<lparr>sp_pending = [], sp_data_lines = [], sp_data_bytes = 0, sp_event_name = [], sp_last_event_id = [],
      sp_max_pending_bytes = max_pending_bytes, sp_max_event_bytes = max_event_bytes\<rparr>"

abbreviation LF :: char where "LF \<equiv> CHR 0x0A"
abbreviation CR :: char where "CR \<equiv> CHR 0x0D"

text \<open>\<open>lines.join("\n")\<close>\<close>

fun join_lines :: "string list \<Rightarrow> string" where
  "join_lines [] = []"
| "join_lines [l] = l"
| "join_lines (l # m # ls) = l @ LF # join_lines (m # ls)"

definition dispatch :: "sse_parser \<Rightarrow> sse_event list \<Rightarrow> sse_parser \<times> sse_event list" where
  "dispatch p out =
     (if sp_data_lines p = [] then (p\<lparr>sp_event_name := []\<rparr>, out)
      else (p\<lparr>sp_event_name := [], sp_data_lines := [], sp_data_bytes := 0\<rparr>,
            out @ [\<lparr>sse_event = sp_event_name p, sse_data = join_lines (sp_data_lines p),
                       sse_id = sp_last_event_id p\<rparr>]))"

text \<open>\<open>split_once(':')\<close> and \<open>strip_prefix(' ')\<close>\<close>

definition split_field :: "string \<Rightarrow> string \<times> string" where
  "split_field line =
     (case position (\<lambda>c. c = CHR '':'') line of
        Some i \<Rightarrow> let v = drop (Suc i) line in
          (take i line, if v \<noteq> [] \<and> hd v = CHR '' '' then tl v else v)
      | None \<Rightarrow> (line, []))"

definition set_field :: "sse_parser \<Rightarrow> string \<Rightarrow> string \<Rightarrow> sse_parser" where
  "set_field p field v =
     (if field = ''data'' then
        p\<lparr>sp_data_bytes :=
            saturating_add_usize (saturating_add_usize (sp_data_bytes p) (if sp_data_lines p = [] then 0 else 1))
              (length v),
          sp_data_lines := sp_data_lines p @ [v]\<rparr>
      else if field = ''event'' then p\<lparr>sp_event_name := v\<rparr>
      else if field = ''id'' \<and> CHR 0x00 \<notin> set v then p\<lparr>sp_last_event_id := v\<rparr>
      else p)"

definition retained_bytes :: "sse_parser \<Rightarrow> nat" where
  "retained_bytes p =
     saturating_add_usize (saturating_add_usize (sp_data_bytes p) (length (sp_event_name p)))
       (length (sp_last_event_id p))"

definition consume_line ::
  "sse_parser \<Rightarrow> string \<Rightarrow> sse_event list \<Rightarrow> sse_parser \<times> sse_event list \<times> (sse_error + unit)" where
  "consume_line p line out =
     (if line = [] then (case dispatch p out of (p', out') \<Rightarrow> (p', out', Inr ()))
      else if hd line = CHR '':'' then (p, out, Inr ())
      else (case split_field line of (field, v) \<Rightarrow>
        let p' = set_field p field v in
        (p', out, ensure (sp_max_event_bytes p' < retained_bytes p') (EventExceeds (sp_max_event_bytes p')))))"

text \<open>One line of the buffer: the carriage return before the line feed goes, the bytes have to be text.\<close>

definition strip_cr :: "string \<Rightarrow> string" where
  "strip_cr content = (if content \<noteq> [] \<and> last content = CR then butlast content else content)"

definition take_line ::
  "sse_parser \<Rightarrow> string \<Rightarrow> sse_event list \<Rightarrow> sse_parser \<times> sse_event list \<times> (sse_error + unit)" where
  "take_line p content out =
     (if utf8_valid (strip_cr content) then consume_line p (strip_cr content) out
      else (p, out, Inl InvalidUtf8))"

text \<open>The loop of \<open>feed\<close>; \<open>left\<close> is \<open>pending[consumed..]\<close>.\<close>

function feed_lines ::
  "sse_parser \<Rightarrow> string \<Rightarrow> sse_event list \<Rightarrow> sse_parser \<times> string \<times> sse_event list \<times> (sse_error + unit)" where
  "feed_lines p left out =
     (case position (\<lambda>c. c = LF) left of
        None \<Rightarrow> (p, left, out, Inr ())
      | Some i \<Rightarrow>
          (case take_line p (take i left) out of
             (p', out', Inl e) \<Rightarrow> (p', drop (Suc i) left, out', Inl e)
           | (p', out', Inr _) \<Rightarrow> feed_lines p' (drop (Suc i) left) out'))"
  by pat_completeness auto
termination
  by (relation "measure (\<lambda>(p, left, out). length left)") (auto dest!: position_SomeD)

declare feed_lines.simps [simp del]

definition feed :: "sse_parser \<Rightarrow> string \<Rightarrow> bool \<Rightarrow> sse_parser \<times> (sse_error + sse_event list)" where
  "feed p chunk final_chunk =
     (let p0 = p\<lparr>sp_pending := sp_pending p @ chunk\<rparr> in
      case feed_lines p0 (sp_pending p0) [] of
        (p1, left, out, Inl e) \<Rightarrow> (p1, Inl e)
      | (p1, left, out, Inr _) \<Rightarrow>
          (case (if final_chunk \<and> left \<noteq> [] then (case take_line p1 left out of (p2, out', r) \<Rightarrow> (p2, [], out', r))
                 else (p1, left, out, Inr ())) of
             (p2, left', out', Inl e) \<Rightarrow> (p2, Inl e)
           | (p2, left', out', Inr _) \<Rightarrow>
               let p3 = p2\<lparr>sp_pending := left'\<rparr> in
               if sp_max_pending_bytes p3 < length left' then (p3, Inl (PendingExceeds (sp_max_pending_bytes p3)))
               else if final_chunk then
                 (if left' \<noteq> [] then (p3, Inl IncompleteUtf8)
                  else (case dispatch p3 out' of (p4, out'') \<Rightarrow> (p4, Inr out'')))
               else (p3, Inr out')))"

text \<open>A body read chunk by chunk, then closed by \<open>feed([], true)\<close>, the way the provider drives the parser.\<close>

fun feed_body :: "sse_parser \<Rightarrow> string list \<Rightarrow> sse_parser \<times> (sse_error + sse_event list)" where
  "feed_body p [] = feed p [] True"
| "feed_body p (c # cs) =
     (case feed p c False of
        (p', Inl e) \<Rightarrow> (p', Inl e)
      | (p', Inr out) \<Rightarrow>
          (case feed_body p' cs of (p'', Inl e) \<Rightarrow> (p'', Inl e) | (p'', Inr out') \<Rightarrow> (p'', Inr (out @ out'))))"

subsection \<open>Chunk boundaries\<close>

lemma utf8_valid_Cons: "byte a < 128 \<Longrightarrow> utf8_valid (a # s) = utf8_valid s"
  by (simp add: utf8_valid.simps [of "_ # _"] lead_byte_def continued_def)

lemmas sse_eval = feed_lines.simps take_line_def strip_cr_def utf8_valid_Cons consume_line_def split_field_def set_field_def dispatch_def retained_bytes_def
  saturating_add_usize_def usize_max_def Let_def

lemmas line_defs = take_line_def consume_line_def dispatch_def set_field_def

lemma take_line_frame:
  "take_line (p\<lparr>sp_pending := x\<rparr>) content (seen @ out) =
     (case take_line p content out of (p', out', r) \<Rightarrow> (p'\<lparr>sp_pending := x\<rparr>, seen @ out', r))"
  by (simp add: line_defs retained_bytes_def Let_def split: prod.split)

lemma take_line_keeps:
  assumes "take_line p content out = (p', out', r)"
  shows "sp_pending p' = sp_pending p" "sp_max_pending_bytes p' = sp_max_pending_bytes p"
    "sp_max_event_bytes p' = sp_max_event_bytes p"
  using assms by (auto simp: line_defs Let_def split: if_splits prod.splits)

lemma feed_lines_frame:
  "feed_lines (p\<lparr>sp_pending := x\<rparr>) left (seen @ out) =
     (case feed_lines p left out of (p', left', out', r) \<Rightarrow> (p'\<lparr>sp_pending := x\<rparr>, left', seen @ out', r))"
proof (induction p left out rule: feed_lines.induct)
  case (1 p left out)
  show ?case
  proof (cases "position (\<lambda>c. c = LF) left")
    case (Some i)
    obtain p' out' r where line: "take_line p (take i left) out = (p', out', r)" by (cases "take_line p (take i left) out")
    show ?thesis
    proof (cases r)
      case (Inl e)
      with Some line show ?thesis
        by (subst (1 2) feed_lines.simps) (simp add: take_line_frame)
    next
      case (Inr u)
      with "1.IH" Some line have "feed_lines (p'\<lparr>sp_pending := x\<rparr>) (drop (Suc i) left) (seen @ out') =
          (case feed_lines p' (drop (Suc i) left) out' of
             (p', left', out', r) \<Rightarrow> (p'\<lparr>sp_pending := x\<rparr>, left', seen @ out', r))"
        by simp
      with Some line Inr show ?thesis
        by (subst (1 2) feed_lines.simps) (simp add: take_line_frame)
    qed
  qed (subst (1 2) feed_lines.simps, simp)
qed

lemma feed_lines_keeps:
  "feed_lines p left out = (p', left', out', r) \<Longrightarrow>
     sp_pending p' = sp_pending p \<and> sp_max_pending_bytes p' = sp_max_pending_bytes p \<and>
     sp_max_event_bytes p' = sp_max_event_bytes p \<and> length left' \<le> length left"
proof (induction p left out arbitrary: p' left' out' r rule: feed_lines.induct)
  case (1 p left out)
  show ?case
  proof (cases "position (\<lambda>c. c = LF) left")
    case None
    with "1.prems" show ?thesis by (subst (asm) feed_lines.simps) simp
  next
    case (Some i)
    obtain q evs r' where line: "take_line p (take i left) out = (q, evs, r')" by (cases "take_line p (take i left) out")
    note kept = take_line_keeps [OF line]
    show ?thesis
    proof (cases r')
      case (Inl e)
      with Some line kept "1.prems" show ?thesis by (subst (asm) feed_lines.simps) auto
    next
      case (Inr u)
      with Some line "1.prems" have "feed_lines q (drop (Suc i) left) evs = (p', left', out', r)"
        by (subst (asm) feed_lines.simps) simp
      with "1.IH" [OF Some line [symmetric] refl Inr] kept show ?thesis by fastforce
    qed
  qed
qed

lemma position_of_append:
  "position P (xs @ ys) =
     (case position P xs of Some i \<Rightarrow> Some i | None \<Rightarrow> (case position P ys of Some i \<Rightarrow> Some (length xs + i) | None \<Rightarrow> None))"
  by (induction xs) (auto split: option.splits)

lemma feed_lines_append:
  "feed_lines p (left @ rest) out =
     (case feed_lines p left out of
        (p', left', out', Inl e) \<Rightarrow> (p', left' @ rest, out', Inl e)
      | (p', left', out', Inr _) \<Rightarrow> feed_lines p' (left' @ rest) out')"
proof (induction p left out rule: feed_lines.induct)
  case (1 p left out)
  show ?case
  proof (cases "position (\<lambda>c. c = LF) left")
    case None
    then have "feed_lines p left out = (p, left, out, Inr ())" by (subst feed_lines.simps) simp
    then show ?thesis by simp
  next
    case (Some i)
    then have i: "i < length left" by (simp add: position_SomeD)
    obtain q evs r where line: "take_line p (take i left) out = (q, evs, r)" by (cases "take_line p (take i left) out")
    have whole: "feed_lines p (left @ rest) out =
        (case take_line p (take i left) out of
           (p', out', Inl e) \<Rightarrow> (p', drop (Suc i) left @ rest, out', Inl e)
         | (p', out', Inr _) \<Rightarrow> feed_lines p' (drop (Suc i) left @ rest) out')"
      using Some i by (subst feed_lines.simps) (simp add: position_of_append)
    show ?thesis
    proof (cases r)
      case (Inl e)
      with Some line have "feed_lines p left out = (q, drop (Suc i) left, evs, Inl e)" by (subst feed_lines.simps) simp
      with whole line Inl show ?thesis by simp
    next
      case (Inr u)
      with Some line have "feed_lines p left out = feed_lines q (drop (Suc i) left) evs" by (subst feed_lines.simps) simp
      with whole line Inr "1.IH" [OF Some line [symmetric] refl Inr] show ?thesis by simp
    qed
  qed
qed

lemma feed_open:
  "feed p c False =
     (case feed_lines p (sp_pending p @ c) [] of
        (p', left, out, Inl e) \<Rightarrow> (p'\<lparr>sp_pending := sp_pending p @ c\<rparr>, Inl e)
      | (p', left, out, Inr _) \<Rightarrow>
          (p'\<lparr>sp_pending := left\<rparr>,
           if sp_max_pending_bytes p < length left then Inl (PendingExceeds (sp_max_pending_bytes p)) else Inr out))"
proof -
  obtain p' left out r where lines: "feed_lines p (sp_pending p @ c) [] = (p', left, out, r)"
    by (cases "feed_lines p (sp_pending p @ c) []")
  then have "feed_lines (p\<lparr>sp_pending := sp_pending p @ c\<rparr>) (sp_pending p @ c) [] =
      (p'\<lparr>sp_pending := sp_pending p @ c\<rparr>, left, out, r)"
    using feed_lines_frame [of "sp_pending p @ c" p "sp_pending p @ c" "[]" "[]"] by simp
  with lines feed_lines_keeps [OF lines] show ?thesis by (cases r) (simp_all add: feed_def)
qed

text \<open>What \<open>feed(_, true)\<close> does with the bytes that are left after the last line feed.\<close>

definition finish :: "sse_parser \<Rightarrow> string \<Rightarrow> sse_event list \<Rightarrow> sse_parser \<times> (sse_error + sse_event list)" where
  "finish p left out =
     (case (if left \<noteq> [] then take_line p left out else (p, out, Inr ())) of
        (p', out', Inl e) \<Rightarrow> (p', Inl e)
      | (p', out', Inr _) \<Rightarrow> (case dispatch (p'\<lparr>sp_pending := []\<rparr>) out' of (p'', out'') \<Rightarrow> (p'', Inr out'')))"

lemma feed_final:
  "feed p c True =
     (case feed_lines p (sp_pending p @ c) [] of
        (p', left, out, Inl e) \<Rightarrow> (p'\<lparr>sp_pending := sp_pending p @ c\<rparr>, Inl e)
      | (p', left, out, Inr _) \<Rightarrow> finish (p'\<lparr>sp_pending := sp_pending p @ c\<rparr>) left out)"
  using feed_lines_frame [of "sp_pending p @ c" p "sp_pending p @ c" "[]" "[]"]
  by (cases "feed_lines p (sp_pending p @ c) []")
    (auto simp: feed_def finish_def Let_def split: sum.splits prod.splits)

lemma finish_frame:
  "finish (p\<lparr>sp_pending := x\<rparr>) left (seen @ out) =
     (case finish (p\<lparr>sp_pending := y\<rparr>) left out of
        (p', Inl e) \<Rightarrow> (p'\<lparr>sp_pending := x\<rparr>, Inl e) | (p', Inr out') \<Rightarrow> (p', Inr (seen @ out')))"
  using take_line_frame [of x p left seen out] take_line_frame [of y p left "[]" out]
  by (cases "take_line p left out") (auto simp: finish_def dispatch_def split: sum.splits prod.splits)

text \<open>A chunk read in two pieces: the same events, the same parser, the same failure.\<close>

lemma feed_two:
  assumes "feed p c False = (p1, Inr out1)"
  shows "feed p (c @ d) True =
     (case feed p1 d True of
        (p2, Inl e) \<Rightarrow> (p2\<lparr>sp_pending := sp_pending p @ c @ d\<rparr>, Inl e)
      | (p2, Inr out2) \<Rightarrow> (p2, Inr (out1 @ out2)))"
proof -
  obtain q left where first: "feed_lines p (sp_pending p @ c) [] = (q, left, out1, Inr ())" and p1: "p1 = q\<lparr>sp_pending := left\<rparr>"
    using assms unfolding feed_open by (auto split: prod.splits sum.splits if_splits)
  have whole: "feed_lines p (sp_pending p @ c @ d) [] = feed_lines q (left @ d) (out1 @ [])"
    using feed_lines_append [of p "sp_pending p @ c" d "[]"] first by simp
  obtain q' left' out r where rest: "feed_lines q (left @ d) [] = (q', left', out, r)" by (cases "feed_lines q (left @ d) []")
  have seen: "feed_lines q (left @ d) (out1 @ []) = (q', left', out1 @ out, r)"
    using feed_lines_frame [of "sp_pending q" q "left @ d" out1 "[]"] rest
      feed_lines_keeps [OF rest] by simp
  have second: "feed_lines p1 (left @ d) [] = (q'\<lparr>sp_pending := left\<rparr>, left', out, r)"
    using feed_lines_frame [of left q "left @ d" "[]" "[]"] rest p1 by simp
  show ?thesis
  proof (cases r)
    case (Inl e)
    with whole seen second p1 show ?thesis by (simp add: feed_final)
  next
    case (Inr u)
    with whole seen second p1 show ?thesis
      using finish_frame [of "sp_pending p @ c @ d" q' left' out1 out "left @ d"]
      by (simp add: feed_final split: sum.splits prod.splits)
  qed
qed

text \<open>No line is longer than \<open>m\<close>, the first one with \<open>k\<close> bytes before it.\<close>

fun lines_within :: "nat \<Rightarrow> nat \<Rightarrow> string \<Rightarrow> bool" where
  "lines_within m k [] \<longleftrightarrow> k \<le> m"
| "lines_within m k (c # s) \<longleftrightarrow> k \<le> m \<and> lines_within m (if c = LF then 0 else Suc k) s"

lemma lines_within_mono: "lines_within m k s \<Longrightarrow> j \<le> k \<Longrightarrow> lines_within m j s"
  by (induction s arbitrary: j k) (auto split: if_splits)

lemma lines_within_suffix: "lines_within m k (s @ t) \<Longrightarrow> lines_within m 0 t"
  by (induction s arbitrary: k) (auto intro: lines_within_mono)

lemma lines_within_short: "k + length s \<le> m \<Longrightarrow> lines_within m k s"
  by (induction s arbitrary: k) auto

lemma lines_within_line:
  "LF \<notin> set l \<Longrightarrow> lines_within m k (l @ s) \<Longrightarrow> k + length l \<le> m"
proof (induction l arbitrary: k)
  case Nil
  then show ?case by (cases s) auto
next
  case (Cons c l)
  with Cons.IH [of "Suc k"] show ?case by (auto split: if_splits)
qed

lemma lines_within_LF:
  "LF \<notin> set l \<Longrightarrow> k + length l \<le> m \<Longrightarrow> lines_within m 0 s \<Longrightarrow> lines_within m k (l @ LF # s)"
  by (induction l arbitrary: k) auto

lemma feed_lines_rest:
  "feed_lines p left out = (p', left', out', Inr u) \<Longrightarrow> LF \<notin> set left' \<and> (\<exists>read. left = read @ left')"
proof (induction p left out arbitrary: p' left' out' rule: feed_lines.induct)
  case (1 p left out)
  show ?case
  proof (cases "position (\<lambda>c. c = LF) left")
    case None
    with "1.prems" show ?thesis by (subst (asm) feed_lines.simps) (auto simp: position_None_iff)
  next
    case (Some i)
    obtain q evs r where line: "take_line p (take i left) out = (q, evs, r)" by (cases "take_line p (take i left) out")
    with Some "1.prems" have rest: "r = Inr () \<and> feed_lines q (drop (Suc i) left) evs = (p', left', out', Inr u)"
      by (subst (asm) feed_lines.simps) (simp split: sum.splits)
    with "1.IH" [OF Some line [symmetric] refl, of "()"] have "LF \<notin> set left'" "\<exists>read. drop (Suc i) left = read @ left'" by simp_all
    then show ?thesis by (metis append_assoc append_take_drop_id)
  qed
qed

lemma feed_two_error:
  assumes "feed p c False = (p1, Inl e)" and "lines_within (sp_max_pending_bytes p) 0 (sp_pending p @ c @ d)"
  shows "snd (feed p (c @ d) True) = Inl e"
proof -
  obtain q left out r where first: "feed_lines p (sp_pending p @ c) [] = (q, left, out, r)" by (cases "feed_lines p (sp_pending p @ c) []")
  have r: "r = Inl e"
  proof (cases r)
    case (Inr u)
    from feed_lines_rest [OF first [unfolded Inr]] obtain read where left: "LF \<notin> set left" "sp_pending p @ c = read @ left" by blast
    with assms(2) have "lines_within (sp_max_pending_bytes p) 0 (read @ left @ d)" by (metis append_assoc)
    then have "length left \<le> sp_max_pending_bytes p"
      using lines_within_suffix lines_within_line [OF left(1), of _ 0 d] by fastforce
    with assms(1) first Inr show ?thesis unfolding feed_open by simp
  qed (use assms(1) first in \<open>simp add: feed_open\<close>)
  then have "feed_lines p (sp_pending p @ c @ d) [] = (q, left @ d, out, Inl e)"
    using feed_lines_append [of p "sp_pending p @ c" d "[]"] first by simp
  then show ?thesis by (simp add: feed_final)
qed

lemma feed_body_whole:
  "feed_body p cs = (p', Inr out) \<Longrightarrow> feed p (concat cs) True = (p', Inr out)"
  by (induction p cs arbitrary: p' out rule: feed_body.induct)
    (auto simp: feed_two split: prod.splits sum.splits)

lemma feed_open_pending:
  assumes "feed p c False = (p', Inr out)"
  shows "\<exists>read. sp_pending p @ c = read @ sp_pending p'" "sp_max_pending_bytes p' = sp_max_pending_bytes p"
proof -
  obtain q left evs r where lines: "feed_lines p (sp_pending p @ c) [] = (q, left, evs, r)"
    by (cases "feed_lines p (sp_pending p @ c) []")
  with assms have r: "r = Inr ()" and p': "p' = q\<lparr>sp_pending := left\<rparr>" by (auto simp: feed_open split: sum.splits if_splits)
  from feed_lines_rest [OF lines [unfolded r]] show "\<exists>read. sp_pending p @ c = read @ sp_pending p'" by (simp add: p')
  from feed_lines_keeps [OF lines] show "sp_max_pending_bytes p' = sp_max_pending_bytes p" by (simp add: p')
qed

lemma feed_body_result:
  "lines_within (sp_max_pending_bytes p) 0 (sp_pending p @ concat cs) \<Longrightarrow>
     snd (feed_body p cs) = snd (feed p (concat cs) True)"
proof (induction p cs rule: feed_body.induct)
  case (2 p c cs)
  obtain p1 r where first: "feed p c False = (p1, r)" by (cases "feed p c False")
  show ?case
  proof (cases r)
    case (Inl e)
    with first feed_two_error [of p c p1 e "concat cs"] "2.prems" show ?thesis by simp
  next
    case (Inr out)
    with first have "feed p c False = (p1, Inr out)" by simp
    note kept = feed_open_pending [OF this] and two = feed_two [OF this, of "concat cs"]
    from kept(1) obtain read where "sp_pending p @ c = read @ sp_pending p1" by blast
    then have "sp_pending p @ concat (c # cs) = read @ sp_pending p1 @ concat cs"
      by (metis append_assoc concat.simps(2))
    with "2.prems" have "lines_within (sp_max_pending_bytes p1) 0 (sp_pending p1 @ concat cs)"
      unfolding kept(2) by (metis lines_within_suffix)
    with "2.IH" first Inr have "snd (feed_body p1 cs) = snd (feed p1 (concat cs) True)" by simp
    with first Inr two show ?thesis
      by (cases "feed_body p1 cs"; cases "feed p1 (concat cs) True") (auto split: sum.splits)
  qed
qed simp

text \<open>Property C14. The chunks a body arrives in do not matter: a body that is read to its end in pieces gives the events
  and leaves the parser that reading it at once does; a body no longer than the pending limit has the same
  result, events or error, however it is cut.\<close>

theorem chunks_unobservable:
  "(\<forall>p' out. feed_body p chunks = (p', Inr out) \<longrightarrow> feed p (concat chunks) True = (p', Inr out)) \<and>
   (length (sp_pending p) + length (concat chunks) \<le> sp_max_pending_bytes p \<longrightarrow>
      snd (feed_body p chunks) = snd (feed p (concat chunks) True))"
  using feed_body_whole feed_body_result lines_within_short [of 0 "sp_pending p @ concat chunks"] by simp

theorem chunks_unobservable_witness:
  "feed (with_limits 64 64) ''data:ab

'' True = (with_limits 64 64, Inr [\<lparr>sse_event = [], sse_data = ''ab'', sse_id = []\<rparr>]) \<and>
   snd (feed_body (with_limits 64 64) [''data:a'', ''b

'']) = Inr [\<lparr>sse_event = [], sse_data = ''ab'', sse_id = []\<rparr>]"
proof -
  have "feed (with_limits 64 64) ''data:ab

'' True = (with_limits 64 64, Inr [\<lparr>sse_event = [], sse_data = ''ab'', sse_id = []\<rparr>])"
    by (simp add: with_limits_def feed_def sse_eval)
  with chunks_unobservable [of "with_limits 64 64" "[''data:a'', ''b

'']"] show ?thesis by (simp add: with_limits_def)
qed

subsection \<open>Memory\<close>

lemma length_join_lines_snoc:
  "length (join_lines (ls @ [l])) = length (join_lines ls) + (if ls = [] then 0 else 1) + length l"
  by (induction ls rule: join_lines.induct) auto

definition sse_wf :: "sse_parser \<Rightarrow> bool" where
  "sse_wf p \<longleftrightarrow>
     sp_data_bytes p = min (length (join_lines (sp_data_lines p))) usize_max \<and>
     retained_bytes p \<le> sp_max_event_bytes p"

definition event_bytes :: "sse_event \<Rightarrow> nat" where
  "event_bytes e = length (sse_data e) + length (sse_event e) + length (sse_id e)"

lemma sse_wf_bytes:
  assumes "sse_wf p" and "sp_max_event_bytes p < usize_max"
  shows "length (join_lines (sp_data_lines p)) + length (sp_event_name p) + length (sp_last_event_id p) \<le> sp_max_event_bytes p"
  using assms by (auto simp: sse_wf_def retained_bytes_def saturating_add_usize_def min_def split: if_splits)

lemma dispatch_wf:
  assumes "sse_wf p" and "dispatch p out = (p', out')"
  shows "sse_wf p' \<and> sp_max_event_bytes p' = sp_max_event_bytes p \<and>
    (sp_max_event_bytes p < usize_max \<longrightarrow> (\<forall>e\<in>set out'. e \<in> set out \<or> event_bytes e \<le> sp_max_event_bytes p))"
  using assms sse_wf_bytes [OF assms(1)]
  by (auto simp: dispatch_def sse_wf_def retained_bytes_def saturating_add_usize_def event_bytes_def split: if_splits)

lemma take_line_wf:
  assumes "sse_wf p" and "take_line p content out = (p', out', Inr u)"
  shows "sse_wf p' \<and> sp_max_event_bytes p' = sp_max_event_bytes p \<and>
    (sp_max_event_bytes p < usize_max \<longrightarrow> (\<forall>e\<in>set out'. e \<in> set out \<or> event_bytes e \<le> sp_max_event_bytes p))"
proof -
  have data: "sp_data_bytes (set_field p field v) =
      min (length (join_lines (sp_data_lines (set_field p field v)))) usize_max" for field v
  proof (cases "field = ''data''")
    case True
    have "sp_data_bytes p = min (length (join_lines (sp_data_lines p))) usize_max" using assms(1) by (simp add: sse_wf_def)
    then show ?thesis
      unfolding set_field_def if_P [OF True] saturating_add_usize_def by (simp add: length_join_lines_snoc min_def)
  next
    case False
    with assms(1) show ?thesis by (simp add: set_field_def sse_wf_def)
  qed
  have limit: "sp_max_event_bytes (set_field p field v) = sp_max_event_bytes p" for field v
    by (simp add: set_field_def)
  show ?thesis
  proof (cases "strip_cr content = []")
    case True
    with assms(2) have "dispatch p out = (p', out')" by (auto simp: take_line_def consume_line_def split: if_splits prod.splits)
    from dispatch_wf [OF assms(1) this] show ?thesis .
  next
    case False
    obtain field v where fv: "split_field (strip_cr content) = (field, v)" by (cases "split_field (strip_cr content)")
    from assms(2) False have "p' = p \<and> out' = out \<or>
        p' = set_field p field v \<and> out' = out \<and> \<not> sp_max_event_bytes p' < retained_bytes p'"
      by (simp add: take_line_def consume_line_def fv Let_def ensure_def split: if_split_asm)
    with assms(1) data [of field v] limit [of field v] show ?thesis
      by (elim disjE conjE) (simp_all add: sse_wf_def)
  qed
qed

lemma feed_lines_wf:
  "feed_lines p left out = (p', left', out', Inr u) \<Longrightarrow> sse_wf p \<Longrightarrow>
     sse_wf p' \<and> sp_max_event_bytes p' = sp_max_event_bytes p \<and>
     (sp_max_event_bytes p < usize_max \<longrightarrow> (\<forall>e\<in>set out'. e \<in> set out \<or> event_bytes e \<le> sp_max_event_bytes p))"
proof (induction p left out arbitrary: p' left' out' rule: feed_lines.induct)
  case (1 p left out)
  show ?case
  proof (cases "position (\<lambda>c. c = LF) left")
    case None
    with "1.prems" show ?thesis by (subst (asm) feed_lines.simps) auto
  next
    case (Some i)
    obtain q evs r where line: "take_line p (take i left) out = (q, evs, r)" by (cases "take_line p (take i left) out")
    show ?thesis
    proof (cases r)
      case (Inl e)
      with Some line "1.prems" show ?thesis by (subst (asm) feed_lines.simps) auto
    next
      case (Inr v)
      with Some line "1.prems"(1) have rest: "feed_lines q (drop (Suc i) left) evs = (p', left', out', Inr u)"
        by (subst (asm) feed_lines.simps) simp
      have "take_line p (take i left) out = (q, evs, Inr v)" using line Inr by simp
      note head = take_line_wf [OF "1.prems"(2) this]
      from "1.IH" [OF Some line [symmetric] refl Inr rest] head show ?thesis by metis
    qed
  qed
qed

lemma sse_wf_pending [simp]: "sse_wf (p\<lparr>sp_pending := x\<rparr>) = sse_wf p"
  by (simp add: sse_wf_def retained_bytes_def)

text \<open>The memory of the parser is bounded by its two limits: whatever chunk it has accepted, it holds at most
  the pending limit of unfinished line and the event limit of data, name and id together, and no event it
  returns is larger than the event limit, although its counters saturate.\<close>

theorem feed_bounded:
  assumes "sse_wf p" and "feed p chunk final = (p', Inr out)" and "sp_max_event_bytes p < usize_max"
  shows "sse_wf p' \<and> length (sp_pending p') \<le> sp_max_pending_bytes p \<and>
    length (join_lines (sp_data_lines p')) + length (sp_event_name p') + length (sp_last_event_id p') \<le> sp_max_event_bytes p \<and>
    (\<forall>e\<in>set out. event_bytes e \<le> sp_max_event_bytes p)"
proof -
  obtain q left evs r where lines: "feed_lines p (sp_pending p @ chunk) [] = (q, left, evs, r)"
    by (cases "feed_lines p (sp_pending p @ chunk) []")
  with assms(2) have r: "r = Inr ()" by (cases final; cases r) (auto simp: feed_open feed_final)
  note body = feed_lines_wf [OF lines [unfolded r] assms(1)]
  have "sse_wf p' \<and> sp_max_event_bytes p' = sp_max_event_bytes p \<and> length (sp_pending p') \<le> sp_max_pending_bytes p \<and>
      (\<forall>e\<in>set out. event_bytes e \<le> sp_max_event_bytes p)"
  proof (cases final)
    case False
    with assms(2,3) lines r body show ?thesis by (auto simp: feed_open split: if_splits)
  next
    case True
    let ?q = "q\<lparr>sp_pending := sp_pending p @ chunk\<rparr>"
    obtain q' evs' r' where last: "(if left \<noteq> [] then take_line ?q left evs else (?q, evs, Inr ())) = (q', evs', r')"
      by (cases "if left \<noteq> [] then take_line ?q left evs else (?q, evs, Inr ())")
    from True assms(2) lines r have fin: "finish ?q left evs = (p', Inr out)" by (simp add: feed_final)
    with last have r': "r' = Inr ()" by (cases r') (auto simp: finish_def)
    have q': "sse_wf q' \<and> sp_max_event_bytes q' = sp_max_event_bytes p \<and>
        (\<forall>e\<in>set evs'. e \<in> set evs \<or> event_bytes e \<le> sp_max_event_bytes p)"
      using last r' body assms(3) take_line_wf [of ?q left evs q' evs' "()"] by (cases "left = []") auto
    from fin last r' have "dispatch (q'\<lparr>sp_pending := []\<rparr>) evs' = (p', out)"
      by (auto simp: finish_def split: prod.splits)
    moreover from this have "sp_pending p' = []" by (auto simp: dispatch_def split: if_splits)
    ultimately show ?thesis
      using dispatch_wf [of "q'\<lparr>sp_pending := []\<rparr>" evs' p' out] q' body assms(3) by auto
  qed
  with sse_wf_bytes [of p'] assms(3) show ?thesis by simp
qed

theorem feed_bounded_witness:
  "sse_wf (with_limits 64 8) \<and>
   length (join_lines (sp_data_lines (fst (feed (with_limits 64 8) ''data:abc
data:'' False)))) \<le> 8"
proof -
  have wf: "sse_wf (with_limits 64 8)" by (simp add: sse_wf_def with_limits_def retained_bytes_def saturating_add_usize_def)
  have "snd (feed (with_limits 64 8) ''data:abc
data:'' False) = Inr []" by (simp add: with_limits_def feed_def sse_eval)
  then have "feed (with_limits 64 8) ''data:abc
data:'' False = (fst (feed (with_limits 64 8) ''data:abc
data:'' False), Inr [])" by (metis prod.collapse)
  note bounded = feed_bounded [OF wf this]
  show ?thesis using bounded wf by (simp add: with_limits_def usize_max_def)
qed

subsection \<open>Reading back\<close>

text \<open>The stream format, written: one event as its name, its lines of data, its id and an empty line.\<close>

definition field_line :: "string \<Rightarrow> string \<Rightarrow> string" where
  "field_line field v = field @ '': '' @ v @ [LF]"

fun render_event :: "string \<times> string list \<times> string \<Rightarrow> string" where
  "render_event (name, ls, i) =
     field_line ''event'' name @ concat (map (field_line ''data'') ls) @ field_line ''id'' i @ [LF]"

fun event_of :: "string \<times> string list \<times> string \<Rightarrow> sse_event" where
  "event_of (name, ls, i) = \<lparr>sse_event = name, sse_data = join_lines ls, sse_id = i\<rparr>"

definition line_text :: "string \<Rightarrow> bool" where
  "line_text l \<longleftrightarrow> utf8_valid l \<and> LF \<notin> set l \<and> (l = [] \<or> last l \<noteq> CR)"

fun event_ok :: "nat \<Rightarrow> nat \<Rightarrow> string \<times> string list \<times> string \<Rightarrow> bool" where
  "event_ok ids limit (name, ls, i) \<longleftrightarrow>
     line_text name \<and> list_all line_text ls \<and> line_text i \<and> ls \<noteq> [] \<and> CHR 0x00 \<notin> set i \<and>
     length i \<le> ids \<and> length (join_lines ls) + length name + ids \<le> limit"

lemma take_line_field:
  assumes "field \<in> {''event'', ''data'', ''id''}" and "line_text v"
    and "retained_bytes (set_field p field v) \<le> sp_max_event_bytes p"
  shows "feed_lines p (field_line field v @ left) out = feed_lines (set_field p field v) left out"
proof -
  have field: "LF \<notin> set field" "list_all (\<lambda>c. byte c < 128) field" "field \<noteq> []" "hd field \<noteq> CHR '':''"
      "CHR '':'' \<notin> set field"
    using assms(1) by auto
  let ?l = "field @ '': '' @ v"
  have "position (\<lambda>c. c = LF) ?l = None" using field assms(2) by (auto simp: position_None_iff line_text_def)
  then have lf: "position (\<lambda>c. c = LF) (field_line field v @ left) = Some (length ?l)"
    by (simp add: field_line_def position_of_append [of _ "field @ '': '' @ v", simplified])
  have cr: "strip_cr ?l = ?l" using assms(2) by (auto simp: strip_cr_def line_text_def)
  have "utf8_valid ?l"
    using field(2) assms(2) by (induction field) (simp_all add: utf8_valid_Cons line_text_def)
  moreover have "position (\<lambda>c. c = CHR '':'') field = None" using field(5) by (auto simp: position_None_iff)
  then have "split_field ?l = (field, v)" by (simp add: split_field_def position_of_append)
  moreover have "sp_max_event_bytes (set_field p field v) = sp_max_event_bytes p" by (simp add: set_field_def)
  ultimately have "take_line p ?l out = (set_field p field v, out, Inr ())"
    using assms(3) field(3,4) by (simp add: take_line_def cr [simplified] consume_line_def Let_def ensure_def)
  with lf show ?thesis by (subst feed_lines.simps) (simp add: field_line_def eval_nat_numeral)
qed

lemma feed_lines_data:
  assumes "list_all line_text ls" and "sp_data_bytes p = length (join_lines (sp_data_lines p))"
    and "sp_max_event_bytes p \<le> usize_max"
    and "length (join_lines (sp_data_lines p @ ls)) + length (sp_event_name p) + length (sp_last_event_id p) \<le> sp_max_event_bytes p"
  shows "feed_lines p (concat (map (field_line ''data'') ls) @ left) out =
    feed_lines (p\<lparr>sp_data_lines := sp_data_lines p @ ls, sp_data_bytes := length (join_lines (sp_data_lines p @ ls))\<rparr>) left out"
  using assms
proof (induction ls arbitrary: p)
  case (Cons l ls)
  have mono: "length (join_lines a) \<le> length (join_lines (a @ b))" for a b
    by (induction b rule: rev_induct) (simp_all add: length_join_lines_snoc flip: append_assoc)
  note snoc = length_join_lines_snoc [of "sp_data_lines p" l]
  let ?p = "p\<lparr>sp_data_lines := sp_data_lines p @ [l], sp_data_bytes := length (join_lines (sp_data_lines p @ [l]))\<rparr>"
  have bytes: "length (join_lines (sp_data_lines p @ [l])) + length (sp_event_name p) + length (sp_last_event_id p) \<le> sp_max_event_bytes p"
    using Cons.prems(4) mono [of "sp_data_lines p @ [l]" ls] by simp
  have set: "set_field p ''data'' l = ?p"
    using bytes snoc Cons.prems(2,3) by (simp add: set_field_def saturating_add_usize_def)
  have "retained_bytes ?p \<le> sp_max_event_bytes p"
    using bytes Cons.prems(3) by (simp add: retained_bytes_def saturating_add_usize_def)
  with set Cons.prems(1) have "feed_lines p (field_line ''data'' l @ concat (map (field_line ''data'') ls) @ left) out =
      feed_lines ?p (concat (map (field_line ''data'') ls) @ left) out"
    by (subst take_line_field) simp_all
  moreover have "feed_lines ?p (concat (map (field_line ''data'') ls) @ left) out =
      feed_lines (?p\<lparr>sp_data_lines := sp_data_lines ?p @ ls, sp_data_bytes := length (join_lines (sp_data_lines ?p @ ls))\<rparr>) left out"
    using Cons.prems by (intro Cons.IH) simp_all
  ultimately show ?case by simp
next
  case Nil
  then show ?case by (cases p) simp
qed

definition idle :: "nat \<Rightarrow> sse_parser \<Rightarrow> bool" where
  "idle ids p \<longleftrightarrow> sp_data_lines p = [] \<and> sp_data_bytes p = 0 \<and> sp_event_name p = [] \<and>
     length (sp_last_event_id p) \<le> ids \<and> sp_max_event_bytes p \<le> usize_max"

lemma feed_lines_event:
  assumes "event_ok ids (sp_max_event_bytes p) (name, ls, i)" and "idle ids p"
  shows "feed_lines p (render_event (name, ls, i) @ left) out =
    feed_lines (p\<lparr>sp_last_event_id := i\<rparr>) left (out @ [event_of (name, ls, i)])"
proof -
  have limit: "length (join_lines ls) + length name + ids \<le> sp_max_event_bytes p" and i: "length i \<le> ids" "CHR 0x00 \<notin> set i"
    and ls: "ls \<noteq> []" and lines: "line_text name" "list_all line_text ls" "line_text i"
    using assms(1) by auto
  have idle: "sp_data_lines p = []" "sp_data_bytes p = 0" "sp_event_name p = []" "length (sp_last_event_id p) \<le> ids"
    "sp_max_event_bytes p \<le> usize_max" using assms(2) by (auto simp: idle_def)
  let ?p1 = "p\<lparr>sp_event_name := name\<rparr>"
  let ?p2 = "?p1\<lparr>sp_data_lines := ls, sp_data_bytes := length (join_lines ls)\<rparr>"
  let ?p3 = "?p2\<lparr>sp_last_event_id := i\<rparr>"
  have p1: "set_field p ''event'' name = ?p1" and p3: "set_field ?p2 ''id'' i = ?p3"
    using i by (simp_all add: set_field_def)
  have "retained_bytes ?p1 \<le> sp_max_event_bytes p" "retained_bytes ?p3 \<le> sp_max_event_bytes p"
    using limit idle i by (simp_all add: retained_bytes_def saturating_add_usize_def)
  then have 1: "feed_lines p (field_line ''event'' name @ l) out = feed_lines ?p1 l out"
    and 3: "feed_lines ?p2 (field_line ''id'' i @ l) out = feed_lines ?p3 l out" for l
    using take_line_field [of "''event''" name p l out] take_line_field [of "''id''" i ?p2 l out] lines p1 p3 by simp_all
  have 2: "feed_lines ?p1 (concat (map (field_line ''data'') ls) @ l) out = feed_lines ?p2 l out" for l
    using feed_lines_data [of ls ?p1 l out] lines limit idle by simp
  have "take_line ?p3 [] out = (p\<lparr>sp_last_event_id := i\<rparr>, out @ [event_of (name, ls, i)], Inr ())"
    using ls idle by (simp add: take_line_def strip_cr_def consume_line_def dispatch_def)
  then have "feed_lines ?p3 (LF # left) out = feed_lines (p\<lparr>sp_last_event_id := i\<rparr>) left (out @ [event_of (name, ls, i)])"
    by (subst feed_lines.simps) simp
  with 1 2 3 show ?thesis by simp
qed

lemma feed_lines_events:
  assumes "list_all (event_ok ids (sp_max_event_bytes p)) evs" and "idle ids p"
  shows "\<exists>p'. feed_lines p (concat (map render_event evs)) out = (p', [], out @ map event_of evs, Inr ()) \<and> idle ids p'"
  using assms
proof (induction evs arbitrary: p out)
  case Nil
  then show ?case by (subst feed_lines.simps) simp
next
  case (Cons ev evs)
  obtain name ls i where ev: "ev = (name, ls, i)" by (cases ev)
  let ?p = "p\<lparr>sp_last_event_id := i\<rparr>"
  have "feed_lines p (concat (map render_event (ev # evs))) out =
      feed_lines ?p (concat (map render_event evs)) (out @ [event_of ev])"
    using Cons.prems feed_lines_event [of ids p name ls i] ev by simp
  moreover have "idle ids ?p" using Cons.prems ev by (simp add: idle_def)
  then have "\<exists>p'. feed_lines ?p (concat (map render_event evs)) (out @ [event_of ev]) =
      (p', [], (out @ [event_of ev]) @ map event_of evs, Inr ()) \<and> idle ids p'"
    using Cons.prems by (intro Cons.IH) simp_all
  ultimately show ?case by simp
qed

text \<open>Every line of the event fits the limit on unfinished lines.\<close>

fun event_fits :: "nat \<Rightarrow> string \<times> string list \<times> string \<Rightarrow> bool" where
  "event_fits m (name, ls, i) \<longleftrightarrow>
     length name + 7 \<le> m \<and> list_all (\<lambda>l. length l + 6 \<le> m) ls \<and> length i + 4 \<le> m"

lemma lines_within_field:
  assumes "LF \<notin> set field" "LF \<notin> set v" "length field + 2 + length v \<le> m" "lines_within m 0 s"
  shows "lines_within m 0 (field_line field v @ s)"
  using lines_within_LF [of "field @ '': '' @ v" 0 m s] assms by (simp add: field_line_def)

lemma lines_within_data:
  "list_all line_text ls \<Longrightarrow> list_all (\<lambda>l. length l + 6 \<le> m) ls \<Longrightarrow> lines_within m 0 s \<Longrightarrow>
     lines_within m 0 (concat (map (field_line ''data'') ls) @ s)"
  by (induction ls) (auto simp: line_text_def intro!: lines_within_field)

lemma lines_within_events:
  "list_all (event_ok ids limit) evs \<Longrightarrow> list_all (event_fits m) evs \<Longrightarrow> lines_within m 0 (concat (map render_event evs))"
proof (induction evs)
  case (Cons ev evs)
  obtain name ls i where ev: "ev = (name, ls, i)" by (cases ev)
  from Cons have "lines_within m 0 (concat (map render_event evs))" by simp
  with Cons.prems show ?case
    by (auto simp: ev line_text_def intro!: lines_within_field lines_within_data)
qed simp

text \<open>Property C15. Reading back what the stream format writes: a body of well-formed events, cut into any chunks, is
  parsed to exactly those events, in order, each with its lines of data joined by line feeds, provided that
  every line fits the parser's limit on unfinished lines and every event, with the largest identifier that
  may precede it, its limit on events.\<close>

theorem stream_read_back:
  assumes "concat chunks = concat (map render_event evs)"
    and "list_all (event_ok ids max_event) evs" and "max_event \<le> usize_max"
    and "list_all (event_fits max_pending) evs"
  shows "snd (feed_body (with_limits max_pending max_event) chunks) = Inr (map event_of evs)"
proof -
  let ?p = "with_limits max_pending max_event"
  have p: "sp_pending ?p = []" "sp_max_pending_bytes ?p = max_pending" "sp_max_event_bytes ?p = max_event" "idle ids ?p"
    using assms(3) by (simp_all add: with_limits_def idle_def)
  with assms lines_within_events [OF assms(2,4)]
  have whole: "snd (feed_body ?p chunks) = snd (feed ?p (concat (map render_event evs)) True)"
    by (subst feed_body_result) simp_all
  obtain p' where p': "feed_lines ?p (concat (map render_event evs)) [] = (p', [], map event_of evs, Inr ())" "idle ids p'"
    using feed_lines_events [of ids ?p evs "[]"] assms(2) p by auto
  then show ?thesis unfolding whole by (simp add: feed_final p finish_def dispatch_def idle_def)
qed

theorem stream_read_back_witness:
  "snd (feed_body (with_limits 8 100) [''event: e
data: a
da'', ''ta: b
id: 7

'']) = Inr [\<lparr>sse_event = ''e'', sse_data = ''a
b'', sse_id = ''7''\<rparr>]"
  using stream_read_back [of "[''event: e
data: a
da'', ''ta: b
id: 7

'']" "[(''e'', [''a'', ''b''], ''7'')]" 1 100 8]
  by (simp add: field_line_def line_text_def utf8_valid_Cons usize_max_def)

end
