(* ===== verification/Tool_Schema.thy ===== *)
theory Tool_Schema
  imports Session_Types
begin

text \<open>
  The JSON Schema subset of the tool registry (crates/xharness-tools/src/schema.rs): the check of a schema when
  a tool is registered and the check of a call's arguments against it.  The path of a violation is the list of
  its steps from the root (its rendering as text is left out), and \<open>integral\<close> says of the text of a number
  whether serde reads it as an i64 or a u64.
\<close>

datatype path_step = PProperty string | PKeyword string | PIndex nat

type_synonym json_path = "path_step list"

datatype schema_message =
    SchemaNotObject
  | RootTypeNotObject
  | SchemaTooDeep
  | EnumNotArray
  | EnumEmpty
  | PropertiesNotObject
  | PropertyNotObject
  | RequiredNotArray
  | RequiredNotString
  | RequiredDuplicate string
  | AdditionalInvalid
  | ItemsNotObject
  | TypeMissing
  | TypeEntryNotString
  | TypeArrayEmpty
  | TypeInvalid
  | TypeUnsupported string
  | TypeDuplicate string
  | ArgumentsNotObject
  | ArgumentsTooDeep
  | NotInEnum
  | WrongType "string list" string
  | RequiredMissing
  | AdditionalNotAllowed

record schema_violation =
  sv_path :: json_path
  sv_message :: schema_message

definition violation :: "json_path \<Rightarrow> schema_message \<Rightarrow> schema_violation" where
  "violation path m = \<lparr>sv_path = path, sv_message = m\<rparr>"

type_synonym json_object = "(string \<times> json) list"

definition max_schema_depth :: nat where
  "max_schema_depth = 64"

fun as_object :: "json \<Rightarrow> json_object option" where
  "as_object (JObject fs) = Some fs"
| "as_object _ = None"

fun as_array :: "json \<Rightarrow> json list option" where
  "as_array (JArray xs) = Some xs"
| "as_array _ = None"

fun as_str :: "json \<Rightarrow> string option" where
  "as_str (JString s) = Some s"
| "as_str _ = None"

text \<open>A loop whose body may return an error: the first error ends it.\<close>

fun try_each :: "('a \<Rightarrow> 'e + unit) \<Rightarrow> 'a list \<Rightarrow> 'e + unit" where
  "try_each f [] = Inr ()"
| "try_each f (x # xs) = and_then (f x) (\<lambda>_. try_each f xs)"

lemma try_each_cong [fundef_cong]:
  "xs = ys \<Longrightarrow> (\<And>x. x \<in> set ys \<Longrightarrow> f x = g x) \<Longrightarrow> try_each f xs = try_each g ys"
  by (induction xs arbitrary: ys) auto

lemma and_then_cong [fundef_cong]:
  "m = m' \<Longrightarrow> (\<And>a. f a = f' a) \<Longrightarrow> and_then m f = and_then m' f'"
  by (cases m') auto

lemma try_each_iff: "try_each f xs = Inr () \<longleftrightarrow> (\<forall>x\<in>set xs. f x = Inr ())"
  by (induction xs) auto

lemma try_each_Inl: "try_each f xs = Inl e \<Longrightarrow> \<exists>x\<in>set xs. f x = Inl e"
  by (induction xs) (auto simp: and_then_eq_Inl)

subsection \<open>Types\<close>

definition known_types :: "string list" where
  "known_types = [''object'', ''array'', ''string'', ''number'', ''integer'', ''boolean'', ''null'']"

fun type_entries :: "json_path \<Rightarrow> nat \<Rightarrow> json list \<Rightarrow> schema_violation + string list" where
  "type_entries path index [] = Inr []"
| "type_entries path index (k # ks) =
     (case as_str k of
        None \<Rightarrow> Inl (violation (path @ [PKeyword ''type'', PIndex index]) TypeEntryNotString)
      | Some kind \<Rightarrow> and_then (type_entries path (Suc index) ks) (\<lambda>kinds. Inr (kind # kinds)))"

fun check_types :: "json_path \<Rightarrow> nat \<Rightarrow> string set \<Rightarrow> string list \<Rightarrow> schema_violation + unit" where
  "check_types path index seen [] = Inr ()"
| "check_types path index seen (kind # kinds) =
     and_then (ensure (kind \<notin> set known_types)
                 (violation (path @ [PKeyword ''type'', PIndex index]) (TypeUnsupported kind))) (\<lambda>_.
     and_then (ensure (kind \<in> seen)
                 (violation (path @ [PKeyword ''type'', PIndex index]) (TypeDuplicate kind))) (\<lambda>_.
     check_types path (Suc index) (insert kind seen) kinds))"

definition schema_types :: "json_object \<Rightarrow> json_path \<Rightarrow> schema_violation + string list" where
  "schema_types schema path =
     (case map_of schema ''type'' of
        None \<Rightarrow> Inl (violation (path @ [PKeyword ''type'']) TypeMissing)
      | Some value \<Rightarrow>
          and_then
            (case value of
               JString kind \<Rightarrow> Inr [kind]
             | JArray kinds \<Rightarrow>
                 if kinds \<noteq> [] then type_entries path 0 kinds
                 else Inl (violation (path @ [PKeyword ''type'']) TypeArrayEmpty)
             | _ \<Rightarrow> Inl (violation (path @ [PKeyword ''type'']) TypeInvalid))
            (\<lambda>values. and_then (check_types path 0 {} values) (\<lambda>_. Inr values)))"

subsection \<open>Registration\<close>

fun check_required :: "json_path \<Rightarrow> nat \<Rightarrow> string set \<Rightarrow> json list \<Rightarrow> schema_violation + unit" where
  "check_required path index seen [] = Inr ()"
| "check_required path index seen (n # ns) =
     (case as_str n of
        None \<Rightarrow> Inl (violation (path @ [PKeyword ''required'', PIndex index]) RequiredNotString)
      | Some name \<Rightarrow>
          and_then (ensure (name \<in> seen)
                      (violation (path @ [PKeyword ''required'', PIndex index]) (RequiredDuplicate name))) (\<lambda>_.
          check_required path (Suc index) (insert name seen) ns))"

function validate_schema_node :: "json_object \<Rightarrow> json_path \<Rightarrow> nat \<Rightarrow> schema_violation + unit" where
  "validate_schema_node schema path depth =
     (if depth > max_schema_depth then Inl (violation path SchemaTooDeep)
      else
       and_then (schema_types schema path) (\<lambda>_.
       and_then (case map_of schema ''enum'' of
            None \<Rightarrow> Inr ()
          | Some enum_values \<Rightarrow>
              (case as_array enum_values of
                 None \<Rightarrow> Inl (violation (path @ [PKeyword ''enum'']) EnumNotArray)
               | Some values \<Rightarrow> ensure (values = []) (violation (path @ [PKeyword ''enum'']) EnumEmpty))) (\<lambda>_.
       and_then (case map_of schema ''properties'' of
            None \<Rightarrow> Inr ()
          | Some (JObject properties) \<Rightarrow>
              try_each (\<lambda>(name, child).
                (case as_object child of
                   None \<Rightarrow> Inl (violation (path @ [PProperty name]) PropertyNotObject)
                 | Some child \<Rightarrow> validate_schema_node child (path @ [PProperty name]) (depth + 1))) properties
          | Some _ \<Rightarrow> Inl (violation (path @ [PKeyword ''properties'']) PropertiesNotObject)) (\<lambda>_.
       and_then (case map_of schema ''required'' of
            None \<Rightarrow> Inr ()
          | Some required \<Rightarrow>
              (case as_array required of
                 None \<Rightarrow> Inl (violation (path @ [PKeyword ''required'']) RequiredNotArray)
               | Some names \<Rightarrow> check_required path 0 {} names)) (\<lambda>_.
       and_then (case map_of schema ''additionalProperties'' of
            None \<Rightarrow> Inr ()
          | Some (JBool _) \<Rightarrow> Inr ()
          | Some (JObject child) \<Rightarrow>
              validate_schema_node child (path @ [PKeyword ''additionalProperties'']) (depth + 1)
          | Some _ \<Rightarrow> Inl (violation (path @ [PKeyword ''additionalProperties'']) AdditionalInvalid)) (\<lambda>_.
       (case map_of schema ''items'' of
            None \<Rightarrow> Inr ()
          | Some items \<Rightarrow>
              (case as_object items of
                 None \<Rightarrow> Inl (violation (path @ [PKeyword ''items'']) ItemsNotObject)
               | Some child \<Rightarrow> validate_schema_node child (path @ [PKeyword ''items'']) (depth + 1)))))))))"
  by pat_completeness auto
termination
  by (relation "measure (\<lambda>(schema, path, depth). Suc max_schema_depth - depth)") auto

declare validate_schema_node.simps [simp del]

definition validate_tool_schema :: "json \<Rightarrow> schema_violation + unit" where
  "validate_tool_schema schema =
     (case as_object schema of
        None \<Rightarrow> Inl (violation [] SchemaNotObject)
      | Some fs \<Rightarrow>
          and_then (schema_types fs []) (\<lambda>root_types.
          and_then (ensure (''object'' \<notin> set root_types) (violation [PKeyword ''type''] RootTypeNotObject)) (\<lambda>_.
          validate_schema_node fs [] 0)))"

subsection \<open>Arguments\<close>

definition instance_has_type :: "(string \<Rightarrow> bool) \<Rightarrow> json \<Rightarrow> string \<Rightarrow> bool" where
  "instance_has_type integral value expected =
     (if expected = ''object'' then (case value of JObject _ \<Rightarrow> True | _ \<Rightarrow> False)
      else if expected = ''array'' then (case value of JArray _ \<Rightarrow> True | _ \<Rightarrow> False)
      else if expected = ''string'' then (case value of JString _ \<Rightarrow> True | _ \<Rightarrow> False)
      else if expected = ''number'' then (case value of JNumber _ \<Rightarrow> True | _ \<Rightarrow> False)
      else if expected = ''integer'' then (case value of JNumber n \<Rightarrow> integral n | _ \<Rightarrow> False)
      else if expected = ''boolean'' then (case value of JBool _ \<Rightarrow> True | _ \<Rightarrow> False)
      else if expected = ''null'' then (case value of JNull \<Rightarrow> True | _ \<Rightarrow> False)
      else False)"

fun instance_type :: "(string \<Rightarrow> bool) \<Rightarrow> json \<Rightarrow> string" where
  "instance_type integral JNull = ''null''"
| "instance_type integral (JBool _) = ''boolean''"
| "instance_type integral (JNumber n) = (if integral n then ''integer'' else ''number'')"
| "instance_type integral (JString _) = ''string''"
| "instance_type integral (JArray _) = ''array''"
| "instance_type integral (JObject _) = ''object''"

definition child_of :: "json_object option \<Rightarrow> string \<Rightarrow> json option" where
  "child_of properties name = (case properties of None \<Rightarrow> None | Some known \<Rightarrow> map_of known name)"

function validate_instance ::
  "(string \<Rightarrow> bool) \<Rightarrow> json_object \<Rightarrow> json \<Rightarrow> json_path \<Rightarrow> nat \<Rightarrow> schema_violation + unit" where
  "validate_instance integral schema inst path depth =
     (if depth > max_schema_depth then Inl (violation path ArgumentsTooDeep)
      else
       and_then (case Option.bind (map_of schema ''enum'') as_array of
            None \<Rightarrow> Inr ()
          | Some values \<Rightarrow> ensure (inst \<notin> set values) (violation path NotInEnum)) (\<lambda>_.
       and_then (schema_types schema path) (\<lambda>allowed.
       and_then (ensure (\<not> (\<exists>kind\<in>set allowed. instance_has_type integral inst kind))
                   (violation path (WrongType allowed (instance_type integral inst)))) (\<lambda>_.
       and_then (case as_object inst of
            None \<Rightarrow> Inr ()
          | Some obj \<Rightarrow>
              let properties = Option.bind (map_of schema ''properties'') as_object in
              and_then (case Option.bind (map_of schema ''required'') as_array of
                   None \<Rightarrow> Inr ()
                 | Some required \<Rightarrow>
                     try_each (\<lambda>name. ensure (map_of obj name = None) (violation (path @ [PProperty name]) RequiredMissing))
                       (filter_map as_str required)) (\<lambda>_.
              try_each (\<lambda>(name, value).
                (case child_of properties name of
                   Some child \<Rightarrow>
                     (case as_object child of
                        None \<Rightarrow> Inr ()
                      | Some child \<Rightarrow> validate_instance integral child value (path @ [PProperty name]) (depth + 1))
                 | None \<Rightarrow>
                     (case map_of schema ''additionalProperties'' of
                        Some (JBool False) \<Rightarrow> Inl (violation (path @ [PProperty name]) AdditionalNotAllowed)
                      | Some (JObject child) \<Rightarrow>
                          validate_instance integral child value (path @ [PProperty name]) (depth + 1)
                      | _ \<Rightarrow> Inr ()))) obj)) (\<lambda>_.
       (case (as_array inst, Option.bind (map_of schema ''items'') as_object) of
            (Some array, Some item_schema) \<Rightarrow>
              try_each (\<lambda>(index, value). validate_instance integral item_schema value (path @ [PIndex index]) (depth + 1))
                (enumerate 0 array)
          | _ \<Rightarrow> Inr ()))))))"
  by pat_completeness auto
termination
  by (relation "measure (\<lambda>(integral, schema, inst, path, depth). Suc max_schema_depth - depth)") auto

declare validate_instance.simps [simp del]

definition validate_arguments :: "(string \<Rightarrow> bool) \<Rightarrow> json \<Rightarrow> json \<Rightarrow> schema_violation + unit" where
  "validate_arguments integral schema arguments =
     and_then (ensure (as_object arguments = None) (violation [] ArgumentsNotObject)) (\<lambda>_.
     (case as_object schema of
        None \<Rightarrow> Inl (violation [PKeyword ''$schema''] SchemaNotObject)
      | Some fs \<Rightarrow> validate_instance integral fs arguments [] 0))"

subsection \<open>What a registered schema means\<close>

datatype property_rule = Free | Forbidden | Checked json_object

text \<open>What a schema says of a property that is present.\<close>

definition property_rule :: "json_object \<Rightarrow> string \<Rightarrow> property_rule" where
  "property_rule schema name =
     (case child_of (Option.bind (map_of schema ''properties'') as_object) name of
        Some child \<Rightarrow> (case as_object child of None \<Rightarrow> Free | Some c \<Rightarrow> Checked c)
      | None \<Rightarrow>
          (case map_of schema ''additionalProperties'' of
             Some (JBool False) \<Rightarrow> Forbidden
           | Some (JObject c) \<Rightarrow> Checked c
           | _ \<Rightarrow> Free))"

text \<open>Conformance, without depths, paths and errors.\<close>

inductive conforms :: "(string \<Rightarrow> bool) \<Rightarrow> json_object \<Rightarrow> json \<Rightarrow> bool" for integral where
  "(\<forall>values. map_of schema ''enum'' = Some (JArray values) \<longrightarrow> inst \<in> set values) \<Longrightarrow>
   schema_types schema [] = Inr allowed \<Longrightarrow>
   (\<exists>kind\<in>set allowed. instance_has_type integral inst kind) \<Longrightarrow>
   (\<forall>obj required name. inst = JObject obj \<longrightarrow> map_of schema ''required'' = Some (JArray required) \<longrightarrow>
      JString name \<in> set required \<longrightarrow> map_of obj name \<noteq> None) \<Longrightarrow>
   (\<forall>obj name value. inst = JObject obj \<longrightarrow> (name, value) \<in> set obj \<longrightarrow> property_rule schema name \<noteq> Forbidden) \<Longrightarrow>
   (\<forall>obj name value c. inst = JObject obj \<longrightarrow> (name, value) \<in> set obj \<longrightarrow> property_rule schema name = Checked c \<longrightarrow>
      conforms integral c value) \<Longrightarrow>
   (\<forall>xs x c. inst = JArray xs \<longrightarrow> map_of schema ''items'' = Some (JObject c) \<longrightarrow> x \<in> set xs \<longrightarrow> conforms integral c x) \<Longrightarrow>
   conforms integral schema inst"

inductive_simps conforms_iff: "conforms integral schema inst"

lemma check_types_path: "check_types path i seen kinds = Inr () \<Longrightarrow> check_types path' i seen kinds = Inr ()"
  by (induction path i seen kinds rule: check_types.induct) auto

lemma type_entries_path: "type_entries path i ks = Inr kinds \<Longrightarrow> type_entries path' i ks = Inr kinds"
  by (induction path i ks arbitrary: kinds rule: type_entries.induct) (auto split: option.splits)

lemma schema_types_path: "schema_types schema path = Inr ts \<Longrightarrow> schema_types schema path' = Inr ts"
  by (auto simp: schema_types_def intro: check_types_path type_entries_path split: option.splits json.splits if_splits)

lemma as_object_iff [simp]: "as_object v = Some fs \<longleftrightarrow> v = JObject fs"
  and as_array_iff [simp]: "as_array v = Some xs \<longleftrightarrow> v = JArray xs"
  and as_str_iff [simp]: "as_str v = Some s \<longleftrightarrow> v = JString s"
  by (cases v; auto)+

text \<open>A node that passed registration: its depth, its types and its children.\<close>

lemma registered_node:
  assumes "validate_schema_node schema path depth = Inr ()"
  shows "depth \<le> max_schema_depth" "\<exists>ts. schema_types schema [] = Inr ts"
    "property_rule schema name = Checked c \<Longrightarrow> \<exists>path'. validate_schema_node c path' (depth + 1) = Inr ()"
    "map_of schema ''items'' = Some (JObject c) \<Longrightarrow> \<exists>path'. validate_schema_node c path' (depth + 1) = Inr ()"
proof -
  note node = assms [unfolded validate_schema_node.simps [of schema path depth]]
  from node show "depth \<le> max_schema_depth" by (simp split: if_splits)
  from node obtain ts where "schema_types schema path = Inr ts" by (auto split: if_splits)
  then show "\<exists>ts. schema_types schema [] = Inr ts" by (blast intro: schema_types_path)
  show "\<exists>path'. validate_schema_node c path' (depth + 1) = Inr ()" if items: "map_of schema ''items'' = Some (JObject c)"
    using node items by (auto split: if_splits)
  show "\<exists>path'. validate_schema_node c path' (depth + 1) = Inr ()" if rule: "property_rule schema name = Checked c"
  proof (cases "child_of (Option.bind (map_of schema ''properties'') as_object) name")
    case None
    with rule have "map_of schema ''additionalProperties'' = Some (JObject c)"
      by (auto simp: property_rule_def split: option.splits json.splits bool.splits)
    with node show ?thesis by (auto split: if_splits)
  next
    case (Some child)
    with rule have child: "child = JObject c" by (auto simp: property_rule_def split: option.splits)
    from Some obtain props where props: "map_of schema ''properties'' = Some (JObject props)" "(name, child) \<in> set props"
      by (auto simp: child_of_def bind_eq_Some_conv dest: map_of_SomeD split: option.splits)
    with node have "try_each (\<lambda>(name, child).
        (case as_object child of
           None \<Rightarrow> Inl (violation (path @ [PProperty name]) PropertyNotObject)
         | Some child \<Rightarrow> validate_schema_node child (path @ [PProperty name]) (depth + 1))) props = Inr ()"
      by (auto split: if_splits)
    from bspec [OF this [unfolded try_each_iff] props(2)] child show ?thesis by auto
  qed
qed

lemma check_property:
  "(case child_of (Option.bind (map_of schema ''properties'') as_object) name of
      Some child \<Rightarrow> (case as_object child of None \<Rightarrow> Inr () | Some c \<Rightarrow> f c)
    | None \<Rightarrow>
        (case map_of schema ''additionalProperties'' of
           Some (JBool False) \<Rightarrow> Inl e
         | Some (JObject c) \<Rightarrow> f c
         | _ \<Rightarrow> Inr ())) =
   (case property_rule schema name of Free \<Rightarrow> Inr () | Forbidden \<Rightarrow> Inl e | Checked c \<Rightarrow> f c)"
  by (auto simp: property_rule_def split: option.splits json.splits bool.splits)

lemma validate_instance_step:
  "validate_instance integral schema inst path depth =
     (if depth > max_schema_depth then Inl (violation path ArgumentsTooDeep)
      else
       and_then (case Option.bind (map_of schema ''enum'') as_array of
            None \<Rightarrow> Inr ()
          | Some values \<Rightarrow> ensure (inst \<notin> set values) (violation path NotInEnum)) (\<lambda>_.
       and_then (schema_types schema path) (\<lambda>allowed.
       and_then (ensure (\<not> (\<exists>kind\<in>set allowed. instance_has_type integral inst kind))
                   (violation path (WrongType allowed (instance_type integral inst)))) (\<lambda>_.
       and_then (case as_object inst of
            None \<Rightarrow> Inr ()
          | Some obj \<Rightarrow>
              and_then (case Option.bind (map_of schema ''required'') as_array of
                   None \<Rightarrow> Inr ()
                 | Some required \<Rightarrow>
                     try_each (\<lambda>name. ensure (map_of obj name = None) (violation (path @ [PProperty name]) RequiredMissing))
                       (filter_map as_str required)) (\<lambda>_.
              try_each (\<lambda>(name, value).
                (case property_rule schema name of
                   Free \<Rightarrow> Inr ()
                 | Forbidden \<Rightarrow> Inl (violation (path @ [PProperty name]) AdditionalNotAllowed)
                 | Checked c \<Rightarrow> validate_instance integral c value (path @ [PProperty name]) (depth + 1))) obj)) (\<lambda>_.
       (case (as_array inst, Option.bind (map_of schema ''items'') as_object) of
            (Some array, Some item_schema) \<Rightarrow>
              try_each (\<lambda>(index, value). validate_instance integral item_schema value (path @ [PIndex index]) (depth + 1))
                (enumerate 0 array)
          | _ \<Rightarrow> Inr ()))))))"
  by (subst validate_instance.simps) (simp only: Let_def check_property)

definition argument_fault :: "schema_message \<Rightarrow> bool" where
  "argument_fault m \<longleftrightarrow> m = NotInEnum \<or> (\<exists>allowed kind. m = WrongType allowed kind) \<or> m = RequiredMissing \<or> m = AdditionalNotAllowed"

definition fair :: "schema_violation + unit \<Rightarrow> bool \<Rightarrow> bool" where
  "fair r ok \<longleftrightarrow> (r = Inr () \<longleftrightarrow> ok) \<and> (\<forall>v. r = Inl v \<longrightarrow> argument_fault (sv_message v))"

lemma fair_and_then: "fair m a \<Longrightarrow> fair f b \<Longrightarrow> fair (and_then m (\<lambda>_. f)) (a \<and> b)"
  by (cases m) (auto simp: fair_def)

lemma fair_ensure: "argument_fault (sv_message e) \<Longrightarrow> fair (ensure bad e) (\<not> bad)"
  by (auto simp: fair_def)

lemma fair_try_each: "(\<And>x. x \<in> set xs \<Longrightarrow> fair (f x) (P x)) \<Longrightarrow> fair (try_each f xs) (\<forall>x\<in>set xs. P x)"
  by (auto simp: fair_def try_each_iff dest!: try_each_Inl)

lemma fair_ok: "fair (Inr ()) True"
  by (simp add: fair_def)

lemma fault_simps [simp]: "sv_message (violation path m) = m" "argument_fault NotInEnum"
  "argument_fault (WrongType allowed kind)" "argument_fault RequiredMissing" "argument_fault AdditionalNotAllowed"
  by (simp_all add: violation_def argument_fault_def)

lemma bind_array_None: "\<not> (\<exists>xs. m = Some (JArray xs)) \<Longrightarrow> Option.bind m as_array = None"
  by (cases m) (simp, cases "the m", simp_all)

lemma bind_object_None: "\<not> (\<exists>fs. m = Some (JObject fs)) \<Longrightarrow> Option.bind m as_object = None"
  by (cases m) (simp, cases "the m", simp_all)

lemma Ball_enumerate: "(\<forall>(i, x)\<in>set (enumerate k xs). P x) \<longleftrightarrow> (\<forall>x\<in>set xs. P x)"
  by (induction xs arbitrary: k) auto

text \<open>The check of one instance decides conformance, part by part.\<close>

lemma instance_fair:
  assumes "validate_schema_node schema spath depth = Inr ()"
  shows "fair (validate_instance integral schema inst path depth) (conforms integral schema inst)"
  using assms
proof (induction "Suc max_schema_depth - depth" arbitrary: depth schema spath inst path rule: less_induct)
  case less
  note node = registered_node [OF less.prems]
  have child: "fair (validate_instance integral c v p (depth + 1)) (conforms integral c v)"
    if "\<exists>path'. validate_schema_node c path' (depth + 1) = Inr ()" for c v p
    using less.hyps that node(1) by (auto intro: diff_less_mono2)
  obtain ts where ts: "schema_types schema [] = Inr ts" using node(2) by blast
  let ?enum = "\<forall>values. map_of schema ''enum'' = Some (JArray values) \<longrightarrow> inst \<in> set values"
  let ?type = "\<exists>kind\<in>set ts. instance_has_type integral inst kind"
  let ?required = "\<forall>obj required name. inst = JObject obj \<longrightarrow> map_of schema ''required'' = Some (JArray required) \<longrightarrow>
      JString name \<in> set required \<longrightarrow> map_of obj name \<noteq> None"
  let ?fields = "\<forall>obj name value. inst = JObject obj \<longrightarrow> (name, value) \<in> set obj \<longrightarrow>
      property_rule schema name \<noteq> Forbidden \<and> (\<forall>c. property_rule schema name = Checked c \<longrightarrow> conforms integral c value)"
  let ?items = "\<forall>xs x c. inst = JArray xs \<longrightarrow> map_of schema ''items'' = Some (JObject c) \<longrightarrow> x \<in> set xs \<longrightarrow> conforms integral c x"
  have enum: "fair (case Option.bind (map_of schema ''enum'') as_array of
            None \<Rightarrow> Inr ()
          | Some values \<Rightarrow> ensure (inst \<notin> set values) (violation path NotInEnum)) ?enum"
  proof (cases "\<exists>values. map_of schema ''enum'' = Some (JArray values)")
    case False
    then show ?thesis by (subst bind_array_None) (auto simp: fair_ok)
  qed (auto simp: fair_def)
  have type: "fair (ensure (\<not> (\<exists>kind\<in>set ts. instance_has_type integral inst kind))
      (violation path (WrongType ts (instance_type integral inst)))) ?type"
    by (auto simp: fair_def)
  have required: "fair (case Option.bind (map_of schema ''required'') as_array of
                   None \<Rightarrow> Inr ()
                 | Some required \<Rightarrow>
                     try_each (\<lambda>name. ensure (map_of obj name = None) (violation (path @ [PProperty name]) RequiredMissing))
                       (filter_map as_str required)) ?required" if "inst = JObject obj" for obj
  proof (cases "\<exists>names. map_of schema ''required'' = Some (JArray names)")
    case False
    then show ?thesis by (subst bind_array_None) (auto simp: fair_ok)
  next
    case True
    with that show ?thesis by (auto simp: fair_def try_each_iff dest!: try_each_Inl)
  qed
  have field: "fair (case property_rule schema name of
                   Free \<Rightarrow> Inr ()
                 | Forbidden \<Rightarrow> Inl (violation (path @ [PProperty name]) AdditionalNotAllowed)
                 | Checked c \<Rightarrow> validate_instance integral c val (path @ [PProperty name]) (depth + 1))
      (property_rule schema name \<noteq> Forbidden \<and> (\<forall>c. property_rule schema name = Checked c \<longrightarrow> conforms integral c val))"
    for name val
    using child [OF node(3)] by (cases "property_rule schema name") (auto simp: fair_def)
  have fields: "fair (try_each (\<lambda>(name, value).
                (case property_rule schema name of
                   Free \<Rightarrow> Inr ()
                 | Forbidden \<Rightarrow> Inl (violation (path @ [PProperty name]) AdditionalNotAllowed)
                 | Checked c \<Rightarrow> validate_instance integral c value (path @ [PProperty name]) (depth + 1))) obj) ?fields"
    if "inst = JObject obj" for obj
  proof -
    let ?P = "\<lambda>x. property_rule schema (fst x) \<noteq> Forbidden \<and>
        (\<forall>c. property_rule schema (fst x) = Checked c \<longrightarrow> conforms integral c (snd x))"
    have "(\<forall>x\<in>set obj. ?P x) = ?fields" unfolding that json.inject by auto
    moreover have "fair (try_each (\<lambda>(name, value).
                (case property_rule schema name of
                   Free \<Rightarrow> Inr ()
                 | Forbidden \<Rightarrow> Inl (violation (path @ [PProperty name]) AdditionalNotAllowed)
                 | Checked c \<Rightarrow> validate_instance integral c value (path @ [PProperty name]) (depth + 1))) obj)
        (\<forall>x\<in>set obj. ?P x)"
      by (rule fair_try_each) (simp only: case_prod_beta field)
    ultimately show ?thesis by (simp only:)
  qed
  have object: "fair (case as_object inst of
            None \<Rightarrow> Inr ()
          | Some obj \<Rightarrow>
              and_then (case Option.bind (map_of schema ''required'') as_array of
                   None \<Rightarrow> Inr ()
                 | Some required \<Rightarrow>
                     try_each (\<lambda>name. ensure (map_of obj name = None) (violation (path @ [PProperty name]) RequiredMissing))
                       (filter_map as_str required)) (\<lambda>_.
              try_each (\<lambda>(name, value).
                (case property_rule schema name of
                   Free \<Rightarrow> Inr ()
                 | Forbidden \<Rightarrow> Inl (violation (path @ [PProperty name]) AdditionalNotAllowed)
                 | Checked c \<Rightarrow> validate_instance integral c value (path @ [PProperty name]) (depth + 1))) obj))
      ((?required) \<and> (?fields))"
  proof (cases "as_object inst")
    case None
    then show ?thesis by (cases inst) (auto simp: fair_ok)
  next
    case (Some obj)
    then have inst: "inst = JObject obj" by simp
    show ?thesis unfolding Some option.case by (rule fair_and_then [OF required [OF inst] fields [OF inst]])
  qed
  have items: "fair (case (as_array inst, Option.bind (map_of schema ''items'') as_object) of
            (Some array, Some item_schema) \<Rightarrow>
              try_each (\<lambda>(index, value). validate_instance integral item_schema value (path @ [PIndex index]) (depth + 1))
                (enumerate 0 array)
          | _ \<Rightarrow> Inr ()) ?items"
  proof (cases "\<exists>xs c. inst = JArray xs \<and> map_of schema ''items'' = Some (JObject c)")
    case False
    then have "as_array inst = None \<or> Option.bind (map_of schema ''items'') as_object = None"
      by (cases "as_array inst") (auto simp: bind_object_None)
    with False show ?thesis by (auto simp: fair_ok split: option.split)
  next
    case True
    then obtain xs c where "inst = JArray xs" and c: "map_of schema ''items'' = Some (JObject c)" by blast
    moreover have "fair (try_each (\<lambda>(index, value). validate_instance integral c value (path @ [PIndex index]) (depth + 1))
        (enumerate 0 xs)) (\<forall>(i, x)\<in>set (enumerate 0 xs). conforms integral c x)"
      by (rule fair_try_each) (simp only: case_prod_beta child [OF node(4) [OF c]])
    ultimately show ?thesis unfolding Ball_enumerate by (simp add: Ball_def)
  qed
  have "conforms integral schema inst \<longleftrightarrow> ?enum \<and> ?type \<and> (?required \<and> ?fields) \<and> ?items"
    unfolding conforms_iff [of integral schema inst] ts by (simp only: sum.inject simp_thms ex_simps) blast
  moreover have "fair (validate_instance integral schema inst path depth) (?enum \<and> ?type \<and> (?required \<and> ?fields) \<and> ?items)"
    using node(1)
    by (subst validate_instance_step)
      (simp only: schema_types_path [OF ts, of path] and_then_simps not_less [symmetric] if_False,
       intro fair_and_then enum type object items)
  ultimately show ?case by simp
qed

lemma arguments_fair:
  assumes "validate_tool_schema schema = Inr ()"
  shows "(validate_arguments integral schema arguments = Inr () \<longleftrightarrow>
      (\<exists>fs. arguments = JObject fs) \<and> (\<exists>ss. schema = JObject ss \<and> conforms integral ss arguments)) \<and>
    (\<forall>v. validate_arguments integral schema arguments = Inl v \<longrightarrow>
      sv_message v = ArgumentsNotObject \<and> (\<nexists>fs. arguments = JObject fs) \<or> argument_fault (sv_message v))"
proof -
  from assms obtain ss where ss: "schema = JObject ss" "validate_schema_node ss [] 0 = Inr ()"
    by (auto simp: validate_tool_schema_def split: option.splits)
  have "fair (validate_instance integral ss arguments [] 0) (conforms integral ss arguments)"
    by (rule instance_fair [OF ss(2)])
  moreover have "as_object arguments = None \<longleftrightarrow> (\<nexists>fs. arguments = JObject fs)" by (cases arguments) auto
  ultimately show ?thesis
    using ss(1) by (cases "as_object arguments")
      (auto simp: validate_arguments_def fair_def and_then_eq_Inl violation_def)
qed

lemma arguments_faults:
  "validate_tool_schema schema = Inr () \<Longrightarrow> validate_arguments integral schema arguments = Inl v \<Longrightarrow>
     sv_message v = ArgumentsNotObject \<or> argument_fault (sv_message v)"
  using arguments_fair [of schema integral arguments] by blast

text \<open>Property C16. The check of a call's arguments decides the meaning of the schema: under a schema the registry
  has accepted, it accepts exactly the objects that conform, and whatever it refuses it refuses for a fault
  of the arguments; no malformed keyword and no depth limit of the schema can surface at a call.\<close>

theorem arguments_decided:
  assumes "validate_tool_schema schema = Inr ()"
  shows "(validate_arguments integral schema arguments = Inr () \<longleftrightarrow>
      (\<exists>fs. arguments = JObject fs) \<and> (\<exists>ss. schema = JObject ss \<and> conforms integral ss arguments)) \<and>
    (\<forall>v. validate_arguments integral schema arguments = Inl v \<longrightarrow>
      sv_message v = ArgumentsNotObject \<and> (\<nexists>fs. arguments = JObject fs) \<or> argument_fault (sv_message v))"
  by (rule arguments_fair [OF assms])

definition example_schema :: json where
  "example_schema =
     JObject [(''type'', JString ''object''), (''properties'', JObject [(''path'', JObject [(''type'', JString ''string'')])]),
       (''required'', JArray [JString ''path'']), (''additionalProperties'', JBool False)]"

lemma example_schema_registered: "validate_tool_schema example_schema = Inr ()"
  by (simp add: example_schema_def validate_tool_schema_def schema_types_def known_types_def violation_def
      validate_schema_node.simps max_schema_depth_def)

theorem arguments_decided_witness:
  "validate_tool_schema example_schema = Inr () \<and>
   (\<exists>ss. example_schema = JObject ss \<and> conforms (\<lambda>_. True) ss (JObject [(''path'', JString ''a'')])) \<and>
   validate_arguments (\<lambda>_. True) example_schema (JObject [(''other'', JNull)]) \<noteq> Inr ()"
proof -
  have "validate_arguments (\<lambda>_. True) example_schema (JObject [(''path'', JString ''a'')]) = Inr ()"
    "validate_arguments (\<lambda>_. True) example_schema (JObject [(''other'', JNull)]) \<noteq> Inr ()"
    by (simp_all add: example_schema_def validate_arguments_def validate_instance.simps schema_types_def known_types_def
        instance_has_type_def child_of_def max_schema_depth_def List.map_filter_simps)
  with arguments_decided [OF example_schema_registered, of "\<lambda>_. True" "JObject [(''path'', JString ''a'')]"]
    example_schema_registered
  show ?thesis by blast
qed

end
