(* ===== verification/Tool_Batch.thy ===== *)
theory Tool_Batch
  imports Session_Types "HOL-Library.Multiset"
begin

text \<open>
  The scheduler of one batch of tool calls (crates/xharness-tools/src/batch.rs): admission of the batch, the
  schedule class of every request, and the loop of \<open>run_batch\<close>, which launches calls up to the concurrency
  limit and awaits whichever call ends first.  The call that ends is the environment's choice, so the loop is
  a step relation; everything between two awaits is a function.  The registry is a map, what a tool's key
  resolver returns is a value (\<open>None\<close> when it panics), a call's result is a type variable.
\<close>

datatype tool_concurrency = Parallel | Keyed | Exclusive
datatype tool_settlement = Bounded | External
datatype tool_batch_policy = AnyBatch | Standalone

subsection \<open>Admission\<close>

record batch_spec =
  bp_batch_policy :: tool_batch_policy
  bp_concurrency :: tool_concurrency
  bp_resource_key_resolver :: "(json \<Rightarrow> string option option) option"

record batch_request =
  br_order :: nat
  br_name :: string
  br_arguments_json :: string

datatype batch_error =
    ZeroConcurrency
  | DuplicateOrder nat
  | StandaloneRequired string nat
  | SupervisorStopped

fun check_standalone :: "(string \<Rightarrow> batch_spec option) \<Rightarrow> nat \<Rightarrow> batch_request list \<Rightarrow> batch_error + unit" where
  "check_standalone registry batch_size [] = Inr ()"
| "check_standalone registry batch_size (r # rs) =
     (case registry (br_name r) of
        None \<Rightarrow> check_standalone registry batch_size rs
      | Some spec \<Rightarrow>
          if bp_batch_policy spec = Standalone then Inl (StandaloneRequired (br_name r) batch_size)
          else check_standalone registry batch_size rs)"

fun check_orders :: "nat set \<Rightarrow> batch_request list \<Rightarrow> batch_error + unit" where
  "check_orders orders [] = Inr ()"
| "check_orders orders (r # rs) =
     (if br_order r \<in> orders then Inl (DuplicateOrder (br_order r))
      else check_orders (insert (br_order r) orders) rs)"

definition schedule_class ::
  "(string \<Rightarrow> json option) \<Rightarrow> (string \<Rightarrow> batch_spec option) \<Rightarrow> batch_request \<Rightarrow> tool_concurrency \<times> string" where
  "schedule_class from_str registry r =
     (case registry (br_name r) of
        None \<Rightarrow> (Exclusive, [])
      | Some spec \<Rightarrow>
          if bp_concurrency spec \<noteq> Keyed then (bp_concurrency spec, [])
          else (case from_str (br_arguments_json r) of
              None \<Rightarrow> (Exclusive, [])
            | Some arguments \<Rightarrow>
                (case bp_resource_key_resolver spec of
                   None \<Rightarrow> (Exclusive, [])
                 | Some resolver \<Rightarrow>
                     (case resolver arguments of
                        Some (Some key) \<Rightarrow> if key = [] then (Exclusive, []) else (Keyed, key)
                      | _ \<Rightarrow> (Exclusive, [])))))"

record batch_item =
  bi_order :: nat
  bi_mode :: tool_concurrency
  bi_key :: string
  bi_started :: bool

definition schedule ::
  "(string \<Rightarrow> json option) \<Rightarrow> (string \<Rightarrow> batch_spec option) \<Rightarrow> batch_request \<Rightarrow> batch_item" where
  "schedule from_str registry r =
     (case schedule_class from_str registry r of
        (mode, key) \<Rightarrow> \<lparr>bi_order = br_order r, bi_mode = mode, bi_key = key, bi_started = False\<rparr>)"

subsection \<open>The loop\<close>

record 'r batch =
  ba_items :: "batch_item list"
  ba_max_concurrency :: nat
  ba_active :: "nat list"
  ba_modes :: "(nat \<times> tool_concurrency \<times> string) list"
  ba_results :: "(nat \<times> 'r) option list"
  ba_completed :: nat
  ba_events :: "(nat \<times> 'r) list"

definition new_batch :: "batch_item list \<Rightarrow> nat \<Rightarrow> 'r batch" where
  "new_batch items max_concurrency =
     \<lparr>ba_items = items, ba_max_concurrency = max_concurrency, ba_active = [], ba_modes = [],
      ba_results = replicate (length items) None, ba_completed = 0, ba_events = []\<rparr>"

definition start_batch ::
  "(string \<Rightarrow> json option) \<Rightarrow> (string \<Rightarrow> batch_spec option) \<Rightarrow> batch_request list \<Rightarrow> nat \<Rightarrow> batch_error + 'r batch" where
  "start_batch from_str registry requests max_concurrency =
     and_then (ensure (max_concurrency = 0) ZeroConcurrency) (\<lambda>_.
     and_then (if length requests > 1 then check_standalone registry (length requests) requests else Inr ()) (\<lambda>_.
     and_then (check_orders {} requests) (\<lambda>_.
     Inr (new_batch (map (schedule from_str registry) requests) max_concurrency))))"

definition can_launch :: "batch_item \<Rightarrow> (tool_concurrency \<times> string) list \<Rightarrow> bool" where
  "can_launch item active =
     (if (\<exists>m\<in>set active. fst m = Exclusive) then False
      else (case bi_mode item of
          Exclusive \<Rightarrow> active = []
        | Keyed \<Rightarrow> \<not> (\<exists>m\<in>set active. fst m = Keyed \<and> snd m = bi_key item)
        | Parallel \<Rightarrow> True))"

definition launch :: "'r batch \<Rightarrow> nat \<Rightarrow> 'r batch" where
  "launch b p =
     (let item = ba_items b ! p in
      b\<lparr>ba_items := (ba_items b)[p := item\<lparr>bi_started := True\<rparr>],
        ba_modes := AList.update p (bi_mode item, bi_key item) (ba_modes b),
        ba_active := ba_active b @ [p]\<rparr>)"

text \<open>The inner \<open>for\<close> loop over the items before the barrier, and whether it launched any.\<close>

fun sweep :: "nat list \<Rightarrow> 'r batch \<Rightarrow> 'r batch \<times> bool" where
  "sweep [] b = (b, False)"
| "sweep (p # ps) b =
     (if ba_max_concurrency b \<le> length (ba_active b) then (b, False)
      else if bi_started (ba_items b ! p) \<or> \<not> can_launch (ba_items b ! p) (map snd (ba_modes b)) then sweep ps b
      else (fst (sweep ps (launch b p)), True))"

definition barrier :: "'r batch \<Rightarrow> nat" where
  "barrier b =
     (case position (\<lambda>item. \<not> bi_started item \<and> bi_mode item = Exclusive) (ba_items b) of
        Some p \<Rightarrow> p | None \<Rightarrow> length (ba_items b))"

definition round :: "'r batch \<Rightarrow> 'r batch \<times> bool" where
  "round b =
     (case sweep [0 ..< barrier b] b of
        (b', launched_any) \<Rightarrow>
          if \<not> launched_any \<and> barrier b < length (ba_items b) \<and> ba_active b' = [] then (launch b' (barrier b), True)
          else (b', launched_any))"

subsection \<open>Every round that launches starts an item\<close>

definition unstarted :: "'r batch \<Rightarrow> nat" where
  "unstarted b = length (filter (\<lambda>item. \<not> bi_started item) (ba_items b))"

lemma launch_simps [simp]:
  "ba_active (launch b p) = ba_active b @ [p]"
  "ba_max_concurrency (launch b p) = ba_max_concurrency b"
  "ba_results (launch b p) = ba_results b"
  "ba_completed (launch b p) = ba_completed b"
  "ba_events (launch b p) = ba_events b"
  "length (ba_items (launch b p)) = length (ba_items b)"
  by (simp_all add: launch_def Let_def)

lemma items_launch:
  "q < length (ba_items b) \<Longrightarrow> ba_items (launch b p) ! q =
     (if q = p then (ba_items b ! p)\<lparr>bi_started := True\<rparr> else ba_items b ! q)"
  by (simp add: launch_def Let_def nth_list_update)

lemma filter_update_less:
  "p < length xs \<Longrightarrow> P (xs ! p) \<Longrightarrow> \<not> P y \<Longrightarrow> length (filter P (xs[p := y])) < length (filter P xs)"
proof (induction xs arbitrary: p)
  case (Cons x xs)
  then show ?case by (cases p) auto
qed simp

lemma unstarted_launch:
  "p < length (ba_items b) \<Longrightarrow> \<not> bi_started (ba_items b ! p) \<Longrightarrow> unstarted (launch b p) < unstarted b"
  by (simp add: unstarted_def launch_def Let_def filter_update_less)

lemma unstarted_sweep:
  assumes "\<forall>p\<in>set ps. p < length (ba_items b)"
  shows "unstarted (fst (sweep ps b)) \<le> unstarted b \<and> (snd (sweep ps b) \<longrightarrow> unstarted (fst (sweep ps b)) < unstarted b) \<and>
    length (ba_items (fst (sweep ps b))) = length (ba_items b) \<and> (\<not> snd (sweep ps b) \<longrightarrow> fst (sweep ps b) = b)"
  using assms
proof (induction ps b rule: sweep.induct)
  case (2 p ps b)
  show ?case
  proof (cases "ba_max_concurrency b \<le> length (ba_active b) \<or> bi_started (ba_items b ! p) \<or>
      \<not> can_launch (ba_items b ! p) (map snd (ba_modes b))")
    case True
    with 2 show ?thesis by auto
  next
    case False
    with "2.prems" have "unstarted (launch b p) < unstarted b" by (simp add: unstarted_launch)
    with 2 False show ?thesis by fastforce
  qed
qed simp

lemma barrier_le: "barrier b \<le> length (ba_items b)"
  by (auto simp: barrier_def split: option.splits dest: position_SomeD)

lemma barrier_exclusive:
  "barrier b < length (ba_items b) \<Longrightarrow>
     \<not> bi_started (ba_items b ! barrier b) \<and> bi_mode (ba_items b ! barrier b) = Exclusive"
  by (auto simp: barrier_def split: option.splits dest: position_SomeD)

lemma before_barrier:
  "p < barrier b \<Longrightarrow> \<not> bi_started (ba_items b ! p) \<Longrightarrow> bi_mode (ba_items b ! p) \<noteq> Exclusive"
  by (auto simp: barrier_def split: option.splits dest: position_SomeD)
    (auto simp: position_None_iff)

lemma round_progress:
  assumes "round b = (b', True)"
  shows "unstarted b' < unstarted b"
proof -
  obtain s any where s: "sweep [0 ..< barrier b] b = (s, any)" by (cases "sweep [0 ..< barrier b] b")
  have sweep: "unstarted s \<le> unstarted b" "any \<Longrightarrow> unstarted s < unstarted b" "\<not> any \<Longrightarrow> s = b"
    using unstarted_sweep [of "[0 ..< barrier b]" b] barrier_le [of b] s by auto
  show ?thesis
  proof (cases "\<not> any \<and> barrier b < length (ba_items b) \<and> ba_active s = []")
    case True
    with assms s have "b' = launch s (barrier b)" by (simp add: round_def)
    with True sweep(3) barrier_exclusive [of b] show ?thesis by (simp add: unstarted_launch)
  next
    case False
    with assms s sweep(2) show ?thesis by (auto simp: round_def)
  qed
qed

function launch_phase :: "'r batch \<Rightarrow> 'r batch" where
  "launch_phase b =
     (if length (ba_active b) < ba_max_concurrency b then
        (case round b of (b', launched_any) \<Rightarrow> if launched_any then launch_phase b' else b')
      else b)"
  by pat_completeness auto
termination
  by (relation "measure unstarted") (auto simp: round_progress)

declare launch_phase.simps [simp del]

definition resume :: "'r batch \<Rightarrow> 'r batch" where
  "resume b = (if ba_completed b < length (ba_items b) then launch_phase b else b)"

text \<open>The call at position \<open>p\<close> is the one \<open>active.next()\<close> yields.\<close>

definition settle :: "'r batch \<Rightarrow> nat \<Rightarrow> 'r \<Rightarrow> 'r batch" where
  "settle b p result =
     (let completion = (bi_order (ba_items b ! p), result) in
      b\<lparr>ba_active := remove1 p (ba_active b), ba_modes := AList.delete p (ba_modes b),
        ba_completed := Suc (ba_completed b), ba_events := ba_events b @ [completion],
        ba_results := (ba_results b)[p := Some completion]\<rparr>)"

text \<open>The states in which the loop awaits, from a started batch.\<close>

inductive awaits :: "'r batch \<Rightarrow> 'r batch \<Rightarrow> bool" for b0 where
  begins: "awaits b0 (resume b0)"
| continues: "awaits b0 b \<Longrightarrow> ba_completed b < length (ba_items b) \<Longrightarrow> p \<in> set (ba_active b) \<Longrightarrow>
    awaits b0 (resume (settle b p result))"

text \<open>The loop ends when every call has completed, or breaks when there is none to await.\<close>

definition ended :: "'r batch \<Rightarrow> bool" where
  "ended b \<longleftrightarrow> \<not> ba_completed b < length (ba_items b) \<or> ba_active b = []"

definition batch_results :: "'r batch \<Rightarrow> (nat \<times> 'r) list" where
  "batch_results b = sort_key fst (filter_map id (ba_results b))"

subsection \<open>The invariant of the loop\<close>

abbreviation mode_at :: "'r batch \<Rightarrow> nat \<Rightarrow> tool_concurrency" where
  "mode_at b p \<equiv> bi_mode (ba_items b ! p)"

abbreviation key_at :: "'r batch \<Rightarrow> nat \<Rightarrow> string" where
  "key_at b p \<equiv> bi_key (ba_items b ! p)"

abbreviation begun :: "'r batch \<Rightarrow> nat \<Rightarrow> bool" where
  "begun b p \<equiv> bi_started (ba_items b ! p)"

abbreviation complete :: "'r batch \<Rightarrow> nat \<Rightarrow> bool" where
  "complete b p \<equiv> ba_results b ! p \<noteq> None"

definition conflicts :: "'r batch \<Rightarrow> nat \<Rightarrow> nat \<Rightarrow> bool" where
  "conflicts b p q \<longleftrightarrow> mode_at b p = Exclusive \<or> mode_at b q = Exclusive \<or>
     mode_at b p = Keyed \<and> mode_at b q = Keyed \<and> key_at b p = key_at b q"

definition batch_inv :: "'r batch \<Rightarrow> bool" where
  "batch_inv b \<longleftrightarrow>
     distinct (ba_active b) \<and> set (ba_active b) \<subseteq> {..< length (ba_items b)} \<and>
     ba_modes b = map (\<lambda>p. (p, mode_at b p, key_at b p)) (ba_active b) \<and>
     length (ba_results b) = length (ba_items b) \<and>
     (\<forall>p < length (ba_items b). begun b p \<longleftrightarrow> p \<in> set (ba_active b) \<or> complete b p) \<and>
     (\<forall>p \<in> set (ba_active b). \<not> complete b p) \<and>
     ba_completed b = length (filter (\<lambda>r. r \<noteq> None) (ba_results b)) \<and>
     0 < ba_max_concurrency b \<and> length (ba_active b) \<le> ba_max_concurrency b"

text \<open>Calls that conflict run one after the other, in the order of the model.\<close>

definition serial :: "'r batch \<Rightarrow> bool" where
  "serial b \<longleftrightarrow> (\<forall>q < length (ba_items b). \<forall>p < q. begun b q \<and> conflicts b p q \<longrightarrow> complete b p)"

lemma batch_invD:
  assumes "batch_inv b"
  shows "distinct (ba_active b)" "p \<in> set (ba_active b) \<Longrightarrow> p < length (ba_items b)"
    "ba_modes b = map (\<lambda>p. (p, mode_at b p, key_at b p)) (ba_active b)"
    "length (ba_results b) = length (ba_items b)"
    "p < length (ba_items b) \<Longrightarrow> begun b p \<longleftrightarrow> p \<in> set (ba_active b) \<or> complete b p"
    "p \<in> set (ba_active b) \<Longrightarrow> \<not> complete b p"
    "ba_completed b = length (filter (\<lambda>r. r \<noteq> None) (ba_results b))"
    "0 < ba_max_concurrency b" "length (ba_active b) \<le> ba_max_concurrency b"
  using assms by (auto simp: batch_inv_def)

lemma can_launch_iff:
  assumes "batch_inv b"
  shows "can_launch item (map snd (ba_modes b)) \<longleftrightarrow>
    (\<forall>p\<in>set (ba_active b). mode_at b p \<noteq> Exclusive) \<and>
    (case bi_mode item of Exclusive \<Rightarrow> ba_active b = []
      | Keyed \<Rightarrow> \<forall>p\<in>set (ba_active b). \<not> (mode_at b p = Keyed \<and> key_at b p = bi_key item)
      | Parallel \<Rightarrow> True)"
  unfolding can_launch_def batch_invD(3) [OF assms] by (auto split: tool_concurrency.split)

lemma launch_class:
  "q < length (ba_items b) \<Longrightarrow> mode_at (launch b p) q = mode_at b q"
  "q < length (ba_items b) \<Longrightarrow> key_at (launch b p) q = key_at b q"
  by (auto simp: items_launch)

lemma AList_update_new: "k \<notin> set (map fst xs) \<Longrightarrow> AList.update k v xs = xs @ [(k, v)]"
  by (induction xs) auto

lemma launch_inv:
  assumes inv: "batch_inv b" and q: "q < length (ba_items b)" "\<not> begun b q"
    and room: "length (ba_active b) < ba_max_concurrency b"
  shows "batch_inv (launch b q)"
proof -
  note inv = batch_invD [OF inv]
  have fresh: "q \<notin> set (ba_active b)" "\<not> complete b q" using inv(5) [of q] q by auto
  have "ba_modes (launch b q) = ba_modes b @ [(q, mode_at b q, key_at b q)]"
    using fresh(1) by (simp add: launch_def Let_def AList_update_new inv(3))
  also have "\<dots> = map (\<lambda>p. (p, mode_at (launch b q) p, key_at (launch b q) p)) (ba_active (launch b q))"
    using q(1) inv(2) by (simp add: inv(3) launch_class)
  finally have "ba_modes (launch b q) = \<dots>" .
  moreover have "begun (launch b q) p \<longleftrightarrow> p \<in> set (ba_active (launch b q)) \<or> complete (launch b q) p"
    if "p < length (ba_items b)" for p
    using inv(5) [OF that] that by (auto simp: items_launch)
  ultimately show ?thesis
    using inv fresh q room by (auto simp: batch_inv_def)
qed

lemma launch_serial:
  assumes inv: "batch_inv b" and "serial b" and q: "q < length (ba_items b)" "\<not> begun b q"
    and before: "\<And>p. p < q \<Longrightarrow> conflicts b p q \<Longrightarrow> complete b p"
  shows "serial (launch b q)"
proof -
  have c: "conflicts (launch b q) p r = conflicts b p r" if "r < length (ba_items b)" "p < r" for p r
    using that by (simp add: conflicts_def launch_class)
  have "\<not> complete b q" using batch_invD(5) [OF inv q(1)] q(2) by auto
  then have "complete b p" if "r < length (ba_items b)" "p < r" "begun (launch b q) r" "conflicts b p r" for p r
    using that before \<open>serial b\<close> by (cases "r = q") (auto simp: serial_def items_launch)
  with c show ?thesis by (simp add: serial_def)
qed

text \<open>An unstarted item that may not be launched stays so while others are launched.\<close>

lemma blocked_launch:
  assumes inv: "batch_inv b" "batch_inv (launch b q)" and "\<not> can_launch item (map snd (ba_modes b))"
    and "bi_mode item \<noteq> Exclusive"
  shows "\<not> can_launch item (map snd (ba_modes (launch b q)))"
  using assms(3,4) batch_invD(2) [OF inv(1)]
  unfolding can_launch_iff [OF inv(1)] can_launch_iff [OF inv(2)]
  by (cases "bi_mode item") (auto simp: launch_class)

lemma sweep_inv:
  assumes "batch_inv b" and "serial b" and "m \<le> length (ba_items b)"
    and "\<And>p. p < m \<Longrightarrow> \<not> begun b p \<Longrightarrow> mode_at b p \<noteq> Exclusive"
    and "\<And>p. p < k \<Longrightarrow> p < m \<Longrightarrow> \<not> begun b p \<Longrightarrow> \<not> can_launch (ba_items b ! p) (map snd (ba_modes b))"
  shows "batch_inv (fst (sweep [k ..< m] b)) \<and> serial (fst (sweep [k ..< m] b))"
  using assms
proof (induction "m - k" arbitrary: k b)
  case (Suc n)
  then have k: "k < m" and split: "[k ..< m] = k # [Suc k ..< m]" by (auto simp: upt_conv_Cons)
  note inv = batch_invD [OF Suc.prems(1)]
  have n: "n = m - Suc k" using Suc.hyps(2) by simp
  consider "ba_max_concurrency b \<le> length (ba_active b)"
    | "length (ba_active b) < ba_max_concurrency b" "begun b k \<or> \<not> can_launch (ba_items b ! k) (map snd (ba_modes b))"
    | "length (ba_active b) < ba_max_concurrency b" "\<not> begun b k" "can_launch (ba_items b ! k) (map snd (ba_modes b))"
    by linarith
  then show ?case
  proof cases
    case 1
    with Suc.prems split show ?thesis by simp
  next
    case 2
    have "batch_inv (fst (sweep [Suc k ..< m] b)) \<and> serial (fst (sweep [Suc k ..< m] b))"
      using Suc.prems 2(2) by (intro Suc.hyps(1) [OF n]) (auto simp: less_Suc_eq)
    with 2 split show ?thesis by simp
  next
    case 3
    let ?b = "launch b k"
    have kn: "k < length (ba_items b)" using k Suc.prems(3) by simp
    have inv': "batch_inv ?b" by (rule launch_inv [OF Suc.prems(1) kn 3(2,1)])
    have mode: "mode_at b k \<noteq> Exclusive" using Suc.prems(4) [OF k 3(2)] .
    have "complete b p" if p: "p < k" "conflicts b p k" for p
    proof (cases "begun b p")
      case True
      with inv(5) [of p] p(1) kn have "p \<in> set (ba_active b) \<or> complete b p" by simp
      moreover have "p \<notin> set (ba_active b)"
        using 3(3) p(2) mode unfolding can_launch_iff [OF Suc.prems(1)]
        by (auto simp: conflicts_def split: tool_concurrency.splits)
      ultimately show ?thesis by simp
    next
      case False
      have "\<not> can_launch (ba_items b ! p) (map snd (ba_modes b))" using Suc.prems(5) [OF p(1) _ False] p(1) k by simp
      moreover have "mode_at b p \<noteq> Exclusive" using Suc.prems(4) [OF _ False] p(1) k by simp
      ultimately show ?thesis
        using 3(3) p(2) mode unfolding can_launch_iff [OF Suc.prems(1)]
        by (auto simp: conflicts_def split: tool_concurrency.splits)
    qed
    then have serial': "serial ?b" by (rule launch_serial [OF Suc.prems(1,2) kn 3(2)])
    have "batch_inv (fst (sweep [Suc k ..< m] ?b)) \<and> serial (fst (sweep [Suc k ..< m] ?b))"
    proof (rule Suc.hyps(1) [OF n inv' serial'])
      show "m \<le> length (ba_items ?b)" using Suc.prems(3) by simp
    next
      fix p assume "p < m" "\<not> begun ?b p"
      then show "mode_at ?b p \<noteq> Exclusive"
        using Suc.prems(3,4) by (auto simp: items_launch split: if_splits)
    next
      fix p assume p: "p < Suc k" "p < m" "\<not> begun ?b p"
      then have p': "p < k" "\<not> begun b p" and same: "ba_items ?b ! p = ba_items b ! p"
        using Suc.prems(3) by (auto simp: items_launch less_Suc_eq split: if_splits)
      show "\<not> can_launch (ba_items ?b ! p) (map snd (ba_modes ?b))"
        unfolding same
        using blocked_launch [OF Suc.prems(1) inv'] Suc.prems(4,5) p' p(2) by simp
    qed
    with 3 split show ?thesis by simp
  qed
qed simp

lemma sweep_idle:
  "snd (sweep ps b) = False \<Longrightarrow> length (ba_active b) < ba_max_concurrency b \<Longrightarrow> p \<in> set ps \<Longrightarrow>
     begun b p \<or> \<not> can_launch (ba_items b ! p) (map snd (ba_modes b))"
  by (induction ps b rule: sweep.induct) (auto split: if_splits)

lemma round_inv:
  assumes "batch_inv b" and "serial b" and "length (ba_active b) < ba_max_concurrency b"
  shows "batch_inv (fst (round b)) \<and> serial (fst (round b))"
proof -
  obtain s any where s: "sweep [0 ..< barrier b] b = (s, any)" by (cases "sweep [0 ..< barrier b] b")
  have swept: "batch_inv s \<and> serial s"
    using sweep_inv [OF assms(1,2) barrier_le before_barrier, of 0] s by simp
  show ?thesis
  proof (cases "\<not> any \<and> barrier b < length (ba_items b) \<and> ba_active s = []")
    case True
    then have "s = b" using unstarted_sweep [of "[0 ..< barrier b]" b] barrier_le [of b] s by auto
    with True have active: "ba_active b = []" and k: "barrier b < length (ba_items b)" by auto
    have unstarted: "\<not> begun b (barrier b)" using barrier_exclusive [OF k] by simp
    have "complete b p" if p: "p < barrier b" for p
    proof -
      have "begun b p"
        using sweep_idle [of "[0 ..< barrier b]" b p] before_barrier [OF p] s True p assms(3)
        unfolding can_launch_iff [OF assms(1)] active by (auto split: tool_concurrency.splits)
      with batch_invD(5) [OF assms(1), of p] active p k show ?thesis by simp
    qed
    with True \<open>s = b\<close> s show ?thesis
      using launch_inv [OF assms(1) k unstarted assms(3)] launch_serial [OF assms(1,2) k unstarted]
      by (simp add: round_def)
  next
    case False
    with s swept show ?thesis by (auto simp: round_def)
  qed
qed

text \<open>The loop stops launching when the batch is full or nothing before the barrier may start.\<close>

definition saturated :: "'r batch \<Rightarrow> bool" where
  "saturated b \<longleftrightarrow> length (ba_active b) = ba_max_concurrency b \<or>
     (\<forall>p < barrier b. begun b p \<or> \<not> can_launch (ba_items b ! p) (map snd (ba_modes b))) \<and>
     (barrier b < length (ba_items b) \<longrightarrow> ba_active b \<noteq> [])"

lemma launch_phase_inv:
  "batch_inv b \<Longrightarrow> serial b \<Longrightarrow>
     batch_inv (launch_phase b) \<and> serial (launch_phase b) \<and> saturated (launch_phase b)"
proof (induction b rule: launch_phase.induct)
  case (1 b)
  show ?case
  proof (cases "length (ba_active b) < ba_max_concurrency b")
    case True
    obtain b' any where r: "round b = (b', any)" by (cases "round b")
    note inv = round_inv [OF "1.prems" True, unfolded r fst_conv]
    show ?thesis
    proof (cases any)
      case True
      with 1 r inv \<open>length (ba_active b) < ba_max_concurrency b\<close> show ?thesis
        by (subst (1 2 3) launch_phase.simps) simp
    next
      case False
      obtain s any' where s: "sweep [0 ..< barrier b] b = (s, any')" by (cases "sweep [0 ..< barrier b] b")
      with r False have "\<not> any'" "b' = s" "\<not> (barrier b < length (ba_items b) \<and> ba_active s = [])"
        by (auto simp: round_def split: if_splits)
      moreover from this have "b' = b" using unstarted_sweep [of "[0 ..< barrier b]" b] barrier_le [of b] s by auto
      ultimately have "saturated b"
        using sweep_idle [of "[0 ..< barrier b]" b] s True by (auto simp: saturated_def)
      with \<open>b' = b\<close> r False "1.prems" show ?thesis by (subst (1 2 3) launch_phase.simps) simp
    qed
  next
    case False
    moreover from this have "length (ba_active b) = ba_max_concurrency b"
      using batch_invD(9) [OF "1.prems"(1)] by simp
    ultimately show ?thesis using "1.prems" by (subst (1 2 3) launch_phase.simps) (simp add: saturated_def)
  qed
qed

lemma saturated_active:
  assumes "batch_inv b" and "saturated b" and "ba_active b = []"
  shows "\<not> ba_completed b < length (ba_items b)"
proof -
  have "barrier b = length (ba_items b)"
    using assms(2,3) batch_invD(8) [OF assms(1)] barrier_le [of b] by (auto simp: saturated_def)
  then have "complete b p" if "p < length (ba_items b)" for p
    using that assms batch_invD(5,8) [OF assms(1)] before_barrier [of p b]
    unfolding saturated_def can_launch_iff [OF assms(1)]
    by (cases "mode_at b p") auto
  then have "filter (\<lambda>r. r \<noteq> None) (ba_results b) = ba_results b"
    using batch_invD(4) [OF assms(1)] by (intro filter_True) (metis in_set_conv_nth)
  then show ?thesis using batch_invD(4,7) [OF assms(1)] by simp
qed

lemma filter_update_more:
  "p < length xs \<Longrightarrow> \<not> P (xs ! p) \<Longrightarrow> P y \<Longrightarrow> length (filter P (xs[p := y])) = Suc (length (filter P xs))"
proof (induction xs arbitrary: p)
  case (Cons x xs)
  then show ?case by (cases p) auto
qed simp

lemma settle_simps [simp]:
  "ba_items (settle b p r) = ba_items b" "ba_max_concurrency (settle b p r) = ba_max_concurrency b"
  "ba_completed (settle b p r) = Suc (ba_completed b)" "ba_active (settle b p r) = remove1 p (ba_active b)"
  by (simp_all add: settle_def Let_def)

lemma settle_inv:
  assumes inv: "batch_inv b" and "serial b" and p: "p \<in> set (ba_active b)"
  shows "batch_inv (settle b p r) \<and> serial (settle b p r)"
proof -
  note inv = batch_invD [OF inv]
  have pn: "p < length (ba_results b)" using inv(2) [OF p] inv(4) by simp
  have results: "complete (settle b p r) q \<longleftrightarrow> q = p \<or> complete b q" if "q < length (ba_items b)" for q
    using that inv(4) by (cases "q = p") (simp_all add: settle_def Let_def)
  have "ba_modes (settle b p r) = map (\<lambda>q. (q, mode_at b q, key_at b q)) (remove1 p (ba_active b))"
    using inv(1)
    by (simp add: settle_def Let_def inv(3) AList.delete_eq distinct_remove1_removeAll filter_map o_def
        removeAll_filter_not_eq case_prod_beta)
  moreover have "length (filter (\<lambda>r. r \<noteq> None) (ba_results (settle b p r))) = Suc (ba_completed b)"
    using filter_update_more [OF pn, of "\<lambda>r. r \<noteq> None"] inv(6) [OF p] by (simp add: settle_def Let_def inv(7))
  moreover have "length (remove1 p (ba_active b)) \<le> ba_max_concurrency b"
    using inv(9) p by (simp add: length_remove1)
  moreover have "length (ba_results (settle b p r)) = length (ba_items b)" using inv(4) by (simp add: settle_def Let_def)
  ultimately have "batch_inv (settle b p r)"
    using inv(1,2,5,6,8) results p unfolding batch_inv_def by (auto simp: set_remove1_eq)
  moreover have "serial (settle b p r)"
    using \<open>serial b\<close> results by (auto simp: serial_def conflicts_def)
  ultimately show ?thesis by blast
qed

lemma new_batch_inv:
  assumes "0 < n" and "\<forall>item\<in>set items. \<not> bi_started item"
  shows "batch_inv (new_batch items n) \<and> serial (new_batch items n)"
proof -
  have "filter (\<lambda>r. r \<noteq> None) (replicate k None) = []" for k by (induction k) auto
  with assms show ?thesis by (auto simp: batch_inv_def serial_def new_batch_def)
qed

lemma start_batch_inv:
  assumes "start_batch from_str registry requests n = Inr b"
  shows "batch_inv b \<and> serial b"
proof -
  have "\<not> bi_started (schedule from_str registry r)" for r by (simp add: schedule_def split: prod.split)
  with assms show ?thesis by (auto simp: start_batch_def intro!: new_batch_inv)
qed

lemma resume_inv:
  assumes "batch_inv b" and "serial b"
  shows "batch_inv (resume b) \<and> serial (resume b) \<and>
    (ba_completed (resume b) < length (ba_items (resume b)) \<longrightarrow> saturated (resume b))"
  using launch_phase_inv [OF assms] assms by (cases "ba_completed b < length (ba_items b)") (simp_all add: resume_def)

lemma awaits_inv:
  "awaits b0 b \<Longrightarrow> batch_inv b0 \<and> serial b0 \<Longrightarrow>
     batch_inv b \<and> serial b \<and> (ba_completed b < length (ba_items b) \<longrightarrow> saturated b)"
proof (induction rule: awaits.induct)
  case begins
  then show ?case by (intro resume_inv) simp_all
next
  case (continues b p result)
  then show ?case using settle_inv [of b p result] by (intro resume_inv) simp_all
qed

subsection \<open>What a batch promises\<close>

text \<open>Launching changes neither what a call is nor what has completed.\<close>

definition same_calls :: "'r batch \<Rightarrow> 'r batch \<Rightarrow> bool" where
  "same_calls b b' \<longleftrightarrow>
     map (\<lambda>i. (bi_order i, bi_mode i, bi_key i)) (ba_items b') = map (\<lambda>i. (bi_order i, bi_mode i, bi_key i)) (ba_items b) \<and>
     ba_max_concurrency b' = ba_max_concurrency b"

definition same_progress :: "'r batch \<Rightarrow> 'r batch \<Rightarrow> bool" where
  "same_progress b b' \<longleftrightarrow> same_calls b b' \<and> ba_results b' = ba_results b \<and> ba_completed b' = ba_completed b \<and>
     ba_events b' = ba_events b"

lemma same_progress_trans: "same_progress a b \<Longrightarrow> same_progress b c \<Longrightarrow> same_progress a c"
  by (simp add: same_progress_def same_calls_def)

lemma launch_same: "same_progress b (launch b p)"
  by (cases "p < length (ba_items b)")
    (simp_all add: same_progress_def same_calls_def launch_def Let_def map_update list_update_same_conv list_update_beyond)

lemma sweep_same: "same_progress b (fst (sweep ps b))"
proof (induction ps b rule: sweep.induct)
  case (2 p ps b)
  then show ?case using launch_same [of b p] by (auto intro: same_progress_trans simp: same_progress_def same_calls_def)
qed (simp add: same_progress_def same_calls_def)

lemma round_same: "same_progress b (fst (round b))"
  using sweep_same [of b "[0 ..< barrier b]"] launch_same
  by (auto simp: round_def case_prod_beta intro: same_progress_trans)

lemma launch_phase_same: "same_progress b (launch_phase b)"
proof (induction b rule: launch_phase.induct)
  case (1 b)
  obtain b' any where r: "round b = (b', any)" by (cases "round b")
  then have step: "same_progress b b'" using round_same [of b] by simp
  have refl: "same_progress b b" by (simp add: same_progress_def same_calls_def)
  show ?case
  proof (cases "length (ba_active b) < ba_max_concurrency b \<and> any")
    case True
    with 1 r have "same_progress b' (launch_phase b')" by simp
    with step have "same_progress b (launch_phase b')" by (rule same_progress_trans)
    with True r show ?thesis by (subst launch_phase.simps) simp
  next
    case False
    with r step refl show ?thesis by (subst launch_phase.simps) auto
  qed
qed

lemma resume_same: "same_progress b (resume b)"
  using launch_phase_same [of b] by (cases "ba_completed b < length (ba_items b)") (simp_all add: resume_def same_progress_def same_calls_def)

text \<open>Completions are published once, with the order of their call.\<close>

definition published :: "'r batch \<Rightarrow> bool" where
  "published b \<longleftrightarrow> mset (ba_events b) = mset (filter_map id (ba_results b)) \<and>
     (\<forall>p < length (ba_results b). \<forall>c. ba_results b ! p = Some c \<longrightarrow> fst c = bi_order (ba_items b ! p))"

lemma order_at:
  "same_calls b b' \<Longrightarrow> p < length (ba_items b) \<Longrightarrow> bi_order (ba_items b' ! p) = bi_order (ba_items b ! p)"
  "same_calls b b' \<Longrightarrow> p < length (ba_items b) \<Longrightarrow> q < length (ba_items b) \<Longrightarrow> conflicts b' p q = conflicts b p q"
  "same_calls b b' \<Longrightarrow> length (ba_items b') = length (ba_items b)"
proof -
  assume same: "same_calls b b'"
  from arg_cong [OF conjunct1 [OF same [unfolded same_calls_def]], of length]
  show l: "length (ba_items b') = length (ba_items b)" by simp
  have at: "bi_order (ba_items b' ! p) = bi_order (ba_items b ! p) \<and> mode_at b' p = mode_at b p \<and> key_at b' p = key_at b p"
    if "p < length (ba_items b)" for p
    using arg_cong [OF conjunct1 [OF same [unfolded same_calls_def]], of "\<lambda>xs. xs ! p"] that l by simp
  show "p < length (ba_items b) \<Longrightarrow> bi_order (ba_items b' ! p) = bi_order (ba_items b ! p)" using at by simp
  show "p < length (ba_items b) \<Longrightarrow> q < length (ba_items b) \<Longrightarrow> conflicts b' p q = conflicts b p q"
    using at [of p] at [of q] by (simp add: conflicts_def)
qed

lemma published_same: "same_progress b b' \<Longrightarrow> length (ba_results b) = length (ba_items b) \<Longrightarrow> published b \<Longrightarrow> published b'"
  using order_at(1) [of b b'] by (auto simp: published_def same_progress_def)

lemma mset_filter_map_update:
  "p < length xs \<Longrightarrow> xs ! p = None \<Longrightarrow>
     mset (filter_map id (xs[p := Some c])) = add_mset c (mset (filter_map id xs))"
proof (induction xs arbitrary: p)
  case (Cons x xs)
  then show ?case by (cases p) (auto simp: List.map_filter_simps split: option.splits)
qed simp

lemma settle_published:
  assumes "batch_inv b" and "published b" and "p \<in> set (ba_active b)"
  shows "published (settle b p r)"
proof -
  have p: "p < length (ba_results b)" using batch_invD(2) [OF assms(1,3)] batch_invD(4) [OF assms(1)] by simp
  moreover have "ba_results b ! p = None" using batch_invD(6) [OF assms(1,3)] by (simp only: not_not)
  ultimately show ?thesis using assms(2)
    by (auto simp: published_def settle_def Let_def mset_filter_map_update nth_list_update)
qed

lemma awaits_progress:
  "awaits b0 b \<Longrightarrow> batch_inv b0 \<and> serial b0 \<Longrightarrow> published b0 \<Longrightarrow> same_calls b0 b \<and> published b"
proof (induction rule: awaits.induct)
  case begins
  then show ?case
    using resume_same [of b0] published_same [of b0 "resume b0"] batch_invD(4) [of b0]
    by (simp add: same_progress_def)
next
  case (continues b p result)
  note inv = conjunct1 [OF awaits_inv [OF continues.hyps(1) continues.prems(1)]]
  let ?s = "settle b p result"
  have s: "published ?s" "length (ba_results ?s) = length (ba_items ?s)"
    using settle_published [OF inv _ continues.hyps(3)] continues batch_invD(4) [OF inv]
    by (simp_all add: settle_def Let_def)
  have "same_calls b ?s" by (simp add: same_calls_def)
  with continues s show ?case
    using resume_same [of ?s] published_same [OF resume_same s(2,1)]
    by (simp add: same_progress_def same_calls_def)
qed

lemma start_batch_items:
  "start_batch from_str registry requests n = Inr b \<Longrightarrow>
     b = new_batch (map (schedule from_str registry) requests) n"
  by (simp add: start_batch_def)

lemma start_batch_published:
  assumes "start_batch from_str registry requests n = Inr b"
  shows "published b"
proof -
  have "filter_map id (replicate k None) = []" for k by (induction k) (simp_all add: List.map_filter_simps)
  then show ?thesis using start_batch_items [OF assms] by (simp add: published_def new_batch_def)
qed

text \<open>Property C6. A batch respects its limits in whatever order its calls end: never more than the limit are under way,
  calls that conflict (an exclusive one with any other, keyed ones with the same key) are never under way
  together and run in the order of the model, and the loop never idles: unless the batch is full, every
  call before the next exclusive one is under way, done, or held up by one that is.\<close>

theorem batch_serial:
  assumes "start_batch from_str registry requests n = Inr b0" and "awaits b0 b"
  shows "length (ba_active b) \<le> n \<and>
    (\<forall>p\<in>set (ba_active b). \<forall>q\<in>set (ba_active b). p \<noteq> q \<longrightarrow> \<not> conflicts b0 p q) \<and>
    (\<forall>q < length requests. \<forall>p < q. begun b q \<and> conflicts b0 p q \<longrightarrow> complete b p) \<and>
    (\<not> ended b \<longrightarrow> length (ba_active b) = n \<or>
       (\<forall>p < barrier b. begun b p \<or> \<not> can_launch (ba_items b ! p) (map snd (ba_modes b))))"
proof -
  note start = start_batch_inv [OF assms(1)] and b0 = start_batch_items [OF assms(1)]
  note reached = awaits_inv [OF assms(2) start]
  from awaits_progress [OF assms(2) start start_batch_published [OF assms(1)]] have same: "same_calls b0 b" by blast
  have len: "length (ba_items b) = length requests" "length (ba_items b0) = length requests"
    using order_at(3) [OF same] b0 by (simp_all add: new_batch_def)
  have n: "ba_max_concurrency b = n" using same b0 by (simp add: same_calls_def new_batch_def)
  note inv = batch_invD [OF conjunct1 [OF reached]]
  have order: "complete b p" if "q < length requests" "p < q" "begun b q" "conflicts b0 p q" for p q
    using reached that order_at(2) [OF same, of p q] len by (simp add: serial_def)
  have apart: "\<not> conflicts b0 p q" if "p \<in> set (ba_active b)" "q \<in> set (ba_active b)" "p < q" for p q
    using order [of q p] inv(2,6) [OF that(1)] inv(2) [OF that(2)] inv(5) [of q] that len by auto
  have sym: "conflicts b0 p q = conflicts b0 q p" for p q by (auto simp: conflicts_def)
  have "\<not> conflicts b0 p q" if "p \<in> set (ba_active b)" "q \<in> set (ba_active b)" "p \<noteq> q" for p q
    using apart [OF that(1,2)] apart [OF that(2,1)] that(3) sym by (cases "p < q") auto
  moreover have "\<not> ended b \<Longrightarrow> saturated b" using reached by (simp add: ended_def)
  ultimately show ?thesis using inv(9) n order by (auto simp: saturated_def)
qed

definition batch_example :: "batch_request list" where
  "batch_example =
     [\<lparr>br_order = 7, br_name = ''read'', br_arguments_json = ''{}''\<rparr>, \<lparr>br_order = 2, br_name = ''write'', br_arguments_json = ''{}''\<rparr>]"

lemma batch_example_starts:
  "start_batch (\<lambda>_. None) (\<lambda>_. None) batch_example 2 = Inr (new_batch (map (schedule (\<lambda>_. None) (\<lambda>_. None)) batch_example) 2)"
  by (simp add: start_batch_def batch_example_def)

theorem batch_serial_witness:
  "\<exists>b0 :: string batch. start_batch (\<lambda>_. None) (\<lambda>_. None) batch_example 2 = Inr b0 \<and> awaits b0 (resume b0) \<and>
     \<not> (begun (resume b0) 1 \<and> conflicts b0 0 1 \<and> \<not> complete (resume b0) 0)"
proof (intro exI conjI)
  let ?b0 = "new_batch (map (schedule (\<lambda>_. None) (\<lambda>_. None)) batch_example) 2 :: string batch"
  show "start_batch (\<lambda>_. None) (\<lambda>_. None) batch_example 2 = Inr ?b0" by (rule batch_example_starts)
  show "awaits ?b0 (resume ?b0)" by (rule awaits.begins)
  have "\<forall>q < length batch_example. \<forall>p < q. begun (resume ?b0) q \<and> conflicts ?b0 p q \<longrightarrow> complete (resume ?b0) p"
    using batch_serial [OF batch_example_starts awaits.begins] by (elim conjE)
  moreover have "1 < length batch_example" by (simp add: batch_example_def)
  ultimately show "\<not> (begun (resume ?b0) 1 \<and> conflicts ?b0 0 1 \<and> \<not> complete (resume ?b0) 0)" by blast
qed

text \<open>Property C7. A batch ends, and with every result: as long as a call is outstanding one is under way, so the loop
  cannot stop early; each completion brings the end one step closer; and at the end the results are one
  per request, those published as events, in the order of the model.\<close>

theorem batch_completes:
  assumes "start_batch from_str registry requests n = Inr b0" and "awaits b0 b"
  shows "(ended b \<longleftrightarrow> ba_completed b = length requests) \<and> ba_completed b \<le> length requests \<and>
    (\<forall>p result. ba_completed (resume (settle b p result)) = Suc (ba_completed b)) \<and>
    (ended b \<longrightarrow> map fst (batch_results b) = sort (map br_order requests) \<and>
       mset (batch_results b) = mset (ba_events b))"
proof -
  note start = start_batch_inv [OF assms(1)] and b0 = start_batch_items [OF assms(1)]
  note reached = awaits_inv [OF assms(2) start]
  from awaits_progress [OF assms(2) start start_batch_published [OF assms(1)]]
  have same: "same_calls b0 b" and pub: "published b" by blast+
  have len: "length (ba_items b) = length requests" using order_at(3) [OF same] b0 by (simp add: new_batch_def)
  note inv = batch_invD [OF conjunct1 [OF reached]]
  have le: "ba_completed b \<le> length requests" using inv(4,7) len by (metis length_filter_le)
  have ended: "ended b \<longleftrightarrow> ba_completed b = length requests"
    using saturated_active [OF conjunct1 [OF reached]] reached le len by (auto simp: ended_def)
  have all: "map fst (batch_results b) = sort (map br_order requests)" if "ba_completed b = length requests"
  proof -
    have "length (filter (\<lambda>r. r \<noteq> None) (ba_results b)) = length (ba_results b)" using that inv(4,7) len by simp
    then have full: "ba_results b ! p \<noteq> None" if "p < length requests" for p
      using length_filter_less [of "ba_results b ! p" "ba_results b" "\<lambda>r. r \<noteq> None"] that inv(4) len by force
    have "map fst (filter_map id (ba_results b)) = map (\<lambda>r. fst (the r)) (ba_results b)"
      using full inv(4) len by (subst filter_map_all_Some [of _ _ the]) (auto simp: in_set_conv_nth)
    also have "\<dots> = map br_order requests"
    proof (rule nth_equalityI)
      fix p assume "p < length (map (\<lambda>r. fst (the r)) (ba_results b))"
      then have p: "p < length requests" using inv(4) len by simp
      from full [OF p] obtain c where c: "ba_results b ! p = Some c" by blast
      have "fst c = bi_order (ba_items b0 ! p)"
        using pub c p inv(4) len order_at(1) [OF same, of p] b0 by (cases c) (simp add: published_def new_batch_def)
      with c p inv(4) len b0 show "map (\<lambda>r. fst (the r)) (ba_results b) ! p = map br_order requests ! p"
        by (simp add: new_batch_def schedule_def split: prod.splits)
    qed (simp add: inv(4) len)
    finally have fsts: "map fst (filter_map id (ba_results b)) = map br_order requests" .
    show ?thesis
    proof (rule properties_for_sort [symmetric])
      show "mset (map fst (batch_results b)) = mset (map br_order requests)"
        unfolding fsts [symmetric] by (simp add: batch_results_def)
    qed (simp add: batch_results_def)
  qed
  moreover have "mset (batch_results b) = mset (ba_events b)" using pub by (simp add: batch_results_def published_def)
  moreover have "ba_completed (resume (settle b p result)) = Suc (ba_completed b)" for p result
    using resume_same [of "settle b p result"] by (simp add: same_progress_def)
  ultimately show ?thesis using ended le by blast
qed

theorem batch_completes_witness:
  "\<exists>b0 :: string batch. start_batch (\<lambda>_. None) (\<lambda>_. None) batch_example 2 = Inr b0 \<and> awaits b0 (resume b0) \<and>
     (ended (resume b0) \<longleftrightarrow> ba_completed (resume b0) = 2)"
proof (intro exI conjI)
  let ?b0 = "new_batch (map (schedule (\<lambda>_. None) (\<lambda>_. None)) batch_example) 2 :: string batch"
  show "start_batch (\<lambda>_. None) (\<lambda>_. None) batch_example 2 = Inr ?b0" by (rule batch_example_starts)
  show "awaits ?b0 (resume ?b0)" by (rule awaits.begins)
  have "ended (resume ?b0) \<longleftrightarrow> ba_completed (resume ?b0) = length batch_example"
    using batch_completes [OF batch_example_starts awaits.begins] by (elim conjE)
  then show "ended (resume ?b0) \<longleftrightarrow> ba_completed (resume ?b0) = 2"
    by (simp only: batch_example_def list.size) (simp add: numeral_2_eq_2)
qed

lemma check_orders_iff:
  "check_orders seen rs = Inr () \<longleftrightarrow> distinct (map br_order rs) \<and> seen \<inter> br_order ` set rs = {}"
  by (induction seen rs rule: check_orders.induct) auto

lemma check_standalone_iff:
  "check_standalone registry size rs = Inr () \<longleftrightarrow>
     (\<forall>r\<in>set rs. \<forall>spec. registry (br_name r) = Some spec \<longrightarrow> bp_batch_policy spec \<noteq> Standalone)"
  for size :: nat
  by (induction registry "size" rs rule: check_standalone.induct) (auto split: option.splits)

text \<open>Admission of a batch: it starts just when the limit is positive, the orders are distinct and no tool
  that has to be called alone shares it, and then no request is scheduled less strictly than its tool
  declares: unknown tools, arguments that do not parse and keys that cannot be resolved run exclusively.\<close>

theorem batch_admission:
  "((\<exists>b. start_batch from_str registry requests n = Inr b) \<longleftrightarrow>
     0 < n \<and> distinct (map br_order requests) \<and>
     (length requests > 1 \<longrightarrow>
        (\<forall>r\<in>set requests. \<forall>spec. registry (br_name r) = Some spec \<longrightarrow> bp_batch_policy spec \<noteq> Standalone))) \<and>
   (\<forall>r. fst (schedule_class from_str registry r) \<noteq> Exclusive \<longrightarrow>
      (\<exists>spec. registry (br_name r) = Some spec \<and>
         (bp_concurrency spec = Parallel \<and> schedule_class from_str registry r = (Parallel, []) \<or>
          bp_concurrency spec = Keyed \<and>
            (\<exists>arguments resolver key. from_str (br_arguments_json r) = Some arguments \<and>
               bp_resource_key_resolver spec = Some resolver \<and> resolver arguments = Some (Some key) \<and> key \<noteq> [] \<and>
               schedule_class from_str registry r = (Keyed, key)))))"
proof (intro conjI allI impI)
  show "(\<exists>b. start_batch from_str registry requests n = Inr b) \<longleftrightarrow>
     0 < n \<and> distinct (map br_order requests) \<and>
     (length requests > 1 \<longrightarrow>
        (\<forall>r\<in>set requests. \<forall>spec. registry (br_name r) = Some spec \<longrightarrow> bp_batch_policy spec \<noteq> Standalone))"
    by (auto simp: start_batch_def check_orders_iff check_standalone_iff)
next
  fix r assume "fst (schedule_class from_str registry r) \<noteq> Exclusive"
  then show "\<exists>spec. registry (br_name r) = Some spec \<and>
         (bp_concurrency spec = Parallel \<and> schedule_class from_str registry r = (Parallel, []) \<or>
          bp_concurrency spec = Keyed \<and>
            (\<exists>arguments resolver key. from_str (br_arguments_json r) = Some arguments \<and>
               bp_resource_key_resolver spec = Some resolver \<and> resolver arguments = Some (Some key) \<and> key \<noteq> [] \<and>
               schedule_class from_str registry r = (Keyed, key)))"
    by (cases "registry (br_name r)")
      (auto simp: schedule_class_def intro: tool_concurrency.exhaust split: option.splits if_splits)
qed

theorem batch_admission_witness:
  "\<exists>b. start_batch (\<lambda>_. None) (\<lambda>_. None) batch_example 2 = Inr b"
  using conjunct1 [OF batch_admission [of "\<lambda>_. None" "\<lambda>_. None" batch_example 2]]
  by (rule iffD2) (simp add: batch_example_def)

end
