(* ===== verification/Tool_Executor.thy ===== *)
theory Tool_Executor
  imports Tool_Schema Tool_Batch
begin

text \<open>
  The tool registry (crates/xharness-tools/src/registry.rs), the verdicts and outcomes of the middleware
  (middleware.rs) and the pipeline of one execution (executor.rs).  A hook is a function that returns, returns an
  error or panics; an around middleware is a function to an \<open>around_step\<close>, which may run the rest of the chain or
  end without it; what the outside decides (cancellation, the approval and lifecycle backends, the handler, which
  future ends first, the clocks) is the record \<open>execution_env\<close>.  A middleware that runs the rest of the chain more
  than once does so one run after the other.  Next to its result an execution returns the stages it ran, in
  order, with the contexts in which the handler was entered.
\<close>

subsection \<open>Registry\<close>

record tool_definition =
  td_name :: string
  td_description :: string
  td_parameters :: json

record tool_spec =
  ts_definition :: tool_definition
  ts_timeout_ms :: u64
  ts_settlement :: tool_settlement
  ts_batch_policy :: tool_batch_policy
  ts_concurrency :: tool_concurrency
  ts_requires_approval :: bool
  ts_resource_key_resolver :: "(json \<Rightarrow> (string option) option) option"

datatype registry_error =
    EmptyName
  | InvalidName string
  | DuplicateName string
  | InvalidSchema string schema_violation
  | ZeroTimeout string

type_synonym tool_registry = "string \<rightharpoonup> tool_spec"

definition name_byte :: "char \<Rightarrow> bool" where
  "name_byte c \<longleftrightarrow> (let b = byte c in
     48 \<le> b \<and> b \<le> 57 \<or> 65 \<le> b \<and> b \<le> 90 \<or> 97 \<le> b \<and> b \<le> 122 \<or> c = CHR ''_'' \<or> c = CHR ''-'')"

definition validate_spec :: "tool_spec \<Rightarrow> registry_error + unit" where
  "validate_spec spec =
     (let name = td_name (ts_definition spec) in
      and_then (ensure (name = []) EmptyName) (\<lambda>_.
      and_then (ensure (64 < length name \<or> \<not> list_all name_byte name) (InvalidName name)) (\<lambda>_.
      and_then (ensure (ts_timeout_ms spec = 0) (ZeroTimeout name)) (\<lambda>_.
      map_err (InvalidSchema name) (validate_tool_schema (td_parameters (ts_definition spec)))))))"

definition register :: "tool_registry \<Rightarrow> tool_spec \<Rightarrow> tool_registry \<times> (registry_error + tool_spec)" where
  "register tools spec =
     (case validate_spec spec of
        Inl e \<Rightarrow> (tools, Inl e)
      | Inr _ \<Rightarrow>
          let name = td_name (ts_definition spec) in
          if tools name \<noteq> None then (tools, Inl (DuplicateName name))
          else (tools(name \<mapsto> spec), Inr spec))"

subsection \<open>Verdicts and outcomes\<close>

datatype guard_decision = DAllow | DRequireApproval string | DDeny string

datatype guard_verdict = VAllow | VRequireApproval "string list" | VDeny "string list"

fun restrict :: "guard_verdict \<Rightarrow> guard_decision \<Rightarrow> guard_verdict" where
  "restrict (VDeny reasons) _ = VDeny reasons"
| "restrict (VRequireApproval reasons) DAllow = VRequireApproval reasons"
| "restrict VAllow DAllow = VAllow"
| "restrict VAllow (DRequireApproval reason) = VRequireApproval [reason]"
| "restrict (VRequireApproval reasons) (DRequireApproval reason) = VRequireApproval (reasons @ [reason])"
| "restrict VAllow (DDeny reason) = VDeny [reason]"
| "restrict (VRequireApproval reasons) (DDeny reason) = VDeny (reasons @ [reason])"

datatype tool_failure_kind =
    UnknownTool | InvalidArguments | Preflight | GuardDenied | ApprovalUnavailable | ApprovalDenied | Concurrency
  | Lifecycle | Handler | TimedOut | CleanupTimeout | HandlerPanicked | Cancelled | PostProcess | Finalize

record tool_failure =
  tf_kind :: tool_failure_kind
  tf_message :: string
  tf_retryable :: bool

definition failure_of :: "tool_failure_kind \<Rightarrow> string \<Rightarrow> tool_failure" where
  "failure_of kind m = \<lparr>tf_kind = kind, tf_message = m, tf_retryable = False\<rparr>"

definition retryable_failure :: "tool_failure_kind \<Rightarrow> string \<Rightarrow> tool_failure" where
  "retryable_failure kind m = \<lparr>tf_kind = kind, tf_message = m, tf_retryable = True\<rparr>"

record tool_output =
  to_content :: string
  to_metadata :: "json option"

record execution_outcome =
  oc_output :: "tool_output option"
  oc_failure :: "tool_failure option"

definition outcome_success :: "tool_output \<Rightarrow> execution_outcome" where
  "outcome_success out = \<lparr>oc_output = Some out, oc_failure = None\<rparr>"

definition outcome_failure :: "tool_failure \<Rightarrow> execution_outcome" where
  "outcome_failure f = \<lparr>oc_output = None, oc_failure = Some f\<rparr>"

definition replace_output :: "execution_outcome \<Rightarrow> tool_output \<Rightarrow> execution_outcome \<times> bool" where
  "replace_output oc out =
     (if oc_failure oc \<noteq> None then (oc, False) else (oc\<lparr>oc_output := Some out\<rparr>, True))"

definition fail_outcome :: "execution_outcome \<Rightarrow> tool_failure \<Rightarrow> execution_outcome" where
  "fail_outcome oc f = oc\<lparr>oc_output := None, oc_failure := Some f\<rparr>"

subsection \<open>Hooks\<close>

datatype 'a hook = Returned 'a | Erred string | Panicked string

record tool_context =
  cx_execution_id :: string
  cx_tool_name :: string
  cx_arguments :: json

record tool_result =
  tr_execution_id :: string
  tr_tool_name :: string
  tr_output :: "tool_output option"
  tr_failure :: "tool_failure option"
  tr_started_at_ms :: u64
  tr_completed_at_ms :: u64
  tr_duration_ms :: u64
  tr_observer_errors :: "string list"

type_synonym outcome_hook = "tool_context \<Rightarrow> execution_outcome \<Rightarrow> execution_outcome \<times> unit hook"

record handler_error =
  he_message :: string
  he_retryable :: bool

datatype chain_return = ChainOk tool_output | ChainErr handler_error | ChainPanic string

text \<open>An around middleware is handed the context and the rest of the chain.  What it does from then on is an
  \<open>around_step\<close>: it ends, with a result of its own making, or it runs the rest of the chain, as often as it
  likes and in contexts of its choice, and goes on with what that returned.  A middleware that panics ends
  with \<open>ChainPanic\<close>, and a panic of the rest of the chain reaches it as one.\<close>

datatype around_step = AroundDone chain_return | AroundCall tool_context "chain_return \<Rightarrow> around_step"

type_synonym around_middleware = "tool_context \<Rightarrow> around_step"

record tool_executor =
  ex_registry :: tool_registry
  ex_pre :: "(tool_context \<Rightarrow> unit hook) list"
  ex_guards :: "(tool_context \<Rightarrow> guard_decision hook) list"
  ex_around :: "around_middleware list"
  ex_post :: "outcome_hook list"
  ex_finalize :: "outcome_hook list"
  ex_observers :: "(tool_result \<Rightarrow> unit hook) list"
  ex_has_lifecycle :: bool
  ex_has_approval :: bool

record tool_request =
  rq_name :: string
  rq_arguments_json :: string
  rq_execution_id :: "string option"
  rq_requires_approval :: bool

datatype approval_decision = Approved | Denied string

datatype approval_wait = ApprovalCancelled | ApprovalTimeout | ApprovalAnswered "approval_decision hook"

datatype lifecycle_wait = LifecycleCancelled | LifecycleAnswered "unit hook"

text \<open>Which branch of the race around the chain's future wins; after a cancellation or a deadline the future has a
  grace period, and the flag says whether it ended within it.\<close>

datatype chain_end = CancelledFirst bool | DeadlineFirst bool | ChainFirst

record execution_env =
  ev_fresh_id :: string
  ev_cancelled :: bool
  ev_approval :: approval_wait
  ev_permit_cancelled :: bool
  ev_cancelled_with_permit :: bool
  ev_lifecycle :: lifecycle_wait
  ev_race :: chain_end
  ev_entered :: nat
  ev_handler :: "nat \<Rightarrow> tool_context \<Rightarrow> chain_return"
  ev_started_at_ms :: u64
  ev_completed_at_ms :: u64
  ev_duration_ms :: u64

datatype stage = SPre nat | SGuard nat | SApproval | SLifecycle | SChain | SHandler tool_context | SPost nat | SFinalize nat | SObserve nat

subsection \<open>Stages\<close>

fun run_pre :: "(tool_context \<Rightarrow> unit hook) list \<Rightarrow> nat \<Rightarrow> tool_context \<Rightarrow> tool_failure option \<times> stage list" where
  "run_pre [] index cx = (None, [])"
| "run_pre (m # ms) index cx =
     (case m cx of
        Returned _ \<Rightarrow> (case run_pre ms (Suc index) cx of (r, sts) \<Rightarrow> (r, SPre index # sts))
      | Erred msg \<Rightarrow> (Some (failure_of Preflight msg), [SPre index])
      | Panicked msg \<Rightarrow> (Some (failure_of Preflight (''preflight middleware panicked: '' @ msg)), [SPre index]))"

definition guard_decided :: "guard_decision hook \<Rightarrow> guard_decision" where
  "guard_decided h =
     (case h of
        Returned d \<Rightarrow> d
      | Erred msg \<Rightarrow> DDeny (''guard failed closed: '' @ msg)
      | Panicked msg \<Rightarrow> DDeny (''guard panicked and failed closed: '' @ msg))"

definition run_guards ::
  "(tool_context \<Rightarrow> guard_decision hook) list \<Rightarrow> tool_context \<Rightarrow> bool \<Rightarrow> guard_verdict \<times> stage list" where
  "run_guards guards cx requires_approval =
     (let verdict = if requires_approval then restrict VAllow (DRequireApproval ''tool registration requires approval'')
                    else VAllow
      in (foldl (\<lambda>v g. restrict v (guard_decided (g cx))) verdict guards, map SGuard [0 ..< length guards]))"

fun join_with :: "string \<Rightarrow> string list \<Rightarrow> string" where
  "join_with sep [] = []"
| "join_with sep [s] = s"
| "join_with sep (s # t # ss) = s @ sep @ join_with sep (t # ss)"

definition join_reasons :: "string \<Rightarrow> string list \<Rightarrow> string" where
  "join_reasons label reasons = (if reasons = [] then label else label @ '': '' @ join_with ''; '' reasons)"

definition request_approval :: "tool_executor \<Rightarrow> execution_env \<Rightarrow> string list \<Rightarrow> (tool_failure + unit) \<times> stage list" where
  "request_approval ex env reasons =
     (if \<not> ex_has_approval ex then
        (Inl (failure_of ApprovalUnavailable
           (join_reasons ''approval required but no provider is configured'' reasons)), [])
      else
        (case ev_approval env of
           ApprovalCancelled \<Rightarrow> Inl (failure_of Cancelled ''tool invocation was cancelled while awaiting approval'')
         | ApprovalTimeout \<Rightarrow>
             Inl (failure_of ApprovalUnavailable ''approval provider exceeded its {} ms deadline and failed closed'')
         | ApprovalAnswered (Returned Approved) \<Rightarrow> Inr ()
         | ApprovalAnswered (Returned (Denied reason)) \<Rightarrow> Inl (failure_of ApprovalDenied (''approval denied: '' @ reason))
         | ApprovalAnswered (Erred msg) \<Rightarrow>
             Inl (failure_of ApprovalUnavailable (''approval provider failed closed: '' @ msg))
         | ApprovalAnswered (Panicked msg) \<Rightarrow>
             Inl (failure_of ApprovalUnavailable (''approval provider panicked and failed closed: '' @ msg)),
         [SApproval]))"

datatype permit = SharedPermit | ExclusivePermit | KeyedPermit string

text \<open>Which permit the gate grants; a resolver that panics is an error.\<close>

definition acquire :: "tool_spec \<Rightarrow> json \<Rightarrow> tool_failure + permit" where
  "acquire spec arguments =
     (case ts_concurrency spec of
        Parallel \<Rightarrow> Inr SharedPermit
      | Exclusive \<Rightarrow> Inr ExclusivePermit
      | Keyed \<Rightarrow>
          (case ts_resource_key_resolver spec of
             None \<Rightarrow> Inr ExclusivePermit
           | Some resolver \<Rightarrow>
               (case resolver arguments of
                  None \<Rightarrow> Inl (failure_of Concurrency ''resource-key resolver panicked: {}'')
                | Some None \<Rightarrow> Inr ExclusivePermit
                | Some (Some key) \<Rightarrow> if key = [] then Inr ExclusivePermit else Inr (KeyedPermit key))))"

definition handler_failure :: "handler_error \<Rightarrow> tool_failure" where
  "handler_failure e = \<lparr>tf_kind = Handler, tf_message = he_message e, tf_retryable = he_retryable e\<rparr>"

text \<open>One link of the chain: \<open>n\<close> handlers were entered before it and \<open>run\<close> is the rest of the chain.  The contexts
  in which the handler is entered come in order, next to what the link returns.\<close>

primrec run_link ::
  "(nat \<Rightarrow> tool_context \<Rightarrow> tool_context list \<times> chain_return) \<Rightarrow> around_step \<Rightarrow> nat \<Rightarrow> tool_context list \<times> chain_return" where
  "run_link run (AroundDone r) = (\<lambda>n. ([], r))"
| "run_link run (AroundCall cx k) =
     (\<lambda>n. case run n cx of (entered, r) \<Rightarrow>
       (case run_link run (k r) (n + length entered) of (entered', r') \<Rightarrow> (entered @ entered', r')))"

text \<open>The chain from one link on; at its end the handler is entered, for the \<open>n\<close>-th time in this execution.\<close>

primrec around_next ::
  "around_middleware list \<Rightarrow> (nat \<Rightarrow> tool_context \<Rightarrow> chain_return) \<Rightarrow> nat \<Rightarrow> tool_context \<Rightarrow>
     tool_context list \<times> chain_return" where
  "around_next [] handler = (\<lambda>n cx. ([cx], handler n cx))"
| "around_next (m # ms) handler = (\<lambda>n cx. run_link (around_next ms handler) (m cx) n)"

fun chain_outcome :: "chain_return \<Rightarrow> execution_outcome" where
  "chain_outcome (ChainPanic msg) = outcome_failure (failure_of HandlerPanicked (''tool handler panicked: '' @ msg))"
| "chain_outcome (ChainErr e) = outcome_failure (handler_failure e)"
| "chain_outcome (ChainOk out) = outcome_success out"

text \<open>The chain races the cancellation and, unless the tool's settlement is external, its deadline.  A chain
  abandoned after the grace period got as far as \<open>ev_entered\<close> entries of the handler.\<close>

definition run_chain :: "tool_executor \<Rightarrow> tool_spec \<Rightarrow> tool_context \<Rightarrow> execution_env \<Rightarrow> execution_outcome \<times> stage list" where
  "run_chain ex spec cx env =
     (case around_next (ex_around ex) (ev_handler env) 0 cx of (entered, returned) \<Rightarrow>
        let reached = \<lambda>quiesced. SChain # map SHandler (if quiesced then entered else take (ev_entered env) entered);
            finished = (chain_outcome returned, SChain # map SHandler entered)
        in case ev_race env of
             CancelledFirst quiesced \<Rightarrow>
               (outcome_failure
                  (if quiesced then failure_of Cancelled ''tool invocation was cancelled during handler execution''
                   else failure_of CleanupTimeout ''tool handler did not quiesce within {} ms after cancellation''),
                reached quiesced)
           | DeadlineFirst quiesced \<Rightarrow>
               (case ts_settlement spec of
                  External \<Rightarrow> finished
                | Bounded \<Rightarrow>
                    (outcome_failure
                       (if quiesced then retryable_failure TimedOut ''tool execution exceeded {} ms''
                        else failure_of CleanupTimeout ''tool handler did not quiesce within {} ms after timeout''),
                     reached quiesced))
           | ChainFirst \<Rightarrow> finished)"

text \<open>The permit, the second look at the cancellation, the lifecycle sink, then the chain of middleware around the handler.\<close>

definition run_handler :: "tool_executor \<Rightarrow> tool_spec \<Rightarrow> tool_context \<Rightarrow> execution_env \<Rightarrow> execution_outcome \<times> stage list" where
  "run_handler ex spec cx env =
     (if ev_permit_cancelled env then
        (outcome_failure (failure_of Cancelled
           ''tool invocation was cancelled while waiting for its concurrency permit''), [])
      else (case acquire spec (cx_arguments cx) of
          Inl failure \<Rightarrow> (outcome_failure failure, [])
        | Inr _ \<Rightarrow>
            if ev_cancelled_with_permit env then
              (outcome_failure (failure_of Cancelled ''tool invocation was cancelled before handler execution''), [])
            else if ex_has_lifecycle ex then
              (case ev_lifecycle env of
                 LifecycleCancelled \<Rightarrow>
                   (outcome_failure (failure_of Cancelled
                      ''tool invocation was cancelled before lifecycle acknowledgement''), [SLifecycle])
               | LifecycleAnswered (Returned _) \<Rightarrow> (case run_chain ex spec cx env of (oc, sts) \<Rightarrow> (oc, SLifecycle # sts))
               | LifecycleAnswered (Erred msg) \<Rightarrow>
                   (outcome_failure (failure_of Lifecycle (''tool lifecycle failed closed: '' @ msg)), [SLifecycle])
               | LifecycleAnswered (Panicked msg) \<Rightarrow>
                   (outcome_failure (failure_of Lifecycle (''tool lifecycle panicked and failed closed: '' @ msg)),
                    [SLifecycle]))
            else run_chain ex spec cx env))"

text \<open>One post or finalize hook: its own failure replaces the outcome, and a failure it removed comes back.\<close>

definition after_hook ::
  "tool_failure_kind \<Rightarrow> string \<Rightarrow> outcome_hook \<Rightarrow> tool_context \<Rightarrow> execution_outcome \<Rightarrow> execution_outcome" where
  "after_hook kind panicked m cx oc =
     (case m cx oc of (oc', r) \<Rightarrow>
        (case r of
           Erred msg \<Rightarrow> outcome_failure (failure_of kind msg)
         | Panicked msg \<Rightarrow> outcome_failure (failure_of kind (panicked @ msg))
         | Returned _ \<Rightarrow>
             (case oc_failure oc of
                Some prior_failure \<Rightarrow> if oc_failure oc' = None then outcome_failure prior_failure else oc'
              | None \<Rightarrow> oc')))"

definition run_post :: "tool_executor \<Rightarrow> tool_context \<Rightarrow> execution_outcome \<Rightarrow> execution_outcome \<times> stage list" where
  "run_post ex cx oc =
     (foldl (\<lambda>oc m. after_hook PostProcess ''post middleware panicked: '' m cx oc) oc (ex_post ex),
      map SPost [0 ..< length (ex_post ex)])"

definition run_finalize :: "tool_executor \<Rightarrow> tool_context \<Rightarrow> execution_outcome \<Rightarrow> execution_outcome \<times> stage list" where
  "run_finalize ex cx oc =
     (foldl (\<lambda>oc m. after_hook Finalize ''finalize middleware panicked: '' m cx oc) oc (ex_finalize ex),
      map SFinalize [0 ..< length (ex_finalize ex)])"

definition observe :: "tool_result \<Rightarrow> (tool_result \<Rightarrow> unit hook) \<Rightarrow> tool_result" where
  "observe r observer =
     (case observer r of
        Returned _ \<Rightarrow> r
      | Erred msg \<Rightarrow> r\<lparr>tr_observer_errors := tr_observer_errors r @ [msg]\<rparr>
      | Panicked msg \<Rightarrow> r\<lparr>tr_observer_errors := tr_observer_errors r @ [''observer panicked: '' @ msg]\<rparr>)"

definition finish_execution ::
  "tool_executor \<Rightarrow> execution_env \<Rightarrow> string \<Rightarrow> string \<Rightarrow> execution_outcome \<Rightarrow> tool_result \<times> stage list" where
  "finish_execution ex env execution_id name oc =
     (foldl observe
        \<lparr>tr_execution_id = execution_id, tr_tool_name = name, tr_output = oc_output oc, tr_failure = oc_failure oc,
         tr_started_at_ms = ev_started_at_ms env, tr_completed_at_ms = ev_completed_at_ms env,
         tr_duration_ms = ev_duration_ms env, tr_observer_errors = []\<rparr> (ex_observers ex),
      map SObserve [0 ..< length (ex_observers ex)])"

definition guarded_outcome ::
  "tool_executor \<Rightarrow> tool_spec \<Rightarrow> tool_request \<Rightarrow> tool_context \<Rightarrow> execution_env \<Rightarrow> execution_outcome \<times> stage list \<times> bool" where
  "guarded_outcome ex spec rq cx env =
     (if ev_cancelled env then
        (outcome_failure (failure_of Cancelled ''tool invocation was cancelled before preflight''), [], False)
      else (case run_pre (ex_pre ex) 0 cx of
          (Some failure, sts) \<Rightarrow> (outcome_failure failure, sts, False)
        | (None, sts) \<Rightarrow>
            (case run_guards (ex_guards ex) cx (ts_requires_approval spec \<or> rq_requires_approval rq) of
               (VDeny reasons, sts') \<Rightarrow>
                 (outcome_failure (failure_of GuardDenied (join_reasons ''tool execution denied'' reasons)), sts @ sts', False)
             | (VRequireApproval reasons, sts') \<Rightarrow>
                 (case request_approval ex env reasons of
                    (Inr _, sts'') \<Rightarrow>
                      (case run_handler ex spec cx env of (oc, sts3) \<Rightarrow> (oc, sts @ sts' @ sts'' @ sts3, True))
                  | (Inl failure, sts'') \<Rightarrow> (outcome_failure failure, sts @ sts' @ sts'', False))
             | (VAllow, sts') \<Rightarrow>
                 (case run_handler ex spec cx env of (oc, sts3) \<Rightarrow> (oc, sts @ sts' @ sts3, True)))))"

definition execute ::
  "(string \<Rightarrow> string + json) \<Rightarrow> (string \<Rightarrow> bool) \<Rightarrow> tool_executor \<Rightarrow> tool_request \<Rightarrow> execution_env \<Rightarrow>
     tool_result \<times> stage list" where
  "execute from_str integral ex rq env =
     (let execution_id = (case rq_execution_id rq of Some i \<Rightarrow> i | None \<Rightarrow> ev_fresh_id env);
          finish = finish_execution ex env execution_id (rq_name rq) in
      case ex_registry ex (rq_name rq) of
        None \<Rightarrow> finish (outcome_failure (failure_of UnknownTool (''unknown tool '' @ rq_name rq)))
      | Some spec \<Rightarrow>
          (case from_str (rq_arguments_json rq) of
             Inl e \<Rightarrow> finish (outcome_failure (failure_of InvalidArguments (''tool arguments are not valid JSON: '' @ e)))
           | Inr arguments \<Rightarrow>
               (case validate_arguments integral (td_parameters (ts_definition spec)) arguments of
                  Inl v \<Rightarrow> finish (outcome_failure (failure_of InvalidArguments ''{}''))
                | Inr _ \<Rightarrow>
                    let cx = \<lparr>cx_execution_id = execution_id, cx_tool_name = td_name (ts_definition spec), cx_arguments = arguments\<rparr> in
                    (case guarded_outcome ex spec rq cx env of (oc1, sts1, attempted_handler) \<Rightarrow>
                       (case (if attempted_handler then run_post ex cx oc1 else (oc1, [])) of (oc2, sts2) \<Rightarrow>
                          (case run_finalize ex cx oc2 of (oc3, sts3) \<Rightarrow>
                             (case finish oc3 of (r, sts4) \<Rightarrow> (r, sts1 @ sts2 @ sts3 @ sts4))))))))"

text \<open>The stages of the chain among those of an execution.\<close>

fun in_chain :: "stage \<Rightarrow> bool" where
  "in_chain SChain = True"
| "in_chain (SHandler cx) = True"
| "in_chain s = False"

definition chain_stages :: "stage list \<Rightarrow> stage list" where
  "chain_stages = filter in_chain"

lemma chain_stages_simps [simp]:
  "chain_stages [] = []"
  "chain_stages (s # sts) = (if in_chain s then s # chain_stages sts else chain_stages sts)"
  "chain_stages (sts @ sts') = chain_stages sts @ chain_stages sts'"
  by (simp_all add: chain_stages_def)

lemma chain_stages_map:
  "(\<And>x. \<not> in_chain (f x)) \<Longrightarrow> chain_stages (map f xs) = []"
  "(\<And>x. in_chain (f x)) \<Longrightarrow> chain_stages (map f xs) = map f xs"
  by (induction xs) simp_all

subsection \<open>Guards only restrict\<close>

lemma guards_deny: "foldl (\<lambda>v g. restrict v (guard_decided (g cx))) (VDeny rs) guards = VDeny rs"
  by (induction guards) simp_all

lemma restrict_allow: "restrict v d = VAllow \<longleftrightarrow> v = VAllow \<and> d = DAllow"
  by (cases v; cases d) simp_all

lemma guards_allow:
  "foldl (\<lambda>v g. restrict v (guard_decided (g cx))) v guards = VAllow \<longleftrightarrow>
     v = VAllow \<and> (\<forall>g\<in>set guards. guard_decided (g cx) = DAllow)"
  by (induction guards arbitrary: v) (auto simp: restrict_allow)

lemma guards_not_denied:
  "\<forall>rs. foldl (\<lambda>v g. restrict v (guard_decided (g cx))) v guards \<noteq> VDeny rs \<Longrightarrow> g \<in> set guards \<Longrightarrow>
     guard_decided (g cx) \<noteq> DDeny reason"
proof (induction guards arbitrary: v)
  case (Cons h guards)
  show ?case
  proof (cases "g = h \<and> guard_decided (g cx) = DDeny reason")
    case True
    then have "\<exists>rs. restrict v (guard_decided (h cx)) = VDeny rs" by (cases v) auto
    with Cons.prems(1) guards_deny [of cx _ guards] show ?thesis by fastforce
  next
    case False
    with Cons.IH [of "restrict v (guard_decided (h cx))"] Cons.prems show ?thesis by auto
  qed
qed simp

lemma guard_decided_allow: "guard_decided h = DAllow \<longleftrightarrow> h = Returned DAllow"
  by (cases h) (auto simp: guard_decided_def)

lemma guard_undenied:
  assumes "\<forall>reason. guard_decided h \<noteq> DDeny reason"
  shows "h = Returned DAllow \<or> (\<exists>reason. h = Returned (DRequireApproval reason))"
proof (cases h)
  case (Returned d)
  with assms show ?thesis by (cases d) (auto simp: guard_decided_def)
qed (use assms in \<open>auto simp: guard_decided_def\<close>)

lemma run_pre_passed: "run_pre ms i cx = (None, sts) \<Longrightarrow> \<forall>m\<in>set ms. m cx = Returned ()"
  by (induction ms arbitrary: i sts) (auto split: hook.splits prod.splits)

lemma run_pre_stages: "run_pre ms i cx = (r, sts) \<Longrightarrow> chain_stages sts = []"
  by (induction ms arbitrary: i sts) (auto split: hook.splits prod.splits)

subsection \<open>Failures are final\<close>

lemma after_hook_final: "oc_failure (after_hook kind panicked m cx oc) = None \<Longrightarrow> oc_failure oc = None"
  by (auto simp: after_hook_def outcome_failure_def split: prod.splits hook.splits option.splits if_splits)

lemma hooks_final:
  "oc_failure (foldl (\<lambda>oc m. after_hook kind panicked m cx oc) oc ms) = None \<Longrightarrow> oc_failure oc = None"
  by (induction ms arbitrary: oc) (auto dest: after_hook_final)

lemma observe_failure: "tr_failure (foldl observe r os) = tr_failure r"
  by (induction os arbitrary: r) (auto simp: observe_def split: hook.splits)

lemma finish_failure: "tr_failure (fst (finish_execution ex env i name oc)) = oc_failure oc"
  by (simp add: finish_execution_def observe_failure)

lemma finish_stages: "chain_stages (snd (finish_execution ex env i name oc)) = []"
  by (simp add: finish_execution_def chain_stages_map)

text \<open>What the chain shows: the handler's entries in order, all of them unless the chain was abandoned, and a success
  only when the chain won the race and returned an output.\<close>

lemma run_chain_stages:
  assumes "run_chain ex spec cx env = (oc, sts)" and "around_next (ex_around ex) (ev_handler env) 0 cx = (entered, returned)"
  shows "\<exists>n. sts = SChain # map SHandler (take n entered)"
    "oc_failure oc = None \<Longrightarrow>
       sts = SChain # map SHandler entered \<and> (\<forall>q. ev_race env \<noteq> CancelledFirst q) \<and> (\<exists>out. returned = ChainOk out)"
proof -
  show "\<exists>n. sts = SChain # map SHandler (take n entered)"
    using assms
    by (auto simp: run_chain_def Let_def split: chain_end.splits tool_settlement.splits)
      (metis take_all order_refl)+
  show "sts = SChain # map SHandler entered \<and> (\<forall>q. ev_race env \<noteq> CancelledFirst q) \<and> (\<exists>out. returned = ChainOk out)"
    if "oc_failure oc = None"
    using assms that
    by (cases returned)
      (auto simp: run_chain_def Let_def outcome_failure_def split: chain_end.splits tool_settlement.splits)
qed

lemma chain_stages_chain [simp]: "chain_stages (snd (run_chain ex spec cx env)) = snd (run_chain ex spec cx env)"
proof -
  obtain entered returned where "around_next (ex_around ex) (ev_handler env) 0 cx = (entered, returned)"
    by (cases "around_next (ex_around ex) (ev_handler env) 0 cx")
  from run_chain_stages(1) [OF prod.collapse [symmetric] this] obtain n
    where "snd (run_chain ex spec cx env) = SChain # map SHandler (take n entered)" by blast
  then show ?thesis by (simp add: chain_stages_map)
qed

lemma run_handler_chain:
  assumes "run_handler ex spec cx env = (oc, sts)"
  shows "chain_stages sts \<noteq> [] \<Longrightarrow> \<not> ev_permit_cancelled env \<and> \<not> ev_cancelled_with_permit env \<and>
      (ex_has_lifecycle ex \<longrightarrow> ev_lifecycle env = LifecycleAnswered (Returned ())) \<and>
      run_chain ex spec cx env = (oc, chain_stages sts)"
    "oc_failure oc = None \<Longrightarrow> chain_stages sts \<noteq> []"
proof -
  obtain coc csts where chain: "run_chain ex spec cx env = (coc, csts)" by (cases "run_chain ex spec cx env")
  have csts: "chain_stages csts = csts" using chain_stages_chain [of ex spec cx env] by (simp only: chain snd_conv)
  have "csts \<noteq> []"
    using run_chain_stages(1) [OF chain surjective_pairing] by auto
  with assms chain csts show
    "chain_stages sts \<noteq> [] \<Longrightarrow> \<not> ev_permit_cancelled env \<and> \<not> ev_cancelled_with_permit env \<and>
      (ex_has_lifecycle ex \<longrightarrow> ev_lifecycle env = LifecycleAnswered (Returned ())) \<and>
      run_chain ex spec cx env = (oc, chain_stages sts)"
    "oc_failure oc = None \<Longrightarrow> chain_stages sts \<noteq> []"
    by (auto simp: run_handler_def outcome_failure_def split: if_splits sum.splits lifecycle_wait.splits hook.splits)
qed

lemma request_approval_granted:
  "request_approval ex env reasons = (Inr u, sts) \<Longrightarrow>
     ex_has_approval ex \<and> ev_approval env = ApprovalAnswered (Returned Approved)"
  by (auto simp: request_approval_def split: if_splits approval_wait.splits hook.splits approval_decision.splits)

lemma request_approval_stages: "chain_stages (snd (request_approval ex env reasons)) = []"
  by (simp add: request_approval_def)

text \<open>What has to have happened before a handler is entered.\<close>

definition cleared :: "tool_executor \<Rightarrow> tool_spec \<Rightarrow> tool_request \<Rightarrow> tool_context \<Rightarrow> execution_env \<Rightarrow> bool" where
  "cleared ex spec rq cx env \<longleftrightarrow>
     \<not> ev_cancelled env \<and> \<not> ev_permit_cancelled env \<and> \<not> ev_cancelled_with_permit env \<and>
     (\<forall>m\<in>set (ex_pre ex). m cx = Returned ()) \<and>
     (\<forall>g\<in>set (ex_guards ex). g cx = Returned DAllow \<or> (\<exists>reason. g cx = Returned (DRequireApproval reason))) \<and>
     (ts_requires_approval spec \<or> rq_requires_approval rq \<or> (\<exists>g\<in>set (ex_guards ex). g cx \<noteq> Returned DAllow) \<longrightarrow>
        ex_has_approval ex \<and> ev_approval env = ApprovalAnswered (Returned Approved)) \<and>
     (ex_has_lifecycle ex \<longrightarrow> ev_lifecycle env = LifecycleAnswered (Returned ()))"

lemma guarded_outcome_cleared:
  assumes "guarded_outcome ex spec rq cx env = (oc, sts, attempted)"
  shows "chain_stages sts \<noteq> [] \<Longrightarrow> cleared ex spec rq cx env \<and> run_chain ex spec cx env = (oc, chain_stages sts)"
    "oc_failure oc = None \<Longrightarrow> chain_stages sts \<noteq> []"
proof -
  obtain p psts where pre: "run_pre (ex_pre ex) 0 cx = (p, psts)" by (cases "run_pre (ex_pre ex) 0 cx")
  let ?need = "ts_requires_approval spec \<or> rq_requires_approval rq"
  obtain v gsts where guards: "run_guards (ex_guards ex) cx ?need = (v, gsts)" by (cases "run_guards (ex_guards ex) cx ?need")
  have no: "chain_stages psts = []" "chain_stages gsts = []"
    using run_pre_stages [OF pre] guards by (auto simp: run_guards_def chain_stages_map)
  obtain h hsts where handler: "run_handler ex spec cx env = (h, hsts)" by (cases "run_handler ex spec cx env")
  note entered = run_handler_chain [OF handler]
  have result: "oc = h \<and> chain_stages sts = chain_stages hsts \<and> \<not> ev_cancelled env \<and> p = None \<and>
      (v = VAllow \<or> (\<exists>rs. v = VRequireApproval rs) \<and> ex_has_approval ex \<and> ev_approval env = ApprovalAnswered (Returned Approved)) \<or>
      chain_stages sts = [] \<and> oc_failure oc \<noteq> None"
  proof (cases "\<not> ev_cancelled env \<and> p = None")
    case False
    with assms pre no show ?thesis by (auto simp: guarded_outcome_def outcome_failure_def split: option.splits if_splits)
  next
    case True
    show ?thesis
    proof (cases v)
      case VAllow
      with assms True pre guards handler no show ?thesis by (simp add: guarded_outcome_def) auto
    next
      case (VDeny rs)
      with assms True pre guards no show ?thesis by (auto simp: guarded_outcome_def outcome_failure_def)
    next
      case (VRequireApproval rs)
      obtain a asts where approval: "request_approval ex env rs = (a, asts)" by (cases "request_approval ex env rs")
      have "chain_stages asts = []" using request_approval_stages [of ex env rs] approval by simp
      with VRequireApproval assms True pre guards handler no approval show ?thesis
        using request_approval_granted [of ex env rs _ asts]
        by (cases a) (auto simp: guarded_outcome_def outcome_failure_def)
    qed
  qed
  have verdict: "(\<forall>g\<in>set (ex_guards ex). g cx = Returned DAllow \<or> (\<exists>reason. g cx = Returned (DRequireApproval reason))) \<and>
      (v = VAllow \<longrightarrow> \<not> ?need \<and> (\<forall>g\<in>set (ex_guards ex). g cx = Returned DAllow))"
    if "v = VAllow \<or> (\<exists>rs. v = VRequireApproval rs)"
  proof -
    have fold: "foldl (\<lambda>v g. restrict v (guard_decided (g cx)))
        (if ?need then restrict VAllow (DRequireApproval ''tool registration requires approval'') else VAllow) (ex_guards ex) = v"
      using guards by (simp add: run_guards_def)
    have "\<forall>rs. foldl (\<lambda>v g. restrict v (guard_decided (g cx)))
        (if ?need then restrict VAllow (DRequireApproval ''tool registration requires approval'') else VAllow) (ex_guards ex) \<noteq> VDeny rs"
      unfolding fold using that by auto
    from guards_not_denied [OF this] have "\<forall>reason. guard_decided (g cx) \<noteq> DDeny reason" if "g \<in> set (ex_guards ex)" for g
      using that by blast
    moreover have "\<not> ?need \<and> (\<forall>g\<in>set (ex_guards ex). g cx = Returned DAllow)" if "v = VAllow"
      using fold [unfolded that guards_allow] by (simp add: guard_decided_allow split: if_splits)
    ultimately show ?thesis using guard_undenied by blast
  qed
  show "cleared ex spec rq cx env \<and> run_chain ex spec cx env = (oc, chain_stages sts)" if "chain_stages sts \<noteq> []"
  proof -
    from result that have r: "oc = h" "chain_stages sts = chain_stages hsts" "\<not> ev_cancelled env" "p = None"
      "v = VAllow \<or> (\<exists>rs. v = VRequireApproval rs) \<and> ex_has_approval ex \<and> ev_approval env = ApprovalAnswered (Returned Approved)"
      by blast+
    from that r(2) have "chain_stages hsts \<noteq> []" by simp
    from entered(1) [OF this] r(1,2) have chain: "run_chain ex spec cx env = (oc, chain_stages sts)"
      and gates: "\<not> ev_permit_cancelled env" "\<not> ev_cancelled_with_permit env"
        "ex_has_lifecycle ex \<longrightarrow> ev_lifecycle env = LifecycleAnswered (Returned ())" by simp_all
    from gates r have "cleared ex spec rq cx env"
      using verdict run_pre_passed [of "ex_pre ex" 0 cx psts] pre unfolding cleared_def by blast
    with chain show ?thesis by simp
  qed
  show "chain_stages sts \<noteq> []" if "oc_failure oc = None"
  proof -
    from result that have "oc = h" "chain_stages sts = chain_stages hsts" by blast+
    with entered(2) that show ?thesis by simp
  qed
qed

text \<open>Property C5. The pipeline fails closed.  The chain of around middleware and handler is entered only for a
  registered tool whose arguments conform to its schema, when every preflight hook passed, no guard denied,
  failed or panicked, the approval that the tool, the request or a guard asks for was given, the lifecycle
  sink acknowledged and no cancellation was seen.  The handler is entered only from within that chain, in the
  contexts in which the middleware runs it: without around middleware at most once and with exactly the context
  that was checked, while a middleware may skip it, run it again or change the context.  A result is a success only when the chain
  was entered, was not cancelled and ran to its end, where it returned an output (the handler's own, when no
  middleware is around it), for no post-processing hook turns a failure into a success.\<close>

theorem pipeline_fails_closed:
  assumes "execute from_str integral ex rq env = (r, sts)"
  shows "(chain_stages sts \<noteq> [] \<longrightarrow>
     (\<exists>spec arguments i cx entered returned.
        ex_registry ex (rq_name rq) = Some spec \<and> from_str (rq_arguments_json rq) = Inr arguments \<and>
        validate_arguments integral (td_parameters (ts_definition spec)) arguments = Inr () \<and>
        cx = \<lparr>cx_execution_id = i, cx_tool_name = td_name (ts_definition spec), cx_arguments = arguments\<rparr> \<and>
        cleared ex spec rq cx env \<and>
        around_next (ex_around ex) (ev_handler env) 0 cx = (entered, returned) \<and>
        (\<exists>n. chain_stages sts = SChain # map SHandler (take n entered)) \<and>
        (ex_around ex = [] \<longrightarrow> entered = [cx] \<and> returned = ev_handler env 0 cx) \<and>
        (tr_failure r = None \<longrightarrow> chain_stages sts = SChain # map SHandler entered \<and>
           (\<forall>q. ev_race env \<noteq> CancelledFirst q) \<and> (\<exists>out. returned = ChainOk out)))) \<and>
    (tr_failure r = None \<longrightarrow> chain_stages sts \<noteq> [])"
proof -
  let ?i = "case rq_execution_id rq of Some i \<Rightarrow> i | None \<Rightarrow> ev_fresh_id env"
  have early: "tr_failure r \<noteq> None \<and> chain_stages sts = []"
    if "finish_execution ex env ?i (rq_name rq) (outcome_failure f) = (r, sts)" for f
    using finish_failure [of ex env ?i "rq_name rq" "outcome_failure f"] finish_stages [of ex env ?i "rq_name rq" "outcome_failure f"] that
    by (simp add: outcome_failure_def)
  show ?thesis
  proof (cases "\<exists>spec arguments. ex_registry ex (rq_name rq) = Some spec \<and> from_str (rq_arguments_json rq) = Inr arguments \<and>
        validate_arguments integral (td_parameters (ts_definition spec)) arguments = Inr ()")
    case False
    with assms have "\<exists>f. finish_execution ex env ?i (rq_name rq) (outcome_failure f) = (r, sts)"
      by (auto simp: execute_def Let_def split: option.splits sum.splits)
    with early show ?thesis by blast
  next
    case True
    then obtain spec arguments where known: "ex_registry ex (rq_name rq) = Some spec"
      "from_str (rq_arguments_json rq) = Inr arguments"
      "validate_arguments integral (td_parameters (ts_definition spec)) arguments = Inr ()" by blast
    let ?cx = "\<lparr>cx_execution_id = ?i, cx_tool_name = td_name (ts_definition spec), cx_arguments = arguments\<rparr>"
    obtain oc1 sts1 attempted where run: "guarded_outcome ex spec rq ?cx env = (oc1, sts1, attempted)"
      by (cases "guarded_outcome ex spec rq ?cx env")
    obtain oc2 sts2 where post: "(if attempted then run_post ex ?cx oc1 else (oc1, [])) = (oc2, sts2)"
      by (cases "if attempted then run_post ex ?cx oc1 else (oc1, [])")
    obtain oc3 sts3 where final: "run_finalize ex ?cx oc2 = (oc3, sts3)" by (cases "run_finalize ex ?cx oc2")
    from assms known run post final have last: "r = fst (finish_execution ex env ?i (rq_name rq) oc3)"
      and stages: "sts = sts1 @ sts2 @ sts3 @ snd (finish_execution ex env ?i (rq_name rq) oc3)"
      by (auto simp: execute_def Let_def split: prod.splits)
    have "chain_stages sts2 = []" "chain_stages sts3 = []"
      using post final by (auto simp: run_post_def run_finalize_def chain_stages_map split: if_splits)
    then have chain: "chain_stages sts = chain_stages sts1" by (simp add: stages finish_stages)
    have ok: "oc_failure oc1 = None" if "tr_failure r = None"
    proof -
      from that have "oc_failure oc3 = None" by (simp add: last finish_failure)
      with final have "oc_failure oc2 = None" by (auto simp: run_finalize_def dest: hooks_final)
      with post show ?thesis by (auto simp: run_post_def dest: hooks_final split: if_splits)
    qed
    obtain entered returned where around: "around_next (ex_around ex) (ev_handler env) 0 ?cx = (entered, returned)"
      by (cases "around_next (ex_around ex) (ev_handler env) 0 ?cx")
    show ?thesis
    proof (intro conjI impI)
      assume "chain_stages sts \<noteq> []"
      with chain have "chain_stages sts1 \<noteq> []" by simp
      note this [THEN guarded_outcome_cleared(1) [OF run]]
      then have cleared: "cleared ex spec rq ?cx env" and ran: "run_chain ex spec ?cx env = (oc1, chain_stages sts)"
        by (simp_all add: chain)
      have bare: "ex_around ex = [] \<longrightarrow> entered = [?cx] \<and> returned = ev_handler env 0 ?cx" using around by auto
      have whole: "tr_failure r = None \<longrightarrow> chain_stages sts = SChain # map SHandler entered \<and>
          (\<forall>q. ev_race env \<noteq> CancelledFirst q) \<and> (\<exists>out. returned = ChainOk out)"
        using run_chain_stages(2) [OF ran around] ok by simp
      from known cleared around run_chain_stages(1) [OF ran around] bare whole show
        "\<exists>spec arguments i cx entered returned.
        ex_registry ex (rq_name rq) = Some spec \<and> from_str (rq_arguments_json rq) = Inr arguments \<and>
        validate_arguments integral (td_parameters (ts_definition spec)) arguments = Inr () \<and>
        cx = \<lparr>cx_execution_id = i, cx_tool_name = td_name (ts_definition spec), cx_arguments = arguments\<rparr> \<and>
        cleared ex spec rq cx env \<and>
        around_next (ex_around ex) (ev_handler env) 0 cx = (entered, returned) \<and>
        (\<exists>n. chain_stages sts = SChain # map SHandler (take n entered)) \<and>
        (ex_around ex = [] \<longrightarrow> entered = [cx] \<and> returned = ev_handler env 0 cx) \<and>
        (tr_failure r = None \<longrightarrow> chain_stages sts = SChain # map SHandler entered \<and>
           (\<forall>q. ev_race env \<noteq> CancelledFirst q) \<and> (\<exists>out. returned = ChainOk out))"
        by (intro exI [of _ spec] exI [of _ arguments] exI [of _ ?i] exI [of _ ?cx] exI [of _ entered] exI [of _ returned]
            conjI refl)
    next
      assume "tr_failure r = None"
      from guarded_outcome_cleared(2) [OF run ok [OF this]] chain show "chain_stages sts \<noteq> []" by simp
    qed
  qed
qed

definition example_tool :: tool_spec where
  "example_tool =
     \<lparr>ts_definition = \<lparr>td_name = ''read'', td_description = ''reads'', td_parameters = example_schema\<rparr>,
      ts_timeout_ms = 30000, ts_settlement = Bounded, ts_batch_policy = AnyBatch, ts_concurrency = Parallel,
      ts_requires_approval = True, ts_resource_key_resolver = None\<rparr>"

definition example_executor :: tool_executor where
  "example_executor =
     \<lparr>ex_registry = [''read'' \<mapsto> example_tool], ex_pre = [\<lambda>_. Returned ()], ex_guards = [\<lambda>_. Returned DAllow],
      ex_around = [\<lambda>cx. AroundCall cx AroundDone],
      ex_post = [], ex_finalize = [\<lambda>_ oc. (oc, Returned ())], ex_observers = [], ex_has_lifecycle = True, ex_has_approval = True\<rparr>"

definition example_env :: "approval_wait \<Rightarrow> execution_env" where
  "example_env approval =
     \<lparr>ev_fresh_id = ''exec-1'', ev_cancelled = False, ev_approval = approval, ev_permit_cancelled = False,
      ev_cancelled_with_permit = False, ev_lifecycle = LifecycleAnswered (Returned ()),
      ev_race = ChainFirst, ev_entered = 0, ev_handler = \<lambda>_ _. ChainOk \<lparr>to_content = ''text'', to_metadata = None\<rparr>,
      ev_started_at_ms = 1, ev_completed_at_ms = 2, ev_duration_ms = 1\<rparr>"

definition example_request :: tool_request where
  "example_request = \<lparr>rq_name = ''read'', rq_arguments_json = ''{}'', rq_execution_id = None, rq_requires_approval = False\<rparr>"

text \<open>With the approval the tool asks for, its handler is entered once, with the arguments that were checked, through
  a middleware that only passes on; when the approval times out nothing is entered.\<close>

theorem pipeline_fails_closed_witness:
  "chain_stages (snd (execute (\<lambda>_. Inr (JObject [(''path'', JString ''a'')])) (\<lambda>_. True) example_executor example_request
      (example_env (ApprovalAnswered (Returned Approved))))) =
     [SChain, SHandler \<lparr>cx_execution_id = ''exec-1'', cx_tool_name = ''read'', cx_arguments = JObject [(''path'', JString ''a'')]\<rparr>] \<and>
   chain_stages (snd (execute (\<lambda>_. Inr (JObject [(''path'', JString ''a'')])) (\<lambda>_. True) example_executor example_request
      (example_env ApprovalTimeout))) = []"
proof -
  let ?from = "\<lambda>_ :: string. Inr (JObject [(''path'', JString ''a'')]) :: string + json"
  let ?run = "\<lambda>a. execute ?from (\<lambda>_. True) example_executor example_request (example_env a)"
  have args: "validate_arguments (\<lambda>_. True) example_schema (JObject [(''path'', JString ''a'')]) = Inr ()"
    by (simp add: example_schema_def validate_arguments_def validate_instance.simps schema_types_def known_types_def
        instance_has_type_def child_of_def max_schema_depth_def List.map_filter_simps)
  have "chain_stages (snd (?run (ApprovalAnswered (Returned Approved)))) =
     [SChain, SHandler \<lparr>cx_execution_id = ''exec-1'', cx_tool_name = ''read'', cx_arguments = JObject [(''path'', JString ''a'')]\<rparr>]"
    by (simp add: execute_def example_executor_def example_request_def example_env_def example_tool_def args
        guarded_outcome_def run_guards_def request_approval_def run_handler_def run_chain_def acquire_def run_post_def run_finalize_def
        after_hook_def finish_execution_def outcome_success_def guard_decided_def Let_def)
  moreover have "chain_stages (snd (?run ApprovalTimeout)) = []"
  proof (rule ccontr)
    assume "chain_stages (snd (?run ApprovalTimeout)) \<noteq> []"
    with pipeline_fails_closed [of ?from "\<lambda>_. True" example_executor example_request "example_env ApprovalTimeout"
        "fst (?run ApprovalTimeout)" "snd (?run ApprovalTimeout)"]
    show False by (auto simp: cleared_def example_env_def example_executor_def example_request_def example_tool_def)
  qed
  ultimately show ?thesis by blast
qed

subsection \<open>The registry\<close>

definition registry_ok :: "tool_registry \<Rightarrow> bool" where
  "registry_ok tools \<longleftrightarrow>
     (\<forall>name spec. tools name = Some spec \<longrightarrow> td_name (ts_definition spec) = name \<and> validate_spec spec = Inr ())"

lemma register_cases:
  "fst (register tools spec) = tools \<or>
   tools (td_name (ts_definition spec)) = None \<and> validate_spec spec = Inr () \<and>
     fst (register tools spec) = tools(td_name (ts_definition spec) \<mapsto> spec)"
  by (cases "validate_spec spec") (simp_all add: register_def Let_def)

lemma register_ok: "registry_ok tools \<Longrightarrow> registry_ok (fst (register tools spec))"
  using register_cases [of tools spec] by (auto simp: registry_ok_def split: if_split_asm)

lemma validate_spec_schema:
  "validate_spec spec = Inr () \<Longrightarrow> validate_tool_schema (td_parameters (ts_definition spec)) = Inr ()"
  by (simp add: validate_spec_def Let_def)

text \<open>A call never fails for a fault of its tool: in a registry that was filled by registrations, whose names
  stay bound to the first tool registered under them, the arguments of a call are refused only for a fault
  of theirs.\<close>

theorem registry_sound:
  "registry_ok (foldl (\<lambda>tools spec. fst (register tools spec)) Map.empty specs) \<and>
   (\<forall>tools spec old. tools (td_name (ts_definition old)) = Some old \<longrightarrow>
      fst (register tools spec) (td_name (ts_definition old)) = Some old) \<and>
   (\<forall>tools name spec arguments integral v. registry_ok tools \<longrightarrow> tools name = Some spec \<longrightarrow>
      validate_arguments integral (td_parameters (ts_definition spec)) arguments = Inl v \<longrightarrow>
      sv_message v = ArgumentsNotObject \<or> argument_fault (sv_message v))"
proof (intro conjI allI impI)
  have "registry_ok tools \<Longrightarrow> registry_ok (foldl (\<lambda>tools spec. fst (register tools spec)) tools specs)" for tools
    by (induction specs arbitrary: tools) (simp_all add: register_ok)
  moreover have "registry_ok Map.empty" by (simp add: registry_ok_def)
  ultimately show "registry_ok (foldl (\<lambda>tools spec. fst (register tools spec)) Map.empty specs)" by blast
next
  fix tools :: tool_registry and spec old assume old: "tools (td_name (ts_definition old)) = Some old"
  show "fst (register tools spec) (td_name (ts_definition old)) = Some old"
    using register_cases [of tools spec]
  proof
    assume "tools (td_name (ts_definition spec)) = None \<and> validate_spec spec = Inr () \<and>
      fst (register tools spec) = tools(td_name (ts_definition spec) \<mapsto> spec)"
    then have bound: "tools (td_name (ts_definition spec)) = None"
      and tools: "fst (register tools spec) = tools(td_name (ts_definition spec) \<mapsto> spec)" by blast+
    from old bound have "td_name (ts_definition old) \<noteq> td_name (ts_definition spec)" by (metis option.distinct(1))
    then show ?thesis unfolding tools by (simp only: fun_upd_apply if_False old)
  qed (simp only: old)
next
  fix tools :: tool_registry and name spec arguments integral v
  assume "registry_ok tools" "tools name = Some spec"
    and refused: "validate_arguments integral (td_parameters (ts_definition spec)) arguments = Inl v"
  then have "validate_tool_schema (td_parameters (ts_definition spec)) = Inr ()"
    by (auto simp: registry_ok_def intro: validate_spec_schema)
  from arguments_faults [OF this refused] show "sv_message v = ArgumentsNotObject \<or> argument_fault (sv_message v)" .
qed

theorem registry_sound_witness:
  "registry_ok (fst (register Map.empty example_tool)) \<and> fst (register Map.empty example_tool) ''read'' = Some example_tool"
proof -
  have "validate_spec example_tool = Inr ()"
    by (simp add: validate_spec_def example_tool_def example_schema_registered name_byte_def)
  then have "fst (register Map.empty example_tool) ''read'' = Some example_tool"
    by (simp add: register_def Let_def) (simp add: example_tool_def)
  with registry_sound [of "[example_tool]"] show ?thesis by simp
qed

end
