(* ===== verification/Jobs.thy ===== *)
theory Jobs
  imports Sse
begin

text \<open>
  The registry of background jobs (crates/xharness-jobs/src/lib.rs): admission by reservation, identifiers, the
  life of a job, its bounded unread output and the shutdown.  Every operation is what the code does under its
  locks; where a producer's hook or a wait runs between two of them, the hook's answer and the outcome the
  producer settles meanwhile are arguments.  Broadcast events and wake-ups are left out.
\<close>

subsection \<open>Output\<close>

record output_buffer =
  ob_bytes :: string
  ob_dropped :: u64
  ob_limit :: nat

definition new_buffer :: "nat \<Rightarrow> output_buffer" where
  "new_buffer limit = \<lparr>ob_bytes = [], ob_dropped = 0, ob_limit = limit\<rparr>"

definition append_output :: "output_buffer \<Rightarrow> string \<Rightarrow> output_buffer" where
  "append_output b chunk =
     (let bytes = ob_bytes b @ chunk in
      if length bytes > ob_limit b then
        (let overflow = length bytes - ob_limit b in
         b\<lparr>ob_bytes := drop overflow bytes, ob_dropped := saturating_add (ob_dropped b) (of_nat overflow)\<rparr>)
      else b\<lparr>ob_bytes := bytes\<rparr>)"

text \<open>\<open>utf8_width\<close> of the crate: the length of a character by its first byte.\<close>

definition lead_width :: "char \<Rightarrow> nat option" where
  "lead_width c =
     (let b = byte c in
      if b \<le> 127 then Some 1
      else if 194 \<le> b \<and> b \<le> 223 then Some 2
      else if 224 \<le> b \<and> b \<le> 239 then Some 3
      else if 240 \<le> b \<and> b \<le> 244 then Some 4
      else None)"

text \<open>The scan back over the continuation bytes (the mask test of the code).\<close>

fun continuation_start :: "string \<Rightarrow> nat \<Rightarrow> nat" where
  "continuation_start bytes 0 = 0"
| "continuation_start bytes (Suc n) = (if continuation (bytes ! n) then continuation_start bytes n else Suc n)"

definition incomplete_utf8_tail_start :: "string \<Rightarrow> nat option" where
  "incomplete_utf8_tail_start bytes =
     (let start = continuation_start bytes (length bytes) in
      if start = length bytes then
        (if bytes = [] then None
         else (case lead_width (last bytes) of
             Some w \<Rightarrow> if w > 1 then Some (length bytes - 1) else None
           | None \<Rightarrow> None))
      else if start = 0 then None
      else (case lead_width (bytes ! (start - 1)) of
          Some w \<Rightarrow> if length bytes - (start - 1) < w then Some (start - 1) else None
        | None \<Rightarrow> None))"

text \<open>\<open>String::from_utf8_lossy\<close>: each maximal piece that starts no character becomes the replacement character.\<close>

definition replacement :: string where
  "replacement = [char_of (239::nat), char_of (191::nat), char_of (189::nat)]"

fun broken_width :: "string \<Rightarrow> nat" where
  "broken_width [] = 1"
| "broken_width (a # s) =
     (case lead_byte (byte a) of
        None \<Rightarrow> 1
      | Some (n, low, high) \<Rightarrow>
          if 0 < n \<and> s \<noteq> [] \<and> low \<le> byte (hd s) \<and> byte (hd s) < high
          then 2 + length (takeWhile continuation (take (n - 1) (tl s))) else 1)"

function from_utf8_lossy :: "string \<Rightarrow> string" where
  "from_utf8_lossy s =
     (if s = [] then []
      else if utf8_width s \<noteq> 0 then take (utf8_width s) s @ from_utf8_lossy (drop (utf8_width s) s)
      else replacement @ from_utf8_lossy (drop (broken_width s) s))"
  by pat_completeness auto
termination
proof (relation "measure length")
  fix s :: string assume "s \<noteq> []"
  then have "0 < broken_width s" by (cases s) (auto split: option.splits)
  with \<open>s \<noteq> []\<close> show "(drop (broken_width s) s, s) \<in> measure length" by simp
qed auto

declare from_utf8_lossy.simps [simp del]

definition take_output :: "output_buffer \<Rightarrow> output_buffer \<times> string \<times> bool" where
  "take_output b =
     (let complete_len = (case incomplete_utf8_tail_start (ob_bytes b) of Some n \<Rightarrow> n | None \<Rightarrow> length (ob_bytes b)) in
      (b\<lparr>ob_bytes := drop complete_len (ob_bytes b), ob_dropped := 0\<rparr>,
       from_utf8_lossy (take complete_len (ob_bytes b)), ob_dropped b > 0))"

subsection \<open>Jobs\<close>

datatype job_status = Running | Stopping | Completed | Killed | Failed

definition is_terminal :: "job_status \<Rightarrow> bool" where
  "is_terminal s \<longleftrightarrow> s = Completed \<or> s = Killed \<or> s = Failed"

datatype terminal_status = TCompleted | TKilled | TFailed

fun job_status_of :: "terminal_status \<Rightarrow> job_status" where
  "job_status_of TCompleted = Completed"
| "job_status_of TKilled = Killed"
| "job_status_of TFailed = Failed"

record job_outcome =
  jo_status :: terminal_status
  jo_detail :: "string option"

definition job_failed :: "string \<Rightarrow> job_outcome" where
  "job_failed detail = \<lparr>jo_status = TFailed, jo_detail = Some detail\<rparr>"

record job_config =
  jc_max_concurrent_jobs_per_owner :: nat
  jc_default_output_limit_bytes :: nat
  jc_max_retained_jobs_per_owner :: nat
  jc_event_capacity :: nat

datatype job_config_error = InvalidConcurrentLimit | InvalidDefaultOutputLimit | InvalidRetentionLimit | InvalidEventCapacity

definition validate_job_config :: "job_config \<Rightarrow> job_config_error + unit" where
  "validate_job_config c =
     and_then (ensure (jc_max_concurrent_jobs_per_owner c = 0) InvalidConcurrentLimit) (\<lambda>_.
     and_then (ensure (jc_default_output_limit_bytes c = 0) InvalidDefaultOutputLimit) (\<lambda>_.
     and_then (ensure (jc_max_retained_jobs_per_owner c = 0) InvalidRetentionLimit) (\<lambda>_.
     ensure (jc_event_capacity c = 0) InvalidEventCapacity)))"

record job_entry =
  je_kind :: string
  je_label :: string
  je_owner :: string
  je_pid :: "u32 option"
  je_output_limit_bytes :: nat
  je_started_at_ms :: u64
  je_status :: job_status
  je_detail :: "string option"
  je_finished_at_ms :: "u64 option"
  je_reported :: bool
  je_revision :: u64
  je_stdout :: output_buffer
  je_stderr :: output_buffer

datatype job_error =
    EmptyOwner | EmptyKind | EmptyLabel | InvalidOutputLimit | ShuttingDown
  | Capacity nat | ReservationExpired | NotFound string | CancelFailed string string | InvalidWaitTimeout

record job_registry =
  jr_config :: job_config
  jr_accepting :: bool
  jr_next_reservation :: u64
  jr_reservations :: "(u64 \<times> string) list"
  jr_counters :: "string \<rightharpoonup> u64"
  jr_jobs :: "(string \<times> job_entry) list"
  jr_order :: "string list"

definition try_new_registry :: "job_config \<Rightarrow> job_config_error + job_registry" where
  "try_new_registry config =
     and_then (validate_job_config config) (\<lambda>_.
     Inr \<lparr>jr_config = config, jr_accepting = True, jr_next_reservation = 1, jr_reservations = [],
          jr_counters = Map.empty, jr_jobs = [], jr_order = []\<rparr>)"

subsection \<open>Entries\<close>

definition bump_locked :: "job_entry \<Rightarrow> job_entry" where
  "bump_locked e = e\<lparr>je_revision := saturating_add (je_revision e) 1\<rparr>"

definition entry_append :: "bool \<Rightarrow> string \<Rightarrow> job_entry \<Rightarrow> job_entry" where
  "entry_append stdout chunk e =
     (if chunk = [] then e
      else bump_locked
        (if stdout then e\<lparr>je_stdout := append_output (je_stdout e) chunk\<rparr>
         else e\<lparr>je_stderr := append_output (je_stderr e) chunk\<rparr>))"

definition entry_settle :: "job_outcome \<Rightarrow> u64 \<Rightarrow> job_entry \<Rightarrow> job_entry" where
  "entry_settle outcome now e =
     (if is_terminal (je_status e) then e
      else bump_locked
        (e\<lparr>je_status := job_status_of (jo_status outcome), je_detail := jo_detail outcome, je_finished_at_ms := Some now\<rparr>))"

definition mark_stopping_and_reported :: "job_entry \<Rightarrow> job_entry" where
  "mark_stopping_and_reported e =
     (if is_terminal (je_status e) then e else bump_locked (e\<lparr>je_status := Stopping, je_reported := True\<rparr>))"

definition report_terminal :: "job_entry \<Rightarrow> job_entry" where
  "report_terminal e = (if is_terminal (je_status e) then e\<lparr>je_reported := True\<rparr> else e)"

definition entry_take :: "job_entry \<Rightarrow> job_entry" where
  "entry_take e =
     report_terminal (e\<lparr>je_stdout := fst (take_output (je_stdout e)), je_stderr := fst (take_output (je_stderr e))\<rparr>)"

definition on_job :: "(job_entry \<Rightarrow> job_entry) \<Rightarrow> string \<Rightarrow> job_registry \<Rightarrow> job_registry" where
  "on_job f i r = r\<lparr>jr_jobs := map (\<lambda>(k, e). (k, if k = i then f e else e)) (jr_jobs r)\<rparr>"

subsection \<open>Admission\<close>

record job_reservation =
  rv_token :: u64
  rv_owner :: string
  rv_kind :: string
  rv_label :: string
  rv_output_limit_bytes :: nat

definition owned_jobs :: "string \<Rightarrow> job_registry \<Rightarrow> (string \<times> job_entry) list" where
  "owned_jobs owner r = filter (\<lambda>(k, e). je_owner e = owner) (jr_jobs r)"

definition active_jobs :: "string \<Rightarrow> job_registry \<Rightarrow> nat" where
  "active_jobs owner r = length (filter (\<lambda>(k, e). je_owner e = owner \<and> \<not> is_terminal (je_status e)) (jr_jobs r))"

definition reserved_jobs :: "string \<Rightarrow> job_registry \<Rightarrow> nat" where
  "reserved_jobs owner r = length (filter (\<lambda>(t, reserved_owner). reserved_owner = owner) (jr_reservations r))"

definition reserve ::
  "job_registry \<Rightarrow> string \<Rightarrow> string \<Rightarrow> string \<Rightarrow> nat option \<Rightarrow> job_registry \<times> (job_error + job_reservation)" where
  "reserve r owner kind label output_limit_bytes =
     (let limit = (case output_limit_bytes of Some n \<Rightarrow> n | None \<Rightarrow> jc_default_output_limit_bytes (jr_config r)) in
      if blank owner then (r, Inl EmptyOwner)
      else if blank kind then (r, Inl EmptyKind)
      else if blank label then (r, Inl EmptyLabel)
      else if limit = 0 then (r, Inl InvalidOutputLimit)
      else if \<not> jr_accepting r then (r, Inl ShuttingDown)
      else if active_jobs owner r + reserved_jobs owner r \<ge> jc_max_concurrent_jobs_per_owner (jr_config r) then
        (r, Inl (Capacity (jc_max_concurrent_jobs_per_owner (jr_config r))))
      else
        (let token = jr_next_reservation r in
         (r\<lparr>jr_next_reservation := saturating_add token 1,
            jr_reservations := AList.update token owner (jr_reservations r)\<rparr>,
          Inr \<lparr>rv_token = token, rv_owner = owner, rv_kind = kind, rv_label = label, rv_output_limit_bytes = limit\<rparr>)))"

definition drop_reservation :: "job_registry \<Rightarrow> u64 \<Rightarrow> job_registry" where
  "drop_reservation r token = r\<lparr>jr_reservations := AList.delete token (jr_reservations r)\<rparr>"

definition removable :: "job_registry \<Rightarrow> string \<Rightarrow> string option" where
  "removable r owner =
     List.find (\<lambda>i. case map_of (jr_jobs r) i of
          None \<Rightarrow> False | Some e \<Rightarrow> je_owner e = owner \<and> is_terminal (je_status e)) (jr_order r)"

definition remove_job :: "string \<Rightarrow> job_registry \<Rightarrow> job_registry" where
  "remove_job i r = r\<lparr>jr_jobs := AList.delete i (jr_jobs r), jr_order := filter (\<lambda>j. j \<noteq> i) (jr_order r)\<rparr>"

lemma removable_entry:
  "removable r owner = Some i \<Longrightarrow> \<exists>e. map_of (jr_jobs r) i = Some e \<and> je_owner e = owner \<and> is_terminal (je_status e)"
  by (auto simp: removable_def find_Some_iff split: option.splits)

lemma length_delete_less: "map_of xs i = Some e \<Longrightarrow> length (AList.delete i xs) < length xs"
  by (induction xs) (auto simp: AList.delete_eq intro: le_imp_less_Suc)

function prune_history :: "job_registry \<Rightarrow> string \<Rightarrow> nat \<Rightarrow> job_registry" where
  "prune_history r owner max_retained =
     (if length (owned_jobs owner r) \<ge> max_retained then
        (case removable r owner of
           None \<Rightarrow> r
         | Some i \<Rightarrow> prune_history (remove_job i r) owner max_retained)
      else r)"
  by pat_completeness auto
termination
  by (relation "measure (\<lambda>(r, owner, n). length (jr_jobs r))")
    (auto simp: remove_job_def dest!: removable_entry intro: length_delete_less)

declare prune_history.simps [simp del]

definition job_id :: "string \<Rightarrow> u64 \<Rightarrow> string" where
  "job_id kind count = kind @ ''-'' @ show_nat (unat count)"

definition new_entry :: "job_reservation \<Rightarrow> u32 option \<Rightarrow> u64 \<Rightarrow> job_entry" where
  "new_entry rv pid now =
     \<lparr>je_kind = rv_kind rv, je_label = rv_label rv, je_owner = rv_owner rv, je_pid = pid,
      je_output_limit_bytes = rv_output_limit_bytes rv, je_started_at_ms = now, je_status = Running, je_detail = None,
      je_finished_at_ms = None, je_reported = False, je_revision = 0,
      je_stdout = new_buffer (rv_output_limit_bytes rv), je_stderr = new_buffer (rv_output_limit_bytes rv)\<rparr>"

text \<open>\<open>commit\<close> consumes the reservation; when it fails, dropping it removes the token.\<close>

definition commit :: "job_registry \<Rightarrow> job_reservation \<Rightarrow> u32 option \<Rightarrow> u64 \<Rightarrow> job_registry \<times> (job_error + string)" where
  "commit r rv pid now =
     (if \<not> jr_accepting r then (drop_reservation r (rv_token rv), Inl ShuttingDown)
      else if map_of (jr_reservations r) (rv_token rv) \<noteq> Some (rv_owner rv) then
        (drop_reservation r (rv_token rv), Inl ReservationExpired)
      else
        (let r1 = prune_history (drop_reservation r (rv_token rv)) (rv_owner rv)
                    (jc_max_retained_jobs_per_owner (jr_config r));
             count = saturating_add (case jr_counters r1 (rv_kind rv) of Some c \<Rightarrow> c | None \<Rightarrow> 0) 1;
             i = job_id (rv_kind rv) count in
         (r1\<lparr>jr_counters := (jr_counters r1)(rv_kind rv \<mapsto> count),
             jr_jobs := AList.update i (new_entry rv pid now) (jr_jobs r1),
             jr_order := jr_order r1 @ [i]\<rparr>,
          Inr i)))"

subsection \<open>Operations of an owner\<close>

definition expect_owned :: "job_registry \<Rightarrow> string \<Rightarrow> string \<Rightarrow> job_error + job_entry" where
  "expect_owned r owner i =
     (case map_of (jr_jobs r) i of
        None \<Rightarrow> Inl (NotFound i)
      | Some e \<Rightarrow> if je_owner e \<noteq> owner then Inl (NotFound i) else Inr e)"

definition list_jobs :: "job_registry \<Rightarrow> string \<Rightarrow> (string \<times> job_entry) list" where
  "list_jobs r owner =
     filter (\<lambda>(i, e). je_owner e = owner)
       (filter_map (\<lambda>i. map_option (\<lambda>e. (i, e)) (map_of (jr_jobs r) i)) (jr_order r))"

definition get_job :: "job_registry \<Rightarrow> string \<Rightarrow> string \<Rightarrow> job_error + job_entry" where
  "get_job r owner i = expect_owned r owner i"

record job_read =
  rd_stdout :: string
  rd_stderr :: string
  rd_stdout_truncated :: bool
  rd_stderr_truncated :: bool
  rd_snapshot :: job_entry

definition read_job :: "job_registry \<Rightarrow> string \<Rightarrow> string \<Rightarrow> job_registry \<times> (job_error + job_read)" where
  "read_job r owner i =
     (case expect_owned r owner i of
        Inl e \<Rightarrow> (r, Inl e)
      | Inr e \<Rightarrow>
          (case (take_output (je_stdout e), take_output (je_stderr e)) of
             ((_, stdout, stdout_truncated), (_, stderr, stderr_truncated)) \<Rightarrow>
               (on_job entry_take i r,
                Inr \<lparr>rd_stdout = stdout, rd_stderr = stderr, rd_stdout_truncated = stdout_truncated,
                     rd_stderr_truncated = stderr_truncated, rd_snapshot = entry_take e\<rparr>)))"

definition settle_job :: "job_outcome \<Rightarrow> u64 \<Rightarrow> string \<Rightarrow> job_registry \<Rightarrow> job_registry" where
  "settle_job outcome now = on_job (entry_settle outcome now)"

definition meanwhile :: "job_outcome option \<Rightarrow> u64 \<Rightarrow> string \<Rightarrow> job_registry \<Rightarrow> job_registry" where
  "meanwhile settled now i r = (case settled of None \<Rightarrow> r | Some outcome \<Rightarrow> settle_job outcome now i r)"

definition job_terminal :: "job_registry \<Rightarrow> string \<Rightarrow> bool" where
  "job_terminal r i = (case map_of (jr_jobs r) i of None \<Rightarrow> False | Some e \<Rightarrow> is_terminal (je_status e))"

text \<open>A wait returns the snapshot of the job, reported when it has ended meanwhile.\<close>

definition wait_job ::
  "job_registry \<Rightarrow> string \<Rightarrow> string \<Rightarrow> u64 \<Rightarrow> job_outcome option \<Rightarrow> u64 \<Rightarrow> job_registry \<times> (job_error + job_entry)" where
  "wait_job r owner i timeout settled now =
     (if timeout = 0 then (r, Inl InvalidWaitTimeout)
      else (case expect_owned r owner i of
          Inl e \<Rightarrow> (r, Inl e)
        | Inr e \<Rightarrow>
            (on_job report_terminal i (meanwhile settled now i r),
             Inr (report_terminal (case settled of None \<Rightarrow> e | Some outcome \<Rightarrow> entry_settle outcome now e)))))"

datatype kill_result = Requested | AlreadyFinished

definition kill ::
  "job_registry \<Rightarrow> string \<Rightarrow> string \<Rightarrow> string + unit \<Rightarrow> job_outcome option \<Rightarrow> u64 \<Rightarrow>
     job_registry \<times> (job_error + kill_result)" where
  "kill r owner i hook settled now =
     (case expect_owned r owner i of
        Inl e \<Rightarrow> (r, Inl e)
      | Inr e \<Rightarrow>
          if is_terminal (je_status e) then (on_job report_terminal i r, Inr AlreadyFinished)
          else
            (let r' = meanwhile settled now i r in
             case hook of
               Inl message \<Rightarrow> (r', Inl (CancelFailed i message))
             | Inr _ \<Rightarrow>
                 if job_terminal r' i then (on_job report_terminal i r', Inr AlreadyFinished)
                 else (on_job mark_stopping_and_reported i r', Inr Requested)))"

subsection \<open>Shutdown\<close>

record shutdown_report =
  sr_jobs :: nat
  sr_cancellation_failures :: nat
  sr_timed_out :: nat

definition shutdown_cancel ::
  "(string \<Rightarrow> string + unit) \<Rightarrow> u64 \<Rightarrow> string \<Rightarrow> job_registry \<times> shutdown_report \<Rightarrow> job_registry \<times> shutdown_report" where
  "shutdown_cancel hook now i = (\<lambda>(r, report).
     if job_terminal r i then (r, report)
     else (case hook i of
         Inr _ \<Rightarrow> (on_job mark_stopping_and_reported i r, report)
       | Inl message \<Rightarrow>
           (settle_job (job_failed (''shutdown cancellation failed; producer may be orphaned: '' @ message)) now i r,
            report\<lparr>sr_cancellation_failures := Suc (sr_cancellation_failures report)\<rparr>)))"

definition shutdown_await ::
  "(string \<Rightarrow> job_outcome option) \<Rightarrow> u64 \<Rightarrow> string \<Rightarrow> job_registry \<times> shutdown_report \<Rightarrow> job_registry \<times> shutdown_report" where
  "shutdown_await settled now i = (\<lambda>(r, report).
     if job_terminal r i then (r, report)
     else (case settled i of
         Some outcome \<Rightarrow> (settle_job outcome now i r, report)
       | None \<Rightarrow>
           (settle_job (job_failed ''shutdown timed out; producer may still be running'') now i r,
            report\<lparr>sr_timed_out := Suc (sr_timed_out report)\<rparr>)))"

definition shutdown_registry ::
  "(string \<Rightarrow> string + unit) \<Rightarrow> (string \<Rightarrow> job_outcome option) \<Rightarrow> u64 \<Rightarrow> job_registry \<Rightarrow> job_registry \<times> shutdown_report" where
  "shutdown_registry hook settled now r =
     (let r1 = r\<lparr>jr_accepting := False, jr_reservations := []\<rparr>;
          jobs = map fst (jr_jobs r1) in
      fold (shutdown_await settled now) jobs
        (fold (shutdown_cancel hook now) jobs
          (r1, \<lparr>sr_jobs = length jobs, sr_cancellation_failures = 0, sr_timed_out = 0\<rparr>)))"

subsection \<open>Identifiers\<close>

lemma show_nat_digits: "CHR ''-'' \<notin> set (show_nat n)"
proof (induction n rule: less_induct)
  case (less n)
  have "CHR ''-'' \<noteq> char_of (48 + k)" if "k < 10" for k :: nat
  proof
    assume "CHR ''-'' = char_of (48 + k)"
    then have "(of_char CHR ''-'' :: nat) = of_char (char_of (48 + k) :: char)" by (rule arg_cong)
    with that show False by simp
  qed
  with less show ?case by (subst show_nat_snoc) auto
qed

lemma job_id_inj: "job_id k n = job_id k' n' \<Longrightarrow> k = k' \<and> n = n'"
proof -
  assume eq: "job_id k n = job_id k' n'"
  have split: "takeWhile (\<lambda>c. c \<noteq> CHR ''-'') (rev (job_id k n)) = rev (show_nat (unat n))" for k n
  proof -
    have "rev (job_id k n) = rev (show_nat (unat n)) @ CHR ''-'' # rev k" by (simp add: job_id_def)
    moreover have "takeWhile (\<lambda>c. c \<noteq> CHR ''-'') (rev (show_nat (unat n)) @ CHR ''-'' # rev k) = rev (show_nat (unat n))"
      by (subst takeWhile_append2) (use show_nat_digits [of "unat n"] in auto)
    ultimately show ?thesis by simp
  qed
  have "rev (show_nat (unat n)) = rev (show_nat (unat n'))" using split [of k n] split [of k' n'] eq by simp
  then have "n = n'" by (auto simp: word_unat_eq_iff dest: show_nat_inj)
  with eq show ?thesis by (simp add: job_id_def)
qed

definition counter :: "job_registry \<Rightarrow> string \<Rightarrow> u64" where
  "counter r kind = (case jr_counters r kind of Some c \<Rightarrow> c | None \<Rightarrow> 0)"

subsection \<open>The invariant of the registry\<close>

definition buffer_ok :: "nat \<Rightarrow> output_buffer \<Rightarrow> bool" where
  "buffer_ok limit b \<longleftrightarrow> ob_limit b = limit \<and> length (ob_bytes b) \<le> limit"

definition entry_ok :: "job_entry \<Rightarrow> bool" where
  "entry_ok e \<longleftrightarrow> buffer_ok (je_output_limit_bytes e) (je_stdout e) \<and> buffer_ok (je_output_limit_bytes e) (je_stderr e)"

definition job_inv :: "job_registry \<Rightarrow> bool" where
  "job_inv r \<longleftrightarrow>
     distinct (map fst (jr_jobs r)) \<and> jr_order r = map fst (jr_jobs r) \<and>
     (\<forall>(i, e) \<in> set (jr_jobs r). entry_ok e \<and> (\<exists>n. i = job_id (je_kind e) n \<and> n \<le> counter r (je_kind e))) \<and>
     (\<forall>owner. active_jobs owner r + reserved_jobs owner r \<le> jc_max_concurrent_jobs_per_owner (jr_config r)) \<and>
     (\<forall>owner. length (owned_jobs owner r) \<le>
        max (jc_max_retained_jobs_per_owner (jr_config r)) (jc_max_concurrent_jobs_per_owner (jr_config r)))"

lemma Ball_pairI: "(\<And>a b. (a, b) \<in> A \<Longrightarrow> P a b) \<Longrightarrow> \<forall>(a, b)\<in>A. P a b"
  by auto

text \<open>What a critical section does to one entry.\<close>

inductive entry_step :: "(job_entry \<Rightarrow> job_entry) \<Rightarrow> bool" where
  "entry_step (entry_append stdout chunk)"
| "entry_step (entry_settle outcome now)"
| "entry_step mark_stopping_and_reported"
| "entry_step report_terminal"
| "entry_step entry_take"

text \<open>The critical sections of the registry; a counter that has reached \<open>u64::MAX\<close> issues no identifier.\<close>

inductive job_step :: "job_registry \<Rightarrow> job_registry \<Rightarrow> bool" where
  "job_step r (fst (reserve r owner kind label limit))"
| "job_step r (drop_reservation r token)"
| "counter r (rv_kind rv) \<noteq> - 1 \<Longrightarrow> job_step r (fst (commit r rv pid now))"
| "entry_step f \<Longrightarrow> job_step r (on_job f i r)"
| "job_step r (r\<lparr>jr_accepting := False, jr_reservations := []\<rparr>)"

lemma append_output_ok: "buffer_ok limit b \<Longrightarrow> buffer_ok limit (append_output b chunk)"
  by (auto simp: buffer_ok_def append_output_def Let_def)

lemma take_output_ok: "buffer_ok limit b \<Longrightarrow> buffer_ok limit (fst (take_output b))"
  by (auto simp: buffer_ok_def take_output_def Let_def)

lemma entry_step_frame:
  assumes "entry_step f"
  shows "je_owner (f e) = je_owner e" "je_kind (f e) = je_kind e"
    "is_terminal (je_status e) \<Longrightarrow> je_status (f e) = je_status e \<and> je_detail (f e) = je_detail e \<and> je_finished_at_ms (f e) = je_finished_at_ms e"
    "entry_ok e \<Longrightarrow> entry_ok (f e)"
  using assms
  by (cases; simp add: entry_append_def entry_settle_def mark_stopping_and_reported_def report_terminal_def entry_take_def
      bump_locked_def entry_ok_def append_output_ok take_output_ok)+

lemma entry_step_terminal: "entry_step f \<Longrightarrow> is_terminal (je_status e) \<Longrightarrow> is_terminal (je_status (f e))"
  using entry_step_frame(3) [of f e] by simp

lemma on_job_simps [simp]:
  "jr_config (on_job f i r) = jr_config r" "jr_reservations (on_job f i r) = jr_reservations r"
  "jr_order (on_job f i r) = jr_order r" "jr_counters (on_job f i r) = jr_counters r"
  "jr_accepting (on_job f i r) = jr_accepting r" "map fst (jr_jobs (on_job f i r)) = map fst (jr_jobs r)"
  by (auto simp: on_job_def comp_def case_prod_beta)

lemma map_of_on_job: "map_of (jr_jobs (on_job f i r)) j = map_option (\<lambda>e. if j = i then f e else e) (map_of (jr_jobs r) j)"
proof -
  have "map_of (map (\<lambda>(k, e). (k, if k = i then f e else e)) xs) j = map_option (\<lambda>e. if j = i then f e else e) (map_of xs j)" for xs
    by (induction xs) auto
  then show ?thesis by (simp add: on_job_def)
qed

lemma active_on_job:
  assumes "entry_step f"
  shows "active_jobs owner (on_job f i r) \<le> active_jobs owner r"
proof -
  have "length (filter (\<lambda>(k, e). je_owner e = owner \<and> \<not> is_terminal (je_status e)) (map (\<lambda>(k, e). (k, if k = i then f e else e)) xs))
      \<le> length (filter (\<lambda>(k, e). je_owner e = owner \<and> \<not> is_terminal (je_status e)) xs)" for xs
    using entry_step_frame(1) [OF assms] entry_step_terminal [OF assms] by (induction xs) (auto split: if_splits)
  then show ?thesis by (simp add: active_jobs_def on_job_def)
qed

lemma owned_on_job:
  assumes "entry_step f"
  shows "length (owned_jobs owner (on_job f i r)) = length (owned_jobs owner r)"
proof -
  have "length (filter (\<lambda>(k, e). je_owner e = owner) (map (\<lambda>(k, e). (k, if k = i then f e else e)) xs))
      = length (filter (\<lambda>(k, e). je_owner e = owner) xs)" for xs
    using entry_step_frame(1) [OF assms] by (induction xs) (auto split: if_splits)
  then show ?thesis by (simp add: owned_jobs_def on_job_def)
qed

lemma on_job_inv:
  assumes "entry_step f" and "job_inv r"
  shows "job_inv (on_job f i r)"
proof -
  have "active_jobs owner (on_job f i r) + reserved_jobs owner (on_job f i r) \<le>
      jc_max_concurrent_jobs_per_owner (jr_config r)" for owner
  proof -
    have "active_jobs owner r + reserved_jobs owner r \<le> jc_max_concurrent_jobs_per_owner (jr_config r)"
      using assms(2) by (simp add: job_inv_def)
    moreover have "reserved_jobs owner (on_job f i r) = reserved_jobs owner r" by (simp add: reserved_jobs_def)
    ultimately show ?thesis using active_on_job [OF assms(1), of owner i r] by linarith
  qed
  moreover have "entry_ok e \<and> (\<exists>n. j = job_id (je_kind e) n \<and> n \<le> counter (on_job f i r) (je_kind e))"
    if member: "(j, e) \<in> set (jr_jobs (on_job f i r))" for j e
  proof -
    from member obtain e' where e': "(j, e') \<in> set (jr_jobs r)" "e = (if j = i then f e' else e')"
      by (auto simp: on_job_def)
    with assms(2) have "entry_ok e' \<and> (\<exists>n. j = job_id (je_kind e') n \<and> n \<le> counter r (je_kind e'))"
      by (auto simp: job_inv_def)
    with e'(2) entry_step_frame(2,4) [OF assms(1), of e'] show ?thesis by (cases "j = i") (simp_all add: counter_def)
  qed
  ultimately show ?thesis
    using assms(2) owned_on_job [OF assms(1), of _ i r] unfolding job_inv_def by fastforce
qed

lemma reserved_update:
  "length (filter (\<lambda>(t, o'). o' = owner) (AList.update token owner' xs)) \<le>
     length (filter (\<lambda>(t, o'). o' = owner) xs) + (if owner' = owner then 1 else 0)"
  by (induction xs) auto

lemma reserved_delete:
  "length (filter (\<lambda>(t, o'). o' = owner) (AList.delete token xs)) \<le> length (filter (\<lambda>(t, o'). o' = owner) xs)"
  by (induction xs) auto

lemma reserved_delete_less:
  "map_of xs token = Some owner \<Longrightarrow>
     Suc (length (filter (\<lambda>(t, o'). o' = owner) (AList.delete token xs))) \<le> length (filter (\<lambda>(t, o'). o' = owner) xs)"
proof (induction xs)
  case (Cons x xs)
  then show ?case
    using reserved_delete [of owner token xs] by (cases x; cases "fst x = token") (auto split: if_splits)
qed simp

lemma update_new_key: "k \<notin> set (map fst xs) \<Longrightarrow> AList.update k v xs = xs @ [(k, v)]"
  by (induction xs) auto

lemma job_invD:
  assumes "job_inv r"
  shows "distinct (map fst (jr_jobs r))" "jr_order r = map fst (jr_jobs r)"
    "(i, e) \<in> set (jr_jobs r) \<Longrightarrow> entry_ok e" "(i, e) \<in> set (jr_jobs r) \<Longrightarrow> \<exists>n. i = job_id (je_kind e) n \<and> n \<le> counter r (je_kind e)"
    "active_jobs owner r + reserved_jobs owner r \<le> jc_max_concurrent_jobs_per_owner (jr_config r)"
    "length (owned_jobs owner r) \<le> max (jc_max_retained_jobs_per_owner (jr_config r)) (jc_max_concurrent_jobs_per_owner (jr_config r))"
  using assms by (auto simp: job_inv_def)

lemma reserve_cases:
  "fst (reserve r owner kind label limit) = r \<or>
   active_jobs owner r + reserved_jobs owner r < jc_max_concurrent_jobs_per_owner (jr_config r) \<and> jr_accepting r \<and>
   fst (reserve r owner kind label limit) = r\<lparr>jr_next_reservation := saturating_add (jr_next_reservation r) 1,
            jr_reservations := AList.update (jr_next_reservation r) owner (jr_reservations r)\<rparr>"
  by (simp add: reserve_def Let_def)

lemma reserve_inv:
  assumes "job_inv r"
  shows "job_inv (fst (reserve r owner kind label limit))"
  using reserve_cases [of r owner kind label limit]
proof
  let ?r = "r\<lparr>jr_next_reservation := saturating_add (jr_next_reservation r) 1,
            jr_reservations := AList.update (jr_next_reservation r) owner (jr_reservations r)\<rparr>"
  assume a: "active_jobs owner r + reserved_jobs owner r < jc_max_concurrent_jobs_per_owner (jr_config r) \<and> jr_accepting r \<and>
    fst (reserve r owner kind label limit) = ?r"
  have "active_jobs o' ?r + reserved_jobs o' ?r \<le> jc_max_concurrent_jobs_per_owner (jr_config r)" for o'
  proof -
    have "reserved_jobs o' ?r \<le> reserved_jobs o' r + (if owner = o' then 1 else 0)"
      using reserved_update [of o' "jr_next_reservation r" owner "jr_reservations r"] by (simp add: reserved_jobs_def)
    moreover have "active_jobs o' ?r = active_jobs o' r" by (simp add: active_jobs_def)
    ultimately show ?thesis using a job_invD(5) [OF assms, of o'] by (cases "owner = o'") auto
  qed
  with a assms show ?thesis by (simp add: job_inv_def counter_def owned_jobs_def)
qed (simp add: assms)

lemma drop_reservation_inv:
  assumes "job_inv r"
  shows "job_inv (drop_reservation r token)"
proof -
  let ?r = "drop_reservation r token"
  have "active_jobs owner ?r + reserved_jobs owner ?r \<le> jc_max_concurrent_jobs_per_owner (jr_config r)" for owner
    using reserved_delete [of owner token "jr_reservations r"] job_invD(5) [OF assms, of owner]
    by (simp add: drop_reservation_def reserved_jobs_def active_jobs_def)
  with assms show ?thesis by (simp add: job_inv_def counter_def owned_jobs_def drop_reservation_def)
qed

text \<open>What pruning leaves: only ended jobs of the owner go.\<close>

definition pruned :: "string \<Rightarrow> job_registry \<Rightarrow> job_registry \<Rightarrow> bool" where
  "pruned owner r r' \<longleftrightarrow>
     jr_config r' = jr_config r \<and> jr_reservations r' = jr_reservations r \<and> jr_counters r' = jr_counters r \<and>
     jr_accepting r' = jr_accepting r \<and> set (jr_jobs r') \<subseteq> set (jr_jobs r) \<and>
     (\<forall>i e. (i, e) \<in> set (jr_jobs r) - set (jr_jobs r') \<longrightarrow> je_owner e = owner \<and> is_terminal (je_status e)) \<and>
     (\<forall>owner'. active_jobs owner' r' = active_jobs owner' r \<and>
        length (owned_jobs owner' r') \<le> length (owned_jobs owner' r)) \<and>
     distinct (map fst (jr_jobs r')) \<and> jr_order r' = map fst (jr_jobs r')"

lemma remove_job_pruned:
  assumes "distinct (map fst (jr_jobs r))" and "jr_order r = map fst (jr_jobs r)"
    and e: "map_of (jr_jobs r) i = Some e" "je_owner e = owner" "is_terminal (je_status e)"
  shows "pruned owner r (remove_job i r)"
proof -
  have del: "AList.delete i (jr_jobs r) = filter (\<lambda>x. fst x \<noteq> i) (jr_jobs r)" unfolding AList.delete_eq by (rule filter_cong) auto
  have gone: "x = (i, e)" if "x \<in> set (jr_jobs r)" "fst x = i" for x
    using that e(1) assms(1) by (metis map_of_is_SomeI option.inject prod.collapse)
  have "active_jobs owner' (remove_job i r) = active_jobs owner' r" for owner'
  proof -
    have "filter (\<lambda>(k, e). je_owner e = owner' \<and> \<not> is_terminal (je_status e)) (filter (\<lambda>x. fst x \<noteq> i) (jr_jobs r)) =
        filter (\<lambda>(k, e). je_owner e = owner' \<and> \<not> is_terminal (je_status e)) (jr_jobs r)"
      unfolding filter_filter using gone e(3) by (intro filter_cong refl) auto
    then show ?thesis by (simp add: active_jobs_def remove_job_def del)
  qed
  moreover have "length (owned_jobs owner' (remove_job i r)) \<le> length (owned_jobs owner' r)" for owner'
  proof -
    have "length (filter P (filter Q xs)) \<le> length (filter P xs)" for P Q and xs :: "(string \<times> job_entry) list"
      by (induction xs) auto
    then show ?thesis by (simp add: owned_jobs_def remove_job_def del)
  qed
  moreover have "filter (\<lambda>j. j \<noteq> i) (map fst (jr_jobs r)) = map fst (filter (\<lambda>x. fst x \<noteq> i) (jr_jobs r))"
    by (simp add: filter_map o_def)
  moreover have "distinct (map fst (filter (\<lambda>x. fst x \<noteq> i) (jr_jobs r)))" using assms(1) by (rule distinct_map_filter)
  moreover have "je_owner e' = owner \<and> is_terminal (je_status e')"
    if "(j, e') \<in> set (jr_jobs r)" "(j, e') \<notin> set (filter (\<lambda>x. fst x \<noteq> i) (jr_jobs r))" for j e'
    using gone [OF that(1)] that e by auto
  ultimately show ?thesis
    using assms(2) by (auto simp: pruned_def remove_job_def del)
qed

lemma pruned_trans: "pruned owner a b \<Longrightarrow> pruned owner b c \<Longrightarrow> pruned owner a c"
proof -
  assume ab: "pruned owner a b" and bc: "pruned owner b c"
  have "je_owner e = owner \<and> is_terminal (je_status e)" if "(i, e) \<in> set (jr_jobs a) - set (jr_jobs c)" for i e
    using that ab bc unfolding pruned_def by (cases "(i, e) \<in> set (jr_jobs b)") blast+
  moreover have "active_jobs owner' c = active_jobs owner' a \<and> length (owned_jobs owner' c) \<le> length (owned_jobs owner' a)" for owner'
    using ab bc unfolding pruned_def by (metis order_trans)
  moreover have "set (jr_jobs c) \<subseteq> set (jr_jobs a)" using ab bc unfolding pruned_def by blast
  ultimately show ?thesis using ab bc by (simp add: pruned_def)
qed

lemma prune_history_pruned:
  "distinct (map fst (jr_jobs r)) \<Longrightarrow> jr_order r = map fst (jr_jobs r) \<Longrightarrow>
     pruned owner r (prune_history r owner n) \<and>
     (length (owned_jobs owner (prune_history r owner n)) < n \<or> removable (prune_history r owner n) owner = None)"
proof (induction r owner n rule: prune_history.induct)
  case (1 r owner n)
  have refl: "pruned owner r r" using "1.prems" by (simp add: pruned_def)
  show ?case
  proof (cases "n \<le> length (owned_jobs owner r)")
    case False
    with refl show ?thesis by (subst (1 2 3) prune_history.simps) simp
  next
    case True
    show ?thesis
    proof (cases "removable r owner")
      case None
      with True refl show ?thesis by (subst (1 2 3) prune_history.simps) simp
    next
      case (Some i)
      from removable_entry [OF Some] have step: "pruned owner r (remove_job i r)"
        using remove_job_pruned [OF "1.prems"] by blast
      then have "distinct (map fst (jr_jobs (remove_job i r)))" "jr_order (remove_job i r) = map fst (jr_jobs (remove_job i r))"
        by (simp_all add: pruned_def)
      note rest = "1.IH" [OF True Some this]
      have "prune_history r owner n = prune_history (remove_job i r) owner n"
        using True Some by (subst prune_history.simps) simp
      with rest pruned_trans [OF step] show ?thesis by simp
    qed
  qed
qed

lemma removable_None:
  assumes "removable r owner = None" and "distinct (map fst (jr_jobs r))" and "jr_order r = map fst (jr_jobs r)"
  shows "length (owned_jobs owner r) = active_jobs owner r"
proof -
  have "\<not> is_terminal (je_status e)" if "(i, e) \<in> set (jr_jobs r)" "je_owner e = owner" for i e
  proof -
    have "i \<in> set (jr_order r)" "map_of (jr_jobs r) i = Some e" using that(1) assms(2,3) by force+
    with assms(1) that(2) show ?thesis by (auto simp: removable_def find_None_iff)
  qed
  then have "filter (\<lambda>(k, e). je_owner e = owner) (jr_jobs r) =
      filter (\<lambda>(k, e). je_owner e = owner \<and> \<not> is_terminal (je_status e)) (jr_jobs r)"
    by (intro filter_cong refl) auto
  then show ?thesis by (simp add: owned_jobs_def active_jobs_def)
qed

text \<open>A commit that succeeds.\<close>

lemma commit_cases:
  assumes "job_inv r" and "counter r (rv_kind rv) \<noteq> - 1"
  shows "fst (commit r rv pid now) = drop_reservation r (rv_token rv) \<and> (\<exists>e. snd (commit r rv pid now) = Inl e) \<or>
    (\<exists>r1. jr_accepting r \<and> map_of (jr_reservations r) (rv_token rv) = Some (rv_owner rv) \<and>
       r1 = prune_history (drop_reservation r (rv_token rv)) (rv_owner rv) (jc_max_retained_jobs_per_owner (jr_config r)) \<and>
       snd (commit r rv pid now) = Inr (job_id (rv_kind rv) (counter r (rv_kind rv) + 1)) \<and>
       fst (commit r rv pid now) =
         r1\<lparr>jr_counters := (jr_counters r)(rv_kind rv \<mapsto> counter r (rv_kind rv) + 1),
            jr_jobs := jr_jobs r1 @ [(job_id (rv_kind rv) (counter r (rv_kind rv) + 1), new_entry rv pid now)],
            jr_order := jr_order r1 @ [job_id (rv_kind rv) (counter r (rv_kind rv) + 1)]\<rparr>)"
proof (cases "\<not> jr_accepting r \<or> map_of (jr_reservations r) (rv_token rv) \<noteq> Some (rv_owner rv)")
  case True
  then show ?thesis by (auto simp: commit_def)
next
  case False
  let ?dropped = "drop_reservation r (rv_token rv)"
  let ?kept = "prune_history ?dropped (rv_owner rv) (jc_max_retained_jobs_per_owner (jr_config r))"
  let ?n = "counter r (rv_kind rv)"
  note inv0 = drop_reservation_inv [OF assms(1), of "rv_token rv"]
  have pruned: "pruned (rv_owner rv) ?dropped ?kept"
    using prune_history_pruned [OF job_invD(1,2) [OF inv0]] by blast
  have counters: "jr_counters ?kept = jr_counters r" using pruned by (simp add: pruned_def drop_reservation_def)
  have top: "saturating_add ?n 1 = ?n + 1"
    using checked_add_one [OF assms(2)] by (auto simp: saturating_add_def checked_add_def split: if_splits)
  have "job_id (rv_kind rv) (?n + 1) \<notin> set (map fst (jr_jobs ?kept))"
  proof
    assume "job_id (rv_kind rv) (?n + 1) \<in> set (map fst (jr_jobs ?kept))"
    then obtain e where "(job_id (rv_kind rv) (?n + 1), e) \<in> set (jr_jobs ?dropped)" using pruned by (auto simp: pruned_def)
    from job_invD(4) [OF inv0 this] obtain m where "job_id (rv_kind rv) (?n + 1) = job_id (je_kind e) m" "m \<le> counter r (je_kind e)"
      by (auto simp: counter_def drop_reservation_def)
    then have "?n + 1 \<le> ?n" by (auto dest: job_id_inj)
    moreover have "unat (?n + 1) = unat ?n + 1" using checked_add_unat [OF checked_add_one [OF assms(2)]] by simp
    ultimately show False by (simp add: word_le_nat_alt)
  qed
  then have "AList.update (job_id (rv_kind rv) (?n + 1)) (new_entry rv pid now) (jr_jobs ?kept) =
      jr_jobs ?kept @ [(job_id (rv_kind rv) (?n + 1), new_entry rv pid now)]"
    by (rule update_new_key)
  moreover have "counter ?kept (rv_kind rv) = ?n" using counters by (simp add: counter_def)
  ultimately show ?thesis
    using False counters top by (simp add: commit_def Let_def counter_def [symmetric])
qed

lemma saturating_add_top: "saturating_add (- 1 :: u64) 1 = - 1"
  by (simp add: saturating_add_def unsigned_minus_1_eq_mask mask_eq_exp_minus_1)

text \<open>The identifier an accepted commit returns, whatever the counter.\<close>

lemma commit_identifier:
  assumes "job_inv r" and "snd (commit r rv pid now) = Inr i"
  shows "i = job_id (rv_kind rv) (saturating_add (counter r (rv_kind rv)) 1)"
proof -
  let ?dropped = "drop_reservation r (rv_token rv)"
  let ?kept = "prune_history ?dropped (rv_owner rv) (jc_max_retained_jobs_per_owner (jr_config r))"
  have "pruned (rv_owner rv) ?dropped ?kept"
    using prune_history_pruned [OF job_invD(1,2) [OF drop_reservation_inv [OF assms(1)]]] by blast
  then have "jr_counters ?kept = jr_counters r" by (simp add: pruned_def drop_reservation_def)
  with assms(2) show ?thesis by (auto simp: commit_def Let_def counter_def split: if_splits)
qed

lemma commit_inv:
  assumes "job_inv r" and "counter r (rv_kind rv) \<noteq> - 1"
  shows "job_inv (fst (commit r rv pid now))"
  using commit_cases [OF assms, of pid now]
proof
  assume "fst (commit r rv pid now) = drop_reservation r (rv_token rv) \<and> (\<exists>e. snd (commit r rv pid now) = Inl e)"
  then show ?thesis using drop_reservation_inv [OF assms(1)] by simp
next
  let ?dropped = "drop_reservation r (rv_token rv)"
  let ?owner = "rv_owner rv" and ?retained = "jc_max_retained_jobs_per_owner (jr_config r)"
  let ?limit = "jc_max_concurrent_jobs_per_owner (jr_config r)"
  let ?n = "counter r (rv_kind rv) + 1"
  let ?i = "job_id (rv_kind rv) ?n"
  let ?e = "new_entry rv pid now"
  let ?kept = "prune_history ?dropped ?owner ?retained"
  let ?new = "?kept\<lparr>jr_counters := (jr_counters r)(rv_kind rv \<mapsto> ?n), jr_jobs := jr_jobs ?kept @ [(?i, ?e)], jr_order := jr_order ?kept @ [?i]\<rparr>"
  assume "\<exists>r1. jr_accepting r \<and> map_of (jr_reservations r) (rv_token rv) = Some ?owner \<and>
       r1 = ?kept \<and> snd (commit r rv pid now) = Inr ?i \<and>
       fst (commit r rv pid now) = r1\<lparr>jr_counters := (jr_counters r)(rv_kind rv \<mapsto> ?n),
            jr_jobs := jr_jobs r1 @ [(?i, ?e)], jr_order := jr_order r1 @ [?i]\<rparr>"
  then have held: "map_of (jr_reservations r) (rv_token rv) = Some ?owner" and result: "fst (commit r rv pid now) = ?new" by auto
  note inv0 = drop_reservation_inv [OF assms(1), of "rv_token rv"]
  note history = prune_history_pruned [OF job_invD(1,2) [OF inv0], of ?owner ?retained]
  note pruned = conjunct1 [OF history] and stop = conjunct2 [OF history]
  have keep: "jr_config ?kept = jr_config r" "jr_reservations ?kept = jr_reservations ?dropped"
    "distinct (map fst (jr_jobs ?kept))" "jr_order ?kept = map fst (jr_jobs ?kept)" "set (jr_jobs ?kept) \<subseteq> set (jr_jobs r)"
    using pruned by (simp_all add: pruned_def drop_reservation_def)
  have up: "c < ?n" if "c \<le> counter r (rv_kind rv)" for c
    using that checked_add_unat [OF checked_add_one [OF assms(2)]] by (simp add: word_le_nat_alt word_less_nat_alt)
  have ids: "\<exists>n. i = job_id (je_kind e) n \<and> n \<le> counter r (je_kind e)" if "(i, e) \<in> set (jr_jobs ?kept)" for i e
    using that keep(5) job_invD(4) [OF assms(1)] by blast
  have fresh: "?i \<notin> set (map fst (jr_jobs ?kept))"
  proof
    assume "?i \<in> set (map fst (jr_jobs ?kept))"
    then obtain e where "(?i, e) \<in> set (jr_jobs ?kept)" by auto
    from ids [OF this] obtain m where "?i = job_id (je_kind e) m" "m \<le> counter r (je_kind e)" by blast
    with up [of m] show False by (auto dest: job_id_inj)
  qed
  have active: "active_jobs owner ?new = active_jobs owner r + (if ?owner = owner then 1 else 0)" for owner
  proof -
    have "active_jobs owner ?kept = active_jobs owner r"
      using pruned by (simp add: pruned_def active_jobs_def drop_reservation_def)
    then show ?thesis by (simp add: active_jobs_def new_entry_def is_terminal_def)
  qed
  have reserved: "reserved_jobs owner ?new + (if ?owner = owner then 1 else 0) \<le> reserved_jobs owner r" for owner
  proof -
    have "jr_reservations ?kept = AList.delete (rv_token rv) (jr_reservations r)"
      unfolding keep(2) by (simp add: drop_reservation_def)
    then show ?thesis
      using reserved_delete_less [OF held] reserved_delete [of owner "rv_token rv" "jr_reservations r"]
      by (auto simp: reserved_jobs_def)
  qed
  have capacity: "active_jobs owner ?new + reserved_jobs owner ?new \<le> ?limit" for owner
    using active [of owner] reserved [of owner] job_invD(5) [OF assms(1), of owner] by linarith
  have owned: "length (owned_jobs owner ?new) = length (owned_jobs owner ?kept) + (if ?owner = owner then 1 else 0)" for owner
    by (simp add: owned_jobs_def new_entry_def)
  have before: "length (owned_jobs owner ?kept) \<le> max ?retained ?limit" for owner
    using pruned job_invD(6) [OF inv0, of owner] by (auto simp: pruned_def drop_reservation_def intro: order_trans)
  have retained: "length (owned_jobs owner ?new) \<le> max ?retained ?limit" for owner
  proof (cases "?owner = owner")
    case True
    show ?thesis
      using stop
    proof
      assume "length (owned_jobs ?owner ?kept) < ?retained"
      with owned [of owner] True show ?thesis by simp
    next
      assume "removable ?kept ?owner = None"
      from removable_None [OF this keep(3,4)] have "length (owned_jobs ?owner ?kept) = active_jobs ?owner r"
        using pruned by (simp add: pruned_def active_jobs_def drop_reservation_def)
      with owned [of owner] active [of owner] capacity [of owner] True show ?thesis by simp
    qed
  qed (use owned [of owner] before [of owner] in simp)
  have entries: "entry_ok e \<and> (\<exists>n. i = job_id (je_kind e) n \<and> n \<le> counter ?new (je_kind e))" if "(i, e) \<in> set (jr_jobs ?new)" for i e
  proof (cases "(i, e) \<in> set (jr_jobs ?kept)")
    case True
    from ids [OF True] obtain m where m: "i = job_id (je_kind e) m" "m \<le> counter r (je_kind e)" by blast
    then have "m \<le> counter ?new (je_kind e)"
      using up [of m] by (cases "je_kind e = rv_kind rv") (auto simp: counter_def)
    moreover have "entry_ok e" using True keep(5) job_invD(3) [OF assms(1)] by blast
    ultimately show ?thesis using m(1) by blast
  next
    case False
    with that show ?thesis
      by (auto simp: new_entry_def entry_ok_def buffer_ok_def new_buffer_def counter_def)
  qed
  have config: "jr_config ?new = jr_config r" using keep(1) by simp
  show ?thesis
    unfolding result job_inv_def config
  proof (intro conjI allI capacity retained)
    show "distinct (map fst (jr_jobs ?new))" using keep(3) fresh by simp
    show "jr_order ?new = map fst (jr_jobs ?new)" using keep(4) by simp
    show "\<forall>(i, e)\<in>set (jr_jobs ?new). entry_ok e \<and> (\<exists>n. i = job_id (je_kind e) n \<and> n \<le> counter ?new (je_kind e))"
      by (rule Ball_pairI) (rule entries)
  qed
qed

lemma job_step_inv: "job_step r r' \<Longrightarrow> job_inv r \<Longrightarrow> job_inv r'"
proof (induction rule: job_step.induct)
  case (5 r)
  have "active_jobs owner (r\<lparr>jr_accepting := False, jr_reservations := []\<rparr>) +
      reserved_jobs owner (r\<lparr>jr_accepting := False, jr_reservations := []\<rparr>) \<le> jc_max_concurrent_jobs_per_owner (jr_config r)" for owner
    using job_invD(5) [OF 5, of owner] by (simp add: active_jobs_def reserved_jobs_def)
  with 5 show ?case by (simp add: job_inv_def counter_def owned_jobs_def)
qed (simp_all add: reserve_inv drop_reservation_inv commit_inv on_job_inv)

lemma new_registry_inv:
  assumes "try_new_registry config = Inr r"
  shows "job_inv r"
  using assms by (auto simp: try_new_registry_def job_inv_def active_jobs_def reserved_jobs_def owned_jobs_def)

lemma job_reachable_inv: "job_step\<^sup>*\<^sup>* r r' \<Longrightarrow> job_inv r \<Longrightarrow> job_inv r'"
  by (induction rule: rtranclp_induct) (simp_all add: job_step_inv)

subsection \<open>Operations are critical sections in a row\<close>

lemma settle_steps: "job_step r (settle_job outcome now i r)"
  unfolding settle_job_def by (intro job_step.intros entry_step.intros)

lemma meanwhile_steps: "job_step\<^sup>*\<^sup>* r (meanwhile settled now i r)"
  by (cases settled) (auto simp: meanwhile_def intro: settle_steps)

lemma update_steps: "entry_step f \<Longrightarrow> job_step\<^sup>*\<^sup>* r r' \<Longrightarrow> job_step\<^sup>*\<^sup>* r (on_job f i r')"
  by (meson job_step.intros(4) rtranclp.rtrancl_into_rtrancl)

lemma read_steps: "job_step\<^sup>*\<^sup>* r (fst (read_job r owner i))"
  by (cases "expect_owned r owner i") (auto simp: read_job_def split: prod.splits intro!: update_steps entry_step.intros)

lemma wait_steps: "job_step\<^sup>*\<^sup>* r (fst (wait_job r owner i timeout settled now))"
  by (cases "expect_owned r owner i")
    (auto simp: wait_job_def intro!: update_steps entry_step.intros meanwhile_steps)

lemma kill_steps: "job_step\<^sup>*\<^sup>* r (fst (kill r owner i hook settled now))"
  by (cases "expect_owned r owner i"; cases hook)
    (auto simp: kill_def Let_def intro!: update_steps entry_step.intros meanwhile_steps)

lemma cancel_steps: "job_step\<^sup>*\<^sup>* (fst x) (fst (shutdown_cancel hook now i x))"
  by (cases x; cases "hook i")
    (auto simp: shutdown_cancel_def intro!: update_steps entry_step.intros intro: settle_steps)

lemma await_steps: "job_step\<^sup>*\<^sup>* (fst x) (fst (shutdown_await settled now i x))"
  by (cases x; cases "settled i") (auto simp: shutdown_await_def intro: settle_steps)

lemma fold_steps:
  assumes "\<And>i x. job_step\<^sup>*\<^sup>* (fst x) (fst (f i x))"
  shows "job_step\<^sup>*\<^sup>* (fst x) (fst (fold f is x))"
proof (induction "is" arbitrary: x)
  case (Cons i "is")
  from assms [where x = x and i = i] Cons.IH [of "f i x"] have "job_step\<^sup>*\<^sup>* (fst x) (fst (fold f is (f i x)))"
    by (rule rtranclp_trans)
  then show ?case by simp
qed simp

lemma shutdown_steps: "job_step\<^sup>*\<^sup>* r (fst (shutdown_registry hook settled now r))"
proof -
  let ?r = "r\<lparr>jr_accepting := False, jr_reservations := []\<rparr>"
  let ?is = "map fst (jr_jobs ?r)"
  let ?x = "(?r, \<lparr>sr_jobs = length ?is, sr_cancellation_failures = 0, sr_timed_out = 0\<rparr>)"
  have "job_step r ?r" by (rule job_step.intros)
  moreover have "job_step\<^sup>*\<^sup>* ?r (fst (fold (shutdown_cancel hook now) ?is ?x))"
    using fold_steps [of "shutdown_cancel hook now" ?x ?is] cancel_steps by simp
  moreover have "job_step\<^sup>*\<^sup>* (fst (fold (shutdown_cancel hook now) ?is ?x)) (fst (shutdown_registry hook settled now r))"
    unfolding shutdown_registry_def Let_def by (rule fold_steps) (rule await_steps)
  ultimately show ?thesis by (meson converse_rtranclp_into_rtranclp rtranclp_trans)
qed

subsection \<open>Identifiers are issued once, endings are final\<close>

definition issued :: "job_registry \<Rightarrow> string \<Rightarrow> bool" where
  "issued r i \<longleftrightarrow> (\<exists>k n. i = job_id k n \<and> n \<le> counter r k)"

text \<open>What one step may do to the job an identifier names.\<close>

definition lives_on :: "job_entry \<Rightarrow> job_entry \<Rightarrow> bool" where
  "lives_on e e' \<longleftrightarrow> je_owner e' = je_owner e \<and> je_kind e' = je_kind e \<and>
     (is_terminal (je_status e) \<longrightarrow> je_status e' = je_status e \<and> je_detail e' = je_detail e \<and>
        je_finished_at_ms e' = je_finished_at_ms e)"

lemma lives_on_refl: "lives_on e e"
  by (simp add: lives_on_def)

lemma lives_on_trans: "lives_on a b \<Longrightarrow> lives_on b c \<Longrightarrow> lives_on a c"
  by (auto simp: lives_on_def)

lemma map_of_pruned:
  assumes "pruned owner r r'" and "distinct (map fst (jr_jobs r))"
  shows "map_of (jr_jobs r') i = map_of (jr_jobs r) i \<or>
    map_of (jr_jobs r') i = None \<and> (\<exists>e. map_of (jr_jobs r) i = Some e \<and> is_terminal (je_status e))"
proof (cases "map_of (jr_jobs r') i")
  case (Some e)
  then have "(i, e) \<in> set (jr_jobs r)" using assms(1) by (auto simp: pruned_def dest: map_of_SomeD)
  with Some assms(2) show ?thesis by simp
next
  case None
  show ?thesis
  proof (cases "map_of (jr_jobs r) i")
    case (Some e)
    then have "(i, e) \<in> set (jr_jobs r)" by (rule map_of_SomeD)
    moreover from None have "(i, e) \<notin> set (jr_jobs r')" by (force simp: map_of_eq_None_iff)
    ultimately have "is_terminal (je_status e)" using assms(1) by (auto simp: pruned_def)
    with None Some show ?thesis by blast
  qed (simp add: None)
qed

lemma job_step_lives:
  assumes "job_step r r'" and "job_inv r"
  shows "(\<forall>k. counter r k \<le> counter r' k) \<and> jr_config r' = jr_config r \<and>
    (\<forall>i e. map_of (jr_jobs r) i = Some e \<longrightarrow>
       (case map_of (jr_jobs r') i of Some e' \<Rightarrow> lives_on e e' | None \<Rightarrow> is_terminal (je_status e))) \<and>
    (\<forall>i. issued r i \<longrightarrow> map_of (jr_jobs r) i = None \<longrightarrow> map_of (jr_jobs r') i = None)"
  using assms
proof (induction rule: job_step.induct)
  case (1 r owner kind label limit)
  have "fst (reserve r owner kind label limit) = r \<or>
      (\<exists>n x. fst (reserve r owner kind label limit) = r\<lparr>jr_next_reservation := n, jr_reservations := x\<rparr>)"
    using reserve_cases [of r owner kind label limit] by blast
  then show ?case by (auto simp: counter_def lives_on_refl split: option.split)
next
  case (2 r token)
  then show ?case by (auto simp: drop_reservation_def counter_def lives_on_refl split: option.split)
next
  case (4 f r i)
  then show ?case using entry_step_frame [OF 4(1)]
    by (auto simp: map_of_on_job counter_def lives_on_def)
next
  case (5 r)
  then show ?case by (auto simp: counter_def lives_on_refl split: option.split)
next
  case (3 r rv pid now)
  from commit_cases [OF 3(2,1), of pid now] show ?case
  proof
    assume "fst (commit r rv pid now) = drop_reservation r (rv_token rv) \<and> (\<exists>e. snd (commit r rv pid now) = Inl e)"
    then show ?thesis by (auto simp: drop_reservation_def counter_def lives_on_refl split: option.split)
  next
    let ?dropped = "drop_reservation r (rv_token rv)"
    let ?n = "counter r (rv_kind rv) + 1"
    let ?i = "job_id (rv_kind rv) ?n"
    let ?kept = "prune_history ?dropped (rv_owner rv) (jc_max_retained_jobs_per_owner (jr_config r))"
    let ?new = "?kept\<lparr>jr_counters := (jr_counters r)(rv_kind rv \<mapsto> ?n), jr_jobs := jr_jobs ?kept @ [(?i, new_entry rv pid now)],
        jr_order := jr_order ?kept @ [?i]\<rparr>"
    assume "\<exists>r1. jr_accepting r \<and> map_of (jr_reservations r) (rv_token rv) = Some (rv_owner rv) \<and> r1 = ?kept \<and>
       snd (commit r rv pid now) = Inr ?i \<and>
       fst (commit r rv pid now) = r1\<lparr>jr_counters := (jr_counters r)(rv_kind rv \<mapsto> ?n),
            jr_jobs := jr_jobs r1 @ [(?i, new_entry rv pid now)], jr_order := jr_order r1 @ [?i]\<rparr>"
    then have result: "fst (commit r rv pid now) = ?new" by auto
    note inv = drop_reservation_inv [OF 3(2), of "rv_token rv"]
    note pruned = conjunct1 [OF prune_history_pruned [OF job_invD(1,2) [OF inv], of "rv_owner rv"
        "jc_max_retained_jobs_per_owner (jr_config r)"]]
    have config: "jr_config ?kept = jr_config r" using pruned by (simp add: pruned_def drop_reservation_def)
    have same: "map_of (jr_jobs ?kept) i = map_of (jr_jobs r) i \<or>
        map_of (jr_jobs ?kept) i = None \<and> (\<exists>e. map_of (jr_jobs r) i = Some e \<and> is_terminal (je_status e))" for i
      using map_of_pruned [OF pruned job_invD(1) [OF inv], of i] by (simp add: drop_reservation_def)
    have up: "c < ?n" if "c \<le> counter r (rv_kind rv)" for c
      using that checked_add_unat [OF checked_add_one [OF 3(1)]] by (simp add: word_le_nat_alt word_less_nat_alt)
    then have fresh: "\<not> issued r ?i" by (auto simp: issued_def dest!: job_id_inj)
    have "map_of (jr_jobs r) ?i = None"
    proof (rule ccontr)
      assume "map_of (jr_jobs r) ?i \<noteq> None"
      then obtain e where "(?i, e) \<in> set (jr_jobs r)" by (auto dest: map_of_SomeD)
      from job_invD(4) [OF 3(2) this] fresh show False unfolding issued_def by blast
    qed
    then have fresh': "map_of (jr_jobs ?kept) ?i = None" using same [of ?i] by auto
    have at: "map_of (jr_jobs ?new) i = (if i = ?i then Some (new_entry rv pid now) else map_of (jr_jobs ?kept) i)" for i
      using fresh' by (cases "map_of (jr_jobs ?kept) i") (auto simp: map_add_def)
    have counters: "counter r k \<le> counter ?new k" for k
      using up [of "counter r (rv_kind rv)"] by (cases "k = rv_kind rv") (simp_all add: counter_def)
    have lives: "case map_of (jr_jobs ?new) i of Some e' \<Rightarrow> lives_on e e' | None \<Rightarrow> is_terminal (je_status e)"
      if "map_of (jr_jobs r) i = Some e" for i e
      using same [of i] that \<open>map_of (jr_jobs r) ?i = None\<close> unfolding at
      by (cases "i = ?i") (auto simp: lives_on_refl)
    have gone: "map_of (jr_jobs ?new) i = None" if "issued r i" "map_of (jr_jobs r) i = None" for i
      using same [of i] that fresh unfolding at by auto
    show ?thesis unfolding result using counters config lives gone by simp
  qed
qed

lemma job_steps_lives:
  "job_step\<^sup>*\<^sup>* r r' \<Longrightarrow> job_inv r \<Longrightarrow>
     (\<forall>k. counter r k \<le> counter r' k) \<and> jr_config r' = jr_config r \<and>
     (\<forall>i e. map_of (jr_jobs r) i = Some e \<longrightarrow> issued r' i \<and>
        (\<forall>e'. map_of (jr_jobs r') i = Some e' \<longrightarrow> lives_on e e'))"
proof (induction rule: rtranclp_induct)
  case base
  have "issued r i" if "map_of (jr_jobs r) i = Some e" for i e
    using job_invD(4) [OF base map_of_SomeD [OF that]] unfolding issued_def by blast
  then show ?case by (auto simp: lives_on_refl)
next
  case (step r1 r2)
  have inv: "job_inv r1" using step.hyps(1) step.prems by (rule job_reachable_inv)
  note one = job_step_lives [OF step.hyps(2) inv] and before = step.IH [OF step.prems]
  have up: "counter r1 k \<le> counter r2 k" for k using one by blast
  have mono: "issued r2 i" if "issued r1 i" for i
  proof -
    from that obtain k n where "i = job_id k n" "n \<le> counter r1 k" by (auto simp: issued_def)
    with up [of k] show ?thesis unfolding issued_def by (intro exI [of _ k] exI [of _ n]) simp
  qed
  have lives: "lives_on e e''" if e: "map_of (jr_jobs r) i = Some e" "map_of (jr_jobs r2) i = Some e''" for i e e''
  proof (cases "map_of (jr_jobs r1) i")
    case None
    with before one e show ?thesis by (metis option.distinct(1))
  next
    case (Some e')
    with before e(1) have "lives_on e e'" by blast
    moreover have "lives_on e' e''" using one Some e(2) by (auto split: option.splits)
    ultimately show ?thesis by (rule lives_on_trans)
  qed
  show ?case
    using before one up mono lives by (auto intro: order_trans)
qed

text \<open>Property C10. The registry keeps its limits: however reservations, commits, output, reads, waits, kills and endings
  follow one another, an owner never has more running and reserved jobs than its limit, nor more retained
  records than the larger of the two limits, and the unread output of a job never exceeds the job's limit.\<close>

theorem jobs_within_limits:
  assumes "try_new_registry config = Inr r0" and "job_step\<^sup>*\<^sup>* r0 r"
  shows "(\<forall>owner. active_jobs owner r + reserved_jobs owner r \<le> jc_max_concurrent_jobs_per_owner config \<and>
      length (owned_jobs owner r) \<le>
        max (jc_max_retained_jobs_per_owner config) (jc_max_concurrent_jobs_per_owner config)) \<and>
    (\<forall>(i, e)\<in>set (jr_jobs r). length (ob_bytes (je_stdout e)) \<le> je_output_limit_bytes e \<and>
      length (ob_bytes (je_stderr e)) \<le> je_output_limit_bytes e)"
proof -
  have r0: "job_inv r0" "jr_config r0 = config" using assms(1) by (auto simp: new_registry_inv) (auto simp: try_new_registry_def)
  note inv = job_reachable_inv [OF assms(2) r0(1)]
  have "jr_config r = config" using job_steps_lives [OF assms(2) r0(1)] r0(2) by simp
  with job_invD [OF inv] show ?thesis by (fastforce simp: entry_ok_def buffer_ok_def)
qed

definition example_config :: job_config where
  "example_config = \<lparr>jc_max_concurrent_jobs_per_owner = 1, jc_default_output_limit_bytes = 8,
     jc_max_retained_jobs_per_owner = 1, jc_event_capacity = 4\<rparr>"

definition empty_registry :: job_registry where
  "empty_registry = \<lparr>jr_config = example_config, jr_accepting = True, jr_next_reservation = 1, jr_reservations = [],
     jr_counters = Map.empty, jr_jobs = [], jr_order = []\<rparr>"

lemma example_registry: "try_new_registry example_config = Inr empty_registry"
  by (simp add: try_new_registry_def validate_job_config_def example_config_def empty_registry_def)

theorem jobs_within_limits_witness:
  "\<exists>rv. snd (reserve empty_registry ''s'' ''bash'' ''make'' None) = Inr rv \<and>
     active_jobs ''s'' (fst (reserve empty_registry ''s'' ''bash'' ''make'' None)) +
     reserved_jobs ''s'' (fst (reserve empty_registry ''s'' ''bash'' ''make'' None)) \<le> 1"
proof -
  have nonblank: "\<not> blank ''s''" "\<not> blank ''bash''" "\<not> blank ''make''" by code_simp+
  have "job_step\<^sup>*\<^sup>* empty_registry (fst (reserve empty_registry ''s'' ''bash'' ''make'' None))"
    by (intro r_into_rtranclp job_step.intros)
  from jobs_within_limits [OF example_registry this] nonblank show ?thesis
    by (simp add: reserve_def example_config_def empty_registry_def active_jobs_def reserved_jobs_def Let_def)
qed

text \<open>Property C11. Endings are final and identifiers are not reused: a job keeps its owner and kind as long as it is
  recorded, keeps its status, detail and time once it has ended, and is not forgotten before it has ended;
  and no later commit returns its identifier, even after its record was pruned, as long as the counter of
  its kind has not reached \<open>u64::MAX\<close>.  (The steps make no commit at that value.  An accepted commit there
  saturates and returns the identifier of \<open>u64::MAX\<close> again, the only one that can be issued twice.)\<close>

theorem endings_final:
  assumes "try_new_registry config = Inr r0" and "job_step\<^sup>*\<^sup>* r0 r"
    and "map_of (jr_jobs r) i = Some e" and "job_step\<^sup>*\<^sup>* r r'"
  shows "(\<forall>e'. map_of (jr_jobs r') i = Some e' \<longrightarrow> lives_on e e') \<and>
    (\<forall>r1. job_step r r1 \<longrightarrow> map_of (jr_jobs r1) i = None \<longrightarrow> is_terminal (je_status e)) \<and>
    (\<forall>rv pid now. counter r' (rv_kind rv) \<noteq> - 1 \<longrightarrow> snd (commit r' rv pid now) \<noteq> Inr i) \<and>
    (\<forall>rv pid now j. counter r' (rv_kind rv) = - 1 \<longrightarrow> snd (commit r' rv pid now) = Inr j \<longrightarrow>
       j = job_id (rv_kind rv) (- 1) \<and> (j = i \<longrightarrow> rv_kind rv = je_kind e))"
proof -
  have inv: "job_inv r" by (rule job_reachable_inv [OF assms(2) new_registry_inv [OF assms(1)]])
  have inv': "job_inv r'" by (rule job_reachable_inv [OF assms(4) inv])
  note later = job_steps_lives [OF assms(4) inv]
  have "snd (commit r' rv pid now) \<noteq> Inr i" if top: "counter r' (rv_kind rv) \<noteq> - 1" for rv pid now
  proof
    assume "snd (commit r' rv pid now) = Inr i"
    with commit_cases [OF inv' top, of pid now] have i: "i = job_id (rv_kind rv) (counter r' (rv_kind rv) + 1)" by auto
    have "issued r' i" using later assms(3) by blast
    then have "counter r' (rv_kind rv) + 1 \<le> counter r' (rv_kind rv)" unfolding i issued_def by (auto dest!: job_id_inj)
    with checked_add_unat [OF checked_add_one [OF top]] show False by (simp add: word_le_nat_alt)
  qed
  moreover have "j = job_id (rv_kind rv) (- 1) \<and> (j = i \<longrightarrow> rv_kind rv = je_kind e)"
    if "counter r' (rv_kind rv) = - 1" "snd (commit r' rv pid now) = Inr j" for rv pid now j
  proof -
    from commit_identifier [OF inv' that(2)] that(1) have j: "j = job_id (rv_kind rv) (- 1)"
      by (simp add: saturating_add_top)
    obtain n where "i = job_id (je_kind e) n" using job_invD(4) [OF inv map_of_SomeD [OF assms(3)]] by blast
    with j show ?thesis by (auto dest: job_id_inj)
  qed
  moreover have "is_terminal (je_status e)" if "job_step r r1" "map_of (jr_jobs r1) i = None" for r1
    using job_step_lives [OF that(1) inv] assms(3) that(2) by force
  ultimately show ?thesis using later assms(3) by blast
qed

theorem endings_final_witness:
  "\<exists>e'. map_of (jr_jobs (settle_job (job_failed ''late'') 9 ''bash-1''
        (fst (commit (fst (reserve empty_registry ''s'' ''bash'' ''make'' None))
          \<lparr>rv_token = 1, rv_owner = ''s'', rv_kind = ''bash'', rv_label = ''make'', rv_output_limit_bytes = 8\<rparr> None 1)))) ''bash-1'' = Some e' \<and>
      lives_on (new_entry \<lparr>rv_token = 1, rv_owner = ''s'', rv_kind = ''bash'', rv_label = ''make'', rv_output_limit_bytes = 8\<rparr> None 1) e'"
proof -
  let ?rv = "\<lparr>rv_token = 1, rv_owner = ''s'', rv_kind = ''bash'', rv_label = ''make'', rv_output_limit_bytes = 8\<rparr> :: job_reservation"
  let ?a = "fst (reserve empty_registry ''s'' ''bash'' ''make'' None)"
  let ?b = "fst (commit ?a ?rv None 1)"
  have nonblank: "\<not> blank ''s''" "\<not> blank ''bash''" "\<not> blank ''make''" by code_simp+
  have a: "?a = empty_registry\<lparr>jr_next_reservation := 2, jr_reservations := [(1, ''s'')]\<rparr>"
    using nonblank by (simp add: reserve_def empty_registry_def example_config_def active_jobs_def reserved_jobs_def Let_def saturating_add_def)
  have "job_id ''bash'' 1 = ''bash-1''" by code_simp
  then have b: "map_of (jr_jobs ?b) ''bash-1'' = Some (new_entry ?rv None 1)"
    unfolding a
    by (simp add: commit_def drop_reservation_def empty_registry_def example_config_def prune_history.simps owned_jobs_def
        Let_def saturating_add_def)
  have first: "job_step empty_registry ?a" by (rule job_step.intros)
  have second: "job_step ?a ?b" by (rule job_step.intros) (simp only: a, simp add: counter_def empty_registry_def)
  from first have "job_step\<^sup>*\<^sup>* empty_registry ?a" by (rule r_into_rtranclp)
  then have reach: "job_step\<^sup>*\<^sup>* empty_registry ?b" using second by (rule rtranclp.rtrancl_into_rtrancl)
  have "job_step\<^sup>*\<^sup>* ?b (settle_job (job_failed ''late'') 9 ''bash-1'' ?b)" by (intro r_into_rtranclp settle_steps)
  moreover have "\<exists>e'. map_of (jr_jobs (settle_job (job_failed ''late'') 9 ''bash-1'' ?b)) ''bash-1'' = Some e'"
    using b by (simp add: settle_job_def map_of_on_job)
  ultimately show ?thesis using endings_final [OF example_registry reach b] by blast
qed

subsection \<open>Owners are isolated\<close>

text \<open>Owners cannot see or touch each other's jobs: under another owner's name a job answers every operation
  exactly as an identifier that does not exist, without a trace in the registry, and the operations on one
  job leave every other job as it is.\<close>

theorem owners_isolated:
  "(map_of (jr_jobs r) i = None \<or> (\<exists>e. map_of (jr_jobs r) i = Some e \<and> je_owner e \<noteq> owner) \<longrightarrow>
      get_job r owner i = Inl (NotFound i) \<and> read_job r owner i = (r, Inl (NotFound i)) \<and>
      kill r owner i hook settled now = (r, Inl (NotFound i)) \<and>
      wait_job r owner i timeout settled now = (r, Inl (if timeout = 0 then InvalidWaitTimeout else NotFound i)) \<and>
      i \<notin> fst ` set (list_jobs r owner)) \<and>
   (\<forall>j. j \<noteq> i \<longrightarrow>
      map_of (jr_jobs (fst (read_job r owner i))) j = map_of (jr_jobs r) j \<and>
      map_of (jr_jobs (fst (kill r owner i hook settled now))) j = map_of (jr_jobs r) j \<and>
      map_of (jr_jobs (fst (wait_job r owner i timeout settled now))) j = map_of (jr_jobs r) j)"
proof (intro conjI allI impI)
  assume foreign: "map_of (jr_jobs r) i = None \<or> (\<exists>e. map_of (jr_jobs r) i = Some e \<and> je_owner e \<noteq> owner)"
  then have no: "expect_owned r owner i = Inl (NotFound i)" by (auto simp: expect_owned_def)
  then show "get_job r owner i = Inl (NotFound i)" "read_job r owner i = (r, Inl (NotFound i))"
    "kill r owner i hook settled now = (r, Inl (NotFound i))"
    "wait_job r owner i timeout settled now = (r, Inl (if timeout = 0 then InvalidWaitTimeout else NotFound i))"
    by (simp_all add: get_job_def read_job_def kill_def wait_job_def)
  show "i \<notin> fst ` set (list_jobs r owner)" using foreign by (auto simp: list_jobs_def)
next
  fix j assume "j \<noteq> i"
  then have other: "map_of (jr_jobs (on_job f i r)) j = map_of (jr_jobs r) j" for f r
    by (simp add: map_of_on_job option.map_ident)
  then have mid: "map_of (jr_jobs (meanwhile settled now i r)) j = map_of (jr_jobs r) j"
    by (simp add: meanwhile_def settle_job_def split: option.split)
  show "map_of (jr_jobs (fst (read_job r owner i))) j = map_of (jr_jobs r) j"
    by (simp add: read_job_def other split: sum.split prod.split)
  show "map_of (jr_jobs (fst (kill r owner i hook settled now))) j = map_of (jr_jobs r) j"
    by (simp add: kill_def Let_def other mid split: sum.split)
  show "map_of (jr_jobs (fst (wait_job r owner i timeout settled now))) j = map_of (jr_jobs r) j"
    by (simp add: wait_job_def other mid split: sum.split)
qed

theorem owners_isolated_witness:
  "kill (empty_registry\<lparr>jr_jobs := [(''bash-1'', new_entry \<lparr>rv_token = 1, rv_owner = ''s'', rv_kind = ''bash'',
       rv_label = ''make'', rv_output_limit_bytes = 8\<rparr> None 1)]\<rparr>) ''t'' ''bash-1'' (Inr ()) None 5 =
   (empty_registry\<lparr>jr_jobs := [(''bash-1'', new_entry \<lparr>rv_token = 1, rv_owner = ''s'', rv_kind = ''bash'',
       rv_label = ''make'', rv_output_limit_bytes = 8\<rparr> None 1)]\<rparr>, Inl (NotFound ''bash-1''))"
  using owners_isolated [of "empty_registry\<lparr>jr_jobs := [(''bash-1'', new_entry \<lparr>rv_token = 1, rv_owner = ''s'', rv_kind = ''bash'',
       rv_label = ''make'', rv_output_limit_bytes = 8\<rparr> None 1)]\<rparr>" "''bash-1''" "''t''" "Inr ()" None 5 1]
  by (simp add: new_entry_def)

subsection \<open>Shutdown\<close>

lemma job_terminal_on_job:
  "entry_step f \<Longrightarrow> job_terminal r j \<Longrightarrow> job_terminal (on_job f i r) j"
  using entry_step_terminal [of f] by (auto simp: job_terminal_def map_of_on_job split: option.splits)

lemma job_terminal_settled:
  "i \<in> fst ` set (jr_jobs r) \<Longrightarrow> job_terminal (settle_job outcome now i r) i"
  by (cases "jo_status outcome")
    (auto simp: job_terminal_def settle_job_def map_of_on_job entry_settle_def bump_locked_def is_terminal_def
      map_of_eq_None_iff split: option.split)

lemma cancel_frame:
  "map fst (jr_jobs (fst (shutdown_cancel hook now i x))) = map fst (jr_jobs (fst x)) \<and>
   jr_accepting (fst (shutdown_cancel hook now i x)) = jr_accepting (fst x)"
  by (cases x) (simp add: shutdown_cancel_def settle_job_def split: sum.split)

lemma await_frame:
  "map fst (jr_jobs (fst (shutdown_await settled now i x))) = map fst (jr_jobs (fst x)) \<and>
   jr_accepting (fst (shutdown_await settled now i x)) = jr_accepting (fst x) \<and>
   (\<forall>j. job_terminal (fst x) j \<longrightarrow> job_terminal (fst (shutdown_await settled now i x)) j) \<and>
   (i \<in> fst ` set (jr_jobs (fst x)) \<longrightarrow> job_terminal (fst (shutdown_await settled now i x)) i)"
  using job_terminal_on_job [OF entry_step.intros(2), of "fst x" _ _ now i] job_terminal_settled [of i "fst x" _ now]
  by (cases x) (auto simp: shutdown_await_def settle_job_def split: option.split)

lemma cancel_all_frame:
  "map fst (jr_jobs (fst (fold (shutdown_cancel hook now) is x))) = map fst (jr_jobs (fst x)) \<and>
   jr_accepting (fst (fold (shutdown_cancel hook now) is x)) = jr_accepting (fst x)"
  by (induction "is" arbitrary: x) (simp_all add: cancel_frame)

lemma await_all:
  "set is \<subseteq> fst ` set (jr_jobs (fst x)) \<Longrightarrow>
     map fst (jr_jobs (fst (fold (shutdown_await settled now) is x))) = map fst (jr_jobs (fst x)) \<and>
     jr_accepting (fst (fold (shutdown_await settled now) is x)) = jr_accepting (fst x) \<and>
     (\<forall>j. job_terminal (fst x) j \<or> j \<in> set is \<longrightarrow> job_terminal (fst (fold (shutdown_await settled now) is x)) j)"
proof (induction "is" arbitrary: x)
  case (Cons i "is")
  note one = await_frame [of settled now i x]
  have "fst ` set (jr_jobs (fst (shutdown_await settled now i x))) = fst ` set (jr_jobs (fst x))"
    using one by (metis list.set_map)
  with Cons.prems have "set is \<subseteq> fst ` set (jr_jobs (fst (shutdown_await settled now i x)))" by simp
  note rest = Cons.IH [OF this]
  show ?case using one rest Cons.prems by simp
qed simp

text \<open>Property C12. A shutdown ends: afterwards nothing is admitted, every recorded job has ended, whether its producer
  was cancelled, ended in time, failed to cancel or was given up, and no job was dropped on the way.\<close>

theorem shutdown_settles:
  assumes "shutdown_registry hook settled now r = (r', report)"
  shows "map fst (jr_jobs r') = map fst (jr_jobs r) \<and> (\<forall>i\<in>fst ` set (jr_jobs r'). job_terminal r' i) \<and>
    sr_jobs report = length (jr_jobs r) \<and>
    (\<forall>owner kind label limit rv. snd (reserve r' owner kind label limit) \<noteq> Inr rv) \<and>
    (\<forall>rv pid i. snd (commit r' rv pid now) \<noteq> Inr i)"
proof -
  let ?closed = "r\<lparr>jr_accepting := False, jr_reservations := []\<rparr>"
  let ?is = "map fst (jr_jobs ?closed)"
  let ?x = "(?closed, \<lparr>sr_jobs = length ?is, sr_cancellation_failures = 0, sr_timed_out = 0\<rparr>)"
  let ?mid = "fold (shutdown_cancel hook now) ?is ?x"
  have mid: "map fst (jr_jobs (fst ?mid)) = map fst (jr_jobs r)" "\<not> jr_accepting (fst ?mid)"
    using cancel_all_frame [of hook now ?is ?x] by simp_all
  then have "set ?is \<subseteq> fst ` set (jr_jobs (fst ?mid))" by (metis (no_types, lifting) job_registry.select_convs(6)
        job_registry.surjective job_registry.update_convs(2,4) list.set_map order_refl)
  note all = await_all [OF this, of settled now]
  have result: "fold (shutdown_await settled now) ?is ?mid = (r', report)"
    using assms by (simp add: shutdown_registry_def Let_def)
  have keys: "map fst (jr_jobs r') = map fst (jr_jobs r)" and closed: "\<not> jr_accepting r'"
    using all mid unfolding result by simp_all
  then have "fst ` set (jr_jobs r') = fst ` set (jr_jobs r)" by (metis list.set_map)
  then have ended: "\<forall>i\<in>fst ` set (jr_jobs r'). job_terminal r' i" using all unfolding result by simp
  have cancel_report: "sr_jobs (snd (shutdown_cancel hook now i x)) = sr_jobs (snd x)" for i x
    by (cases x) (simp add: shutdown_cancel_def split: sum.split)
  have await_report: "sr_jobs (snd (shutdown_await settled now i x)) = sr_jobs (snd x)" for i x
    by (cases x) (simp add: shutdown_await_def split: option.split)
  have "sr_jobs (snd (fold (shutdown_cancel hook now) is x)) = sr_jobs (snd x)" for "is" x
    by (induction "is" arbitrary: x) (simp_all add: cancel_report)
  moreover have "sr_jobs (snd (fold (shutdown_await settled now) is x)) = sr_jobs (snd x)" for "is" x
    by (induction "is" arbitrary: x) (simp_all add: await_report)
  ultimately have "sr_jobs report = length (jr_jobs r)" using arg_cong [OF result, of "\<lambda>x. sr_jobs (snd x)"] by simp
  with keys ended closed show ?thesis by (simp add: reserve_def commit_def Let_def)
qed

theorem shutdown_settles_witness:
  "job_terminal (fst (shutdown_registry (\<lambda>_. Inl ''gone'') (\<lambda>_. None) 9
      (empty_registry\<lparr>jr_jobs := [(''bash-1'', new_entry \<lparr>rv_token = 1, rv_owner = ''s'', rv_kind = ''bash'',
       rv_label = ''make'', rv_output_limit_bytes = 8\<rparr> None 1)]\<rparr>))) ''bash-1''"
proof -
  let ?r = "empty_registry\<lparr>jr_jobs := [(''bash-1'', new_entry \<lparr>rv_token = 1, rv_owner = ''s'', rv_kind = ''bash'',
       rv_label = ''make'', rv_output_limit_bytes = 8\<rparr> None 1)]\<rparr>"
  have "shutdown_registry (\<lambda>_. Inl ''gone'') (\<lambda>_. None) 9 ?r =
      (fst (shutdown_registry (\<lambda>_. Inl ''gone'') (\<lambda>_. None) 9 ?r), snd (shutdown_registry (\<lambda>_. Inl ''gone'') (\<lambda>_. None) 9 ?r))"
    by simp
  note ends = shutdown_settles [OF this]
  have "set (map fst (jr_jobs (fst (shutdown_registry (\<lambda>_. Inl ''gone'') (\<lambda>_. None) 9 ?r)))) = {''bash-1''}"
    unfolding conjunct1 [OF ends] by simp
  then have "''bash-1'' \<in> fst ` set (jr_jobs (fst (shutdown_registry (\<lambda>_. Inl ''gone'') (\<lambda>_. None) 9 ?r)))"
    by (simp only: set_map singletonI)
  with conjunct1 [OF conjunct2 [OF ends]] show ?thesis by (rule bspec)
qed

subsection \<open>Output is read back whole\<close>

lemma utf8_width_take: "utf8_width v \<noteq> 0 \<Longrightarrow> utf8_width (take (utf8_width v) v) = utf8_width v"
  by (cases v) (auto simp: continued_def hd_take split: option.splits if_splits)

lemma utf8_valid_char: "utf8_width v \<noteq> 0 \<Longrightarrow> utf8_valid (take (utf8_width v) v)"
  by (subst utf8_valid.simps) (simp add: utf8_width_take)

text \<open>The start of a text ends with a first byte and some of the bytes that continue it.\<close>

lemma text_start:
  "utf8_valid (bytes @ rest) \<Longrightarrow> bytes \<noteq> [] \<Longrightarrow>
     \<exists>xs a cs n low high. bytes = xs @ a # cs \<and> utf8_valid xs \<and> lead_byte (byte a) = Some (n, low, high) \<and>
       list_all continuation cs \<and> length cs \<le> n \<and> (length cs = n \<longrightarrow> utf8_valid (a # cs))"
proof (induction "length bytes" arbitrary: bytes rule: less_induct)
  case less
  let ?v = "bytes @ rest"
  let ?w = "utf8_width ?v"
  have w: "?w \<noteq> 0" and tail: "utf8_valid (drop ?w ?v)"
    using less.prems by (simp_all add: utf8_valid.simps [of ?v] split: if_splits)
  show ?case
  proof (cases "?w < length bytes")
    case True
    let ?bytes = "drop ?w bytes"
    have "utf8_valid (?bytes @ rest)" "?bytes \<noteq> []" "length ?bytes < length bytes" using tail True w by simp_all
    from less.hyps [OF this(3,1,2)] obtain xs a cs n low high where
      IH: "?bytes = xs @ a # cs" "utf8_valid xs" "lead_byte (byte a) = Some (n, low, high)"
        "list_all continuation cs" "length cs \<le> n" "length cs = n \<longrightarrow> utf8_valid (a # cs)" by blast
    have "utf8_valid (take ?w bytes)" using utf8_valid_char [OF w] True by simp
    with IH(2) have "utf8_valid (take ?w bytes @ xs)" by (simp add: utf8_valid_append)
    moreover have "bytes = (take ?w bytes @ xs) @ a # cs" using IH(1) by (metis append.assoc append_take_drop_id)
    ultimately show ?thesis using IH by blast
  next
    case False
    obtain a cs where bytes: "bytes = a # cs" using less.prems(2) by (cases bytes) auto
    with w obtain n low high where lead: "lead_byte (byte a) = Some (n, low, high)" "continued n low high (cs @ rest)" "?w = Suc n"
      by (auto split: option.splits if_splits)
    have len: "length cs \<le> n" using False bytes lead(3) by simp
    have "list_all continuation cs"
      using lead(2) len by (auto simp: continued_def list_all_iff)
    moreover have "utf8_valid (a # cs)" if "length cs = n"
      using utf8_valid_char [OF w] lead(3) that bytes by simp
    ultimately show ?thesis using bytes lead(1) len by (intro exI [of _ "[]"]) auto
  qed
qed

lemma continuation_start_run:
  "list_all continuation cs \<Longrightarrow> \<not> continuation a \<Longrightarrow> k \<le> length cs \<Longrightarrow>
     continuation_start (xs @ a # cs) (Suc (length xs + k)) = Suc (length xs)"
  by (induction k) (auto simp: nth_append list_all_length)

lemma lead_byte_width:
  "lead_byte (byte a) = Some (n, low, high) \<Longrightarrow> lead_width a = Some (Suc n) \<and> \<not> continuation a"
  by (auto simp: lead_byte_def lead_width_def continuation_def Let_def split: if_splits)

lemma tail_start:
  assumes "lead_byte (byte a) = Some (n, low, high)" and "list_all continuation cs"
  shows "incomplete_utf8_tail_start (xs @ a # cs) = (if length cs < n then Some (length xs) else None)"
proof -
  note a = lead_byte_width [OF assms(1)]
  have "continuation_start (xs @ a # cs) (length (xs @ a # cs)) = Suc (length xs)"
    using continuation_start_run [OF assms(2) conjunct2 [OF a], of "length cs" xs] by simp
  with a show ?thesis by (simp add: incomplete_utf8_tail_start_def Let_def nth_append)
qed

lemma from_utf8_lossy_valid: "utf8_valid s \<Longrightarrow> from_utf8_lossy s = s"
proof (induction s rule: from_utf8_lossy.induct)
  case (1 s)
  show ?case
  proof (cases "s = []")
    case False
    with "1.prems" have "utf8_width s \<noteq> 0" "utf8_valid (drop (utf8_width s) s)"
      by (simp_all add: utf8_valid.simps [of s] split: if_splits)
    with "1.IH" False show ?thesis by (subst from_utf8_lossy.simps) simp
  qed (simp add: from_utf8_lossy.simps)
qed

lemma take_output_text:
  assumes "utf8_valid (ob_bytes b @ rest)" and "take_output b = (b', txt, truncated)"
  shows "txt @ ob_bytes b' = ob_bytes b" "utf8_valid txt" "utf8_valid (ob_bytes b' @ rest)" "length (ob_bytes b') < 4"
    "truncated \<longleftrightarrow> ob_dropped b > 0" "ob_dropped b' = 0" "ob_limit b' = ob_limit b"
proof -
  let ?k = "case incomplete_utf8_tail_start (ob_bytes b) of Some n \<Rightarrow> n | None \<Rightarrow> length (ob_bytes b)"
  have k: "utf8_valid (take ?k (ob_bytes b)) \<and> length (ob_bytes b) - ?k < 4"
  proof (cases "ob_bytes b = []")
    case True
    then show ?thesis by (simp add: incomplete_utf8_tail_start_def)
  next
    case False
    from text_start [OF assms(1) this] obtain xs a cs n low high where
      parts: "ob_bytes b = xs @ a # cs" "utf8_valid xs" "lead_byte (byte a) = Some (n, low, high)"
        "list_all continuation cs" "length cs \<le> n" "length cs = n \<longrightarrow> utf8_valid (a # cs)" by blast
    have "n < 4" using parts(3) by (auto simp: lead_byte_def split: if_splits)
    with parts show ?thesis
      unfolding parts(1) tail_start [OF parts(3,4)] by (auto simp: utf8_valid_append)
  qed
  have b': "ob_bytes b' = drop ?k (ob_bytes b)" "ob_dropped b' = 0" "ob_limit b' = ob_limit b"
    "txt = from_utf8_lossy (take ?k (ob_bytes b))" "truncated \<longleftrightarrow> ob_dropped b > 0"
    using assms(2) by (auto simp: take_output_def Let_def)
  then have piece: "txt = take ?k (ob_bytes b)" using k by (simp add: from_utf8_lossy_valid)
  then show "txt @ ob_bytes b' = ob_bytes b" "utf8_valid txt" "length (ob_bytes b') < 4" using b' k by simp_all
  have "utf8_valid (txt @ ob_bytes b' @ rest)" using assms(1) piece b'(1) by (simp flip: append.assoc)
  with \<open>utf8_valid txt\<close> show "utf8_valid (ob_bytes b' @ rest)" by (simp add: utf8_valid_append)
  show "truncated \<longleftrightarrow> ob_dropped b > 0" "ob_dropped b' = 0" "ob_limit b' = ob_limit b" using b' by simp_all
qed

text \<open>Appends (\<open>Some\<close> chunk) and reads (\<open>None\<close>) in any order: what was read, and whether a read reported a loss.\<close>

fun play_output :: "output_buffer \<Rightarrow> string option list \<Rightarrow> output_buffer \<times> string list \<times> bool" where
  "play_output b [] = (b, [], False)"
| "play_output b (Some chunk # acts) = play_output (append_output b chunk) acts"
| "play_output b (None # acts) =
     (case take_output b of
        (b', txt, truncated) \<Rightarrow>
          (case play_output b' acts of (b'', txts, lost) \<Rightarrow> (b'', txt # txts, truncated \<or> lost)))"

definition published_bytes :: "string option list \<Rightarrow> string" where
  "published_bytes acts = concat (filter_map id acts)"

lemma append_output_lossless:
  "ob_dropped (append_output b chunk) = 0 \<Longrightarrow> length (ob_bytes b @ chunk) < 2 ^ 64 \<Longrightarrow>
     ob_dropped b = 0 \<and> ob_bytes (append_output b chunk) = ob_bytes b @ chunk"
proof -
  assume none: "ob_dropped (append_output b chunk) = 0" and len: "length (ob_bytes b @ chunk) < 2 ^ 64"
  have "\<not> length (ob_bytes b @ chunk) > ob_limit b"
  proof
    assume over: "length (ob_bytes b @ chunk) > ob_limit b"
    let ?n = "length (ob_bytes b @ chunk) - ob_limit b"
    have "unat (of_nat ?n :: u64) = ?n"
      using len by (simp add: unat_of_nat take_bit_nat_eq_self)
    then have "0 < unat (saturating_add (ob_dropped b) (of_nat ?n))"
      using over by (simp add: unat_saturating_add)
    with none over show False by (simp add: append_output_def Let_def)
  qed
  with none show ?thesis by (simp add: append_output_def Let_def)
qed

lemma append_output_dropped: "ob_dropped (append_output b chunk) = 0 \<Longrightarrow> ob_dropped b = 0"
proof -
  assume none: "ob_dropped (append_output b chunk) = 0"
  have "unat (ob_dropped b) < 2 ^ 64" using unsigned_less [of "ob_dropped b"] by simp
  then have "unat (ob_dropped b) \<le> unat (saturating_add (ob_dropped b) n)" for n
    by (simp add: unat_saturating_add)
  from this [of "of_nat (length (ob_bytes b @ chunk) - ob_limit b)"] none show ?thesis
    by (auto simp: append_output_def Let_def unat_eq_0 split: if_splits)
qed

lemma play_output_lossless:
  "play_output b acts = (b', txts, False) \<Longrightarrow> ob_dropped b' = 0 \<Longrightarrow> ob_dropped b = 0"
proof (induction b acts arbitrary: b' txts rule: play_output.induct)
  case (2 b chunk acts)
  then show ?case by (auto dest: append_output_dropped)
next
  case (3 b acts)
  then show ?case by (auto simp: take_output_def Let_def word_gt_0 split: prod.splits)
qed simp

lemma play_output_text:
  "play_output b acts = (b', txts, False) \<Longrightarrow> ob_dropped b' = 0 \<Longrightarrow>
     utf8_valid (ob_bytes b @ published_bytes acts @ rest) \<Longrightarrow> length (ob_bytes b @ published_bytes acts) < 2 ^ 64 \<Longrightarrow>
     concat txts @ ob_bytes b' = ob_bytes b @ published_bytes acts \<and> (\<forall>t\<in>set txts. utf8_valid t)"
proof (induction b acts arbitrary: b' txts rule: play_output.induct)
  case (2 b chunk acts)
  have published: "published_bytes (Some chunk # acts) = chunk @ published_bytes acts"
    by (simp add: published_bytes_def List.map_filter_simps)
  from 2(2,3) have "ob_dropped (append_output b chunk) = 0" by (auto dest: play_output_lossless)
  with 2(5) have "ob_bytes (append_output b chunk) = ob_bytes b @ chunk"
    by (intro conjunct2 [OF append_output_lossless]) (simp_all add: published)
  with 2 show ?case by (simp add: published)
next
  case (3 b acts)
  have published: "published_bytes (None # acts) = published_bytes acts"
    by (simp add: published_bytes_def List.map_filter_simps)
  obtain b1 t trunc where taken: "take_output b = (b1, t, trunc)" by (cases "take_output b")
  obtain b2 ts lost where rest: "play_output b1 acts = (b2, ts, lost)" by (cases "play_output b1 acts")
  from 3(2) taken rest have eq: "b2 = b'" "txts = t # ts" "\<not> trunc" "\<not> lost" by auto
  note pieces = take_output_text [OF 3(4) [unfolded published] taken]
  have split: "t @ ob_bytes b1 = ob_bytes b" by (rule pieces(1))
  have "concat ts @ ob_bytes b' = ob_bytes b1 @ published_bytes acts \<and> (\<forall>t\<in>set ts. utf8_valid t)"
  proof (rule 3(1) [OF taken [symmetric] refl])
    show "play_output b1 acts = (b', ts, False)" using rest eq by simp
    show "utf8_valid (ob_bytes b1 @ published_bytes acts @ rest)" by (rule pieces(3))
    show "length (ob_bytes b1 @ published_bytes acts) < 2 ^ 64" using 3(5) published arg_cong [OF split, of length] by simp
  qed (rule 3(3))
  with split pieces(2) eq(2) published show ?case by (metis append.assoc concat.simps(2) list.set_intros set_ConsD)
qed (simp add: published_bytes_def List.map_filter_simps)

text \<open>Output is read back whole: as long as no read reports a loss, the pieces read so far and the bytes not
  yet read are exactly what the producer published, and every piece is text although the producer may cut
  its output anywhere, in the middle of a character as well.\<close>

theorem output_read_back:
  assumes "play_output (new_buffer limit) acts = (b', txts, False)" and "ob_dropped b' = 0"
    and "utf8_valid (published_bytes acts @ rest)" and "length (published_bytes acts) < 2 ^ 64"
  shows "concat txts @ ob_bytes b' = published_bytes acts \<and> (\<forall>t\<in>set txts. utf8_valid t)"
  using play_output_text [OF assms(1,2), of rest] assms(3,4) by (simp add: new_buffer_def)

theorem output_read_back_witness:
  "\<exists>b' txts. play_output (new_buffer 8) [Some [CHR ''a'', char_of (195::nat)], None, Some [char_of (169::nat)], None] = (b', txts, False) \<and>
     concat txts @ ob_bytes b' = [CHR ''a'', char_of (195::nat), char_of (169::nat)]"
proof -
  let ?acts = "[Some [CHR ''a'', char_of (195::nat)], None, Some [char_of (169::nat)], None]"
  have run: "play_output (new_buffer 8) ?acts =
      (\<lparr>ob_bytes = [], ob_dropped = 0, ob_limit = 8\<rparr>, [''a'', [char_of (195::nat), char_of (169::nat)]], False)"
    by code_simp
  have "utf8_valid (published_bytes ?acts @ [])" "length (published_bytes ?acts) < 2 ^ 64"
    by (simp_all add: published_bytes_def List.map_filter_simps utf8_valid.simps lead_byte_def continued_def continuation_def)
  from output_read_back [OF run _ this] run show ?thesis
    by (simp add: published_bytes_def List.map_filter_simps)
qed

end
