(* ===== verification/Lifecycle.thy ===== *)
theory Lifecycle
  imports Inbox
begin

text \<open>
  Agents that are alive (xharness-agent/src/lifecycle.rs, lease.rs, activation.rs, delegation.rs): the phases
  of one agent and the turn and step numbers it hands out, the leases that make its owner unique, the
  registry of live activations, and the operations one agent may ask of another.

  The registry holds weak references.  An activation is \<open>held\<close> as long as some \<open>Arc\<close> of it is left; when
  the last one goes, \<open>upgrade\<close> fails at once, while the lease is given back only when the fields are
  dropped, which is a step of its own.  The mutex of the registry makes \<open>activate\<close> one step; the sessions
  may move between its calls of the store.
\<close>

subsection \<open>Phases\<close>

datatype agent_status = StatusIdle | StatusRunning

datatype agent_phase = PhaseIdle | PhaseMaintenance | PhaseRunning u32 u32

fun phase_status :: "agent_phase \<Rightarrow> agent_status" where
  "phase_status PhaseIdle = StatusIdle"
| "phase_status PhaseMaintenance = StatusIdle"
| "phase_status (PhaseRunning _ _) = StatusRunning"

record agent_lifecycle =
  al_phase :: agent_phase
  al_last_turn :: u32

datatype agent_lifecycle_error = AlreadyActive | NotRunning | CounterOverflow

definition new_lifecycle :: "u32 \<Rightarrow> agent_lifecycle" where
  "new_lifecycle last_turn = \<lparr>al_phase = PhaseIdle, al_last_turn = last_turn\<rparr>"

definition reserve_driver :: "agent_lifecycle \<Rightarrow> agent_lifecycle \<times> (agent_lifecycle_error + unit)" where
  "reserve_driver l =
     (if al_phase l \<noteq> PhaseIdle then (l, Inl AlreadyActive)
      else (l\<lparr>al_phase := PhaseRunning (al_last_turn l) 0\<rparr>, Inr ()))"

definition open_turn :: "agent_lifecycle \<Rightarrow> agent_lifecycle \<times> (agent_lifecycle_error + u32)" where
  "open_turn l =
     (case al_phase l of
        PhaseRunning turn _ \<Rightarrow>
          (case checked_add turn 1 of
             None \<Rightarrow> (l, Inl CounterOverflow)
           | Some n \<Rightarrow> (l\<lparr>al_phase := PhaseRunning n 0, al_last_turn := n\<rparr>, Inr n))
      | _ \<Rightarrow> (l, Inl NotRunning))"

definition open_step :: "agent_lifecycle \<Rightarrow> agent_lifecycle \<times> (agent_lifecycle_error + u32 \<times> u32)" where
  "open_step l =
     (case al_phase l of
        PhaseRunning turn step \<Rightarrow>
          (case checked_add step 1 of
             None \<Rightarrow> (l, Inl CounterOverflow)
           | Some n \<Rightarrow> (l\<lparr>al_phase := PhaseRunning turn n\<rparr>, Inr (turn, n)))
      | _ \<Rightarrow> (l, Inl NotRunning))"

definition finish_driver :: "agent_lifecycle \<Rightarrow> agent_lifecycle \<times> (agent_lifecycle_error + unit)" where
  "finish_driver l =
     (case al_phase l of
        PhaseRunning _ _ \<Rightarrow> (l\<lparr>al_phase := PhaseIdle\<rparr>, Inr ())
      | _ \<Rightarrow> (l, Inl NotRunning))"

definition reserve_maintenance :: "agent_lifecycle \<Rightarrow> agent_lifecycle \<times> (agent_lifecycle_error + unit)" where
  "reserve_maintenance l =
     (if al_phase l \<noteq> PhaseIdle then (l, Inl AlreadyActive) else (l\<lparr>al_phase := PhaseMaintenance\<rparr>, Inr ()))"

definition finish_maintenance :: "agent_lifecycle \<Rightarrow> agent_lifecycle \<times> (agent_lifecycle_error + unit)" where
  "finish_maintenance l =
     (if al_phase l \<noteq> PhaseMaintenance then (l, Inl AlreadyActive) else (l\<lparr>al_phase := PhaseIdle\<rparr>, Inr ()))"

subsection \<open>What a lifecycle grants\<close>

datatype lifecycle_op =
    ReserveDriver | OpenTurn | OpenStep | FinishDriver | ReserveMaintenance | FinishMaintenance

datatype grant = DriverReserved | TurnOpened u32 | StepOpened u32 u32 | DriverFinished
  | MaintenanceReserved | MaintenanceFinished

definition granted :: "('a \<Rightarrow> grant) \<Rightarrow> agent_lifecycle \<times> ('e + 'a) \<Rightarrow> agent_lifecycle \<times> grant list" where
  "granted g r = (fst r, (case snd r of Inl _ \<Rightarrow> [] | Inr a \<Rightarrow> [g a]))"

fun apply_op :: "lifecycle_op \<Rightarrow> agent_lifecycle \<Rightarrow> agent_lifecycle \<times> grant list" where
  "apply_op ReserveDriver l = granted (\<lambda>_. DriverReserved) (reserve_driver l)"
| "apply_op OpenTurn l = granted TurnOpened (open_turn l)"
| "apply_op OpenStep l = granted (\<lambda>(t, k). StepOpened t k) (open_step l)"
| "apply_op FinishDriver l = granted (\<lambda>_. DriverFinished) (finish_driver l)"
| "apply_op ReserveMaintenance l = granted (\<lambda>_. MaintenanceReserved) (reserve_maintenance l)"
| "apply_op FinishMaintenance l = granted (\<lambda>_. MaintenanceFinished) (finish_maintenance l)"

fun apply_ops :: "lifecycle_op list \<Rightarrow> agent_lifecycle \<Rightarrow> agent_lifecycle \<times> grant list" where
  "apply_ops [] l = (l, [])"
| "apply_ops (x # xs) l =
     (case apply_op x l of (l1, gs) \<Rightarrow> (case apply_ops xs l1 of (l2, gs') \<Rightarrow> (l2, gs @ gs')))"

text \<open>The rules of a sequence of grants, read from a phase and the last turn that was opened.\<close>

fun regular :: "agent_phase \<Rightarrow> nat \<Rightarrow> grant list \<Rightarrow> bool" where
  "regular p n [] \<longleftrightarrow> True"
| "regular p n (DriverReserved # gs) \<longleftrightarrow> p = PhaseIdle \<and> regular (PhaseRunning (of_nat n) 0) n gs"
| "regular p n (TurnOpened t # gs) \<longleftrightarrow>
     phase_status p = StatusRunning \<and> unat t = Suc n \<and> regular (PhaseRunning t 0) (Suc n) gs"
| "regular p n (StepOpened t k # gs) \<longleftrightarrow>
     (case p of PhaseRunning u j \<Rightarrow> u = t \<and> unat t = n \<and> unat k = Suc (unat j) \<and> regular (PhaseRunning t k) n gs
      | _ \<Rightarrow> False)"
| "regular p n (DriverFinished # gs) \<longleftrightarrow> phase_status p = StatusRunning \<and> regular PhaseIdle n gs"
| "regular p n (MaintenanceReserved # gs) \<longleftrightarrow> p = PhaseIdle \<and> regular PhaseMaintenance n gs"
| "regular p n (MaintenanceFinished # gs) \<longleftrightarrow> p = PhaseMaintenance \<and> regular PhaseIdle n gs"

definition lifecycle_ok :: "agent_lifecycle \<Rightarrow> bool" where
  "lifecycle_ok l \<longleftrightarrow> (\<forall>t k. al_phase l = PhaseRunning t k \<longrightarrow> t = al_last_turn l)"

lemmas lifecycle_defs =
  reserve_driver_def open_turn_def open_step_def finish_driver_def reserve_maintenance_def finish_maintenance_def
  granted_def

lemma apply_op_ok: "lifecycle_ok l \<Longrightarrow> lifecycle_ok (fst (apply_op x l))"
  by (cases x) (auto simp: lifecycle_defs lifecycle_ok_def split: agent_phase.splits option.splits)

lemma apply_op_regular:
  assumes "lifecycle_ok l" and "apply_op x l = (l1, gs)"
    and "regular (al_phase l1) (unat (al_last_turn l1)) gs'"
  shows "regular (al_phase l) (unat (al_last_turn l)) (gs @ gs')"
  using assms
  by (cases x)
    (auto simp: lifecycle_defs lifecycle_ok_def split: agent_phase.splits option.splits if_splits
      dest!: checked_add_unat)

lemma apply_ops_regular:
  "lifecycle_ok l \<Longrightarrow> regular (al_phase l) (unat (al_last_turn l)) (snd (apply_ops xs l))"
proof (induction xs arbitrary: l)
  case (Cons x xs)
  obtain l1 gs where x: "apply_op x l = (l1, gs)" by fastforce
  with apply_op_ok [OF Cons.prems, of x] have "lifecycle_ok l1" by simp
  from Cons.IH [OF this] have "regular (al_phase l) (unat (al_last_turn l)) (gs @ snd (apply_ops xs l1))"
    by (rule apply_op_regular [OF Cons.prems x])
  with x show ?case by (simp add: split_beta)
qed simp

fun turn_of_grant :: "grant \<Rightarrow> u32 option" where
  "turn_of_grant (TurnOpened t) = Some t" | "turn_of_grant _ = None"

fun is_step :: "grant \<Rightarrow> bool" where
  "is_step (StepOpened _ _) = True" | "is_step _ = False"

lemma regular_turns:
  "regular p n gs \<Longrightarrow> map unat (filter_map turn_of_grant gs) =
     [Suc n ..< Suc n + length (filter_map turn_of_grant gs)]"
proof (induction p n gs rule: regular.induct)
  case (3 p n t gs)
  then show ?case by (simp add: upt_conv_Cons del: upt_Suc)
qed (auto split: agent_phase.splits)

lemma regular_append: "regular p n (xs @ ys) \<Longrightarrow> \<exists>q m. regular q m ys"
proof (induction p n xs rule: regular.induct)
  case (4 p n t k gs)
  then show ?case by (auto split: agent_phase.splits)
qed auto

lemma regular_steps:
  "regular (PhaseRunning t k) n gs \<Longrightarrow>
     map (\<lambda>g. case g of StepOpened u j \<Rightarrow> (u, unat j) | _ \<Rightarrow> (0, 0)) (takeWhile is_step gs) =
       map (\<lambda>j. (t, j)) [Suc (unat k) ..< Suc (unat k) + length (takeWhile is_step gs)]"
proof (induction gs arbitrary: k)
  case (Cons g gs)
  show ?case
  proof (cases g)
    case (StepOpened u j)
    with Cons.prems have u: "u = t" "unat j = Suc (unat k)" "regular (PhaseRunning t j) n gs" by auto
    from Cons.IH [OF u(3)] u StepOpened show ?thesis by (simp add: upt_conv_Cons del: upt_Suc)
  qed (use Cons.prems in simp_all)
qed simp

text \<open>Whatever is asked of a lifecycle and in whatever order, it hands out each turn number once and
  in order, without wrapping; the steps of a turn that follow its opening are numbered 1, 2, 3 and so
  on; and a driver and maintenance are never reserved together.\<close>

theorem lifecycle_numbering:
  assumes "apply_ops xs (new_lifecycle n) = (l, gs)"
  shows "map unat (filter_map turn_of_grant gs) = [Suc (unat n) ..< Suc (unat n) + length (filter_map turn_of_grant gs)] \<and>
    (\<forall>a t b. gs = a @ TurnOpened t # b \<longrightarrow>
       map (\<lambda>g. case g of StepOpened u j \<Rightarrow> (u, unat j) | _ \<Rightarrow> (0, 0)) (takeWhile is_step b) =
         map (\<lambda>j. (t, j)) [1 ..< Suc (length (takeWhile is_step b))]) \<and>
    regular PhaseIdle (unat n) gs"
proof -
  have "lifecycle_ok (new_lifecycle n)" by (simp add: lifecycle_ok_def new_lifecycle_def)
  from apply_ops_regular [OF this, of xs] have reg: "regular PhaseIdle (unat n) gs"
    using assms by (simp add: new_lifecycle_def)
  moreover have "map (\<lambda>g. case g of StepOpened u j \<Rightarrow> (u, unat j) | _ \<Rightarrow> (0, 0)) (takeWhile is_step b) =
      map (\<lambda>j. (t, j)) [1 ..< Suc (length (takeWhile is_step b))]" if "gs = a @ TurnOpened t # b" for a t b
  proof -
    have "regular PhaseIdle (unat n) (a @ TurnOpened t # b)" using reg that by simp
    then obtain q m where "regular q m (TurnOpened t # b)" using regular_append by blast
    then have "regular (PhaseRunning t 0) (Suc m) b" by simp
    from regular_steps [OF this] show ?thesis by simp
  qed
  ultimately show ?thesis using regular_turns [OF reg] by blast
qed

theorem lifecycle_numbering_witness:
  "map unat (filter_map turn_of_grant (snd (apply_ops
     [ReserveMaintenance, ReserveDriver, FinishMaintenance, ReserveDriver, OpenTurn, OpenStep, OpenStep, OpenTurn,
      FinishDriver, OpenTurn] (new_lifecycle 4)))) = [5, 6]"
proof -
  let ?xs = "[ReserveMaintenance, ReserveDriver, FinishMaintenance, ReserveDriver, OpenTurn, OpenStep, OpenStep, OpenTurn,
      FinishDriver, OpenTurn]"
  let ?r = "apply_ops ?xs (new_lifecycle 4)"
  have "length (filter_map turn_of_grant (snd ?r)) = 2" by (simp add: new_lifecycle_def lifecycle_defs checked_add_def)
  moreover have "[Suc (unat (4 :: u32)) ..< Suc (unat (4 :: u32)) + 2] = [5, 6]" by (simp add: upt_rec)
  moreover have "map unat (filter_map turn_of_grant (snd ?r)) =
      [Suc (unat (4 :: u32)) ..< Suc (unat (4 :: u32)) + length (filter_map turn_of_grant (snd ?r))]"
    using lifecycle_numbering [of ?xs 4 "fst ?r" "snd ?r"] unfolding prod.collapse by blast
  ultimately show ?thesis by (simp only:)
qed

subsection \<open>Leases\<close>

datatype lease_error = AlreadyOwned string | InvalidAgentId string

definition validate_agent_id :: "string \<Rightarrow> lease_error + unit" where
  "validate_agent_id agent_id =
     (let valid = agent_id \<noteq> [] \<and> length agent_id \<le> 200 \<and> take 1 agent_id \<noteq> ''.'' \<and>
        list_all (\<lambda>b. is_ascii_alphanumeric b \<or> b = CHR ''-'' \<or> b = CHR ''_'' \<or> b = CHR ''.'') agent_id in
      if valid then Inr () else Inl (InvalidAgentId agent_id))"

definition acquire_lease :: "string set \<Rightarrow> string \<Rightarrow> string set \<times> (lease_error + unit)" where
  "acquire_lease owned agent_id =
     (case validate_agent_id agent_id of
        Inl e \<Rightarrow> (owned, Inl e)
      | Inr _ \<Rightarrow> if agent_id \<in> owned then (owned, Inl (AlreadyOwned agent_id)) else (insert agent_id owned, Inr ()))"

definition drop_lease :: "string set \<Rightarrow> string \<Rightarrow> string set" where
  "drop_lease owned agent_id = owned - {agent_id}"

subsection \<open>The registry of activations\<close>

record agent_activation =
  aa_id :: string
  aa_lifecycle :: agent_lifecycle
  aa_cancelled :: bool
  aa_held :: bool

record 'st agents =
  ag_store :: 'st
  ag_leases :: "string set"
  ag_activations :: "string \<rightharpoonup> nat"
  ag_heap :: "nat \<rightharpoonup> agent_activation"
  ag_next :: nat

datatype activate_error = ActivateLease lease_error | ActivateInbox inbox_error

definition upgrade :: "'st agents \<Rightarrow> nat \<Rightarrow> nat option" where
  "upgrade g n = (case ag_heap g n of None \<Rightarrow> None | Some a \<Rightarrow> if aa_held a then Some n else None)"

definition get_agent :: "'st agents \<Rightarrow> string \<Rightarrow> nat option" where
  "get_agent g i = (case ag_activations g i of None \<Rightarrow> None | Some n \<Rightarrow> upgrade g n)"

definition retain_held :: "'st agents \<Rightarrow> 'st agents" where
  "retain_held g = g\<lparr>ag_activations := (\<lambda>i. case ag_activations g i of None \<Rightarrow> None | Some n \<Rightarrow> upgrade g n)\<rparr>"

definition last_turn_start :: "session \<Rightarrow> u32 option" where
  "last_turn_start s = (case rev (turn_starts (se_events s)) of [] \<Rightarrow> None | t # _ \<Rightarrow> Some t)"

definition activation_of :: "string \<Rightarrow> session \<Rightarrow> agent_activation" where
  "activation_of i s =
     \<lparr>aa_id = i, aa_lifecycle = new_lifecycle (case last_turn_start s of Some t \<Rightarrow> t | None \<Rightarrow> 0),
      aa_cancelled = False, aa_held = True\<rparr>"

definition activate ::
  "'st store_ops \<Rightarrow> session_header \<Rightarrow> (nat \<Rightarrow> 'st \<Rightarrow> 'st) \<Rightarrow> 'st agents \<Rightarrow> 'st agents \<times> (activate_error + nat)" where
  "activate ops header env g =
     (let i = sh_id header in
      case get_agent g i of
        Some n \<Rightarrow> (g, Inr n)
      | None \<Rightarrow>
          (let g1 = retain_held g in
           case acquire_lease (ag_leases g1) i of
             (_, Inl e) \<Rightarrow> (g1, Inl (ActivateLease e))
           | (leased, Inr _) \<Rightarrow>
               (case inbox_open ops header (env 0) (ag_store g1) of
                  (st, Inl e) \<Rightarrow> (g1\<lparr>ag_store := st, ag_leases := drop_lease leased i\<rparr>, Inl (ActivateInbox e))
                | (st, Inr _) \<Rightarrow>
                    (let st1 = env 1 st in
                     case inbox_load ops i st1 of
                       Inl e \<Rightarrow> (g1\<lparr>ag_store := st1, ag_leases := drop_lease leased i\<rparr>, Inl (ActivateInbox e))
                     | Inr s \<Rightarrow>
                         (g1\<lparr>ag_store := st1, ag_leases := leased,
                             ag_heap := (ag_heap g1)(ag_next g1 \<mapsto> activation_of i s),
                             ag_activations := (ag_activations g1)(i \<mapsto> ag_next g1),
                             ag_next := Suc (ag_next g1)\<rparr>, Inr (ag_next g1))))))"

text \<open>The last \<open>Arc\<close> of an activation goes, and its destructor runs to the end: cancelled, then the lease.\<close>

definition drop_last :: "'st agents \<Rightarrow> nat \<Rightarrow> 'st agents" where
  "drop_last g n =
     (case ag_heap g n of None \<Rightarrow> g
      | Some a \<Rightarrow> g\<lparr>ag_heap := (ag_heap g)(n \<mapsto> a\<lparr>aa_held := False, aa_cancelled := True\<rparr>)\<rparr>)"

definition drop_fields :: "'st agents \<Rightarrow> nat \<Rightarrow> 'st agents" where
  "drop_fields g n =
     (case ag_heap g n of None \<Rightarrow> g
      | Some a \<Rightarrow> if aa_held a then g
          else g\<lparr>ag_heap := (ag_heap g)(n := None), ag_leases := drop_lease (ag_leases g) (aa_id a)\<rparr>)"

definition on_lifecycle :: "lifecycle_op \<Rightarrow> nat \<Rightarrow> 'st agents \<Rightarrow> 'st agents" where
  "on_lifecycle x n g =
     (case ag_heap g n of None \<Rightarrow> g
      | Some a \<Rightarrow> g\<lparr>ag_heap := (ag_heap g)(n \<mapsto> a\<lparr>aa_lifecycle := fst (apply_op x (aa_lifecycle a))\<rparr>)\<rparr>)"

definition cancel_activation :: "nat \<Rightarrow> 'st agents \<Rightarrow> 'st agents" where
  "cancel_activation n g =
     (case ag_heap g n of None \<Rightarrow> g | Some a \<Rightarrow> g\<lparr>ag_heap := (ag_heap g)(n \<mapsto> a\<lparr>aa_cancelled := True\<rparr>)\<rparr>)"

inductive agents_step :: "'st store_ops \<Rightarrow> 'st agents \<Rightarrow> 'st agents \<Rightarrow> bool" for ops where
  activates: "\<lbrakk>\<And>k st. store_run ops st (env k st)\<rbrakk> \<Longrightarrow> agents_step ops g (fst (activate ops header env g))"
| last_dropped: "agents_step ops g (drop_last g n)"
| fields_dropped: "agents_step ops g (drop_fields g n)"
| works: "agents_step ops g (on_lifecycle x n g)"
| cancelled: "agents_step ops g (cancel_activation n g)"
| stored: "store_run ops (ag_store g) st \<Longrightarrow> agents_step ops g (g\<lparr>ag_store := st\<rparr>)"

definition no_agents :: "'st \<Rightarrow> 'st agents" where
  "no_agents st = \<lparr>ag_store = st, ag_leases = {}, ag_activations = Map.empty, ag_heap = Map.empty, ag_next = 0\<rparr>"

subsection \<open>One activation per agent\<close>

definition agents_inv :: "'st agents \<Rightarrow> bool" where
  "agents_inv g \<longleftrightarrow>
     (\<forall>n m a b. ag_heap g n = Some a \<and> ag_heap g m = Some b \<and> aa_id a = aa_id b \<longrightarrow> n = m) \<and>
     (\<forall>i. i \<in> ag_leases g \<longleftrightarrow> (\<exists>n a. ag_heap g n = Some a \<and> aa_id a = i)) \<and>
     (\<forall>n a. ag_heap g n = Some a \<longrightarrow> n < ag_next g \<and> lifecycle_ok (aa_lifecycle a) \<and>
        (aa_held a \<longrightarrow> ag_activations g (aa_id a) = Some n)) \<and>
     (\<forall>i n. ag_activations g i = Some n \<longrightarrow> n < ag_next g \<and> (\<forall>a. ag_heap g n = Some a \<longrightarrow> aa_id a = i))"

lemma agents_invD:
  assumes "agents_inv g"
  shows "ag_heap g n = Some a \<Longrightarrow> ag_heap g m = Some b \<Longrightarrow> aa_id a = aa_id b \<Longrightarrow> n = m"
    and "i \<in> ag_leases g \<longleftrightarrow> (\<exists>n a. ag_heap g n = Some a \<and> aa_id a = i)"
    and "ag_heap g n = Some a \<Longrightarrow> n < ag_next g \<and> lifecycle_ok (aa_lifecycle a)"
    and "ag_heap g n = Some a \<Longrightarrow> aa_held a \<Longrightarrow> ag_activations g (aa_id a) = Some n"
    and "ag_activations g i = Some n \<Longrightarrow> n < ag_next g"
    and "ag_activations g i = Some n \<Longrightarrow> ag_heap g n = Some a \<Longrightarrow> aa_id a = i"
  using assms unfolding agents_inv_def by blast+

lemma retain_frame [simp]:
  "(retain_held g)\<lparr>ag_store := ag_store g\<rparr> = retain_held g"
  "(retain_held g)\<lparr>ag_store := st, ag_leases := ag_leases g\<rparr> = (retain_held g)\<lparr>ag_store := st\<rparr>"
  by (cases g; simp add: retain_held_def)+

lemma agents_invI:
  assumes "\<And>n m a b. ag_heap g n = Some a \<Longrightarrow> ag_heap g m = Some b \<Longrightarrow> aa_id a = aa_id b \<Longrightarrow> n = m"
    and "\<And>i. i \<in> ag_leases g \<longleftrightarrow> (\<exists>n a. ag_heap g n = Some a \<and> aa_id a = i)"
    and "\<And>n a. ag_heap g n = Some a \<Longrightarrow> n < ag_next g \<and> lifecycle_ok (aa_lifecycle a)"
    and "\<And>n a. ag_heap g n = Some a \<Longrightarrow> aa_held a \<Longrightarrow> ag_activations g (aa_id a) = Some n"
    and "\<And>i n. ag_activations g i = Some n \<Longrightarrow> n < ag_next g"
    and "\<And>i n a. ag_activations g i = Some n \<Longrightarrow> ag_heap g n = Some a \<Longrightarrow> aa_id a = i"
  shows "agents_inv g"
  using assms unfolding agents_inv_def by blast

lemma agents_inv_store [simp]: "agents_inv (g\<lparr>ag_store := st\<rparr>) = agents_inv g"
  by (simp add: agents_inv_def)

lemma upgrade_Some: "upgrade g n = Some m \<longleftrightarrow> m = n \<and> (\<exists>a. ag_heap g n = Some a \<and> aa_held a)"
  by (auto simp: upgrade_def split: option.splits)

lemma get_agent_Some:
  "get_agent g i = Some n \<longleftrightarrow> ag_activations g i = Some n \<and> (\<exists>a. ag_heap g n = Some a \<and> aa_held a)"
  by (auto simp: get_agent_def upgrade_Some split: option.splits)

lemma held_agent:
  "agents_inv g \<Longrightarrow> ag_heap g n = Some a \<Longrightarrow> aa_held a \<Longrightarrow> get_agent g (aa_id a) = Some n"
  by (simp add: get_agent_Some agents_invD(4))

lemma retain_held_simps [simp]:
  "ag_heap (retain_held g) = ag_heap g" "ag_leases (retain_held g) = ag_leases g" "ag_next (retain_held g) = ag_next g"
  "ag_store (retain_held g) = ag_store g" "ag_activations (retain_held g) = get_agent g"
  by (simp_all add: retain_held_def get_agent_def fun_eq_iff)

lemma retain_held_inv: "agents_inv g \<Longrightarrow> agents_inv (retain_held g)"
  by (rule agents_invI) (auto simp: get_agent_Some dest: agents_invD(1,3-6) simp: agents_invD(2))

lemma heap_update_inv:
  assumes inv: "agents_inv g" and n: "ag_heap g n = Some a"
    and b: "aa_id b = aa_id a" "lifecycle_ok (aa_lifecycle b)" "aa_held b \<longrightarrow> aa_held a"
  shows "agents_inv (g\<lparr>ag_heap := (ag_heap g)(n \<mapsto> b)\<rparr>)" (is "agents_inv ?g")
proof -
  have old: "\<exists>d. ag_heap g m = Some d \<and> aa_id d = aa_id c \<and> (aa_held c \<longrightarrow> aa_held d) \<and> lifecycle_ok (aa_lifecycle c)"
    if "ag_heap ?g m = Some c" for m c
    using that n b agents_invD(3) [OF inv] by (auto split: if_splits)
  have new: "\<exists>d. ag_heap ?g m = Some d \<and> aa_id d = aa_id c" if "ag_heap g m = Some c" for m c
    using that n b by auto
  show ?thesis
  proof (rule agents_invI, goal_cases)
    case (1 m k c d)
    then show ?case using old agents_invD(1) [OF inv] by metis
  next
    case (2 i)
    then show ?case using old new agents_invD(2) [OF inv] by (simp del: fun_upd_apply) metis
  next
    case (3 m c)
    then show ?case using old agents_invD(3) [OF inv] by (simp del: fun_upd_apply) metis
  next
    case (4 m c)
    then show ?case using old agents_invD(4) [OF inv] by (simp del: fun_upd_apply) metis
  next
    case (5 i m)
    then show ?case using agents_invD(5) [OF inv] by simp
  next
    case (6 i m c)
    then show ?case using old agents_invD(6) [OF inv] by (simp del: fun_upd_apply) metis
  qed
qed

lemma heap_remove_inv:
  assumes inv: "agents_inv g" and n: "ag_heap g n = Some a" and "\<not> aa_held a"
  shows "agents_inv (g\<lparr>ag_heap := (ag_heap g)(n := None), ag_leases := ag_leases g - {aa_id a}\<rparr>)" (is "agents_inv ?g")
proof -
  have old: "ag_heap ?g m = Some c \<longleftrightarrow> m \<noteq> n \<and> ag_heap g m = Some c" for m c by simp
  show ?thesis
  proof (rule agents_invI, goal_cases)
    case (1 m k c d)
    then show ?case using old agents_invD(1) [OF inv] by metis
  next
    case (2 i)
    have "i \<in> ag_leases ?g \<longleftrightarrow> i \<in> ag_leases g \<and> i \<noteq> aa_id a" by simp
    also have "\<dots> \<longleftrightarrow> (\<exists>m c. ag_heap g m = Some c \<and> aa_id c = i) \<and> i \<noteq> aa_id a" by (simp add: agents_invD(2) [OF inv])
    also have "\<dots> \<longleftrightarrow> (\<exists>m c. ag_heap ?g m = Some c \<and> aa_id c = i)"
      unfolding old using n agents_invD(1) [OF inv] by (metis option.inject)
    finally show ?case .
  next
    case (3 m c)
    then show ?case unfolding old using agents_invD(3) [OF inv, of m c] by simp
  next
    case (4 m c)
    then show ?case unfolding old using agents_invD(4) [OF inv, of m c] by simp
  next
    case (5 i m)
    then show ?case using agents_invD(5) [OF inv, of i m] by simp
  next
    case (6 i m c)
    then show ?case unfolding old using agents_invD(6) [OF inv, of i m c] by simp
  qed
qed

lemma heap_add_inv:
  assumes inv: "agents_inv g" and i: "aa_id a \<notin> ag_leases g" and ok: "lifecycle_ok (aa_lifecycle a)"
  shows "agents_inv (g\<lparr>ag_leases := insert (aa_id a) (ag_leases g), ag_heap := (ag_heap g)(ag_next g \<mapsto> a),
    ag_activations := (ag_activations g)(aa_id a \<mapsto> ag_next g), ag_next := Suc (ag_next g)\<rparr>)" (is "agents_inv ?g")
proof -
  have fresh: "m \<noteq> ag_next g \<and> aa_id b \<noteq> aa_id a" if "ag_heap g m = Some b" for m b
    using that i agents_invD(3) [OF inv that] unfolding agents_invD(2) [OF inv] by auto
  then have old: "ag_heap ?g m = Some c \<longleftrightarrow> m = ag_next g \<and> c = a \<or> ag_heap g m = Some c" for m c
    by (cases "ag_heap g (ag_next g)") auto
  show ?thesis
  proof (rule agents_invI, goal_cases)
    case (1 m k c d)
    then show ?case unfolding old using fresh agents_invD(1) [OF inv] by metis
  next
    case (2 i)
    have "i \<in> ag_leases ?g \<longleftrightarrow> i = aa_id a \<or> (\<exists>m c. ag_heap g m = Some c \<and> aa_id c = i)"
      by (simp add: agents_invD(2) [OF inv])
    also have "\<dots> \<longleftrightarrow> (\<exists>m c. ag_heap ?g m = Some c \<and> aa_id c = i)" unfolding old by blast
    finally show ?case .
  next
    case (3 m c)
    then show ?case unfolding old using ok agents_invD(3) [OF inv, of m c] by auto
  next
    case (4 m c)
    then show ?case unfolding old using fresh [of m c] agents_invD(4) [OF inv, of m c] by auto
  next
    case (5 i m)
    then show ?case using agents_invD(5) [OF inv, of i m] by (auto split: if_splits)
  next
    case (6 i m c)
    then show ?case unfolding old using fresh [of m c] agents_invD(5,6) [OF inv, of i m] by (auto split: if_splits)
  qed
qed

lemma acquire_lease_cases:
  "acquire_lease L i = (L', Inl e) \<Longrightarrow> L' = L" "acquire_lease L i = (L', Inr u) \<Longrightarrow> i \<notin> L \<and> L' = insert i L \<and> validate_agent_id i = Inr ()"
  by (auto simp: acquire_lease_def split: sum.splits if_splits)

text \<open>What \<open>activate\<close> does: the live activation, an error that leaves nothing behind, or a new activation.\<close>

lemma activate_cases:
  assumes "activate ops header env g = (g', r)"
  obtains (live) n where "get_agent g (sh_id header) = Some n" "g' = g" "r = Inr n"
  | (failed) e st where "get_agent g (sh_id header) = None" "g' = (retain_held g)\<lparr>ag_store := st\<rparr>" "r = Inl e"
      "st = ag_store g \<or> st = fst (inbox_open ops header (env 0) (ag_store g)) \<or>
       st = env 1 (fst (inbox_open ops header (env 0) (ag_store g)))"
  | (opened) st s where "get_agent g (sh_id header) = None" "r = Inr (ag_next g)" "sh_id header \<notin> ag_leases g"
      "st = env 1 (fst (inbox_open ops header (env 0) (ag_store g)))" "inbox_load ops (sh_id header) st = Inr s"
      "g' = (retain_held g)\<lparr>ag_store := st, ag_leases := insert (sh_id header) (ag_leases g),
         ag_heap := (ag_heap g)(ag_next g \<mapsto> activation_of (sh_id header) s),
         ag_activations := (get_agent g)(sh_id header \<mapsto> ag_next g), ag_next := Suc (ag_next g)\<rparr>"
      "validate_agent_id (sh_id header) = Inr ()"
proof (cases "get_agent g (sh_id header)")
  case (Some n)
  with assms have "g' = g" "r = Inr n" by (simp_all add: activate_def Let_def)
  with Some show thesis by (rule live)
next
  case None
  obtain L a where lease: "acquire_lease (ag_leases g) (sh_id header) = (L, a)" by fastforce
  obtain st o1 where inbox_run: "inbox_open ops header (env 0) (ag_store g) = (st, o1)" by fastforce
  show thesis
  proof (cases a)
    case (Inl e)
    with assms None lease have "g' = retain_held g" "r = Inl (ActivateLease e)" by (simp_all add: activate_def Let_def)
    with None show thesis by (intro failed [of "ag_store g" "ActivateLease e"]) simp_all
  next
    case (Inr u)
    note owned = acquire_lease_cases(2) [OF lease [unfolded Inr]]
    then have returned: "drop_lease L (sh_id header) = ag_leases g" by (auto simp: drop_lease_def)
    note run = assms None lease Inr inbox_run owned returned
    show thesis
    proof (cases o1)
      case (Inl e)
      with run show thesis by (intro failed [of st "ActivateInbox e"]) (simp_all add: activate_def Let_def)
    next
      case (Inr i)
      show thesis
      proof (cases "inbox_load ops (sh_id header) (env 1 st)")
        case (Inl e)
        with run \<open>o1 = Inr i\<close> show thesis
          by (intro failed [of "env 1 st" "ActivateInbox e"]) (simp_all add: activate_def Let_def)
      next
        case (Inr s)
        with run \<open>o1 = Inr i\<close> show thesis by (intro opened [of "env 1 st" s]) (simp_all add: activate_def Let_def)
      qed
    qed
  qed
qed

lemma activation_of_ok [simp]: "aa_id (activation_of i s) = i" "aa_held (activation_of i s)" "lifecycle_ok (aa_lifecycle (activation_of i s))"
  by (simp_all add: activation_of_def lifecycle_ok_def new_lifecycle_def)

lemma activate_inv:
  assumes "agents_inv g"
  shows "agents_inv (fst (activate ops header env g))"
proof -
  obtain g' r where run: "activate ops header env g = (g', r)" by fastforce
  then show ?thesis
  proof (cases rule: activate_cases)
    case (opened st s)
    let ?g = "(retain_held g)\<lparr>ag_store := st\<rparr>"
    have "agents_inv ?g" by (simp add: retain_held_inv [OF assms])
    from heap_add_inv [OF this, of "activation_of (sh_id header) s"] opened(3) run
    show ?thesis unfolding opened(6) by simp
  qed (use assms run retain_held_inv [OF assms] in simp_all)
qed

lemma agents_step_inv: "agents_step ops g g' \<Longrightarrow> agents_inv g \<Longrightarrow> agents_inv g'"
proof (induction rule: agents_step.induct)
  case (activates env g header)
  then show ?case by (simp add: activate_inv)
next
  case (last_dropped g n)
  then show ?case
    by (cases "ag_heap g n") (simp_all add: drop_last_def heap_update_inv agents_invD(3))
next
  case (fields_dropped g n)
  then show ?case by (cases "ag_heap g n") (simp_all add: drop_fields_def drop_lease_def heap_remove_inv)
next
  case (works g x n)
  then show ?case
    by (cases "ag_heap g n") (simp_all add: on_lifecycle_def heap_update_inv apply_op_ok agents_invD(3))
next
  case (cancelled g n)
  then show ?case
    by (cases "ag_heap g n") (simp_all add: cancel_activation_def heap_update_inv agents_invD(3))
qed simp

lemma no_agents_inv: "agents_inv (no_agents st)"
  by (simp add: agents_inv_def no_agents_def)

lemma agents_reachable_inv: "(agents_step ops)\<^sup>*\<^sup>* (no_agents st) g \<Longrightarrow> agents_inv g"
  by (induction rule: rtranclp_induct) (auto intro: no_agents_inv agents_step_inv)

text \<open>Only well-formed identifiers are ever leased.\<close>

lemma agents_step_valid:
  assumes "agents_step ops g g'" and "\<forall>n a. ag_heap g n = Some a \<longrightarrow> validate_agent_id (aa_id a) = Inr ()"
  shows "\<forall>n a. ag_heap g' n = Some a \<longrightarrow> validate_agent_id (aa_id a) = Inr ()"
  using assms
proof cases
  case (activates env header)
  obtain h r where run: "activate ops header env g = (h, r)" by fastforce
  then have "\<forall>n a. ag_heap h n = Some a \<longrightarrow> validate_agent_id (aa_id a) = Inr ()"
    by (cases rule: activate_cases) (use assms(2) in auto)
  with activates(1) run show ?thesis by simp
qed (use assms(2) in \<open>auto simp: drop_last_def drop_fields_def on_lifecycle_def cancel_activation_def
      split: option.splits if_splits\<close>)

lemma agents_reachable_valid:
  "(agents_step ops)\<^sup>*\<^sup>* (no_agents st) g \<Longrightarrow> ag_heap g n = Some a \<Longrightarrow> validate_agent_id (aa_id a) = Inr ()"
proof -
  have "(agents_step ops)\<^sup>*\<^sup>* (no_agents st) g \<Longrightarrow> \<forall>n a. ag_heap g n = Some a \<longrightarrow> validate_agent_id (aa_id a) = Inr ()"
    by (induction rule: rtranclp_induct) (simp add: no_agents_def, rule agents_step_valid)
  then show "(agents_step ops)\<^sup>*\<^sup>* (no_agents st) g \<Longrightarrow> ag_heap g n = Some a \<Longrightarrow> validate_agent_id (aa_id a) = Inr ()"
    by blast
qed

lemma get_agent_retain: "get_agent ((retain_held g)\<lparr>ag_store := st\<rparr>) = get_agent g"
  by (auto simp: fun_eq_iff get_agent_def upgrade_def split: option.split)

text \<open>\<open>activate\<close> while an activation of the session is around: the live one, or a refusal while it is going.\<close>

lemma activate_around:
  assumes "agents_inv g" and "ag_heap g n = Some a" and "validate_agent_id (aa_id a) = Inr ()" and "aa_id a = sh_id header"
  shows "activate ops header env g =
    (if aa_held a then (g, Inr n) else (retain_held g, Inl (ActivateLease (AlreadyOwned (sh_id header)))))"
proof (cases "aa_held a")
  case True
  with held_agent [OF assms(1,2)] assms(4) show ?thesis by (simp add: activate_def Let_def)
next
  case False
  have "get_agent g (sh_id header) \<noteq> Some k" for k
  proof
    assume "get_agent g (sh_id header) = Some k"
    then obtain b where b: "ag_heap g k = Some b" "aa_held b" "ag_activations g (sh_id header) = Some k"
      by (auto simp: get_agent_Some)
    with agents_invD(6) [OF assms(1)] assms(4) have "aa_id b = aa_id a" by metis
    with agents_invD(1) [OF assms(1) b(1) assms(2)] b assms(2) False show False by auto
  qed
  then have "get_agent g (sh_id header) = None" using not_Some_eq [of "get_agent g (sh_id header)"] by blast
  moreover have "sh_id header \<in> ag_leases g" using agents_invD(2) [OF assms(1)] assms(2,4) by blast
  ultimately show ?thesis using False assms(3,4) by (simp add: activate_def acquire_lease_def Let_def)
qed

text \<open>Property C17. An agent is alive at most once: whatever the registry, the holders of activations and the sessions do,
  two activations never share an identifier, and exactly the identifiers of the activations that are not
  fully dropped are leased.  While an activation of its session is held, \<open>activate\<close> returns that very
  activation and changes nothing; while one is being dropped, it is refused because the lease is still
  owned; and when there is none, \<open>activate\<close> either adds one new, held and leased activation that
  \<open>get\<close> then finds, or fails and leaves activations, leases and lookups as they were.\<close>

theorem one_activation:
  assumes "(agents_step ops)\<^sup>*\<^sup>* (no_agents st) g"
  shows "(\<forall>n m a b. ag_heap g n = Some a \<and> ag_heap g m = Some b \<and> aa_id a = aa_id b \<longrightarrow> n = m) \<and>
    (\<forall>i. i \<in> ag_leases g \<longleftrightarrow> (\<exists>n a. ag_heap g n = Some a \<and> aa_id a = i)) \<and>
    (\<forall>header env n a. ag_heap g n = Some a \<and> aa_id a = sh_id header \<longrightarrow>
       activate ops header env g =
         (if aa_held a then (g, Inr n) else (retain_held g, Inl (ActivateLease (AlreadyOwned (sh_id header)))))) \<and>
    (\<forall>header env g' r. activate ops header env g = (g', r) \<and> sh_id header \<notin> ag_leases g \<longrightarrow>
       (case r of
          Inl e \<Rightarrow> ag_heap g' = ag_heap g \<and> ag_leases g' = ag_leases g \<and> get_agent g' = get_agent g
        | Inr n \<Rightarrow> ag_heap g n = None \<and> get_agent g' = (get_agent g)(sh_id header \<mapsto> n) \<and>
            ag_leases g' = insert (sh_id header) (ag_leases g) \<and>
            (\<exists>a. ag_heap g' = (ag_heap g)(n \<mapsto> a) \<and> aa_held a \<and> aa_id a = sh_id header)))"
proof -
  have inv: "agents_inv g" by (rule agents_reachable_inv [OF assms])
  have "case r of
        Inl e \<Rightarrow> ag_heap g' = ag_heap g \<and> ag_leases g' = ag_leases g \<and> get_agent g' = get_agent g
      | Inr n \<Rightarrow> ag_heap g n = None \<and> get_agent g' = (get_agent g)(sh_id header \<mapsto> n) \<and>
          ag_leases g' = insert (sh_id header) (ag_leases g) \<and>
          (\<exists>a. ag_heap g' = (ag_heap g)(n \<mapsto> a) \<and> aa_held a \<and> aa_id a = sh_id header)"
    if run: "activate ops header env g = (g', r)" and none: "sh_id header \<notin> ag_leases g" for header env g' r
    using run
  proof (cases rule: activate_cases)
    case (live k)
    then obtain a where a: "ag_heap g k = Some a" "ag_activations g (sh_id header) = Some k"
      by (auto simp: get_agent_Some)
    then have "aa_id a = sh_id header" by (blast intro: agents_invD(6) [OF inv])
    with a none agents_invD(2) [OF inv] show ?thesis by blast
  next
    case (failed e s1)
    then show ?thesis by (simp add: get_agent_retain)
  next
    case (opened s1 s)
    have fresh: "ag_heap g (ag_next g) = None" using agents_invD(3) [OF inv, of "ag_next g"] by (cases "ag_heap g (ag_next g)") auto
    have "get_agent g' i = ((get_agent g)(sh_id header \<mapsto> ag_next g)) i" for i
    proof (cases "i = sh_id header")
      case False
      have "upgrade g' k = upgrade g k" if "k < ag_next g" for k
        using that opened(6) by (simp add: upgrade_def)
      with False opened(6) fresh show ?thesis
        by (auto simp: get_agent_def upgrade_def split: option.splits)
    qed (simp add: opened(6) get_agent_def upgrade_def)
    with opened fresh show ?thesis by (simp add: fun_eq_iff)
  qed
  moreover have "activate ops header env g =
      (if aa_held a then (g, Inr n) else (retain_held g, Inl (ActivateLease (AlreadyOwned (sh_id header)))))"
    if "ag_heap g n = Some a" "aa_id a = sh_id header" for header env n a
    by (rule activate_around [OF inv that(1) agents_reachable_valid [OF assms that(1)] that(2)])
  ultimately show ?thesis using agents_invD(1,2) [OF inv] by blast
qed

lemma example_activation:
  "activate (memory_ops no_questions) (new_header ''s'' 0) (\<lambda>_ st. st) (no_agents example_store) =
     ((no_agents example_store)\<lparr>ag_leases := {''s''}, ag_heap := [0 \<mapsto> activation_of ''s'' example_session],
        ag_activations := [''s'' \<mapsto> 0], ag_next := 1\<rparr>, Inr 0)"
proof -
  have "validate_agent_id ''s'' = Inr ()" by (simp add: validate_agent_id_def is_ascii_alphanumeric_def)
  moreover have "get_agent (no_agents example_store) = Map.empty" by (simp add: get_agent_def no_agents_def fun_eq_iff)
  ultimately show ?thesis
    by (simp add: activate_def acquire_lease_def inbox_open_def inbox_load_def memory_ops_def memory_load_def
        example_store_def retain_held_def upgrade_def no_agents_def new_header_def Let_def)
qed

text \<open>The second \<open>activate\<close> of a session returns the activation of the first and changes nothing.\<close>

theorem one_activation_witness:
  "snd (activate (memory_ops no_questions) (new_header ''s'' 0) (\<lambda>_ st. st) (no_agents example_store)) = Inr 0 \<and>
   (let g = fst (activate (memory_ops no_questions) (new_header ''s'' 0) (\<lambda>_ st. st) (no_agents example_store)) in
      activate (memory_ops no_questions) (new_header ''s'' 5) (\<lambda>_ st. st) g = (g, Inr 0))"
proof -
  let ?ops = "memory_ops no_questions" and ?env = "\<lambda>(_::nat) st. st" and ?header = "new_header ''s''"
  let ?g = "fst (activate ?ops (?header 0) ?env (no_agents example_store))"
  have "agents_step ?ops (no_agents example_store) ?g" by (rule agents_step.activates) (rule store_run.idle)
  then have reach: "(agents_step ?ops)\<^sup>*\<^sup>* (no_agents example_store) ?g" by (rule r_into_rtranclp)
  have heap: "ag_heap ?g 0 = Some (activation_of ''s'' example_session)" unfolding example_activation by simp
  have "aa_id (activation_of ''s'' example_session) = sh_id (?header 5)" by (simp add: new_header_def)
  note second = conjunct1 [OF conjunct2 [OF conjunct2 [OF one_activation [OF reach]]], rule_format, OF conjI [OF heap this]]
  have "activate ?ops (?header 5) ?env ?g = (?g, Inr 0)" using second [of ?env] by simp
  then show ?thesis unfolding Let_def by (simp add: example_activation)
qed

subsection \<open>A new activation continues the numbering of its session\<close>

lemma last_turn_start_length:
  assumes "turns_ok es s"
  shows "v_last_turn s = (case rev (turn_starts es) of [] \<Rightarrow> 0 | t # _ \<Rightarrow> t)"
proof -
  from assms have n: "numbered (turn_starts es)" and len: "unat (v_last_turn s) = length (turn_starts es)"
    by (auto simp: turns_ok_def lifecycle_def turns_inv.simps)
  show ?thesis
  proof (cases "turn_starts es" rule: rev_cases)
    case Nil
    with len show ?thesis by (simp add: unat_eq_0)
  next
    case (snoc ts t)
    with n have "unat t = length (turn_starts es)" by (simp add: numbered_snoc)
    with len snoc show ?thesis by (simp add: word_unat_eq_iff)
  qed
qed

text \<open>On a valid session without an open turn, the start of the next turn is accepted.\<close>

lemma turn_start_accepted:
  assumes ok: "session_ok dec s" and closed: "turn_starts (se_events s) = turn_ends (se_events s)"
    and t: "checked_add (case last_turn_start s of Some t \<Rightarrow> t | None \<Rightarrow> 0) 1 = Some t" and room: "se_revision s \<noteq> - 1"
  shows "\<exists>s' rc. append_batch_at dec s (se_revision s) [TurnStart t] now = (s', Inr rc)"
proof -
  let ?v = "after_log dec (se_events s)"
  have v: "validate_events dec (se_events s) 0 init_vstate (se_events s) = Inr ?v"
    using ok valid_after_log by (auto simp: session_ok_def)
  have turns: "turns_ok (se_events s) ?v" by (rule turns.at_prefix [OF v]) simp
  have last: "v_last_turn ?v = (case last_turn_start s of Some t \<Rightarrow> t | None \<Rightarrow> 0)"
    using last_turn_start_length [OF turns] by (simp add: last_turn_start_def split: list.splits)
  from turns closed have "v_open_turn ?v = None" "v_open_step ?v = None"
    by (auto simp: turns_ok_def lifecycle_def turns_inv.simps step_coords_def opt_list_def split: option.splits)
  then have "data_run dec evs pos r [TurnStart t] (?v\<lparr>v_revision := r\<rparr>) =
      Inr (?v\<lparr>v_revision := r, v_open_turn := Some t, v_last_turn := t, v_last_step := 0\<rparr>)" for evs pos r
    using t last by (simp add: check_open_calls_def on_turn_start_def)
  from append_runs(1) [OF ok checked_add_one [OF room] _ this]
  show ?thesis using \<open>v_open_step ?v = None\<close> by (fastforce simp: check_open_calls_def)
qed

lemma inbox_open_run:
  assumes "store_run ops st (env st)"
  shows "store_run ops st (fst (inbox_open ops header env st))"
  using store_run.created [OF assms, of header]
  by (cases "so_create ops header (env st)")
    (auto simp: inbox_open_def store_run.idle split: sum.split option.split store_error.split)

lemma activate_run:
  assumes env: "\<And>k st. store_run ops st (env k st)" and run: "activate ops header env g = (g', r)"
  shows "store_run ops (ag_store g) (ag_store g')"
proof -
  let ?st = "fst (inbox_open ops header (env 0) (ag_store g))"
  have opened: "store_run ops (ag_store g) ?st" by (intro inbox_open_run env)
  from run show ?thesis
  proof (cases rule: activate_cases)
    case (failed e st)
    from failed(4) show ?thesis
      unfolding failed(2) using opened store_run_trans [OF env [of ?st 1] opened] by (auto simp: store_run.idle)
  next
    case (opened st1 s)
    show ?thesis unfolding opened(4,6) using store_run_trans [OF env [of ?st 1] \<open>store_run ops (ag_store g) ?st\<close>] by simp
  qed (simp add: store_run.idle)
qed

lemma agents_step_run: "agents_step ops g g' \<Longrightarrow> store_run ops (ag_store g) (ag_store g')"
proof (induction rule: agents_step.induct)
  case (activates env g header)
  then show ?case by (cases "activate ops header env g") (auto intro: activate_run)
qed (auto simp: drop_last_def drop_fields_def on_lifecycle_def cancel_activation_def store_run.idle split: option.split)

lemma agents_store_run: "(agents_step ops)\<^sup>*\<^sup>* g g' \<Longrightarrow> store_run ops (ag_store g) (ag_store g')"
  by (induction rule: rtranclp_induct) (blast intro: store_run.idle store_run_trans agents_step_run)+

text \<open>A session picks up where its log stops: an activation that is newly opened over the in-process store
  is idle, and once its driver is reserved the turn it opens first is the one the session accepts
  next, whenever no turn of the session was left open.\<close>

theorem activation_continues_session:
  assumes "(agents_step (memory_ops dec))\<^sup>*\<^sup>* (no_agents st) g" and "memory_ok dec st"
    and "\<forall>k st. store_run (memory_ops dec) st (env k st)" and "get_agent g (sh_id header) = None"
    and "activate (memory_ops dec) header env g = (g', Inr n)"
  shows "\<exists>a s. ag_heap g' n = Some a \<and> map_of (ag_store g') (sh_id header) = Some s \<and> session_ok dec s \<and>
    al_phase (aa_lifecycle a) = PhaseIdle \<and>
    (\<forall>t now. snd (open_turn (fst (reserve_driver (aa_lifecycle a)))) = Inr t \<and>
       turn_starts (se_events s) = turn_ends (se_events s) \<and> se_revision s \<noteq> - 1 \<longrightarrow>
       (\<exists>s' rc. append_batch_at dec s (se_revision s) [TurnStart t] now = (s', Inr rc)))"
  using assms(5)
proof (cases rule: activate_cases)
  case (opened st1 s)
  have "store_run (memory_ops dec) (ag_store g) (ag_store g')"
    using assms(3) by (intro activate_run [OF _ assms(5)]) blast
  from store_run_trans [OF this agents_store_run [OF assms(1)]]
  have "store_run (memory_ops dec) st (ag_store g')" by (simp add: no_agents_def)
  with assms(2) have ok: "memory_ok dec (ag_store g')" by (rule memory.run_ok [rotated])
  from opened have s: "map_of (ag_store g') (sh_id header) = Some s"
    by (auto simp: inbox_load_def memory_load_iff split: sum.splits option.splits)
  then have sok: "session_ok dec s" using ok memory_okD by blast
  have heap: "ag_heap g' n = Some (activation_of (sh_id header) s)" using opened by simp
  have "\<exists>s' rc. append_batch_at dec s (se_revision s) [TurnStart t] now = (s', Inr rc)"
    if "snd (open_turn (fst (reserve_driver (aa_lifecycle (activation_of (sh_id header) s))))) = Inr t"
      and "turn_starts (se_events s) = turn_ends (se_events s)" and "se_revision s \<noteq> - 1" for t now
    using that by (intro turn_start_accepted [OF sok])
      (auto simp: activation_of_def new_lifecycle_def reserve_driver_def open_turn_def split: option.splits)
  with s sok heap show ?thesis by (auto simp: activation_of_def new_lifecycle_def)
qed (use assms(4) in simp_all)

theorem activation_continues_session_witness:
  "\<exists>s' rc. append_batch_at no_questions example_session 1 [TurnStart 2] 9 = (s', Inr rc)"
proof -
  let ?g = "no_agents example_store"
  have "(agents_step (memory_ops no_questions))\<^sup>*\<^sup>* ?g ?g" by simp
  moreover have "get_agent ?g (sh_id (new_header ''s'' 0)) = None" by (simp add: get_agent_def no_agents_def)
  moreover have "\<forall>k st. store_run (memory_ops no_questions) st ((\<lambda>_ st. st) k st)" by (simp add: store_run.idle)
  ultimately obtain a s where a: "a = activation_of ''s'' example_session" "s = example_session"
    and next_turn: "\<And>t now. snd (open_turn (fst (reserve_driver (aa_lifecycle a)))) = Inr t \<Longrightarrow>
       turn_starts (se_events s) = turn_ends (se_events s) \<Longrightarrow> se_revision s \<noteq> - 1 \<Longrightarrow>
       \<exists>s' rc. append_batch_at no_questions s (se_revision s) [TurnStart t] now = (s', Inr rc)"
    using activation_continues_session [OF _ example_store_ok _ _ example_activation]
    by (fastforce simp: example_store_def no_agents_def new_header_def)
  have turns: "turn_starts (se_events example_session) = [1]" "turn_ends (se_events example_session) = [1]"
    by (simp_all add: example_session_def stage_def example_events_def events_where_def List.map_filter_simps)
  then have "snd (open_turn (fst (reserve_driver (aa_lifecycle a)))) = Inr 2"
    by (simp add: a activation_of_def new_lifecycle_def reserve_driver_def open_turn_def last_turn_start_def checked_add_def)
  from next_turn [OF this, of 9] turns show ?thesis by (simp add: a example_session_def)
qed

subsection \<open>Operations on other agents\<close>

datatype agent_operation =
    OpStart string "string option"
  | OpSend string string
  | OpInspect "string option"
  | OpStop string

definition operation_text :: "string \<Rightarrow> string \<Rightarrow> nat \<Rightarrow> string + unit" where
  "operation_text v field maximum =
     (if blank v \<or> length v > maximum
      then Inl (field @ '' must be non-empty and at most '' @ show_nat maximum @ '' UTF-8 bytes'')
      else Inr ())"

fun validate_operation :: "agent_operation \<Rightarrow> string + unit" where
  "validate_operation (OpStart task label) =
     and_then (operation_text task ''task'' 32768) (\<lambda>_.
     case label of Some l \<Rightarrow> operation_text l ''label'' 160 | None \<Rightarrow> Inr ())"
| "validate_operation (OpSend agent_id msg) =
     and_then (operation_text agent_id ''agent_id'' 256) (\<lambda>_. operation_text msg ''message'' 32768)"
| "validate_operation (OpInspect (Some i)) = operation_text i ''agent_id'' 256"
| "validate_operation (OpInspect None) = Inr ()"
| "validate_operation (OpStop i) = operation_text i ''agent_id'' 256"

fun operation_texts :: "agent_operation \<Rightarrow> (string \<times> nat) list" where
  "operation_texts (OpStart task label) = (task, 32768) # map (\<lambda>l. (l, 160)) (opt_list label)"
| "operation_texts (OpSend agent_id msg) = [(agent_id, 256), (msg, 32768)]"
| "operation_texts (OpInspect i) = map (\<lambda>l. (l, 256)) (opt_list i)"
| "operation_texts (OpStop i) = [(i, 256)]"

lemma validate_operation_iff:
  "validate_operation x = Inr () \<longleftrightarrow> (\<forall>(v, maximum)\<in>set (operation_texts x). \<not> blank v \<and> length v \<le> maximum)"
  by (induction x rule: validate_operation.induct) (auto simp: operation_text_def split: option.split)

end
