(* ===== verification/Driver.thy ===== *)
theory Driver
  imports Lifecycle Recovery
begin

text \<open>
  The worker of a long-lived agent (xharness-agent/src/driver.rs): what it does with a command when it is idle
  and when a turn is running, how it numbers the turns it starts and picks the turn it recovers, and its
  loop, as a step relation between the places where it awaits something.

  The loop engine, the factory of requests and the holders of the channels are its surroundings: the
  engine's events and results, the answers of \<open>run.send\<close>, the failures of the factory and the moment of a
  shutdown are chosen by the step.  Sessions may move at any await, which is the step \<open>moves\<close>.
\<close>

subsection \<open>Commands, events and errors\<close>

datatype injection_mode = InjectNextStep | InterruptModel

datatype loop_command =
    LoopInject message injection_mode
  | LoopSteer message
  | LoopPause
  | LoopResume
  | LoopCancel
  | LoopApprove string
  | LoopReject string string

datatype loop_control_error = LoopClosed | LoopRejected string

datatype driver_failure =
    FInbox inbox_error
  | FStore store_error
  | FLifecycle agent_lifecycle_error
  | FLoop loop_control_error
  | FMessage string

datatype agent_command_error = CommandClosed | NoActiveTurn | Busy | CommandFailed driver_failure

datatype ('e, 'r) agent_event =
    Parked "string list"
  | StatusChanged agent_status
  | InboxInserted inbox_target inbox_message
  | TurnStarted u32 "string list"
  | TurnEvent u32 'e
  | TurnFinished u32 'r
  | ErrorPublished agent_command_error

datatype driver_command =
    Wake
  | RecoverOpenTurn
  | Followup inbox_message
  | MaintenanceFollowup inbox_message
  | SteerCommand inbox_message
  | InjectCommand inbox_message
  | Control loop_command

definition approval_recovery_work_id :: "string \<Rightarrow> string" where
  "approval_recovery_work_id approval_id = ''approval-recovery:'' @ approval_id"

definition question_recovery_work_id :: "string \<Rightarrow> string" where
  "question_recovery_work_id interaction_id = ''question-recovery:'' @ interaction_id"

subsection \<open>The state of a worker\<close>

record ('st, 'e, 'r) driver =
  dr_store :: 'st
  dr_lifecycle :: agent_lifecycle
  dr_status :: agent_status
  dr_wake_requested :: bool
  dr_recovery_requested :: bool
  dr_events :: "('e, 'r) agent_event list"

definition publish :: "('e, 'r) agent_event \<Rightarrow> ('st, 'e, 'r) driver \<Rightarrow> ('st, 'e, 'r) driver" where
  "publish e d = d\<lparr>dr_events := dr_events d @ [e]\<rparr>"

definition set_status :: "agent_status \<Rightarrow> ('st, 'e, 'r) driver \<Rightarrow> ('st, 'e, 'r) driver" where
  "set_status status d = publish (StatusChanged status) (d\<lparr>dr_status := status\<rparr>)"

definition persist ::
  "'st store_ops \<Rightarrow> 'st world \<Rightarrow> string \<Rightarrow> inbox_target \<Rightarrow> inbox_message \<Rightarrow> ('st, 'e, 'r) driver \<Rightarrow>
     ('st, 'e, 'r) driver \<times> (agent_command_error + unit)" where
  "persist ops w i target m d =
     (case inbox_append ops w i target m (dr_store d) of
        (st, Inl e) \<Rightarrow> (d\<lparr>dr_store := st\<rparr>, Inl (CommandFailed (FInbox e)))
      | (st, Inr _) \<Rightarrow> (publish (InboxInserted target m) (d\<lparr>dr_store := st\<rparr>), Inr ()))"

definition park_pending ::
  "'st store_ops \<Rightarrow> string \<Rightarrow> ('st, 'e, 'r) driver \<Rightarrow> ('st, 'e, 'r) driver \<times> (agent_command_error + unit)" where
  "park_pending ops i d =
     (let d1 = d\<lparr>dr_wake_requested := False\<rparr> in
      case inbox_snapshot ops i (dr_store d1) of
        Inl e \<Rightarrow> (d1, Inl (CommandFailed (FInbox e)))
      | Inr p \<Rightarrow> (publish (Parked (map im_id (ip_next_turn p))) d1, Inr ()))"

text \<open>\<open>if result.is_ok() { self.wake_requested = true; self.set_status(Running); }\<close>\<close>

definition awakened ::
  "('st, 'e, 'r) driver \<times> (agent_command_error + unit) \<Rightarrow> ('st, 'e, 'r) driver \<times> (agent_command_error + unit)" where
  "awakened x =
     (case x of
        (d, Inl e) \<Rightarrow> (d, Inl e)
      | (d, Inr u) \<Rightarrow> (set_status StatusRunning (d\<lparr>dr_wake_requested := True\<rparr>), Inr u))"

fun handle_idle ::
  "'st store_ops \<Rightarrow> 'st world \<Rightarrow> string \<Rightarrow> driver_command \<Rightarrow> ('st, 'e, 'r) driver \<Rightarrow>
     ('st, 'e, 'r) driver \<times> (agent_command_error + unit)" where
  "handle_idle ops w i Wake d = (d\<lparr>dr_wake_requested := True\<rparr>, Inr ())"
| "handle_idle ops w i RecoverOpenTurn d = (set_status StatusRunning (d\<lparr>dr_recovery_requested := True\<rparr>), Inr ())"
| "handle_idle ops w i (Followup m) d = awakened (persist ops w i NextTurn m d)"
| "handle_idle ops w i (MaintenanceFollowup m) d = awakened (persist ops w i NextTurn m d)"
| "handle_idle ops w i (SteerCommand m) d = awakened (persist ops w i NextStep m d)"
| "handle_idle ops w i (InjectCommand m) d = persist ops w i NextStep m d"
| "handle_idle ops w i (Control LoopCancel) d = park_pending ops i d"
| "handle_idle ops w i (Control _) d = (d, Inl NoActiveTurn)"

definition map_loop_control :: "loop_control_error + unit \<Rightarrow> bool \<Rightarrow> agent_command_error + unit" where
  "map_loop_control result queued_on_close =
     (case result of
        Inr _ \<Rightarrow> Inr ()
      | Inl e \<Rightarrow> if e = LoopClosed \<and> queued_on_close then Inr () else Inl (CommandFailed (FLoop e)))"

fun handle_active ::
  "'st store_ops \<Rightarrow> 'st world \<Rightarrow> string \<Rightarrow> (loop_command \<Rightarrow> loop_control_error + unit) \<Rightarrow> driver_command \<Rightarrow>
     ('st, 'e, 'r) driver \<Rightarrow> ('st, 'e, 'r) driver \<times> (agent_command_error + unit)" where
  "handle_active ops w i send Wake d = (d\<lparr>dr_wake_requested := True\<rparr>, Inr ())"
| "handle_active ops w i send RecoverOpenTurn d =
     (d, Inl (CommandFailed (FMessage ''an Agent turn is already running'')))"
| "handle_active ops w i send (Followup m) d =
     (case persist ops w i NextTurn m d of
        (d1, Inl e) \<Rightarrow> (d1, Inl e)
      | (d1, Inr u) \<Rightarrow> (d1\<lparr>dr_wake_requested := True\<rparr>, Inr u))"
| "handle_active ops w i send (MaintenanceFollowup m) d = (d, Inl Busy)"
| "handle_active ops w i send (SteerCommand m) d =
     (case persist ops w i NextStep m d of
        (d1, Inl e) \<Rightarrow> (d1, Inl e)
      | (d1, Inr _) \<Rightarrow> (d1\<lparr>dr_wake_requested := True\<rparr>, map_loop_control (send (LoopSteer (im_message m))) True))"
| "handle_active ops w i send (InjectCommand m) d =
     (case persist ops w i NextStep m d of
        (d1, Inl e) \<Rightarrow> (d1, Inl e)
      | (d1, Inr _) \<Rightarrow> (d1, map_loop_control (send (LoopInject (im_message m) InjectNextStep)) True))"
| "handle_active ops w i send (Control c) d = (d, map_loop_control (send c) False)"

subsection \<open>Which turn\<close>

definition next_turn :: "'st store_ops \<Rightarrow> string \<Rightarrow> 'st \<Rightarrow> agent_command_error + u32" where
  "next_turn ops i st =
     (case so_load ops i st of
        Inl e \<Rightarrow> Inl (CommandFailed (FStore e))
      | Inr None \<Rightarrow> Inl (CommandFailed (FMessage ''agent session disappeared''))
      | Inr (Some s) \<Rightarrow>
          (case checked_add (case last_turn_start s of Some t \<Rightarrow> t | None \<Rightarrow> 0) 1 of
             None \<Rightarrow> Inl (CommandFailed (FMessage ''turn counter overflow''))
           | Some t \<Rightarrow> Inr t))"

fun paused_of :: "event_data \<Rightarrow> bool option" where
  "paused_of (AgentDispatchPaused paused) = Some paused" | "paused_of _ = None"

definition dispatch_paused :: "session \<Rightarrow> bool" where
  "dispatch_paused s = (case rev (events_where paused_of (se_events s)) of [] \<Rightarrow> False | paused # _ \<Rightarrow> paused)"

definition recovery_target ::
  "pending_tool_approval list \<Rightarrow> recoverable_user_question list \<Rightarrow> agent_command_error + u32 \<times> string" where
  "recovery_target approvals questions =
     (let places = map (\<lambda>a. (pa_turn a, pa_step a)) approvals @ map (\<lambda>q. (rq_turn q, rq_step q)) questions in
      case places of
        [] \<Rightarrow> Inl (CommandFailed (FMessage ''agent has no durable human interaction to recover''))
      | coordinates # _ \<Rightarrow>
          if (\<exists>p\<in>set places. p \<noteq> coordinates) then
            Inl (CommandFailed (FMessage ''recoverable interactions span more than one open tool batch''))
          else Inr (fst coordinates,
            (case approvals of
               a # _ \<Rightarrow> approval_recovery_work_id (pa_id a)
             | [] \<Rightarrow> question_recovery_work_id (qi_interaction_id (rq_invocation (hd questions))))))"

text \<open>None is the panic of the fold over the questions.\<close>

definition recovery_request :: "'st store_ops \<Rightarrow> string \<Rightarrow> 'st \<Rightarrow> (agent_command_error + u32 \<times> string) option" where
  "recovery_request ops i st =
     (case so_load ops i st of
        Inl e \<Rightarrow> Some (Inl (CommandFailed (FStore e)))
      | Inr None \<Rightarrow> Some (Inl (CommandFailed (FMessage ''agent session disappeared'')))
      | Inr (Some s) \<Rightarrow>
          map_option (recovery_target (pending_tool_approvals (se_events s))) (recoverable_user_questions (se_events s)))"

subsection \<open>The loop of a worker\<close>

text \<open>The places where the worker is: before its first reconciliation, at the top of \<open>run\<close>, at the top of
  \<open>drive_pending_inner\<close>, waiting for the permit, about to claim, building a request for a claim, about to
  recover, running a turn (of pending input, or recovered), after such a turn, and gone.\<close>

datatype place =
    AtStart
  | AtTop
  | AtPending
  | AtPermit
  | AtClaim
  | AtBuild prepared_claim
  | AtRecovery
  | InTurn u32 bool
  | AfterTurn
  | Gone

text \<open>\<open>finish_driver\<close>, its error if it had one, and the idle status, at the end of \<open>drive_pending\<close> and \<open>drive_recovery\<close>.\<close>

definition conclude :: "('st, 'e, 'r) driver \<Rightarrow> ('st, 'e, 'r) driver" where
  "conclude d =
     set_status StatusIdle
       (case finish_driver (dr_lifecycle d) of
          (l, Inl e) \<Rightarrow> publish (ErrorPublished (CommandFailed (FLifecycle e))) d
        | (l, Inr _) \<Rightarrow> d\<lparr>dr_lifecycle := l\<rparr>)"

text \<open>An error ends the worker; it is published unless the shutdown has been requested by then.\<close>

definition gives_up :: "agent_command_error \<Rightarrow> ('st, 'e, 'r) driver \<Rightarrow> ('st, 'e, 'r) driver \<Rightarrow> bool" where
  "gives_up e d d' \<longleftrightarrow> d' = d \<or> d' = publish (ErrorPublished e) d"

definition claim_ids :: "prepared_claim \<Rightarrow> string list" where
  "claim_ids claim = map im_id (pc_messages claim)"

text \<open>Errors of the store, the inbox, the factory or a shutdown, as opposed to those of the lifecycle.\<close>

fun outside_failure :: "agent_command_error \<Rightarrow> bool" where
  "outside_failure (CommandFailed (FLifecycle _)) = False" | "outside_failure _ = True"

inductive worker_step ::
  "'st store_ops \<Rightarrow> string \<Rightarrow> place \<times> ('st, 'e, 'r) driver \<Rightarrow> place \<times> ('st, 'e, 'r) driver \<Rightarrow> bool"
  for ops i where
  moves: "store_run ops (dr_store d) st \<Longrightarrow> worker_step ops i (c, d) (c, d\<lparr>dr_store := st\<rparr>)"
| begins: "\<lbrakk>steady ops w; reconcile_consumed ops w i (dr_store d) = (st, r)\<rbrakk> \<Longrightarrow>
    worker_step ops i (AtStart, d)
      (AtTop, case r of Inl e \<Rightarrow> publish (ErrorPublished (CommandFailed (FInbox e))) (d\<lparr>dr_store := st\<rparr>)
              | Inr _ \<Rightarrow> d\<lparr>dr_store := st\<rparr>)"
| leaves: "worker_step ops i (AtTop, d) (Gone, d)"
| recovers: "\<lbrakk>dr_recovery_requested d; reserve_driver (dr_lifecycle d) = (l, Inr u)\<rbrakk> \<Longrightarrow>
    worker_step ops i (AtTop, d)
      (AtRecovery, set_status StatusRunning (d\<lparr>dr_recovery_requested := False, dr_lifecycle := l\<rparr>))"
| recovers_busy: "\<lbrakk>dr_recovery_requested d; reserve_driver (dr_lifecycle d) = (l, Inl e);
      gives_up (CommandFailed (FLifecycle e)) (d\<lparr>dr_recovery_requested := False\<rparr>) d'\<rbrakk> \<Longrightarrow>
    worker_step ops i (AtTop, d) (Gone, d')"
| snapshot_fails: "\<lbrakk>\<not> dr_recovery_requested d; inbox_snapshot ops i (dr_store d) = Inl e\<rbrakk> \<Longrightarrow>
    worker_step ops i (AtTop, d) (Gone, publish (ErrorPublished (CommandFailed (FInbox e))) d)"
| wakes_idle: "\<lbrakk>\<not> dr_recovery_requested d; dr_wake_requested d; inbox_snapshot ops i (dr_store d) = Inr p; ip_next_turn p = []\<rbrakk> \<Longrightarrow>
    worker_step ops i (AtTop, d) (AtTop, d\<lparr>dr_wake_requested := False\<rparr>)"
| wakes: "\<lbrakk>\<not> dr_recovery_requested d; dr_wake_requested d; inbox_snapshot ops i (dr_store d) = Inr p; ip_next_turn p \<noteq> [];
      reserve_driver (dr_lifecycle d) = (l, Inr u)\<rbrakk> \<Longrightarrow>
    worker_step ops i (AtTop, d)
      (AtPending, set_status StatusRunning (d\<lparr>dr_wake_requested := False, dr_lifecycle := l\<rparr>))"
| wakes_busy: "\<lbrakk>\<not> dr_recovery_requested d; dr_wake_requested d; inbox_snapshot ops i (dr_store d) = Inr p; ip_next_turn p \<noteq> [];
      reserve_driver (dr_lifecycle d) = (l, Inl e);
      gives_up (CommandFailed (FLifecycle e)) (d\<lparr>dr_wake_requested := False\<rparr>) d'\<rbrakk> \<Longrightarrow>
    worker_step ops i (AtTop, d) (Gone, d')"
| receives: "\<lbrakk>\<not> dr_recovery_requested d; \<not> dr_wake_requested d; inbox_snapshot ops i (dr_store d) = Inr p; steady ops w;
      handle_idle ops w i c d = (d', r)\<rbrakk> \<Longrightarrow>
    worker_step ops i (AtTop, d) (AtTop, d')"
| drive_fails: "\<lbrakk>c \<in> {AtPending, AtPermit, AtClaim, AtRecovery, AfterTurn} \<union> range AtBuild;
      outside_failure e; gives_up e (conclude d) d'\<rbrakk> \<Longrightarrow>
    worker_step ops i (c, d) (Gone, d')"
| is_paused: "\<lbrakk>so_load ops i (dr_store d) = Inr (Some s); dispatch_paused s; park_pending ops i d = (d1, Inr u)\<rbrakk> \<Longrightarrow>
    worker_step ops i (AtPending, d) (AtTop, conclude d1)"
| awaits_permit: "\<lbrakk>so_load ops i (dr_store d) = Inr s; \<not> (\<exists>s'. s = Some s' \<and> dispatch_paused s')\<rbrakk> \<Longrightarrow>
    worker_step ops i (AtPending, d) (AtPermit, d)"
| permit_cancelled: "park_pending ops i d = (d1, Inr u) \<Longrightarrow> worker_step ops i (AtPermit, d) (AtTop, conclude d1)"
| permit_command: "\<lbrakk>steady ops w; c \<noteq> Control LoopCancel; handle_idle ops w i c d = (d', r)\<rbrakk> \<Longrightarrow>
    worker_step ops i (AtPermit, d) (AtPermit, d')"
| permitted: "worker_step ops i (AtPermit, d) (AtClaim, d)"
| claims_nothing: "\<lbrakk>prepare_claim ops i NextTurn (dr_store d) = Inr claim; pc_messages claim = []\<rbrakk> \<Longrightarrow>
    worker_step ops i (AtClaim, d) (AtTop, conclude d)"
| claims: "\<lbrakk>prepare_claim ops i NextTurn (dr_store d) = Inr claim; pc_messages claim \<noteq> []\<rbrakk> \<Longrightarrow>
    worker_step ops i (AtClaim, d) (AtBuild claim, d)"
| starts: "next_turn ops i (dr_store d) = Inr t \<Longrightarrow>
    worker_step ops i (AtBuild claim, d) (InTurn t True, publish (TurnStarted t (claim_ids claim)) d)"
| restarts: "recovery_request ops i (dr_store d) = Some (Inr (t, work_id)) \<Longrightarrow>
    worker_step ops i (AtRecovery, d) (InTurn t False, publish (TurnStarted t [work_id]) d)"
| panics: "recovery_request ops i (dr_store d) = None \<Longrightarrow> worker_step ops i (AtRecovery, d) (Gone, d)"
| turn_command: "\<lbrakk>steady ops w; handle_active ops w i send c d = (d', r)\<rbrakk> \<Longrightarrow>
    worker_step ops i (InTurn t pending, d) (InTurn t pending, d')"
| turn_event: "worker_step ops i (InTurn t pending, d) (InTurn t pending, publish (TurnEvent t x) d)"
| turn_ends: "worker_step ops i (InTurn t True, d) (AfterTurn, publish (TurnFinished t y) d)"
| recovery_ends: "worker_step ops i (InTurn t False, d) (AtTop, conclude (publish (TurnFinished t y) d))"
| turn_stopped: "gives_up CommandClosed (conclude (publish (TurnFinished t y) d)) d' \<Longrightarrow>
    worker_step ops i (InTurn t pending, d) (Gone, d')"
| rests: "\<lbrakk>steady ops w; reconcile_consumed ops w i (dr_store d) = (st, Inr x); inbox_snapshot ops i st = Inr p;
      ip_next_turn p = []; \<not> dr_wake_requested d\<rbrakk> \<Longrightarrow>
    worker_step ops i (AfterTurn, d) (AtTop, conclude (d\<lparr>dr_store := st\<rparr>))"
| continues: "\<lbrakk>steady ops w; reconcile_consumed ops w i (dr_store d) = (st, Inr x); inbox_snapshot ops i st = Inr p;
      ip_next_turn p \<noteq> [] \<or> dr_wake_requested d\<rbrakk> \<Longrightarrow>
    worker_step ops i (AfterTurn, d) (AtPending, d\<lparr>dr_store := st, dr_wake_requested := False\<rparr>)"

inductive_cases top_stepE: "worker_step ops i (AtTop, d) x"

text \<open>A worker that \<open>start\<close> spawns on an activation.\<close>

definition new_driver :: "'st \<Rightarrow> agent_lifecycle \<Rightarrow> ('st, 'e, 'r) driver" where
  "new_driver st l =
     \<lparr>dr_store = st, dr_lifecycle = l, dr_status = StatusIdle, dr_wake_requested = False,
      dr_recovery_requested = False, dr_events = []\<rparr>"

subsection \<open>Turns are bracketed, and activities never collide\<close>

text \<open>The turn that is open after a sequence of events, \<open>None\<close> when the sequence is not bracketed.\<close>

fun open_after :: "u32 option \<Rightarrow> ('e, 'r) agent_event list \<Rightarrow> u32 option option" where
  "open_after t [] = Some t"
| "open_after t (TurnStarted u ids # es) = (if t = None \<and> ids \<noteq> [] then open_after (Some u) es else None)"
| "open_after t (TurnEvent u x # es) = (if t = Some u then open_after t es else None)"
| "open_after t (TurnFinished u y # es) = (if t = Some u then open_after None es else None)"
| "open_after t (_ # es) = open_after t es"

fun open_turn_at :: "place \<Rightarrow> u32 option" where
  "open_turn_at (InTurn t _) = Some t" | "open_turn_at _ = None"

fun driving :: "place \<Rightarrow> bool" where
  "driving AtStart = False" | "driving AtTop = False" | "driving Gone = False" | "driving _ = True"

fun quiet_event :: "('e, 'r) agent_event \<Rightarrow> bool" where
  "quiet_event (ErrorPublished e) = outside_failure e" | "quiet_event _ = True"

definition worker_inv :: "place \<times> ('st, 'e, 'r) driver \<Rightarrow> bool" where
  "worker_inv x \<longleftrightarrow>
     (case x of (c, d) \<Rightarrow>
        (c \<noteq> Gone \<longrightarrow> phase_status (al_phase (dr_lifecycle d)) = (if driving c then StatusRunning else StatusIdle)) \<and>
        (\<not> driving c \<longrightarrow> c \<noteq> Gone \<longrightarrow> al_phase (dr_lifecycle d) = PhaseIdle) \<and>
        (driving c \<longrightarrow> dr_status d = StatusRunning) \<and>
        (\<forall>claim. c = AtBuild claim \<longrightarrow> pc_messages claim \<noteq> []) \<and>
        open_after None (dr_events d) = Some (open_turn_at c) \<and> list_all quiet_event (dr_events d))"

lemma open_after_append:
  "open_after t (es @ es') = (case open_after t es of None \<Rightarrow> None | Some u \<Rightarrow> open_after u es')"
  by (induction t es rule: open_after.induct) auto

lemma publish_simps [simp]:
  "dr_store (publish e d) = dr_store d" "dr_lifecycle (publish e d) = dr_lifecycle d" "dr_status (publish e d) = dr_status d"
  "dr_wake_requested (publish e d) = dr_wake_requested d" "dr_recovery_requested (publish e d) = dr_recovery_requested d"
  "dr_events (publish e d) = dr_events d @ [e]"
  by (simp_all add: publish_def)

lemma set_status_simps [simp]:
  "dr_store (set_status x d) = dr_store d" "dr_lifecycle (set_status x d) = dr_lifecycle d" "dr_status (set_status x d) = x"
  "dr_wake_requested (set_status x d) = dr_wake_requested d" "dr_recovery_requested (set_status x d) = dr_recovery_requested d"
  "dr_events (set_status x d) = dr_events d @ [StatusChanged x]"
  by (simp_all add: set_status_def)

text \<open>Commands leave the lifecycle alone, never publish an idle status and publish no turn.\<close>

fun neutral_event :: "('e, 'r) agent_event \<Rightarrow> bool" where
  "neutral_event (TurnStarted _ _) = False" | "neutral_event (TurnEvent _ _) = False"
| "neutral_event (TurnFinished _ _) = False" | "neutral_event e = quiet_event e"

definition neutral :: "('st, 'e, 'r) driver \<Rightarrow> ('st, 'e, 'r) driver \<Rightarrow> bool" where
  "neutral d d' \<longleftrightarrow>
     dr_lifecycle d' = dr_lifecycle d \<and> (dr_status d' = dr_status d \<or> dr_status d' = StatusRunning) \<and>
     (\<exists>es. dr_events d' = dr_events d @ es \<and> list_all neutral_event es)"

lemma neutral_events: "list_all neutral_event es \<Longrightarrow> open_after t es = Some t \<and> list_all quiet_event es"
proof (induction es)
  case (Cons e es)
  then show ?case by (cases e) auto
qed simp

lemma neutral_refl [simp]: "neutral d d"
  by (simp add: neutral_def)

lemma neutral_trans: "neutral d d1 \<Longrightarrow> neutral d1 d2 \<Longrightarrow> neutral d d2"
  unfolding neutral_def by (auto simp: list_all_append)

lemma neutral_update [simp]:
  "neutral d (d1\<lparr>dr_store := st\<rparr>) = neutral d d1" "neutral d (d1\<lparr>dr_wake_requested := b\<rparr>) = neutral d d1"
  "neutral d (d1\<lparr>dr_recovery_requested := b\<rparr>) = neutral d d1"
  by (simp_all add: neutral_def)

lemma neutral_publish: "neutral_event e \<Longrightarrow> neutral d d1 \<Longrightarrow> neutral d (publish e d1)"
  by (rule neutral_trans) (auto simp: neutral_def)

lemma neutral_running: "neutral d d1 \<Longrightarrow> neutral d (set_status StatusRunning d1)"
  by (rule neutral_trans) (auto simp: neutral_def)

lemma persist_neutral: "neutral d (fst (persist ops w i target m d))"
  by (auto simp: persist_def intro: neutral_publish split: prod.split sum.split)

lemma park_neutral: "neutral d (fst (park_pending ops i d))"
  by (auto simp: park_pending_def Let_def intro: neutral_publish split: sum.split)

lemma awakened_neutral: "neutral d (fst x) \<Longrightarrow> neutral d (fst (awakened x))"
  by (auto simp: awakened_def intro: neutral_running split: prod.split sum.split)

lemma handle_idle_neutral: "neutral d (fst (handle_idle ops w i c d))"
  by (cases "(ops, w, i, c, d)" rule: handle_idle.cases)
    (auto intro: awakened_neutral persist_neutral park_neutral neutral_running)

lemma handle_active_neutral: "neutral d (fst (handle_active ops w i send c d))"
  using persist_neutral [of d ops w i]
  by (cases c) (auto simp: split_beta split: sum.split)

lemma worker_inv_neutral:
  assumes "worker_inv (c, d)" and "neutral d d'"
  shows "worker_inv (c, d')"
proof -
  from assms(2) obtain es where es: "dr_events d' = dr_events d @ es" "list_all neutral_event es"
    by (auto simp: neutral_def)
  note neutral_events [OF es(2), of "open_turn_at c"]
  with assms es(1) show ?thesis unfolding worker_inv_def neutral_def by (auto simp: open_after_append)
qed

lemma conclude_running:
  assumes "phase_status (al_phase (dr_lifecycle d)) = StatusRunning"
  shows "conclude d = set_status StatusIdle (d\<lparr>dr_lifecycle := (dr_lifecycle d)\<lparr>al_phase := PhaseIdle\<rparr>\<rparr>)"
  using assms by (cases "al_phase (dr_lifecycle d)") (simp_all add: conclude_def finish_driver_def)

lemma conclude_inv:
  assumes "phase_status (al_phase (dr_lifecycle d)) = StatusRunning" and "open_after None (dr_events d) = Some None"
    and "list_all quiet_event (dr_events d)"
  shows "worker_inv (AtTop, conclude d)" "worker_inv (Gone, conclude d)"
  using assms(2,3) by (simp_all add: worker_inv_def conclude_running [OF assms(1)] open_after_append)

lemma gives_up_inv: "worker_inv (Gone, d) \<Longrightarrow> gives_up e d d' \<Longrightarrow> outside_failure e \<Longrightarrow> worker_inv (Gone, d')"
  by (auto simp: worker_inv_def gives_up_def open_after_append)

lemma reserve_idle: "al_phase l = PhaseIdle \<Longrightarrow> reserve_driver l = (l\<lparr>al_phase := PhaseRunning (al_last_turn l) 0\<rparr>, Inr ())"
  by (simp add: reserve_driver_def)

lemma worker_step_inv: "worker_step ops i x x' \<Longrightarrow> worker_inv x \<Longrightarrow> worker_inv x'"
proof (induction rule: worker_step.induct)
  case (moves d st c)
  then show ?case by (auto simp: worker_inv_def)
next
  case (begins w d st r)
  then show ?case by (auto simp: worker_inv_def open_after_append split: sum.split)
next
  case (receives d p w c d' r)
  then show ?case using handle_idle_neutral [of d ops w i c] worker_inv_neutral [of AtTop d d'] by simp
next
  case (permit_command w c d d' r)
  then show ?case using handle_idle_neutral [of d ops w i c] worker_inv_neutral [of AtPermit d d'] by simp
next
  case (turn_command w send c d d' r t pending)
  then show ?case using handle_active_neutral [of d ops w i send c] worker_inv_neutral [of "InTurn t pending" d d'] by simp
next
  case (drive_fails c e d d')
  then have "worker_inv (Gone, conclude d)" by (intro conclude_inv) (auto simp: worker_inv_def)
  then show ?case using drive_fails(2,3) gives_up_inv by blast
next
  case (is_paused d s d1 u)
  then have "worker_inv (AtPending, d1)" using park_neutral [of d ops i] worker_inv_neutral by fastforce
  then show ?case by (intro conclude_inv) (auto simp: worker_inv_def)
next
  case (permit_cancelled d d1 u)
  then have "worker_inv (AtPermit, d1)" using park_neutral [of d ops i] worker_inv_neutral by fastforce
  then show ?case by (intro conclude_inv) (auto simp: worker_inv_def)
next
  case (claims_nothing d claim)
  then show ?case by (intro conclude_inv) (auto simp: worker_inv_def)
next
  case (recovery_ends t d y)
  then show ?case by (intro conclude_inv) (auto simp: worker_inv_def open_after_append)
next
  case (turn_stopped t y d d' pending)
  then have "worker_inv (Gone, conclude (publish (TurnFinished t y) d))"
    by (intro conclude_inv) (auto simp: worker_inv_def open_after_append)
  then show ?case using turn_stopped gives_up_inv by fastforce
next
  case (rests w d st x p)
  then show ?case by (intro conclude_inv) (auto simp: worker_inv_def)
qed (auto simp: worker_inv_def open_after_append reserve_idle claim_ids_def)

lemma worker_reachable_inv:
  assumes "(worker_step ops i)\<^sup>*\<^sup>* (AtStart, new_driver st l) x" and "al_phase l = PhaseIdle"
  shows "worker_inv x"
  using assms(1)
proof (induction rule: rtranclp_induct)
  case base
  then show ?case using assms(2) by (simp add: worker_inv_def new_driver_def)
qed (auto intro: worker_step_inv)


text \<open>Property C18. Whatever the engine, the factory, the other users of the store and the senders of
  commands do, what a worker publishes is a sequence of bracketed turns, each with at least one input
  and each closed before the next one starts or the worker rests; an activity never collides with
  another one, so no lifecycle error is ever published; and the worker reports Running whenever it is
  driving, while its lifecycle is idle whenever it waits for commands.\<close>

theorem worker_turns_bracketed:
  assumes "(worker_step ops i)\<^sup>*\<^sup>* (AtStart, new_driver st (new_lifecycle n)) (c, d)"
  shows "open_after None (dr_events d) = Some (open_turn_at c) \<and> list_all quiet_event (dr_events d) \<and>
    (driving c \<longrightarrow> dr_status d = StatusRunning) \<and>
    (c \<in> {AtStart, AtTop} \<longrightarrow> al_phase (dr_lifecycle d) = PhaseIdle)"
  using worker_reachable_inv [OF assms] by (auto simp: worker_inv_def new_lifecycle_def)

definition waiting_driver :: "(memory_store, unit, unit) driver" where
  "waiting_driver = new_driver pending_store (new_lifecycle 0)"

lemma pending_snapshot: "inbox_snapshot (memory_ops no_questions) ''s'' pending_store = Inr pending_projection"
  by (simp add: memory.snapshot_present [OF pending_memory] pending_inbox)

text \<open>A woken worker claims what is pending and is in the turn it started for it.\<close>

definition driven :: "(memory_store, unit, unit) driver" where
  "driven = publish (TurnStarted 1 [''m1'']) (set_status StatusRunning
     (waiting_driver\<lparr>dr_wake_requested := False, dr_lifecycle := (new_lifecycle 0)\<lparr>al_phase := PhaseRunning 0 0\<rparr>\<rparr>))"

lemma pending_drives:
  "(worker_step (memory_ops no_questions) ''s'')\<^sup>*\<^sup>* (AtStart, waiting_driver) (InTurn 1 True, driven)"
proof -
  let ?ops = "memory_ops no_questions" and ?i = "''s''" and ?d = waiting_driver
  let ?w = "?d\<lparr>dr_wake_requested := True\<rparr>"
  let ?l = "(new_lifecycle 0)\<lparr>al_phase := PhaseRunning 0 0\<rparr>"
  let ?r = "set_status StatusRunning (?d\<lparr>dr_wake_requested := False, dr_lifecycle := ?l\<rparr>)"
  let ?claim = "\<lparr>pc_expected_revision = 1, pc_messages = [inbox_user ''m1'' ''hello''],
          pc_deletion_events = [AgentInboxSpliced NextTurn 0 1 [] None]\<rparr>"
  have flags: "\<not> dr_recovery_requested ?d" "\<not> dr_wake_requested ?d" and store: "dr_store ?d = pending_store"
    and same: "?d\<lparr>dr_store := pending_store\<rparr> = ?d"
    by (simp_all add: waiting_driver_def new_driver_def)
  have rec: "reconcile_events (consumed_ids pending_session) pending_projection = []"
    by (simp add: reconcile_events_def consumed_ids_def pending_session_def pending_projection_def stage_def)
  have "reconcile_consumed ?ops quiet ?i pending_store = (pending_store, Inr None)"
    using memory.cas_loop_idle_other(1) [OF quiet_world(1) pending_memory] pending_inbox rec
    by (simp add: reconcile_consumed_def MAX_CAS_RETRIES_def numeral_eq_Suc del: cas_loop.simps)
  with store have s1: "worker_step ?ops ?i (AtStart, ?d) (AtTop, ?d)"
    using worker_step.begins [OF quiet_world(2), where i = ?i and d = ?d and st = pending_store and r = "Inr None"] same by simp
  have s2: "worker_step ?ops ?i (AtTop, ?d) (AtTop, ?w)"
    using worker_step.receives [OF flags _ quiet_world(2), where i = ?i and p = pending_projection and c = Wake and d' = ?w and r = "Inr ()"] store pending_snapshot
    by simp
  have s3: "worker_step ?ops ?i (AtTop, ?w) (AtPending, ?r)"
    using worker_step.wakes [where d = ?w and ops = ?ops and i = ?i and p = pending_projection and l = ?l and u = "()"] flags store pending_snapshot
    by (simp add: pending_projection_def reserve_driver_def waiting_driver_def new_driver_def new_lifecycle_def)
  have s4: "worker_step ?ops ?i (AtPending, ?r) (AtPermit, ?r)"
    using worker_step.awaits_permit [where ops = ?ops and i = ?i and d = ?r and s = "Some pending_session"] store pending_memory
    by (simp add: dispatch_paused_def pending_session_def stage_def)
  have s5: "worker_step ?ops ?i (AtPermit, ?r) (AtClaim, ?r)" by (rule worker_step.permitted)
  have s6: "worker_step ?ops ?i (AtClaim, ?r) (AtBuild ?claim, ?r)"
    using worker_step.claims [where ops = ?ops and i = ?i and d = ?r and claim = ?claim] store pending_claim by simp
  have s7: "worker_step ?ops ?i (AtBuild ?claim, ?r) (InTurn 1 True, driven)"
    using worker_step.starts [where ops = ?ops and i = ?i and d = ?r and t = 1 and claim = ?claim] store pending_memory
    by (simp add: driven_def next_turn_def last_turn_start_def pending_session_def checked_add_def claim_ids_def
        inbox_user_def with_id_def stage_def)
  note step = converse_rtranclp_into_rtranclp [where r = "worker_step ?ops ?i"]
  show ?thesis
    by (rule step [OF s1], rule step [OF s2], rule step [OF s3], rule step [OF s4], rule step [OF s5],
        rule step [OF s6], rule step [OF s7], rule rtranclp.rtrancl_refl)
qed

theorem worker_turns_bracketed_witness:
  "open_after None (dr_events driven) = Some (Some 1) \<and> dr_status driven = StatusRunning"
  using worker_turns_bracketed [OF pending_drives [unfolded waiting_driver_def]] by simp

subsection \<open>Followups\<close>

lemma append_projects:
  assumes "session_ok dec s'" and "from_session s = Inr p" and "insert_plan target Back m p = Inr (Some e)"
    and "append_batch_at dec s (se_revision s) [e] now = (s', Inr rc)"
  shows "from_session s' = Inr (ip_set p target (ip_list p target @ [m]))"
proof -
  have e: "e = AgentInboxSpliced target (length (ip_list p target)) 0 [m] None"
    using assms(3) by (simp add: insert_plan_def and_then_eq_Inr)
  have "map le_event (se_events s') = map le_event (se_events s) @ [e]"
    using append_batch_cases [OF assms(4)] by auto
  then have "from_session s' = project_event e p"
    using assms(2) by (cases "project_event e p") (auto simp: from_session_def project_events_append)
  moreover obtain q where "from_session s' = Inr q" using inbox_of_session [OF assms(1)] by blast
  ultimately show ?thesis
    using e by (auto simp: apply_splice_def checked_add_usize_def splice_def Let_def split: if_splits)
qed

text \<open>Property C19. A followup that an idle worker acknowledges is in the stored session by then, whatever the
  other users of the store did meanwhile, at the end of the queue of the next turn; the worker reports
  Running; and it will not wait again before it has started to drive: unless the session moves or the
  worker is shut down, its next step is to reserve the agent and look at what is pending.\<close>

theorem acknowledged_followup_drives:
  assumes "steady (memory_ops dec) w" and "memory_ok dec (dr_store d)" and "map_of (dr_store d) i = Some s0"
    and "al_phase (dr_lifecycle d) = PhaseIdle" and "\<not> dr_recovery_requested d"
    and "handle_idle (memory_ops dec) w i (Followup m) d = (d', Inr ())"
  shows "dr_status d' = StatusRunning \<and>
    (\<exists>s' p before. map_of (dr_store d') i = Some s' \<and> extends s0 s' \<and> from_session s' = Inr p \<and>
       ip_next_turn p = before @ [m]) \<and>
    (\<forall>c x. worker_step (memory_ops dec) i (AtTop, d') (c, x) \<longrightarrow>
       (\<exists>st. c = AtTop \<and> x = d'\<lparr>dr_store := st\<rparr>) \<or> (c = Gone \<and> x = d') \<or>
       (c = AtPending \<and> dr_status x = StatusRunning \<and> dr_store x = dr_store d'))"
proof -
  let ?ops = "memory_ops dec"
  obtain st' out where mut: "mutate ?ops w i (insert_plan NextTurn Back m) (dr_store d) = (st', out)" by fastforce
  from assms(6) mut obtain rc where out: "out = Inr (Some rc)"
    and d': "d' = set_status StatusRunning (publish (InboxInserted NextTurn m) (d\<lparr>dr_store := st'\<rparr>)\<lparr>dr_wake_requested := True\<rparr>)"
    by (auto simp: awakened_def persist_def inbox_append_def insert_at_def split: prod.splits sum.splits option.splits)
  obtain s p e now s' where s: "extends s0 s" "from_session s = Inr p" "insert_plan NextTurn Back m p = Inr (Some e)"
    "append_batch_at dec s (se_revision s) [e] now = (s', Inr rc)" "map_of st' i = Some s'"
    using memory_mutation [OF assms(1-3) mut] out by auto
  have run: "store_run ?ops (dr_store d) st'"
    using memory.cas_loop_atomic [OF assms(1,2), of i s0] mut assms(3) by (simp add: mutate_def memory_load_iff)
  have ok: "session_ok dec s'" using memory.run_ok [OF run assms(2)] s(5) by (auto dest: memory_okD)
  note p' = append_projects [OF ok s(2,3,4)]
  have ext: "extends s0 s'" using memory.run_extends [OF run assms(2), of i s0] assms(3) s(5) by (auto simp: memory_load_iff)
  have snap: "inbox_snapshot ?ops i (dr_store d') = Inr (p\<lparr>ip_next_turn := ip_next_turn p @ [m]\<rparr>)"
    using memory.snapshot_present [of dec i st' s'] s(5) p' d' by (simp add: memory_load_iff)
  have flags: "\<not> dr_recovery_requested d'" "dr_wake_requested d'" "al_phase (dr_lifecycle d') = PhaseIdle"
    using assms(4,5) d' by simp_all
  have "(\<exists>st. c = AtTop \<and> x = d'\<lparr>dr_store := st\<rparr>) \<or> (c = Gone \<and> x = d') \<or>
       (c = AtPending \<and> dr_status x = StatusRunning \<and> dr_store x = dr_store d')"
    if "worker_step ?ops i (AtTop, d') (c, x)" for c x
    using that flags snap by (cases rule: top_stepE) (auto simp: reserve_idle)
  then show ?thesis using d' s(5) p' ext by auto
qed

theorem acknowledged_followup_drives_witness:
  "\<exists>d' p before. handle_idle (memory_ops no_questions) quiet ''s'' (Followup (inbox_user ''m2'' ''again'')) waiting_driver =
       (d', Inr ()) \<and>
     inbox_snapshot (memory_ops no_questions) ''s'' (dr_store d') = Inr p \<and>
     ip_next_turn p = before @ [inbox_user ''m2'' ''again'']"
proof -
  let ?ops = "memory_ops no_questions" and ?m = "inbox_user ''m2'' ''again''"
  have store: "dr_store waiting_driver = pending_store" and flags: "al_phase (dr_lifecycle waiting_driver) = PhaseIdle"
    "\<not> dr_recovery_requested waiting_driver"
    by (simp_all add: waiting_driver_def new_driver_def new_lifecycle_def)
  have m: "wf_message ?m" "bounded pending_projection" "wf_inbox pending_projection"
    using pending_inbox inbox_of_session [of no_questions pending_session] memory_okD [OF pending_ok pending_at]
    by (simp_all add: wf_message_def inbox_user_def with_id_def user_message_def new_message_def bounded_def
        pending_projection_def usize_max_def)
  have "locate pending_projection (im_id ?m) = None"
    by (simp add: locate_def pending_projection_def inbox_user_def)
  then obtain e q where plan: "insert_plan NextTurn Back ?m pending_projection = Inr (Some e)"
    "splices_run [e] pending_projection = Some q"
    using insert_run [OF m(3,2,1), of NextTurn Back] by auto
  obtain st' rc where "mutate ?ops quiet ''s'' (insert_plan NextTurn Back ?m) pending_store = (st', Inr (Some rc))"
    using memory.mutate_splice [where build = "insert_plan NextTurn Back ?m",
        OF quiet_world(1) pending_ok pending_memory pending_inbox _ plan]
    by (auto simp: pending_session_def)
  then obtain d' where d': "handle_idle ?ops quiet ''s'' (Followup ?m) waiting_driver = (d', Inr ())"
    using store by (simp add: awakened_def persist_def inbox_append_def insert_at_def)
  from acknowledged_followup_drives [OF quiet_world(2) _ _ flags this] store pending_ok pending_at
  obtain s' p before where "map_of (dr_store d') ''s'' = Some s'" "from_session s' = Inr p" "ip_next_turn p = before @ [?m]"
    by auto
  then show ?thesis using d' memory.snapshot_present [of no_questions "''s''" "dr_store d'" s'] by (auto simp: memory_load_iff)
qed


subsection \<open>A steer without a turn\<close>

definition bare_session :: session where
  "bare_session = \<lparr>se_header = new_header ''s'' 0, se_revision = 0, se_events = []\<rparr>"

definition bare_store :: memory_store where
  "bare_store = [(''s'', bare_session)]"

text \<open>Property C38. An idle worker that acknowledges a steer puts the message into the queue of the next step
  and reports Running; but only the queue of the next turn wakes it up.  If that queue is empty, it goes
  back to waiting for commands without a turn, still reporting Running, and nothing but another command
  makes it drive: who waits for the agent to become idle waits for ever.\<close>

theorem idle_steer_sticks:
  "\<exists>d1 d2. handle_idle (memory_ops no_questions) quiet ''s'' (SteerCommand (inbox_user ''m1'' ''hello''))
       (new_driver bare_store (new_lifecycle 0) :: (memory_store, unit, unit) driver) = (d1, Inr ()) \<and>
     worker_step (memory_ops no_questions) ''s'' (AtTop, d1) (AtTop, d2) \<and>
     dr_status d2 = StatusRunning \<and> al_phase (dr_lifecycle d2) = PhaseIdle \<and>
     inbox_snapshot (memory_ops no_questions) ''s'' (dr_store d2) =
       Inr \<lparr>ip_next_turn = [], ip_next_step = [inbox_user ''m1'' ''hello'']\<rparr> \<and>
     \<not> (\<exists>c x. worker_step (memory_ops no_questions) ''s'' (AtTop, d2) (c, x) \<and> c \<noteq> AtTop \<and> c \<noteq> Gone)"
proof -
  let ?ops = "memory_ops no_questions" and ?m = "inbox_user ''m1'' ''hello''"
  let ?d = "new_driver bare_store (new_lifecycle 0) :: (memory_store, unit, unit) driver"
  have ok: "memory_ok no_questions bare_store"
    by (simp add: memory_ok_def bare_store_def session_ok_def bare_session_def validate_header_def new_header_def
        FORMAT_VERSION_def run_validator)
  have load: "so_load ?ops ''s'' bare_store = Inr (Some bare_session)"
    by (simp add: memory_load_iff bare_store_def)
  have empty: "from_session bare_session = Inr empty_projection" by (simp add: from_session_def bare_session_def)
  have m: "wf_message ?m" "bounded empty_projection" "wf_inbox empty_projection"
    by (simp_all add: wf_message_def inbox_user_def with_id_def user_message_def new_message_def bounded_def
        empty_projection_def usize_max_def wf_inbox_def)
  have "locate empty_projection (im_id ?m) = None" by (simp add: locate_def empty_projection_def)
  then obtain e where plan: "insert_plan NextStep Back ?m empty_projection = Inr (Some e)"
    "splices_run [e] empty_projection = Some \<lparr>ip_next_turn = [], ip_next_step = [?m]\<rparr>"
    using insert_run [OF m(3,2,1), of NextStep Back] by (auto simp: empty_projection_def)
  obtain st' rc s' where mut: "mutate ?ops quiet ''s'' (insert_plan NextStep Back ?m) bare_store = (st', Inr (Some rc))"
    "so_load ?ops ''s'' st' = Inr (Some s')" "from_session s' = Inr \<lparr>ip_next_turn = [], ip_next_step = [?m]\<rparr>"
    using memory.mutate_splice [where build = "insert_plan NextStep Back ?m", OF quiet_world(1) ok load empty _ plan]
    by (auto simp: bare_session_def)
  define d1 where "d1 = set_status StatusRunning (publish (InboxInserted NextStep ?m) (?d\<lparr>dr_store := st'\<rparr>)\<lparr>dr_wake_requested := True\<rparr>)"
  define d2 where "d2 = d1\<lparr>dr_wake_requested := False\<rparr>"
  have "handle_idle ?ops quiet ''s'' (SteerCommand ?m) ?d = (d1, Inr ())"
    using mut(1) by (simp add: d1_def awakened_def persist_def inbox_append_def insert_at_def new_driver_def)
  moreover have snap: "inbox_snapshot ?ops ''s'' st' = Inr \<lparr>ip_next_turn = [], ip_next_step = [?m]\<rparr>"
    using memory.snapshot_present [OF mut(2)] mut(3) by simp
  moreover have "worker_step ?ops ''s'' (AtTop, d1) (AtTop, d2)"
    unfolding d2_def using snap worker_step.wakes_idle [of d1 ?ops "''s''"] by (simp add: d1_def new_driver_def)
  moreover have "\<not> (\<exists>c x. worker_step ?ops ''s'' (AtTop, d2) (c, x) \<and> c \<noteq> AtTop \<and> c \<noteq> Gone)"
    by (auto simp: d2_def d1_def new_driver_def elim!: top_stepE)
  ultimately show ?thesis
    by (intro exI [of _ d1] exI [of _ d2]) (simp add: d2_def d1_def new_driver_def new_lifecycle_def)
qed

end
