(* ===== verification/Schedule.thy ===== *)
theory Schedule
  imports Inbox Tool_Schema "HOL-Library.Product_Lexorder"
begin

text \<open>
  Reminders of a session (xharness-schedule/src/lib.rs): the rules a session log holds, which of them are
  due, and the three tools that create, list and delete them.

  Dates are the chrono crate's: \<open>time_lib\<close> is what the code uses of it, on UTC instants \<open>'t\<close>, dates \<open>'d\<close>,
  times of day \<open>'c\<close> and zones \<open>'z\<close>.  An i64 is an \<open>int\<close> whose range is checked where the code checks it.  A
  tool's answer is a \<open>schedule_value\<close>: the JSON object without the wording of its message.
\<close>

definition MIN_EVERY_INTERVAL_SECONDS :: u64 where "MIN_EVERY_INTERVAL_SECONDS = 300"

subsection \<open>Instants\<close>

datatype 't local_result = LocalNone | LocalSingle 't | LocalAmbiguous 't 't

record ('t, 'd, 'c, 'z) time_lib =
  tl_parse_rfc3339 :: "string \<Rightarrow> 't option"
  tl_format :: "'t \<Rightarrow> string"
  tl_year :: "'t \<Rightarrow> int"
  tl_millis :: "'t \<Rightarrow> int"
  tl_from_millis :: "int \<Rightarrow> 't option"
  tl_date :: "string \<Rightarrow> 'd option"
  tl_time :: "string \<Rightarrow> 'c option"
  tl_zone :: "string \<Rightarrow> 'z option"
  tl_local :: "'z \<Rightarrow> 'd \<Rightarrow> 'c \<Rightarrow> 't local_result"

datatype schedule_error =
    MissingSession string
  | ScheduleStore store_error
  | ScheduleContended
  | Corrupt string
  | ScheduleClosed
  | SchedulePanic string

datatype schedule_value =
    PublicError string
  | PersistenceUncertain string "string option"
  | ScheduleView schedule_record bool
  | ScheduleViews "(schedule_record \<times> bool) list"
  | ScheduleDeleted string bool

definition i64 :: "int \<Rightarrow> int option" where
  "i64 n = (if - (2 ^ 63) \<le> n \<and> n < 2 ^ 63 then Some n else None)"

definition i64_saturated :: "int \<Rightarrow> int" where
  "i64_saturated n = max (- (2 ^ 63)) (min (2 ^ 63 - 1) n)"

definition seconds_to_ms :: "u64 \<Rightarrow> int option" where
  "seconds_to_ms seconds = Option.bind (i64 (uint seconds)) (\<lambda>s. i64 (s * 1000))"

definition time_out_of_range :: schedule_value where
  "time_out_of_range = PublicError ''time_out_of_range''"

definition in_years :: "('t, 'd, 'c, 'z) time_lib \<Rightarrow> 't \<Rightarrow> bool" where
  "in_years cal t \<longleftrightarrow> 1 \<le> tl_year cal t \<and> tl_year cal t \<le> 9999"

definition checked_year :: "('t, 'd, 'c, 'z) time_lib \<Rightarrow> 't \<Rightarrow> schedule_value + int" where
  "checked_year cal t = (if in_years cal t then Inr (tl_millis cal t) else Inl time_out_of_range)"

definition canonical_instant_from_ms :: "('t, 'd, 'c, 'z) time_lib \<Rightarrow> int \<Rightarrow> string option" where
  "canonical_instant_from_ms cal epoch_ms =
     (case tl_from_millis cal epoch_ms of
        None \<Rightarrow> None
      | Some t \<Rightarrow> if in_years cal t then Some (tl_format cal t) else None)"

definition parse_canonical_instant :: "('t, 'd, 'c, 'z) time_lib \<Rightarrow> string \<Rightarrow> schedule_error + int" where
  "parse_canonical_instant cal x =
     (case tl_parse_rfc3339 cal x of
        None \<Rightarrow> Inl (Corrupt ''invalid UTC instant'')
      | Some t \<Rightarrow>
          if tl_format cal t \<noteq> x then Inl (Corrupt ''instant is not canonical millisecond UTC'')
          else map_err (\<lambda>_. Corrupt ''instant year is out of range'') (checked_year cal t))"

definition future_instant :: "('t, 'd, 'c, 'z) time_lib \<Rightarrow> int \<Rightarrow> int \<Rightarrow> schedule_value + string" where
  "future_instant cal target now =
     (if target \<le> now then Inl (PublicError ''not_future'')
      else case canonical_instant_from_ms cal target of
        None \<Rightarrow> Inl time_out_of_range
      | Some x \<Rightarrow> Inr x)"

subsection \<open>The selector of a new rule\<close>

datatype selector = SelectAfter u64 | SelectAt json | SelectEvery u64

definition selector_integer :: "(string \<Rightarrow> u64 option) \<Rightarrow> json_object \<Rightarrow> string \<Rightarrow> schedule_value + u64" where
  "selector_integer as_u64 arguments name =
     (case map_of arguments name of
        Some (JNumber n) \<Rightarrow> (case as_u64 n of None \<Rightarrow> Inl (PublicError ''invalid_rule'') | Some x \<Rightarrow> Inr x)
      | _ \<Rightarrow> Inl (PublicError ''invalid_rule''))"

definition parse_selector :: "(string \<Rightarrow> u64 option) \<Rightarrow> json_object \<Rightarrow> schedule_value + selector" where
  "parse_selector as_u64 arguments =
     (case filter (\<lambda>name. map_of arguments name \<noteq> None) [''after_seconds'', ''at'', ''every_seconds''] of
        [name] \<Rightarrow>
          if name = ''after_seconds'' then and_then (selector_integer as_u64 arguments name) (\<lambda>n. Inr (SelectAfter n))
          else if name = ''at'' then Inr (SelectAt (the (map_of arguments name)))
          else and_then (selector_integer as_u64 arguments name) (\<lambda>n. Inr (SelectEvery n))
      | _ \<Rightarrow> Inl (PublicError ''invalid_selector''))"

definition byte_at :: "string \<Rightarrow> nat \<Rightarrow> char option" where
  "byte_at s n = (if n < length s then Some (s ! n) else None)"

definition rfc3339_shape :: "string \<Rightarrow> bool" where
  "rfc3339_shape x \<longleftrightarrow>
     \<not> (length x < 20 \<or> byte_at x 4 \<noteq> Some CHR ''-'' \<or> byte_at x 7 \<noteq> Some CHR ''-'' \<or> byte_at x 10 \<noteq> Some CHR ''T'' \<or>
        \<not> (suffix ''Z'' x \<or>
           6 \<le> length x \<and> x ! (length x - 6) \<in> {CHR ''+'', CHR ''-''} \<and> x ! (length x - 3) = CHR '':'') \<or>
        suffix ''-00:00'' x)"

definition is_digit :: "char \<Rightarrow> bool" where
  "is_digit c \<longleftrightarrow> 48 \<le> byte c \<and> byte c \<le> 57"

definition parse_local_time :: "('t, 'd, 'c, 'z) time_lib \<Rightarrow> string \<Rightarrow> schedule_value + 'c" where
  "parse_local_time cal x =
     (let valid_shape = 8 \<le> length x \<and> byte_at x 2 = Some CHR '':'' \<and> byte_at x 5 = Some CHR '':'' \<and>
        (length x = 8 \<or>
         byte_at x 8 = Some CHR ''.'' \<and> 10 \<le> length x \<and> length x \<le> 12 \<and> list_all is_digit (drop 9 x)) in
      if \<not> valid_shape then Inl (PublicError ''invalid_rule'')
      else case tl_time cal x of None \<Rightarrow> Inl (PublicError ''invalid_rule'') | Some c \<Rightarrow> Inr c)"

definition parse_local :: "('t, 'd, 'c, 'z) time_lib \<Rightarrow> string \<Rightarrow> string \<Rightarrow> string \<Rightarrow> schedule_value + int" where
  "parse_local cal date time zone =
     (if trim zone \<noteq> zone \<or> (zone \<noteq> ''UTC'' \<and> CHR ''/'' \<notin> set zone) then Inl (PublicError ''invalid_time_zone'')
      else case tl_date cal date of
        None \<Rightarrow> Inl (PublicError ''invalid_rule'')
      | Some d \<Rightarrow>
          and_then (parse_local_time cal time) (\<lambda>c.
          case tl_zone cal zone of
            None \<Rightarrow> Inl (PublicError ''invalid_time_zone'')
          | Some z \<Rightarrow>
              (case tl_local cal z d c of
                 LocalNone \<Rightarrow> Inl (PublicError ''invalid_rule'')
               | LocalSingle t \<Rightarrow> checked_year cal t
               | LocalAmbiguous left right \<Rightarrow>
                   checked_year cal (if tl_millis cal left \<le> tl_millis cal right then left else right))))"

definition parse_at :: "('t, 'd, 'c, 'z) time_lib \<Rightarrow> json \<Rightarrow> schedule_value + int" where
  "parse_at cal x =
     (case x of
        JString text \<Rightarrow>
          if \<not> rfc3339_shape text then Inl (PublicError ''invalid_rule'')
          else (case tl_parse_rfc3339 cal text of
                  None \<Rightarrow> Inl (PublicError ''invalid_rule'')
                | Some t \<Rightarrow> checked_year cal t)
      | JObject fs \<Rightarrow>
          if length fs \<noteq> 3 \<or> map_of fs ''date'' = None \<or> map_of fs ''time'' = None \<or> map_of fs ''time_zone'' = None
          then Inl (PublicError ''invalid_rule'')
          else (case (Option.bind (map_of fs ''date'') as_str, Option.bind (map_of fs ''time'') as_str) of
                  (Some date, Some time) \<Rightarrow>
                    (case Option.bind (map_of fs ''time_zone'') as_str of
                       None \<Rightarrow> Inl (PublicError ''invalid_time_zone'')
                     | Some zone \<Rightarrow> parse_local cal date time zone)
                | _ \<Rightarrow> Inl (PublicError ''invalid_rule''))
      | _ \<Rightarrow> Inl (PublicError ''invalid_rule''))"

fun create_record ::
  "('t, 'd, 'c, 'z) time_lib \<Rightarrow> string \<Rightarrow> string \<Rightarrow> selector \<Rightarrow> int \<Rightarrow> schedule_value + schedule_record" where
  "create_record cal i prompt selector now =
     (let prompt = trim prompt in
      if prompt = [] then Inl (PublicError ''invalid_prompt'')
      else case selector of
        SelectAfter seconds \<Rightarrow>
          if seconds = 0 then Inl (PublicError ''invalid_rule'')
          else (case Option.bind (seconds_to_ms seconds) (\<lambda>delay. i64 (now + delay)) of
                  None \<Rightarrow> Inl time_out_of_range
                | Some target \<Rightarrow>
                    and_then (future_instant cal target now) (\<lambda>x.
                    Inr \<lparr>sc_id = i, sc_kind = After, sc_prompt = prompt, sc_after_seconds = Some seconds,
                         sc_every_seconds = None, sc_scheduled_at = x\<rparr>))
      | SelectAt v \<Rightarrow>
          and_then (parse_at cal v) (\<lambda>target.
          and_then (future_instant cal target now) (\<lambda>x.
          Inr \<lparr>sc_id = i, sc_kind = At, sc_prompt = prompt, sc_after_seconds = None,
               sc_every_seconds = None, sc_scheduled_at = x\<rparr>))
      | SelectEvery seconds \<Rightarrow>
          if seconds < MIN_EVERY_INTERVAL_SECONDS then Inl (PublicError ''frequency_too_high'')
          else (case Option.bind (seconds_to_ms seconds) (\<lambda>interval. i64 (now + interval)) of
                  None \<Rightarrow> Inl time_out_of_range
                | Some target \<Rightarrow>
                    and_then (future_instant cal target now) (\<lambda>x.
                    Inr \<lparr>sc_id = i, sc_kind = Every, sc_prompt = prompt, sc_after_seconds = None,
                         sc_every_seconds = Some seconds, sc_scheduled_at = x\<rparr>)))"

declare create_record.simps [simp del]

subsection \<open>The rules a log holds\<close>

record folded =
  fs_active :: "schedule_record list"
  fs_seen_ids :: "string set"

record every_occurrence =
  eo_occurrence_at :: string
  eo_next_scheduled_at :: "string option"

definition resolve_every_occurrence ::
  "('t, 'd, 'c, 'z) time_lib \<Rightarrow> schedule_record \<Rightarrow> int \<Rightarrow> schedule_error + every_occurrence" where
  "resolve_every_occurrence cal r accepted_at =
     and_then (parse_canonical_instant cal (sc_scheduled_at r)) (\<lambda>target.
     case sc_every_seconds r of
       None \<Rightarrow> Inl (Corrupt ''every record has no interval'')
     | Some seconds \<Rightarrow>
         (case seconds_to_ms seconds of
            None \<Rightarrow> Inl (Corrupt ''every interval overflow'')
          | Some interval \<Rightarrow>
              if accepted_at < target then Inl (Corrupt ''every dispatch precedes scheduledAt'')
              else if i64 (accepted_at - target) = None then Inl (SchedulePanic ''attempt to subtract with overflow'')
              else if interval = 0 then Inl (SchedulePanic ''attempt to divide by zero'')
              else
                (let steps = (accepted_at - target) div interval in
                 case i64 (target + i64_saturated (steps * interval)) of
                   None \<Rightarrow> Inl (Corrupt ''every occurrence overflow'')
                 | Some occurrence \<Rightarrow>
                     (case canonical_instant_from_ms cal occurrence of
                        None \<Rightarrow> Inl (Corrupt ''every occurrence out of range'')
                      | Some x \<Rightarrow>
                          Inr \<lparr>eo_occurrence_at = x,
                               eo_next_scheduled_at =
                                 Option.bind (i64 (occurrence + interval)) (canonical_instant_from_ms cal)\<rparr>))))"

fun fold_change :: "('t, 'd, 'c, 'z) time_lib \<Rightarrow> schedule_change \<Rightarrow> folded \<Rightarrow> schedule_error + folded" where
  "fold_change cal (ScheduleCreate version r) f =
     (if version \<noteq> 1 \<or> sc_id r \<in> fs_seen_ids f \<or> trim (sc_prompt r) = [] \<or> trim (sc_prompt r) \<noteq> sc_prompt r
      then Inl (Corrupt ''invalid or reused schedule create'')
      else and_then (parse_canonical_instant cal (sc_scheduled_at r)) (\<lambda>_.
        Inr \<lparr>fs_active = fs_active f @ [r], fs_seen_ids = insert (sc_id r) (fs_seen_ids f)\<rparr>))"
| "fold_change cal (ScheduleDelete version i) f =
     (if version \<noteq> 1 then Inl (Corrupt ''unsupported schedule version'')
      else case position (\<lambda>r. sc_id r = i) (fs_active f) of
        None \<Rightarrow> Inl (Corrupt ''delete targets inactive id'')
      | Some n \<Rightarrow> Inr (f\<lparr>fs_active := splice n (n + 1) [] (fs_active f)\<rparr>))"
| "fold_change cal (ScheduleDispatch version i accepted_at) f =
     (if version \<noteq> 1 then Inl (Corrupt ''unsupported schedule version'')
      else case position (\<lambda>r. sc_id r = i) (fs_active f) of
        None \<Rightarrow> Inl (Corrupt ''dispatch targets inactive id'')
      | Some n \<Rightarrow>
          if sc_kind (fs_active f ! n) = Every then
            (case accepted_at of
               None \<Rightarrow> Inl (Corrupt ''every dispatch has no acceptedAt'')
             | Some accepted \<Rightarrow>
                 and_then (parse_canonical_instant cal accepted) (\<lambda>t.
                 and_then (resolve_every_occurrence cal (fs_active f ! n) t) (\<lambda>occurrence.
                 Inr (case eo_next_scheduled_at occurrence of
                        Some x \<Rightarrow> f\<lparr>fs_active := (fs_active f)[n := (fs_active f ! n)\<lparr>sc_scheduled_at := x\<rparr>]\<rparr>
                      | None \<Rightarrow> f\<lparr>fs_active := splice n (n + 1) [] (fs_active f)\<rparr>))))
          else if accepted_at \<noteq> None then Inl (Corrupt ''one-shot dispatch carries acceptedAt'')
          else Inr (f\<lparr>fs_active := splice n (n + 1) [] (fs_active f)\<rparr>))"

fun fold_events :: "('t, 'd, 'c, 'z) time_lib \<Rightarrow> event_data list \<Rightarrow> folded \<Rightarrow> schedule_error + folded" where
  "fold_events cal [] f = Inr f"
| "fold_events cal (ScheduleChange change # es) f = and_then (fold_change cal change f) (fold_events cal es)"
| "fold_events cal (_ # es) f = fold_events cal es f"

definition fold_schedule_events :: "('t, 'd, 'c, 'z) time_lib \<Rightarrow> session \<Rightarrow> schedule_error + folded" where
  "fold_schedule_events cal s = fold_events cal (map le_event (se_events s)) \<lparr>fs_active = [], fs_seen_ids = {}\<rparr>"

definition has_active_schedules :: "('t, 'd, 'c, 'z) time_lib \<Rightarrow> session \<Rightarrow> schedule_error + bool" where
  "has_active_schedules cal s = and_then (fold_schedule_events cal s) (\<lambda>f. Inr (fs_active f \<noteq> []))"

definition schedule_id :: "nat \<Rightarrow> string" where
  "schedule_id sequence = ''schedule-'' @ show_nat sequence"

text \<open>The loop of \<open>allocate_id\<close>; None is a loop that never ends.\<close>

partial_function (option) allocate_from :: "string set \<Rightarrow> nat \<Rightarrow> string option" where
  "allocate_from seen sequence =
     (let candidate = schedule_id sequence in
      if candidate \<notin> seen then Some candidate else allocate_from seen (saturating_add_usize sequence 1))"

definition allocate_id :: "folded \<Rightarrow> string option" where
  "allocate_id f = allocate_from (fs_seen_ids f) (saturating_add_usize (card (fs_seen_ids f)) 1)"

subsection \<open>What is due\<close>

datatype due_decision =
    DueOneShot schedule_record
  | DueEvery string "(schedule_record \<times> string) list"
  | DueWait "int option"

fun collect_results :: "('a \<Rightarrow> 'e + 'b) \<Rightarrow> 'a list \<Rightarrow> 'e + 'b list" where
  "collect_results f [] = Inr []"
| "collect_results f (x # xs) = and_then (f x) (\<lambda>y. and_then (collect_results f xs) (\<lambda>ys. Inr (y # ys)))"

text \<open>The due rules of one sort (\<open>every\<close> or not), ordered by target and then by creation.\<close>

definition due_rules ::
  "('t, 'd, 'c, 'z) time_lib \<Rightarrow> folded \<Rightarrow> int \<Rightarrow> bool \<Rightarrow> schedule_error + (int \<times> nat \<times> schedule_record) list" where
  "due_rules cal f now every =
     and_then (collect_results (\<lambda>(index, r). and_then (parse_canonical_instant cal (sc_scheduled_at r)) (\<lambda>target. Inr (target, index, r)))
                (filter (\<lambda>(index, r). (sc_kind r = Every) = every) (enumerate 0 (fs_active f)))) (\<lambda>due.
     Inr (sort_key (\<lambda>(target, index, r). (target, index)) (filter (\<lambda>(target, index, r). target \<le> now) due)))"

definition due_decision :: "('t, 'd, 'c, 'z) time_lib \<Rightarrow> folded \<Rightarrow> int \<Rightarrow> schedule_error + due_decision" where
  "due_decision cal f now =
     and_then (due_rules cal f now False) (\<lambda>due_one_shot.
     case due_one_shot of
       (_, _, r) # _ \<Rightarrow> Inr (DueOneShot r)
     | [] \<Rightarrow>
         and_then (due_rules cal f now True) (\<lambda>due_every.
         if due_every \<noteq> [] then
           (case canonical_instant_from_ms cal now of
              None \<Rightarrow> Inl (Corrupt ''wall clock is out of range'')
            | Some accepted_at \<Rightarrow>
                and_then (collect_results (\<lambda>(_, _, r). and_then (resolve_every_occurrence cal r now)
                                             (\<lambda>occurrence. Inr (r, eo_occurrence_at occurrence))) due_every) (\<lambda>reminders.
                Inr (DueEvery accepted_at reminders)))
         else
           and_then (collect_results (\<lambda>r. parse_canonical_instant cal (sc_scheduled_at r)) (fs_active f)) (\<lambda>targets.
           Inr (DueWait (case sort (filter (\<lambda>target. now < target) targets) of [] \<Rightarrow> None | target # _ \<Rightarrow> Some target)))))"

subsection \<open>Transactions\<close>

definition load_session :: "'st store_ops \<Rightarrow> string \<Rightarrow> 'st \<Rightarrow> schedule_error + session" where
  "load_session ops i st =
     (case so_load ops i st of
        Inl e \<Rightarrow> Inl (ScheduleStore e)
      | Inr None \<Rightarrow> Inl (MissingSession i)
      | Inr (Some s) \<Rightarrow> Inr s)"

text \<open>The loop that create, delete and the dispatch share, with \<open>n\<close> attempts left: \<open>plan\<close> refuses, or gives
  the events to append to the session it was shown.\<close>

datatype ('a, 'b) transaction =
    LoadFailed schedule_error
  | Refused 'a
  | Appended 'b
  | AppendFailed 'b store_error
  | FlushFailed 'b store_error
  | DidNotConverge

fun transact ::
  "'st store_ops \<Rightarrow> 'st world \<Rightarrow> string \<Rightarrow> (session \<Rightarrow> 'a + event_data list \<times> 'b) \<Rightarrow> nat \<Rightarrow> nat \<Rightarrow> 'st \<Rightarrow>
     'st \<times> ('a, 'b) transaction" where
  "transact ops w i plan 0 k st = (st, DidNotConverge)"
| "transact ops w i plan (Suc n) k st =
     (let st1 = wo_env w (2 * k) st in
      case load_session ops i st1 of
        Inl e \<Rightarrow> (st1, LoadFailed e)
      | Inr s \<Rightarrow>
          (case plan s of
             Inl a \<Rightarrow> (st1, Refused a)
           | Inr (events, b) \<Rightarrow>
               (case so_append ops (wo_now w k) i (se_revision s) events (wo_env w (2 * k + 1) st1) of
                  (st2, Inr _) \<Rightarrow>
                    (st2, (case so_flush ops i st2 of Inl e \<Rightarrow> FlushFailed b e | Inr _ \<Rightarrow> Appended b))
                | (st2, Inl (StoreRevisionConflict _ _ _)) \<Rightarrow> transact ops w i plan n (Suc k) st2
                | (st2, Inl e) \<Rightarrow> (st2, AppendFailed b e))))"

subsection \<open>The tools\<close>

definition overdue :: "('t, 'd, 'c, 'z) time_lib \<Rightarrow> schedule_record \<Rightarrow> int \<Rightarrow> bool" where
  "overdue cal r now =
     (case parse_canonical_instant cal (sc_scheduled_at r) of Inl _ \<Rightarrow> False | Inr target \<Rightarrow> target \<le> now)"

definition schedule_view :: "('t, 'd, 'c, 'z) time_lib \<Rightarrow> schedule_record \<Rightarrow> int \<Rightarrow> schedule_value" where
  "schedule_view cal r now = ScheduleView r (overdue cal r now)"

definition internal_error :: schedule_value where "internal_error = PublicError ''internal_error''"

definition corrupt_error :: schedule_value where "corrupt_error = PublicError ''corrupt_schedule_log''"

definition create_plan ::
  "('t, 'd, 'c, 'z) time_lib \<Rightarrow> int \<Rightarrow> string \<Rightarrow> selector \<Rightarrow> session \<Rightarrow>
     schedule_value option + event_data list \<times> schedule_record" where
  "create_plan cal now prompt selector s =
     (case fold_schedule_events cal s of
        Inl _ \<Rightarrow> Inl (Some corrupt_error)
      | Inr f \<Rightarrow>
          (case allocate_id f of
             None \<Rightarrow> Inl None
           | Some i \<Rightarrow>
               (case create_record cal i prompt selector now of
                  Inl v \<Rightarrow> Inl (Some v)
                | Inr r \<Rightarrow> Inr ([ScheduleChange (ScheduleCreate 1 r)], r))))"

text \<open>None is a call that never returns.  \<open>closed\<close> is the manager's flag.\<close>

definition create_value ::
  "('t, 'd, 'c, 'z) time_lib \<Rightarrow> 'st store_ops \<Rightarrow> 'st world \<Rightarrow> bool \<Rightarrow> string \<Rightarrow> int \<Rightarrow> string \<Rightarrow> selector \<Rightarrow> 'st \<Rightarrow>
     'st \<times> schedule_value option" where
  "create_value cal ops w closed i now prompt selector st =
     (if closed then (st, Some internal_error)
      else case so_flush ops i st of
        Inl _ \<Rightarrow> (st, Some (PersistenceUncertain ''create'' None))
      | Inr _ \<Rightarrow>
          (case transact ops w i (create_plan cal now prompt selector) MAX_CAS_RETRIES 0 st of
             (st', LoadFailed _) \<Rightarrow> (st', Some internal_error)
           | (st', Refused v) \<Rightarrow> (st', v)
           | (st', Appended r) \<Rightarrow> (st', Some (schedule_view cal r now))
           | (st', AppendFailed r _) \<Rightarrow> (st', Some (PersistenceUncertain ''create'' (Some (sc_id r))))
           | (st', FlushFailed r _) \<Rightarrow> (st', Some (PersistenceUncertain ''create'' (Some (sc_id r))))
           | (st', DidNotConverge) \<Rightarrow> (st', Some internal_error)))"

text \<open>The clock is read again for every rule.\<close>

definition list_value ::
  "('t, 'd, 'c, 'z) time_lib \<Rightarrow> 'st store_ops \<Rightarrow> bool \<Rightarrow> string \<Rightarrow> (nat \<Rightarrow> int) \<Rightarrow> ('st \<Rightarrow> 'st) \<Rightarrow> 'st \<Rightarrow> 'st \<times> schedule_value" where
  "list_value cal ops closed i clock env st =
     (if closed then (st, internal_error)
      else case so_flush ops i st of
        Inl _ \<Rightarrow> (st, PersistenceUncertain ''list'' None)
      | Inr _ \<Rightarrow>
          (let st1 = env st in
           case load_session ops i st1 of
             Inl _ \<Rightarrow> (st1, internal_error)
           | Inr s \<Rightarrow>
               (case fold_schedule_events cal s of
                  Inl _ \<Rightarrow> (st1, corrupt_error)
                | Inr f \<Rightarrow>
                    (st1, ScheduleViews (map (\<lambda>(n, r). (r, overdue cal r (clock n))) (enumerate 0 (fs_active f)))))))"

definition delete_plan ::
  "('t, 'd, 'c, 'z) time_lib \<Rightarrow> string \<Rightarrow> session \<Rightarrow> schedule_value + event_data list \<times> unit" where
  "delete_plan cal x s =
     (case fold_schedule_events cal s of
        Inl _ \<Rightarrow> Inl corrupt_error
      | Inr f \<Rightarrow>
          if \<not> (\<exists>r\<in>set (fs_active f). sc_id r = x) then Inl (ScheduleDeleted x False)
          else Inr ([ScheduleChange (ScheduleDelete 1 x)], ()))"

definition delete_value ::
  "('t, 'd, 'c, 'z) time_lib \<Rightarrow> 'st store_ops \<Rightarrow> 'st world \<Rightarrow> bool \<Rightarrow> string \<Rightarrow> string \<Rightarrow> 'st \<Rightarrow> 'st \<times> schedule_value" where
  "delete_value cal ops w closed i x st =
     (if x = [] \<or> trim x \<noteq> x then (st, PublicError ''invalid_rule'')
      else if closed then (st, internal_error)
      else case so_flush ops i st of
        Inl _ \<Rightarrow> (st, PersistenceUncertain ''delete'' (Some x))
      | Inr _ \<Rightarrow>
          (case transact ops w i (delete_plan cal x) MAX_CAS_RETRIES 0 st of
             (st', LoadFailed _) \<Rightarrow> (st', internal_error)
           | (st', Refused v) \<Rightarrow> (st', v)
           | (st', Appended _) \<Rightarrow> (st', ScheduleDeleted x True)
           | (st', AppendFailed _ _) \<Rightarrow> (st', PersistenceUncertain ''delete'' (Some x))
           | (st', FlushFailed _ _) \<Rightarrow> (st', PersistenceUncertain ''delete'' (Some x))
           | (st', DidNotConverge) \<Rightarrow> (st', internal_error)))"

text \<open>The handlers: the error of a handler, or what it prints.\<close>

definition string_argument :: "json_object \<Rightarrow> string \<Rightarrow> string + string" where
  "string_argument arguments name =
     (case Option.bind (map_of arguments name) as_str of
        None \<Rightarrow> Inl (name @ '' must be a string'')
      | Some x \<Rightarrow> Inr x)"

definition schedule_create ::
  "('t, 'd, 'c, 'z) time_lib \<Rightarrow> (string \<Rightarrow> u64 option) \<Rightarrow> 'st store_ops \<Rightarrow> 'st world \<Rightarrow> bool \<Rightarrow> bool \<Rightarrow> string \<Rightarrow> int \<Rightarrow>
     json_object \<Rightarrow> 'st \<Rightarrow> 'st \<times> (string + schedule_value) option" where
  "schedule_create cal as_u64 ops w closed cancelled i now arguments st =
     (if cancelled then (st, Some (Inl ''schedule_create cancelled''))
      else case string_argument arguments ''prompt'' of
        Inl e \<Rightarrow> (st, Some (Inl e))
      | Inr prompt \<Rightarrow>
          (case parse_selector as_u64 arguments of
             Inl v \<Rightarrow> (st, Some (Inr v))
           | Inr selector \<Rightarrow>
               (case create_value cal ops w closed i now prompt selector st of
                  (st', v) \<Rightarrow> (st', map_option Inr v))))"

definition schedule_list ::
  "('t, 'd, 'c, 'z) time_lib \<Rightarrow> 'st store_ops \<Rightarrow> bool \<Rightarrow> bool \<Rightarrow> string \<Rightarrow> (nat \<Rightarrow> int) \<Rightarrow> ('st \<Rightarrow> 'st) \<Rightarrow> 'st \<Rightarrow>
     'st \<times> (string + schedule_value)" where
  "schedule_list cal ops closed cancelled i clock env st =
     (if cancelled then (st, Inl ''schedule_list cancelled'')
      else case list_value cal ops closed i clock env st of (st', v) \<Rightarrow> (st', Inr v))"

definition schedule_delete ::
  "('t, 'd, 'c, 'z) time_lib \<Rightarrow> 'st store_ops \<Rightarrow> 'st world \<Rightarrow> bool \<Rightarrow> bool \<Rightarrow> string \<Rightarrow> json_object \<Rightarrow> 'st \<Rightarrow>
     'st \<times> (string + schedule_value)" where
  "schedule_delete cal ops w closed cancelled i arguments st =
     (if cancelled then (st, Inl ''schedule_delete cancelled'')
      else case string_argument arguments ''id'' of
        Inl e \<Rightarrow> (st, Inl e)
      | Inr x \<Rightarrow> (case delete_value cal ops w closed i x st of (st', v) \<Rightarrow> (st', Inr v)))"

subsection \<open>Instants that are read back\<close>

text \<open>What chrono documents of the functions used: converting from milliseconds and back is exact, and an instant of
  whole milliseconds in the years 1 to 9999 is read back from its canonical text, which is not blank.\<close>

definition calendar :: "('t, 'd, 'c, 'z) time_lib \<Rightarrow> bool" where
  "calendar cal \<longleftrightarrow>
     (\<forall>m t. tl_from_millis cal m = Some t \<longrightarrow> tl_millis cal t = m \<and>
        (in_years cal t \<longrightarrow> tl_parse_rfc3339 cal (tl_format cal t) = Some t \<and> \<not> blank (tl_format cal t)))"

lemma canonical_parse:
  assumes "calendar cal" and "canonical_instant_from_ms cal m = Some x"
  shows "parse_canonical_instant cal x = Inr m" and "\<not> blank x"
proof -
  obtain t where t: "tl_from_millis cal m = Some t" "in_years cal t" "x = tl_format cal t"
    using assms(2) by (auto simp: canonical_instant_from_ms_def split: option.splits if_splits)
  then have "tl_millis cal t = m" "tl_parse_rfc3339 cal x = Some t" "\<not> blank x"
    using assms(1) unfolding calendar_def by blast+
  then show "parse_canonical_instant cal x = Inr m" and "\<not> blank x"
    using t(2,3) by (simp_all add: parse_canonical_instant_def checked_year_def)
qed

lemma future_instant_iff [simp]:
  "future_instant cal target now = Inr x \<longleftrightarrow> now < target \<and> canonical_instant_from_ms cal target = Some x"
  by (auto simp: future_instant_def split: option.splits)

lemma i64_Some [simp]: "i64 n = Some m \<longleftrightarrow> m = n \<and> - (2 ^ 63) \<le> n \<and> n < 2 ^ 63"
  by (auto simp: i64_def)

lemma seconds_to_ms_Some [simp]: "seconds_to_ms seconds = Some m \<longleftrightarrow> m = uint seconds * 1000 \<and> m < 2 ^ 63"
proof -
  have "0 \<le> uint seconds" by simp
  then have "- (2 ^ 63 :: int) \<le> uint seconds" "- (2 ^ 63 :: int) \<le> uint seconds * 1000"
    by (simp_all add: order_trans [of _ 0])
  then show ?thesis by (auto simp: seconds_to_ms_def bind_eq_Some_conv)
qed

text \<open>The moment an \<open>at\<close> names.  A text is a date and a time with \<open>Z\<close> or a numeric offset that is not \<open>-00:00\<close>; an
  object names a date, a time of day and a zone, and where the clocks are set back the first of the two moments is
  meant.\<close>

definition stamped :: "string \<Rightarrow> bool" where
  "stamped x \<longleftrightarrow>
     (\<exists>y m d rest. x = y @ ''-'' @ m @ ''-'' @ d @ ''T'' @ rest \<and> length y = 4 \<and> length m = 2 \<and> length d = 2 \<and> 9 \<le> length rest) \<and>
     ((\<exists>y. x = y @ ''Z'') \<or>
      (\<exists>y s h m. x = y @ [s] @ h @ '':'' @ m \<and> s \<in> {CHR ''+'', CHR ''-''} \<and> length h = 2 \<and> length m = 2)) \<and>
     (\<nexists>y. x = y @ ''-00:00'')"

definition clock_text :: "string \<Rightarrow> bool" where
  "clock_text x \<longleftrightarrow>
     (\<exists>h m s fraction. x = h @ '':'' @ m @ '':'' @ s @ fraction \<and> length h = 2 \<and> length m = 2 \<and> length s = 2 \<and>
        (fraction = [] \<or> (\<exists>ds. fraction = ''.'' @ ds \<and> length ds \<in> {1..3} \<and> (\<forall>c\<in>set ds. is_digit c))))"

inductive at_target :: "('t, 'd, 'c, 'z) time_lib \<Rightarrow> json \<Rightarrow> int \<Rightarrow> bool" for cal where
  offset: "\<lbrakk>stamped x; tl_parse_rfc3339 cal x = Some t; tl_year cal t \<in> {1..9999}\<rbrakk> \<Longrightarrow>
     at_target cal (JString x) (tl_millis cal t)"
| local: "\<lbrakk>length fs = 3; set fs = {(''date'', JString date), (''time'', JString time), (''time_zone'', JString zone)};
     tl_date cal date = Some d; clock_text time; tl_time cal time = Some c;
     trim zone = zone; zone = ''UTC'' \<or> CHR ''/'' \<in> set zone; tl_zone cal zone = Some z;
     tl_local cal z d c = LocalSingle t \<or>
       (\<exists>u v. tl_local cal z d c = LocalAmbiguous u v \<and> t = (if tl_millis cal v < tl_millis cal u then v else u));
     tl_year cal t \<in> {1..9999}\<rbrakk> \<Longrightarrow>
     at_target cal (JObject fs) (tl_millis cal t)"

lemma suffix_Ex: "suffix s x \<longleftrightarrow> (\<exists>y. x = y @ s)"
  by (auto simp: suffix_def)

lemma cut_at:
  assumes "n < length x" and "x ! n = c"
  obtains y z where "x = y @ c # z" "length y = n" "length x = n + 1 + length z"
proof -
  have "x = take n x @ c # drop (Suc n) x" using id_take_nth_drop [OF assms(1)] assms(2) by simp
  with assms(1) show thesis by (intro that [of "take n x" "drop (Suc n) x"]) simp_all
qed

lemma rfc3339_stamped: "rfc3339_shape x \<longleftrightarrow> stamped x"
proof -
  let ?date = "\<exists>y m d rest. x = y @ ''-'' @ m @ ''-'' @ d @ ''T'' @ rest \<and> length y = 4 \<and> length m = 2 \<and> length d = 2 \<and> 9 \<le> length rest"
  let ?offset = "\<exists>y s h m. x = y @ [s] @ h @ '':'' @ m \<and> s \<in> {CHR ''+'', CHR ''-''} \<and> length h = 2 \<and> length m = 2"
  have date: "20 \<le> length x \<and> x ! 4 = CHR ''-'' \<and> x ! 7 = CHR ''-'' \<and> x ! 10 = CHR ''T'' \<longleftrightarrow> ?date"
  proof
    assume x: "20 \<le> length x \<and> x ! 4 = CHR ''-'' \<and> x ! 7 = CHR ''-'' \<and> x ! 10 = CHR ''T''"
    then have "4 < length x" "x ! 4 = CHR ''-''" by simp_all
    then obtain y x1 where 1: "x = y @ CHR ''-'' # x1" "length y = 4" "length x = 4 + 1 + length x1" by (rule cut_at)
    with x have "2 < length x1" "x1 ! 2 = CHR ''-''" by (simp_all add: nth_append)
    then obtain m x2 where 2: "x1 = m @ CHR ''-'' # x2" "length m = 2" "length x1 = 2 + 1 + length x2" by (rule cut_at)
    with x 1 have "2 < length x2" "x2 ! 2 = CHR ''T''" by (simp_all add: nth_append)
    then obtain d rest where 3: "x2 = d @ CHR ''T'' # rest" "length d = 2" "length x2 = 2 + 1 + length rest" by (rule cut_at)
    have "9 \<le> length rest" using x 1(3) 2(3) 3(3) by linarith
    with 1(1,2) 2(1,2) 3(1,2) show ?date
      by (intro exI [of _ y] exI [of _ m] exI [of _ d] exI [of _ rest]) simp
  qed (auto simp: nth_append)
  have offset: "6 \<le> length x \<and> x ! (length x - 6) \<in> {CHR ''+'', CHR ''-''} \<and> x ! (length x - 3) = CHR '':'' \<longleftrightarrow> ?offset"
  proof
    assume x: "6 \<le> length x \<and> x ! (length x - 6) \<in> {CHR ''+'', CHR ''-''} \<and> x ! (length x - 3) = CHR '':''"
    define s where "s = x ! (length x - 6)"
    have "length x - 6 < length x" using x by linarith
    moreover have "x ! (length x - 6) = s" by (simp add: s_def)
    ultimately obtain y x1 where 1: "x = y @ s # x1" "length y = length x - 6" "length x = length x - 6 + 1 + length x1" by (rule cut_at)
    from 1(3) x have len: "length x1 = 5" by linarith
    have "length x - 3 = length y + 3" using 1(2) x by linarith
    with x 1(1) have "(y @ s # x1) ! (length y + 3) = CHR '':''" by simp
    with len have "2 < length x1" "x1 ! 2 = CHR '':''" by (simp_all add: nth_append)
    then obtain h m where 2: "x1 = h @ CHR '':'' # m" "length h = 2" "length x1 = 2 + 1 + length m" by (rule cut_at)
    with len have "length m = 2" by simp
    with 1(1) 2(1,2) x show ?offset
      unfolding s_def by (intro exI [of _ y] exI [of _ "x ! (length x - 6)"] exI [of _ h] exI [of _ m]) simp
  next
    assume ?offset
    then obtain y s h m where x: "x = y @ [s] @ h @ '':'' @ m" "s \<in> {CHR ''+'', CHR ''-''}" "length h = 2" "length m = 2" by blast
    have "length x = length y + 6" using x by simp
    then have "x ! (length x - 6) = s" "x ! (length x - 3) = CHR '':''" using x(1,3) by (simp_all add: nth_append)
    with x(2) \<open>length x = length y + 6\<close> show
      "6 \<le> length x \<and> x ! (length x - 6) \<in> {CHR ''+'', CHR ''-''} \<and> x ! (length x - 3) = CHR '':''" by simp
  qed
  show ?thesis
    unfolding rfc3339_shape_def stamped_def date [symmetric] offset [symmetric] suffix_Ex byte_at_def
    by (cases "length x < 20") (simp, auto)
qed

lemma clock_text_iff:
  "clock_text x \<longleftrightarrow>
     8 \<le> length x \<and> byte_at x 2 = Some CHR '':'' \<and> byte_at x 5 = Some CHR '':'' \<and>
     (length x = 8 \<or> byte_at x 8 = Some CHR ''.'' \<and> 10 \<le> length x \<and> length x \<le> 12 \<and> list_all is_digit (drop 9 x))"
    (is "_ \<longleftrightarrow> ?shape")
proof
  assume ?shape
  then have x: "8 \<le> length x" "x ! 2 = CHR '':''" "x ! 5 = CHR '':''"
    and rest: "length x = 8 \<or> x ! 8 = CHR ''.'' \<and> 10 \<le> length x \<and> length x \<le> 12 \<and> list_all is_digit (drop 9 x)"
    by (auto simp: byte_at_def split: if_splits)
  have "2 < length x" using x(1) by simp
  then obtain h x1 where 1: "x = h @ CHR '':'' # x1" "length h = 2" "length x = 2 + 1 + length x1" using x(2) by (rule cut_at)
  with x have "2 < length x1" "x1 ! 2 = CHR '':''" by (simp_all add: nth_append)
  then obtain m x2 where 2: "x1 = m @ CHR '':'' # x2" "length m = 2" "length x1 = 2 + 1 + length x2" by (rule cut_at)
  have x2: "x2 = take 2 x2 @ drop 2 x2" "2 \<le> length x2" "length x = 6 + length x2" using x(1) 1(3) 2(3) by simp_all
  have "drop 2 x2 = [] \<or> (\<exists>ds. drop 2 x2 = ''.'' @ ds \<and> length ds \<in> {1..3} \<and> (\<forall>c\<in>set ds. is_digit c))"
  proof (cases "length x = 8")
    case False
    with rest x2(3) have long: "2 < length x2" by linarith
    have "x2 ! 2 = x ! 8" using 1(1,2) 2(1,2) by (simp add: nth_append)
    with False rest long have "drop 2 x2 = ''.'' @ drop 3 x2" using Cons_nth_drop_Suc [OF long] by simp
    moreover have "drop 9 x = drop 3 x2" using 1(1,2) 2(1,2) by simp
    ultimately show ?thesis using False rest x2(3) by (intro disjI2 exI [of _ "drop 3 x2"]) (auto simp: list_all_iff)
  qed (use x2(3) in simp)
  then show "clock_text x"
    unfolding clock_text_def using 1(1,2) 2(1,2) x2(1,2)
    by (intro exI [of _ h] exI [of _ m] exI [of _ "take 2 x2"] exI [of _ "drop 2 x2"]) simp
next
  assume "clock_text x"
  then obtain h m s fraction where x: "x = h @ '':'' @ m @ '':'' @ s @ fraction" "length h = 2" "length m = 2" "length s = 2"
    and fraction: "fraction = [] \<or> (\<exists>ds. fraction = ''.'' @ ds \<and> length ds \<in> {1..3} \<and> (\<forall>c\<in>set ds. is_digit c))"
    unfolding clock_text_def by blast
  from fraction show ?shape
  proof (elim disjE exE conjE)
    fix ds assume "fraction = ''.'' @ ds" "length ds \<in> {1..3}" "\<forall>c\<in>set ds. is_digit c"
    then show ?shape unfolding x(1) using x(2-4) by (simp add: byte_at_def nth_append list_all_iff)
  qed (unfold x(1), use x(2-4) in \<open>simp add: byte_at_def nth_append\<close>)
qed

lemma three_fields:
  assumes "distinct [a, b, c]"
  shows "length fs = 3 \<and> set fs = {(a, x), (b, y), (c, z)} \<longleftrightarrow>
    length fs = 3 \<and> map_of fs a = Some x \<and> map_of fs b = Some y \<and> map_of fs c = Some z"
proof -
  have "set fs = {(a, x), (b, y), (c, z)} \<longleftrightarrow> map_of fs a = Some x \<and> map_of fs b = Some y \<and> map_of fs c = Some z"
    if "length fs = 3"
  proof -
    obtain p q r where fs: "fs = [p, q, r]" using \<open>length fs = 3\<close> by (auto simp: numeral_3_eq_3 length_Suc_conv)
    show ?thesis
    proof
      assume set: "set fs = {(a, x), (b, y), (c, z)}"
      then have "fst ` set fs = {a, b, c}" by auto
      then have "card (fst ` set fs) = length fs" using assms fs by simp
      then have "distinct (map fst fs)" by (simp add: card_distinct)
      with set show "map_of fs a = Some x \<and> map_of fs b = Some y \<and> map_of fs c = Some z" by simp
    next
      assume "map_of fs a = Some x \<and> map_of fs b = Some y \<and> map_of fs c = Some z"
      then have sub: "{(a, x), (b, y), (c, z)} \<subseteq> set fs" by (auto dest: map_of_SomeD)
      moreover have "card {(a, x), (b, y), (c, z)} = 3" using assms by simp
      moreover have "card (set fs) \<le> 3" using card_length [of fs] \<open>length fs = 3\<close> by simp
      ultimately show "set fs = {(a, x), (b, y), (c, z)}" using card_seteq [of "set fs"] by (metis List.finite_set)
    qed
  qed
  then show ?thesis by blast
qed

lemma at_target_JString: "at_target cal (JString x) target \<longleftrightarrow>
    (\<exists>t. stamped x \<and> tl_parse_rfc3339 cal x = Some t \<and> in_years cal t \<and> target = tl_millis cal t)"
  by (subst at_target.simps) (auto simp: in_years_def)

lemma checked_year_Inr: "checked_year cal t = Inr target \<longleftrightarrow> in_years cal t \<and> target = tl_millis cal t"
  by (auto simp: checked_year_def)

lemma parse_local_time_Inr: "parse_local_time cal x = Inr c \<longleftrightarrow> clock_text x \<and> tl_time cal x = Some c"
  by (auto simp: parse_local_time_def clock_text_iff [symmetric] Let_def split: option.split)

definition first_instant :: "('t, 'd, 'c, 'z) time_lib \<Rightarrow> 't local_result \<Rightarrow> 't \<Rightarrow> bool" where
  "first_instant cal l t \<longleftrightarrow>
     l = LocalSingle t \<or> (\<exists>u v. l = LocalAmbiguous u v \<and> t = (if tl_millis cal v < tl_millis cal u then v else u))"

lemma local_result_Inr:
  "(case l of
      LocalNone \<Rightarrow> Inl e
    | LocalSingle t \<Rightarrow> checked_year cal t
    | LocalAmbiguous left right \<Rightarrow> checked_year cal (if tl_millis cal left \<le> tl_millis cal right then left else right)) = Inr target \<longleftrightarrow>
   (\<exists>t. first_instant cal l t \<and> in_years cal t \<and> target = tl_millis cal t)"
proof (cases l)
  case (LocalAmbiguous u v)
  then show ?thesis by (cases "tl_millis cal u \<le> tl_millis cal v") (simp_all add: first_instant_def checked_year_Inr)
qed (simp_all add: first_instant_def checked_year_Inr)

lemma parse_local_Inr: "parse_local cal date time zone = Inr target \<longleftrightarrow>
    (\<exists>d c z t. tl_date cal date = Some d \<and> clock_text time \<and> tl_time cal time = Some c \<and>
       trim zone = zone \<and> (zone = ''UTC'' \<or> CHR ''/'' \<in> set zone) \<and> tl_zone cal zone = Some z \<and>
       first_instant cal (tl_local cal z d c) t \<and> in_years cal t \<and> target = tl_millis cal t)"
proof (cases "trim zone = zone \<and> (zone = ''UTC'' \<or> CHR ''/'' \<in> set zone)")
  case True
  then have "parse_local cal date time zone = Inr target \<longleftrightarrow>
      (\<exists>d. tl_date cal date = Some d \<and>
         (\<exists>c. parse_local_time cal time = Inr c \<and>
            (\<exists>z. tl_zone cal zone = Some z \<and>
               (\<exists>t. first_instant cal (tl_local cal z d c) t \<and> in_years cal t \<and> target = tl_millis cal t))))"
    unfolding parse_local_def
    by (cases "tl_date cal date"; cases "parse_local_time cal time"; cases "tl_zone cal zone") (auto simp: local_result_Inr)
  with True show ?thesis by (simp add: parse_local_time_Inr)
qed (auto simp: parse_local_def)

lemma as_str_Some: "as_str j = Some s \<longleftrightarrow> j = JString s"
  by (cases j) auto

lemma parse_at_JObject:
  "parse_at cal (JObject fs) = Inr target \<longleftrightarrow>
     (\<exists>date time zone. length fs = 3 \<and> map_of fs ''date'' = Some (JString date) \<and> map_of fs ''time'' = Some (JString time) \<and>
        map_of fs ''time_zone'' = Some (JString zone) \<and> parse_local cal date time zone = Inr target)"
proof -
  let ?get = "\<lambda>field. Option.bind (map_of fs field) as_str"
  have get: "?get field = Some s \<longleftrightarrow> map_of fs field = Some (JString s)" for field s
    by (simp add: bind_eq_Some_conv as_str_Some)
  have "parse_at cal (JObject fs) = Inr target \<longleftrightarrow> length fs = 3 \<and>
      (\<exists>date time zone. ?get ''date'' = Some date \<and> ?get ''time'' = Some time \<and> ?get ''time_zone'' = Some zone \<and>
         parse_local cal date time zone = Inr target)"
    unfolding parse_at_def json.case
    by (cases "?get ''date''"; cases "?get ''time''"; cases "?get ''time_zone''") auto
  then show ?thesis unfolding get by blast
qed

lemma parse_at_iff: "parse_at cal v = Inr target \<longleftrightarrow> at_target cal v target"
proof (cases v)
  case (JString x)
  then show ?thesis
    by (auto simp: parse_at_def rfc3339_stamped checked_year_Inr at_target_JString split: option.splits)
next
  case (JObject fs)
  have fields: "length fs = 3 \<and> set fs = {(''date'', JString date), (''time'', JString time), (''time_zone'', JString zone)} \<longleftrightarrow>
      length fs = 3 \<and> map_of fs ''date'' = Some (JString date) \<and> map_of fs ''time'' = Some (JString time) \<and>
        map_of fs ''time_zone'' = Some (JString zone)" for date time zone
    by (rule three_fields) simp
  show ?thesis unfolding JObject parse_at_JObject
  proof
    assume "at_target cal (JObject fs) target"
    then show "\<exists>date time zone. length fs = 3 \<and> map_of fs ''date'' = Some (JString date) \<and> map_of fs ''time'' = Some (JString time) \<and>
        map_of fs ''time_zone'' = Some (JString zone) \<and> parse_local cal date time zone = Inr target"
    proof cases
      case (local date time zone d c z t)
      have "in_years cal t" using local(11) by (simp only: in_years_def atLeastAtMost_iff)
      moreover have "first_instant cal (tl_local cal z d c) t" using local(10) by (simp only: first_instant_def)
      ultimately have "parse_local cal date time zone = Inr target"
        using local(1,4-9) by (intro parse_local_Inr [THEN iffD2] exI [of _ d] exI [of _ c] exI [of _ z] exI [of _ t] conjI)
      with fields [THEN iffD1, OF conjI [OF local(2,3)]] show ?thesis by (intro exI conjI) simp_all
    qed
  next
    assume "\<exists>date time zone. length fs = 3 \<and> map_of fs ''date'' = Some (JString date) \<and> map_of fs ''time'' = Some (JString time) \<and>
        map_of fs ''time_zone'' = Some (JString zone) \<and> parse_local cal date time zone = Inr target"
    then obtain date time zone where "length fs = 3 \<and> map_of fs ''date'' = Some (JString date) \<and>
        map_of fs ''time'' = Some (JString time) \<and> map_of fs ''time_zone'' = Some (JString zone)"
      and at: "parse_local cal date time zone = Inr target" by blast
    then have fs: "length fs = 3" "set fs = {(''date'', JString date), (''time'', JString time), (''time_zone'', JString zone)}"
      "parse_local cal date time zone = Inr target" by (simp_all only: fields [symmetric])
    from fs(3) obtain d c z t where "tl_date cal date = Some d" "clock_text time" "tl_time cal time = Some c"
      "trim zone = zone" "zone = ''UTC'' \<or> CHR ''/'' \<in> set zone" "tl_zone cal zone = Some z"
      "first_instant cal (tl_local cal z d c) t" "in_years cal t" "target = tl_millis cal t"
      unfolding parse_local_Inr by blast
    then show "at_target cal (JObject fs) target"
      using at_target.local [OF fs(1,2), of cal d c z t] by (simp only: first_instant_def in_years_def atLeastAtMost_iff)
  qed
qed (auto simp: parse_at_def elim: at_target.cases)

text \<open>What a selector asks for at the time \<open>now\<close>, in milliseconds that fit an i64: a positive delay, a period of at
  least five minutes, or a moment.\<close>

definition fits_i64 :: "int \<Rightarrow> bool" where
  "fits_i64 n \<longleftrightarrow> - (2 ^ 63) \<le> n \<and> n < 2 ^ 63"

inductive wanted :: "('t, 'd, 'c, 'z) time_lib \<Rightarrow> selector \<Rightarrow> int \<Rightarrow> int \<Rightarrow> bool" for cal where
  after: "\<lbrakk>0 < s; fits_i64 (uint s * 1000); fits_i64 (now + uint s * 1000)\<rbrakk> \<Longrightarrow>
     wanted cal (SelectAfter s) now (now + uint s * 1000)"
| every: "\<lbrakk>300 \<le> s; fits_i64 (uint s * 1000); fits_i64 (now + uint s * 1000)\<rbrakk> \<Longrightarrow>
     wanted cal (SelectEvery s) now (now + uint s * 1000)"
| at: "at_target cal v target \<Longrightarrow> wanted cal (SelectAt v) now target"

text \<open>The rule for a prompt and a selector, with its first target written as \<open>x\<close>.\<close>

fun rule_for :: "string \<Rightarrow> string \<Rightarrow> selector \<Rightarrow> string \<Rightarrow> schedule_record" where
  "rule_for i prompt (SelectAfter s) x = \<lparr>sc_id = i, sc_kind = After, sc_prompt = prompt, sc_after_seconds = Some s,
     sc_every_seconds = None, sc_scheduled_at = x\<rparr>"
| "rule_for i prompt (SelectAt v) x = \<lparr>sc_id = i, sc_kind = At, sc_prompt = prompt, sc_after_seconds = None,
     sc_every_seconds = None, sc_scheduled_at = x\<rparr>"
| "rule_for i prompt (SelectEvery s) x = \<lparr>sc_id = i, sc_kind = Every, sc_prompt = prompt, sc_after_seconds = None,
     sc_every_seconds = Some s, sc_scheduled_at = x\<rparr>"

lemma rule_for_fields [simp]:
  "sc_id (rule_for i prompt selector x) = i" "sc_prompt (rule_for i prompt selector x) = prompt"
  "sc_scheduled_at (rule_for i prompt selector x) = x"
  by (cases selector; simp)+

lemma wanted_simps:
  "wanted cal (SelectAfter s) now target \<longleftrightarrow>
     0 < s \<and> Option.bind (seconds_to_ms s) (\<lambda>delay. i64 (now + delay)) = Some target"
  "wanted cal (SelectEvery s) now target \<longleftrightarrow>
     300 \<le> s \<and> Option.bind (seconds_to_ms s) (\<lambda>delay. i64 (now + delay)) = Some target"
  "wanted cal (SelectAt v) now target \<longleftrightarrow> parse_at cal v = Inr target"
proof -
  have "- (2 ^ 63) \<le> uint s * 1000" for s :: u64
  proof -
    have "0 \<le> uint s" by simp
    then show ?thesis by (simp add: order_trans [of _ 0])
  qed
  then show "wanted cal (SelectAfter s) now target \<longleftrightarrow>
     0 < s \<and> Option.bind (seconds_to_ms s) (\<lambda>delay. i64 (now + delay)) = Some target"
  "wanted cal (SelectEvery s) now target \<longleftrightarrow>
     300 \<le> s \<and> Option.bind (seconds_to_ms s) (\<lambda>delay. i64 (now + delay)) = Some target"
    by (auto simp: wanted.simps bind_eq_Some_conv fits_i64_def)
qed (simp add: wanted.simps parse_at_iff)

text \<open>A rule is made exactly when the prompt is not blank and the selector asks for a moment in the future that has a
  canonical text.\<close>

lemma create_record_iff:
  "create_record cal i prompt selector now = Inr r \<longleftrightarrow>
     trim prompt \<noteq> [] \<and>
     (\<exists>target x. wanted cal selector now target \<and> now < target \<and> canonical_instant_from_ms cal target = Some x \<and>
        r = rule_for i (trim prompt) selector x)"
  by (cases selector)
    (auto simp: create_record.simps Let_def wanted_simps MIN_EVERY_INTERVAL_SECONDS_def word_gt_0 not_less
      split: option.splits if_splits)

definition public_error :: "schedule_value \<Rightarrow> bool" where
  "public_error v \<longleftrightarrow> (\<exists>code. v = PublicError code)"

lemma public_error [simp]: "public_error (PublicError code)" "public_error time_out_of_range"
  by (simp_all add: public_error_def time_out_of_range_def)

lemma checked_year_Inl: "checked_year cal t = Inl v \<Longrightarrow> public_error v"
  by (auto simp: checked_year_def split: if_splits)

lemma future_instant_Inl: "future_instant cal target now = Inl v \<Longrightarrow> public_error v"
  by (auto simp: future_instant_def split: if_splits option.splits)

lemma parse_local_Inl: "parse_local cal date time zone = Inl v \<Longrightarrow> public_error v"
  by (auto simp: parse_local_def parse_local_time_def Let_def and_then_eq_Inl checked_year_Inl
      split: if_splits option.splits local_result.splits)

lemma parse_at_Inl: "parse_at cal x = Inl v \<Longrightarrow> public_error v"
  by (cases x) (auto simp: parse_at_def checked_year_Inl parse_local_Inl split: if_splits option.splits)

lemma create_record_error: "create_record cal i prompt selector now = Inl v \<Longrightarrow> public_error v"
  by (cases selector)
    (auto simp: create_record.simps Let_def and_then_eq_Inl future_instant_Inl parse_at_Inl split: option.splits if_splits)

lemma create_record_Inr:
  assumes "calendar cal" and "create_record cal i prompt selector now = Inr r"
  shows "sc_id r = i \<and> sc_prompt r = trim prompt \<and> trim prompt \<noteq> [] \<and> valid_schedule_shape r \<and>
    \<not> blank (sc_scheduled_at r) \<and>
    (\<exists>target x. wanted cal selector now target \<and> now < target \<and> r = rule_for i (trim prompt) selector x \<and>
       parse_canonical_instant cal (sc_scheduled_at r) = Inr target)"
proof -
  from assms(2) obtain target x where r: "wanted cal selector now target" "now < target"
    "canonical_instant_from_ms cal target = Some x" "r = rule_for i (trim prompt) selector x" "trim prompt \<noteq> []"
    by (auto simp: create_record_iff)
  note x = canonical_parse [OF assms(1) r(3)]
  have "valid_schedule_shape r"
    using r(1,5) unfolding r(4) by cases (simp_all add: valid_schedule_shape_def word_gt_0)
  with r x show ?thesis by (auto intro!: exI [of _ x])
qed

subsection \<open>Fresh identities\<close>

lemma schedule_id_inj: "schedule_id m = schedule_id n \<Longrightarrow> m = n"
  by (auto simp: schedule_id_def intro: show_nat_inj)

text \<open>Among more numbers than there are identities in use, one is free.\<close>

lemma allocate_from_free:
  assumes "schedule_id (n + k) \<notin> seen" and "n + k \<le> usize_max"
  shows "\<exists>i. allocate_from seen n = Some i \<and> i \<notin> seen \<and> (\<exists>m. i = schedule_id m)"
  using assms
proof (induction k arbitrary: n)
  case 0
  then show ?case by (subst allocate_from.simps) (auto simp: Let_def)
next
  case (Suc k)
  have next_n: "saturating_add_usize n 1 = Suc n" using Suc.prems(2) by (simp add: saturating_add_usize_def)
  show ?case
  proof (cases "schedule_id n \<in> seen")
    case True
    have "\<exists>i. allocate_from seen (Suc n) = Some i \<and> i \<notin> seen \<and> (\<exists>m. i = schedule_id m)"
      using Suc.prems by (intro Suc.IH) simp_all
    with True next_n show ?thesis by (subst allocate_from.simps) (simp add: Let_def)
  next
    case False
    then show ?thesis by (subst allocate_from.simps) (auto simp: Let_def)
  qed
qed

lemma free_number:
  assumes "finite seen"
  shows "\<exists>k\<le>card seen. schedule_id (n + k) \<notin> seen"
proof (rule ccontr)
  assume "\<not> ?thesis"
  then have "(\<lambda>k. schedule_id (n + k)) ` {.. card seen} \<subseteq> seen" by auto
  then have "card ((\<lambda>k. schedule_id (n + k)) ` {.. card seen}) \<le> card seen" using assms by (rule card_mono [rotated])
  moreover have "inj_on (\<lambda>k. schedule_id (n + k)) {.. card seen}" by (auto intro!: inj_onI dest: schedule_id_inj)
  ultimately show False by (simp add: card_image)
qed

lemma allocate_fresh:
  assumes "finite (fs_seen_ids f)" and "2 * card (fs_seen_ids f) < usize_max"
  shows "\<exists>i. allocate_id f = Some i \<and> i \<notin> fs_seen_ids f \<and> (\<exists>m. i = schedule_id m)"
proof -
  let ?n = "card (fs_seen_ids f)"
  obtain k where k: "k \<le> ?n" "schedule_id (Suc ?n + k) \<notin> fs_seen_ids f" using free_number [OF assms(1)] by blast
  have "saturating_add_usize ?n 1 = Suc ?n" using assms(2) by (simp add: saturating_add_usize_def)
  then show ?thesis using allocate_from_free [of "Suc ?n" k] k assms(2) by (simp add: allocate_id_def)
qed

lemma ws_width_ascii: "32 < byte c \<Longrightarrow> byte c < 128 \<Longrightarrow> ws_width (c # s) = 0"
  by (cases s; cases "tl s") (simp_all add: is_ws1_def is_ws2_def is_ws3_def)

lemma ws_width_rev_ascii: "32 < byte c \<Longrightarrow> byte c < 128 \<Longrightarrow> ws_width_rev (c # s) = 0"
  by (cases s; cases "tl s") (simp_all add: is_ws1_def is_ws2_def is_ws3_def)

lemma clean_ends:
  assumes "ws_width s = 0" and "ws_width_rev (rev s) = 0"
  shows "trim s = s" and "blank s \<longleftrightarrow> s = []"
  using assms by (simp_all add: trim_def trim_end_def trim_start_id trim_start_rev_id blank_def)

lemma schedule_id_clean: "trim (schedule_id n) = schedule_id n \<and> \<not> blank (schedule_id n)"
proof -
  have start: "ws_width (schedule_id n) = 0" by (simp add: schedule_id_def is_ws1_def is_ws2_def is_ws3_def)
  have "\<exists>s. rev (schedule_id n) = char_of (48 + n mod 10) # s"
    by (subst schedule_id_def, subst show_nat_snoc) simp
  then obtain s where s: "rev (schedule_id n) = char_of (48 + n mod 10) # s" by blast
  have "byte (char_of (48 + n mod 10)) = 48 + n mod 10" by (simp add: of_char_of)
  then have "ws_width_rev (rev (schedule_id n)) = 0" unfolding s by (intro ws_width_rev_ascii) simp_all
  from clean_ends [OF start this] show ?thesis by (simp add: schedule_id_def)
qed

subsection \<open>Folding\<close>

lemma fold_events_append:
  "fold_events cal (xs @ ys) f = and_then (fold_events cal xs f) (fold_events cal ys)"
proof (induction cal xs f rule: fold_events.induct)
  case (2 cal change es f)
  then show ?case by (cases "fold_change cal change f") simp_all
qed simp_all

lemma fold_other: "(\<forall>change. e \<noteq> ScheduleChange change) \<Longrightarrow> fold_events cal [e] f = Inr f"
  by (cases e) simp_all

definition log_fold :: "('t, 'd, 'c, 'z) time_lib \<Rightarrow> logged_event list \<Rightarrow> schedule_error + folded" where
  "log_fold cal es = fold_events cal (map le_event es) \<lparr>fs_active = [], fs_seen_ids = {}\<rparr>"

lemma log_fold_snoc: "log_fold cal (es @ [l]) = and_then (log_fold cal es) (fold_events cal [le_event l])"
  by (simp add: log_fold_def fold_events_append)

text \<open>A rule that the log may hold.\<close>

definition wf_rule :: "('t, 'd, 'c, 'z) time_lib \<Rightarrow> schedule_record \<Rightarrow> bool" where
  "wf_rule cal r \<longleftrightarrow> valid_schedule_shape r \<and> trim (sc_id r) = sc_id r \<and> \<not> blank (sc_id r) \<and>
     (\<exists>t. parse_canonical_instant cal (sc_scheduled_at r) = Inr t)"

definition rules_ok :: "('t, 'd, 'c, 'z) time_lib \<Rightarrow> logged_event list \<Rightarrow> vstate \<Rightarrow> bool" where
  "rules_ok cal es s \<longleftrightarrow>
     finite (v_seen_schedule_ids s) \<and> card (v_seen_schedule_ids s) \<le> length es \<and>
     (\<forall>f. calendar cal \<and> log_fold cal es = Inr f \<longrightarrow>
        fs_seen_ids f = v_seen_schedule_ids s \<and> distinct (map sc_id (fs_active f)) \<and>
        (\<forall>r\<in>set (fs_active f). wf_rule cal r \<and> sc_id r \<in> fs_seen_ids f \<and> v_active_schedules s (sc_id r) = Some (sc_kind r)) \<and>
        (\<forall>i kind. v_active_schedules s i = Some kind \<and> kind \<noteq> Every \<longrightarrow> i \<in> sc_id ` set (fs_active f)))"

lemma check_data_schedules:
  assumes "check_data dec evs pos seq rv e s = Inr s'" and "\<forall>change. e \<noteq> ScheduleChange change"
  shows "v_active_schedules s' = v_active_schedules s \<and> v_seen_schedule_ids s' = v_seen_schedule_ids s"
  using assms
  by (cases e)
    (auto simp: accepts handler_frames set_inbox_def
      split: goal_change.splits inbox_target.splits option.splits if_splits
      dest!: on_session_title_accepts)

text \<open>Removing the rule an identity names.\<close>

lemma splice_removes:
  assumes "distinct (map sc_id rs)" and "position (\<lambda>r. sc_id r = i) rs = Some n"
  shows "splice n (n + 1) [] rs = filter (\<lambda>r. sc_id r \<noteq> i) rs" and "n < length rs" and "sc_id (rs ! n) = i"
proof -
  from assms(2) show "n < length rs" and "sc_id (rs ! n) = i" by (auto dest: position_SomeD)
  then show "splice n (n + 1) [] rs = filter (\<lambda>r. sc_id r \<noteq> i) rs"
    using drop_nth_filter [of sc_id rs n] assms(1) by (simp add: splice_def)
qed

text \<open>What a change does to the active rules.\<close>

definition changed :: "('t, 'd, 'c, 'z) time_lib \<Rightarrow> schedule_change \<Rightarrow> schedule_record list \<Rightarrow> schedule_record list \<Rightarrow> bool" where
  "changed cal change rs rs' \<longleftrightarrow>
     (case change of
        ScheduleCreate _ r \<Rightarrow> rs' = rs @ [r]
      | ScheduleDelete _ i \<Rightarrow> rs' = filter (\<lambda>r. sc_id r \<noteq> i) rs
      | ScheduleDispatch _ i None \<Rightarrow> rs' = filter (\<lambda>r. sc_id r \<noteq> i) rs
      | ScheduleDispatch _ i (Some accepted) \<Rightarrow>
          (\<exists>r\<in>set rs. \<exists>t occurrence. sc_id r = i \<and> sc_kind r = Every \<and>
             parse_canonical_instant cal accepted = Inr t \<and> resolve_every_occurrence cal r t = Inr occurrence \<and>
             rs' = (case eo_next_scheduled_at occurrence of
                      None \<Rightarrow> filter (\<lambda>r. sc_id r \<noteq> i) rs
                    | Some x \<Rightarrow> map (\<lambda>q. if sc_id q = i then q\<lparr>sc_scheduled_at := x\<rparr> else q) rs)))"

lemma update_at:
  assumes "distinct (map sc_id rs)" and "n < length rs"
  shows "rs[n := (rs ! n)\<lparr>sc_scheduled_at := x\<rparr>] =
    map (\<lambda>q. if sc_id q = sc_id (rs ! n) then q\<lparr>sc_scheduled_at := x\<rparr> else q) rs"
proof (rule nth_equalityI)
  fix k assume "k < length (rs[n := (rs ! n)\<lparr>sc_scheduled_at := x\<rparr>])"
  then have "k < length rs" by simp
  moreover from this have "sc_id (rs ! k) = sc_id (rs ! n) \<longleftrightarrow> k = n"
    using nth_eq_iff_index_eq [OF assms(1), of k n] assms(2) by simp
  ultimately show "rs[n := (rs ! n)\<lparr>sc_scheduled_at := x\<rparr>] ! k =
      map (\<lambda>q. if sc_id q = sc_id (rs ! n) then q\<lparr>sc_scheduled_at := x\<rparr> else q) rs ! k"
    by (simp add: nth_list_update)
qed simp

lemma resolve_every_Inr:
  assumes "calendar cal" and "resolve_every_occurrence cal r t = Inr occurrence"
  shows "\<exists>target seconds. parse_canonical_instant cal (sc_scheduled_at r) = Inr target \<and> sc_every_seconds r = Some seconds \<and>
    seconds \<noteq> 0 \<and> target \<le> t \<and>
    (let interval = uint seconds * 1000; n = (t - target) div interval in
     parse_canonical_instant cal (eo_occurrence_at occurrence) = Inr (target + n * interval) \<and>
     eo_next_scheduled_at occurrence = Option.bind (i64 (target + (n + 1) * interval)) (canonical_instant_from_ms cal) \<and>
     (\<forall>x. eo_next_scheduled_at occurrence = Some x \<longrightarrow>
        parse_canonical_instant cal x = Inr (target + (n + 1) * interval)))"
proof -
  from assms(2) obtain target where target: "parse_canonical_instant cal (sc_scheduled_at r) = Inr target"
    by (auto simp: resolve_every_occurrence_def)
  note rest = assms(2) [unfolded resolve_every_occurrence_def target and_then_simps]
  from rest obtain seconds where seconds: "sc_every_seconds r = Some seconds" by (cases "sc_every_seconds r") simp_all
  note rest = rest [unfolded seconds option.case]
  from rest obtain interval where interval: "seconds_to_ms seconds = Some interval" by (cases "seconds_to_ms seconds") simp_all
  note rest = rest [unfolded interval option.case]
  from rest have le: "target \<le> t" by (cases "t < target") simp_all
  from rest le have diff: "t - target < 2 ^ 63" by (cases "i64 (t - target)") (simp_all add: not_less)
  from rest le have nz: "interval \<noteq> 0" by (cases "interval = 0") (simp_all split: if_splits)
  have interval_eq: "interval = uint seconds * 1000" using interval by simp
  define n where "n = (t - target) div interval"
  have "0 \<le> interval" unfolding interval_eq by simp
  with nz have pos: "0 < interval" by simp
  have "0 \<le> n * interval" using pos le by (simp add: n_def pos_imp_zdiv_nonneg_iff)
  moreover have "n * interval \<le> t - target"
    using pos le by (simp add: n_def) (metis minus_mod_eq_div_mult diff_le_eq le_add_same_cancel1 pos_mod_sign)
  ultimately have sat: "i64_saturated (n * interval) = n * interval" using diff by (simp add: i64_saturated_def)
  have "i64 (t - target) \<noteq> None" using le diff by (simp add: i64_def)
  with rest le nz have rest': "(case i64 (target + n * interval) of
       None \<Rightarrow> Inl (Corrupt ''every occurrence overflow'')
     | Some occurrence \<Rightarrow>
         (case canonical_instant_from_ms cal occurrence of
            None \<Rightarrow> Inl (Corrupt ''every occurrence out of range'')
          | Some x \<Rightarrow>
              Inr \<lparr>eo_occurrence_at = x,
                   eo_next_scheduled_at = Option.bind (i64 (occurrence + interval)) (canonical_instant_from_ms cal)\<rparr>)) = Inr occurrence"
    by (simp add: Let_def n_def [symmetric] sat)
  then obtain x where x:
    "canonical_instant_from_ms cal (target + n * interval) = Some x" "eo_occurrence_at occurrence = x"
    "eo_next_scheduled_at occurrence = Option.bind (i64 (target + n * interval + interval)) (canonical_instant_from_ms cal)"
    by (cases "i64 (target + n * interval)"; cases "canonical_instant_from_ms cal (target + n * interval)") auto
  have "parse_canonical_instant cal y = Inr (target + (n + 1) * interval)" if "eo_next_scheduled_at occurrence = Some y" for y
    using that x(3) canonical_parse(1) [OF assms(1), of _ y] by (auto simp: bind_eq_Some_conv algebra_simps)
  moreover have "parse_canonical_instant cal (eo_occurrence_at occurrence) = Inr (target + n * interval)"
    using x canonical_parse(1) [OF assms(1)] by simp
  moreover have "target + n * interval + interval = target + (n + 1) * interval" by (simp add: algebra_simps)
  then have "eo_next_scheduled_at occurrence = Option.bind (i64 (target + (n + 1) * interval)) (canonical_instant_from_ms cal)"
    using x(3) by (simp only:)
  ultimately show ?thesis
    using target seconds le nz unfolding Let_def interval_eq [symmetric] n_def [symmetric] by (auto simp: interval_eq n_def)
qed

lemma fold_change_changed:
  assumes "distinct (map sc_id (fs_active f))" and "fold_change cal change f = Inr f'"
  shows "changed cal change (fs_active f) (fs_active f') \<and>
    (case change of
       ScheduleCreate version r \<Rightarrow> version = 1 \<and> sc_id r \<notin> fs_seen_ids f \<and> fs_seen_ids f' = insert (sc_id r) (fs_seen_ids f) \<and>
         (\<exists>t. parse_canonical_instant cal (sc_scheduled_at r) = Inr t)
     | ScheduleDelete version i \<Rightarrow> fs_seen_ids f' = fs_seen_ids f \<and> i \<in> sc_id ` set (fs_active f)
     | ScheduleDispatch version i accepted \<Rightarrow> fs_seen_ids f' = fs_seen_ids f \<and>
         (\<exists>r\<in>set (fs_active f). sc_id r = i \<and> (sc_kind r = Every \<longleftrightarrow> accepted \<noteq> None)))"
proof (cases change)
  case (ScheduleDispatch version i accepted)
  with assms(2) obtain n where n: "position (\<lambda>r. sc_id r = i) (fs_active f) = Some n" by (auto split: if_splits option.splits)
  note at = splice_removes [OF assms(1) n]
  then have mem: "\<exists>r\<in>set (fs_active f). sc_id r = i \<and> (sc_kind r = Every \<longleftrightarrow> sc_kind (fs_active f ! n) = Every)"
    using nth_mem by blast
  show ?thesis
  proof (cases accepted)
    case None
    with assms(2) n at mem ScheduleDispatch show ?thesis by (auto simp: changed_def split: if_splits)
  next
    case (Some a)
    with assms(2) n ScheduleDispatch have every: "sc_kind (fs_active f ! n) = Every" by (auto split: if_splits)
    with assms(2) n Some ScheduleDispatch obtain t occurrence where o:
      "parse_canonical_instant cal a = Inr t" "resolve_every_occurrence cal (fs_active f ! n) t = Inr occurrence"
      "f' = (case eo_next_scheduled_at occurrence of
               Some x \<Rightarrow> f\<lparr>fs_active := (fs_active f)[n := (fs_active f ! n)\<lparr>sc_scheduled_at := x\<rparr>]\<rparr>
             | None \<Rightarrow> f\<lparr>fs_active := splice n (n + 1) [] (fs_active f)\<rparr>)"
      by (auto split: if_splits)
    have "changed cal change (fs_active f) (fs_active f')"
      unfolding changed_def ScheduleDispatch Some using at every o update_at [OF assms(1) at(2)]
      by (auto split: option.splits intro!: bexI [of _ "fs_active f ! n"])
    with o(3) mem every Some ScheduleDispatch show ?thesis by (auto split: option.splits)
  qed
qed (use assms splice_removes(1) [OF assms(1)] in \<open>auto simp: changed_def dest!: position_SomeD split: if_splits option.splits\<close>)


lemma changed_distinct:
  assumes "changed cal change rs rs'" and "distinct (map sc_id rs)"
    and "\<And>version r. change = ScheduleCreate version r \<Longrightarrow> sc_id r \<notin> sc_id ` set rs"
  shows "distinct (map sc_id rs')"
proof -
  have "map sc_id (map (\<lambda>q. if sc_id q = i then q\<lparr>sc_scheduled_at := x\<rparr> else q) rs) = map sc_id rs" for i x
    by simp
  with assms show ?thesis
    by (cases change) (auto simp: changed_def distinct_map_filter simp del: map_map split: option.splits)
qed

lemma rules_ok_step:
  assumes J: "rules_ok cal es s" and check: "check_data dec evs pos seq rv (ScheduleChange change) s = Inr s'"
    and e: "le_event l = ScheduleChange change"
  shows "rules_ok cal (es @ [l]) s'"
proof -
  have seen: "finite (v_seen_schedule_ids s') \<and> card (v_seen_schedule_ids s') \<le> length (es @ [l])"
    using J check by (cases change) (auto simp: rules_ok_def accepts card_insert_if on_schedule_change_def)
  have "fs_seen_ids f' = v_seen_schedule_ids s' \<and> distinct (map sc_id (fs_active f')) \<and>
        (\<forall>r\<in>set (fs_active f'). wf_rule cal r \<and> sc_id r \<in> fs_seen_ids f' \<and> v_active_schedules s' (sc_id r) = Some (sc_kind r)) \<and>
        (\<forall>i kind. v_active_schedules s' i = Some kind \<and> kind \<noteq> Every \<longrightarrow> i \<in> sc_id ` set (fs_active f'))"
    if cal: "calendar cal" and f': "log_fold cal (es @ [l]) = Inr f'" for f'
  proof -
    from f' e obtain f where f: "log_fold cal es = Inr f" and step: "fold_change cal change f = Inr f'"
      by (auto simp: log_fold_snoc)
    have I: "fs_seen_ids f = v_seen_schedule_ids s" "distinct (map sc_id (fs_active f))"
      "\<forall>r\<in>set (fs_active f). wf_rule cal r \<and> sc_id r \<in> fs_seen_ids f \<and> v_active_schedules s (sc_id r) = Some (sc_kind r)"
      "\<forall>i kind. v_active_schedules s i = Some kind \<and> kind \<noteq> Every \<longrightarrow> i \<in> sc_id ` set (fs_active f)"
      using J cal f by (auto simp: rules_ok_def)
    note ch = fold_change_changed [OF I(2) step]
    show ?thesis
    proof (cases change)
      case (ScheduleCreate version r)
      with check have v: "valid_schedule_shape r" "trim (sc_id r) = sc_id r" "\<not> blank (sc_id r)"
        "v_seen_schedule_ids s' = insert (sc_id r) (v_seen_schedule_ids s)"
        "v_active_schedules s' = (v_active_schedules s)(sc_id r \<mapsto> sc_kind r)"
        by (auto simp: accepts on_schedule_change_def)
      from ch ScheduleCreate have f'': "fs_active f' = fs_active f @ [r]" "sc_id r \<notin> fs_seen_ids f"
        "fs_seen_ids f' = insert (sc_id r) (fs_seen_ids f)" "\<exists>t. parse_canonical_instant cal (sc_scheduled_at r) = Inr t"
        by (auto simp: changed_def)
      have fresh: "sc_id r \<notin> sc_id ` set (fs_active f)" using I(3) f''(2) by auto
      show ?thesis
      proof (intro conjI)
        show "fs_seen_ids f' = v_seen_schedule_ids s'" using I(1) v(4) f''(3) by simp
        show "distinct (map sc_id (fs_active f'))" using I(2) f''(1) fresh by simp
        show "\<forall>q\<in>set (fs_active f'). wf_rule cal q \<and> sc_id q \<in> fs_seen_ids f' \<and> v_active_schedules s' (sc_id q) = Some (sc_kind q)"
        proof
          fix q assume "q \<in> set (fs_active f')"
          with f''(1) consider "q = r" | "q \<in> set (fs_active f)" by auto
          then show "wf_rule cal q \<and> sc_id q \<in> fs_seen_ids f' \<and> v_active_schedules s' (sc_id q) = Some (sc_kind q)"
          proof cases
            case 2
            with fresh have "sc_id q \<noteq> sc_id r" by (metis imageI)
            with 2 I(3) v(5) f''(3) show ?thesis by simp
          qed (use v f'' in \<open>simp add: wf_rule_def\<close>)
        qed
        show "\<forall>i kind. v_active_schedules s' i = Some kind \<and> kind \<noteq> Every \<longrightarrow> i \<in> sc_id ` set (fs_active f')"
          using I(4) v(5) f''(1) by auto
      qed
    next
      case (ScheduleDelete version i)
      with check have v: "v_seen_schedule_ids s' = v_seen_schedule_ids s"
        "v_active_schedules s' = (v_active_schedules s)(i := None)"
        by (auto simp: accepts on_schedule_change_def)
      from ch ScheduleDelete have f'': "fs_active f' = filter (\<lambda>r. sc_id r \<noteq> i) (fs_active f)" "fs_seen_ids f' = fs_seen_ids f"
        by (auto simp: changed_def)
      show ?thesis unfolding f'' v using I by (auto simp: distinct_map_filter)
    next
      case (ScheduleDispatch version i accepted)
      with check have "on_schedule_dispatch seq version i accepted s = Inr s'" by (simp add: on_schedule_change_def)
      then obtain kind where k: "v_active_schedules s i = Some kind"
        "(if kind = Every then (\<exists>t. accepted = Some t \<and> \<not> blank t) else accepted = None)"
        "s' = (if kind \<noteq> Every then s\<lparr>v_active_schedules := (v_active_schedules s)(i := None)\<rparr> else s)"
        unfolding on_schedule_dispatch_accepts by blast
      then have v: "v_active_schedules s i = Some kind" "kind = Every \<longleftrightarrow> accepted \<noteq> None"
        "v_seen_schedule_ids s' = v_seen_schedule_ids s"
        "v_active_schedules s' = (if kind = Every then v_active_schedules s else (v_active_schedules s)(i := None))"
        by (cases accepted; simp split: if_splits)+
      from ch ScheduleDispatch have same: "fs_seen_ids f' = fs_seen_ids f" by simp
      show ?thesis
      proof (cases "fs_active f' = filter (\<lambda>r. sc_id r \<noteq> i) (fs_active f)")
        case True
        have img: "sc_id ` set (filter (\<lambda>r. sc_id r \<noteq> i) (fs_active f)) = sc_id ` set (fs_active f) - {i}" by auto
        have "\<forall>j kind. v_active_schedules s' j = Some kind \<and> kind \<noteq> Every \<longrightarrow> j \<in> sc_id ` set (fs_active f) - {i}"
          using I(4) v by (auto split: if_splits)
        moreover have "\<forall>r\<in>set (filter (\<lambda>r. sc_id r \<noteq> i) (fs_active f)). wf_rule cal r \<and> sc_id r \<in> fs_seen_ids f \<and>
            v_active_schedules s' (sc_id r) = Some (sc_kind r)"
          using I(3) v(4) by auto
        ultimately show ?thesis unfolding same True img using I(1,2) v(3) by (simp add: distinct_map_filter)
      next
        case False
        with ch ScheduleDispatch obtain a r t occurrence where o: "accepted = Some a"
          "resolve_every_occurrence cal r t = Inr occurrence"
          "fs_active f' = (case eo_next_scheduled_at occurrence of None \<Rightarrow> filter (\<lambda>r. sc_id r \<noteq> i) (fs_active f)
                    | Some x \<Rightarrow> map (\<lambda>q. if sc_id q = i then q\<lparr>sc_scheduled_at := x\<rparr> else q) (fs_active f))"
          by (auto simp: changed_def split: option.splits)
        with False obtain x where x: "eo_next_scheduled_at occurrence = Some x" by (cases "eo_next_scheduled_at occurrence") auto
        then have parsed: "\<exists>t. parse_canonical_instant cal x = Inr t"
          using resolve_every_Inr [OF cal o(2)] by (auto simp: Let_def)
        have f'': "fs_active f' = map (\<lambda>q. if sc_id q = i then q\<lparr>sc_scheduled_at := x\<rparr> else q) (fs_active f)"
          using o(3) x by simp
        have q: "wf_rule cal (q\<lparr>sc_scheduled_at := x\<rparr>)" if "wf_rule cal q" for q
          using that parsed by (cases "sc_kind q") (simp_all add: wf_rule_def valid_schedule_shape_def)
        have ids: "map sc_id (fs_active f') = map sc_id (fs_active f)" unfolding f'' by simp
        have "v_active_schedules s' = v_active_schedules s" using v o(1) by simp
        moreover have "sc_id ` set (fs_active f') = sc_id ` set (fs_active f)"
          using ids by (metis list.set_map)
        moreover have "wf_rule cal q \<and> sc_id q \<in> fs_seen_ids f' \<and> v_active_schedules s (sc_id q) = Some (sc_kind q)"
          if "q \<in> set (fs_active f')" for q
          using that I(3) q unfolding same f'' by auto
        ultimately show ?thesis using I(1,2,4) v(3) same ids by simp
      qed
    qed
  qed
  with seen show ?thesis unfolding rules_ok_def by blast
qed

interpretation rules: event_invariant "\<lambda>_. rules_ok cal" for cal
proof
  show "rules_ok cal [] init_vstate"
    by (auto simp: rules_ok_def init_vstate_def log_fold_def)
next
  fix es s r show "rules_ok cal es (s\<lparr>v_revision := r\<rparr>) = rules_ok cal es s" by (simp add: rules_ok_def)
next
  fix dec es s and l :: logged_event and evs s'
  assume J: "rules_ok cal es s" and check: "check_data dec evs (length es) (length es) (le_revision l) (le_event l) s = Inr s'"
  show "rules_ok cal (es @ [l]) s'"
  proof (cases "\<exists>change. le_event l = ScheduleChange change")
    case True
    then show ?thesis using rules_ok_step [OF J] check by auto
  next
    case False
    then have "log_fold cal (es @ [l]) = log_fold cal es"
      using fold_other [of "le_event l" cal] by (cases "log_fold cal es") (simp_all add: log_fold_snoc)
    moreover have "v_active_schedules s' = v_active_schedules s" "v_seen_schedule_ids s' = v_seen_schedule_ids s"
      using check_data_schedules [OF check] False by simp_all
    ultimately show ?thesis using J unfolding rules_ok_def by auto
  qed
qed

lemma rules_of_session:
  assumes "session_ok dec s"
  shows "rules_ok cal (se_events s) (after_log dec (se_events s))"
  using rules.at_prefix [of dec "se_events s" "se_events s"] valid_after_log [of dec "se_revision s" "se_events s"] assms
  by (auto simp: session_ok_def)

lemma fold_session: "fold_schedule_events cal s = log_fold cal (se_events s)"
  by (simp add: fold_schedule_events_def log_fold_def)

subsection \<open>The loop under interference\<close>

context store_contract
begin

lemma transact_cases:
  assumes "steady ops w" and "ok st" and "so_load ops i st = Inr (Some s0)"
    and "transact ops w i plan n k st = (st', res)"
  shows "store_run ops st st' \<and>
    (case res of
       LoadFailed _ \<Rightarrow> False
     | Refused a \<Rightarrow> \<exists>s. extends s0 s \<and> so_load ops i st' = Inr (Some s) \<and> plan s = Inl a
     | Appended b \<Rightarrow> \<exists>s events now s' rc. extends s0 s \<and> session_ok dec s \<and> plan s = Inr (events, b) \<and>
         append_batch_at dec s (se_revision s) events now = (s', Inr rc) \<and> so_load ops i st' = Inr (Some s')
     | AppendFailed b e \<Rightarrow> \<exists>s events now err. extends s0 s \<and> so_load ops i st' = Inr (Some s) \<and> plan s = Inr (events, b) \<and>
         append_batch_at dec s (se_revision s) events now = (s, Inl err) \<and> e = InvalidSession err
     | FlushFailed _ _ \<Rightarrow> False
     | DidNotConverge \<Rightarrow> \<exists>s. so_load ops i st' = Inr (Some s) \<and> unat (se_revision s0) + n \<le> unat (se_revision s))"
  using assms
proof (induction n arbitrary: k st s0)
  case 0
  then show ?case by (auto intro: store_run.intros)
next
  case (Suc n)
  define st1 where "st1 = wo_env w (2 * k) st"
  define st2 where "st2 = wo_env w (2 * k + 1) st1"
  have run1: "store_run ops st st1" and run12: "store_run ops st1 st2"
    using Suc.prems(1) by (simp_all add: steady_def st1_def st2_def)
  have run2: "store_run ops st st2" by (rule store_run_trans [OF run12 run1])
  have ok1: "ok st1" and ok2: "ok st2" using run_ok Suc.prems(2) run1 run2 by blast+
  obtain s1 where s1: "so_load ops i st1 = Inr (Some s1)" "extends s0 s1"
    using run_extends [OF run1 Suc.prems(2,3)] by blast
  obtain s2 where s2: "so_load ops i st2 = Inr (Some s2)" "extends s1 s2"
    using run_extends [OF run12 ok1 s1(1)] by blast
  have load1: "load_session ops i st1 = Inr s1" using s1(1) by (simp add: load_session_def)
  note loop = Suc.prems(4) [unfolded transact.simps Let_def, folded st1_def, folded st2_def, unfolded load1 sum.case]
  show ?case
  proof (cases "plan s1")
    case (Inl a)
    with loop s1 run1 show ?thesis by auto
  next
    case (Inr p)
    then obtain events b where go: "plan s1 = Inr (events, b)" by (cases p) auto
    obtain st3 res3 where app: "so_append ops (wo_now w k) i (se_revision s1) events st2 = (st3, res3)" by fastforce
    have run3: "store_run ops st st3"
      using store_run.appended [OF run2, of "wo_now w k" i "se_revision s1" events] app by simp
    note loop' = loop [unfolded go sum.case prod.case app]
    obtain s3 r where batch: "append_batch_at dec s1 (se_revision s1) events (wo_now w k) = (s3, r)" by fastforce
    from append_after_look [OF ok2 s2 app, unfolded batch fst_conv snd_conv] show ?thesis
    proof (elim disjE conjE exE)
      fix x y assume moved: "se_revision s2 \<noteq> se_revision s1" and load3: "so_load ops i st3 = Inr (Some s2)"
        and "res3 = Inl (StoreRevisionConflict i x y)"
      with loop' have rest: "transact ops w i plan n (Suc k) st3 = (st', res)" by simp
      have "unat (se_revision s0) \<le> unat (se_revision s1)" using s1(2) by (simp add: extends_def word_le_nat_alt)
      then have more: "unat (se_revision s0) + Suc n \<le> unat (se_revision s2) + n"
        using extends_grows [OF s2(2) moved] by simp
      have ext: "extends s0 s2" using s1(2) s2(2) by (rule extends_trans)
      note IH = Suc.IH [OF Suc.prems(1) run_ok [OF run3 Suc.prems(2)] load3 rest]
      then have "store_run ops st st'" using run3 by (blast intro: store_run_trans)
      moreover have "extends s0 s" if "extends s2 s" for s using ext that by (rule extends_trans)
      ultimately show ?thesis
      proof (cases res)
        case (Appended b')
        with IH \<open>store_run ops st st'\<close> \<open>\<And>s. extends s2 s \<Longrightarrow> extends s0 s\<close> show ?thesis by simp blast
      qed (use IH more in \<open>auto\<close>)
    next
      fix r' assume "s2 = s1" and "r = r'" and res3: "res3 = map_err InvalidSession r'"
        and after: "so_load ops i st3 = Inr (Some s3)"
      show ?thesis
      proof (cases r)
        case (Inl err)
        with batch have "s3 = s1" using append_batch_cases by blast
        moreover have "st' = st3" "res = AppendFailed b (InvalidSession err)"
          using loop' res3 Inl \<open>r = r'\<close> by auto
        ultimately show ?thesis using run3 after go batch Inl s1(2) by auto
      next
        case (Inr rc)
        have "so_flush ops i st3 = Inr (se_revision s3)"
          using flush_present [OF run_ok [OF run3 Suc.prems(2)] after] .
        with loop' res3 Inr \<open>r = r'\<close> have "st' = st3" "res = Appended b" by auto
        moreover have "session_ok dec s1" using loaded [OF ok1 s1(1)] by simp
        ultimately show ?thesis using run3 after go batch Inr s1(2) by auto
      qed
    qed
  qed
qed

end

context store_contract
begin

lemma transact_idle:
  assumes "idle_world w" and "ok st" and "so_load ops i st = Inr (Some s)" and "plan s = Inr (events, b)"
    and "append_batch_at dec s (se_revision s) events (wo_now w k) = (s', Inr rc)"
  shows "\<exists>st'. transact ops w i plan (Suc n) k st = (st', Appended b) \<and> ok st' \<and> so_load ops i st' = Inr (Some s')"
proof -
  obtain st' res where app: "so_append ops (wo_now w k) i (se_revision s) events st = (st', res)" by fastforce
  with append_current [OF assms(2,3,5)] append_ok [OF assms(2), of "wo_now w k" i "se_revision s" events]
  have st': "res = Inr rc" "so_load ops i st' = Inr (Some s')" "ok st'" by auto
  moreover have "so_flush ops i st' = Inr (se_revision s')" using st' by (auto intro: flush_present)
  ultimately show ?thesis
    using assms app by (simp add: idle_world_def load_session_def)
qed

end

subsection \<open>Appending changes\<close>

fun changes_accepted :: "schedule_change list \<Rightarrow> vstate \<Rightarrow> bool" where
  "changes_accepted [] s = True"
| "changes_accepted (c # cs) s =
     (case on_schedule_change 0 c s of Inl _ \<Rightarrow> False | Inr s' \<Rightarrow> changes_accepted cs s')"

lemma on_schedule_change_seq:
  assumes "on_schedule_change 0 c s = Inr s'"
  shows "on_schedule_change seq c (s\<lparr>v_revision := r\<rparr>) = Inr (s'\<lparr>v_revision := r\<rparr>) \<and>
    check_open_calls 0 s' = check_open_calls 0 s"
proof (cases c)
  case (ScheduleDispatch version i accepted)
  with assms obtain kind where k: "v_active_schedules s i = Some kind" "version = 1" "trim i = i"
    "(if kind = Every then (\<exists>t. accepted = Some t \<and> \<not> blank t) else accepted = None)"
    "s' = (if kind \<noteq> Every then s\<lparr>v_active_schedules := (v_active_schedules s)(i := None)\<rparr> else s)"
    by (simp only: on_schedule_change_def schedule_change.case on_schedule_dispatch_accepts) blast
  then have "on_schedule_dispatch seq version i accepted (s\<lparr>v_revision := r\<rparr>) = Inr (s'\<lparr>v_revision := r\<rparr>)"
    unfolding on_schedule_dispatch_accepts by (intro exI [of _ kind]) simp
  with k(5) ScheduleDispatch show ?thesis by (simp add: on_schedule_change_def check_open_calls_def)
qed (use assms in \<open>auto simp: on_schedule_change_def on_schedule_create_accepts on_schedule_delete_accepts check_open_calls_def\<close>)

lemma data_run_changes:
  assumes "changes_accepted cs s" and "check_open_calls 0 s = Inr ()"
  shows "\<exists>s'. data_run dec evs pos rv (map ScheduleChange cs) (s\<lparr>v_revision := r\<rparr>) = Inr s' \<and> check_open_calls 0 s' = Inr ()"
  using assms
proof (induction cs arbitrary: s pos)
  case Nil
  then show ?case by simp
next
  case (Cons c cs)
  then obtain s1 where s1: "on_schedule_change 0 c s = Inr s1" "changes_accepted cs s1"
    by (auto split: sum.splits)
  note step = on_schedule_change_seq [OF s1(1), of pos r]
  then have "check_open_calls 0 s1 = Inr ()" using Cons.prems(2) by simp
  from Cons.IH [OF s1(2) this, of "Suc pos"] step Cons.prems(2) check_open_calls_seq [of 0 s pos]
  show ?case by simp
qed

lemma append_changes:
  assumes ok: "session_ok dec s" and room: "se_revision s \<noteq> - 1" and ne: "cs \<noteq> []"
    and run: "changes_accepted cs (after_log dec (se_events s))"
  shows "\<exists>s' rc. append_batch_at dec s (se_revision s) (map ScheduleChange cs) t = (s', Inr rc)"
proof -
  let ?v = "after_log dec (se_events s)"
  have log: "validate_log dec (se_revision s) (se_events s) = Inr ()" using ok by (simp add: session_ok_def)
  obtain r where r: "checked_add (se_revision s) 1 = Some r" using checked_add_one [OF room] by blast
  have "check_open_calls 0 ?v = Inr ()"
    using valid_after_log [OF log] check_open_calls_seq [of _ ?v 0] by auto
  from data_run_changes [OF run this] obtain s1 where
    "data_run dec (se_events s @ stage (next_seq s) r t (map ScheduleChange cs)) (next_seq s) r (map ScheduleChange cs)
       (?v\<lparr>v_revision := r\<rparr>) = Inr s1" "check_open_calls 0 s1 = Inr ()"
    by blast
  from append_runs(1) [OF ok r _ this] ne show ?thesis by blast
qed

lemma fold_appended:
  assumes "append_batch_at dec s (se_revision s) (map ScheduleChange cs) t = (s', Inr rc)"
  shows "fold_schedule_events cal s' = and_then (fold_schedule_events cal s) (fold_events cal (map ScheduleChange cs))"
    and "map le_event (se_events s') = map le_event (se_events s) @ map ScheduleChange cs"
proof -
  show *: "map le_event (se_events s') = map le_event (se_events s) @ map ScheduleChange cs"
    using append_batch_cases [OF assms] by auto
  show "fold_schedule_events cal s' = and_then (fold_schedule_events cal s) (fold_events cal (map ScheduleChange cs))"
    by (simp add: fold_schedule_events_def * fold_events_append)
qed

text \<open>What keeps a rule: events that neither delete nor dispatch it.\<close>

fun names_rule :: "string \<Rightarrow> event_data \<Rightarrow> bool" where
  "names_rule i (ScheduleChange (ScheduleDelete version j)) \<longleftrightarrow> j = i"
| "names_rule i (ScheduleChange (ScheduleDispatch version j accepted_at)) \<longleftrightarrow> j = i"
| "names_rule i e \<longleftrightarrow> False"

lemma splice_keeps: "x \<in> set xs \<Longrightarrow> n < length xs \<Longrightarrow> x \<noteq> xs ! n \<Longrightarrow> x \<in> set (splice n (n + 1) [] xs)"
  using id_take_nth_drop [of n xs] by (metis Un_iff append.left_neutral insert_iff list.simps(15) set_append splice_def Suc_eq_plus1)

lemma update_keeps: "x \<in> set xs \<Longrightarrow> n < length xs \<Longrightarrow> x \<noteq> xs ! n \<Longrightarrow> x \<in> set (xs[n := y])"
  by (metis in_set_conv_nth length_list_update nth_list_update_neq)

lemma fold_change_keeps:
  assumes "fold_change cal change f = Inr f'" and "r \<in> set (fs_active f)" and "\<not> names_rule (sc_id r) (ScheduleChange change)"
  shows "r \<in> set (fs_active f')"
proof (cases change)
  case (ScheduleCreate version q)
  with assms show ?thesis by (auto split: if_splits)
next
  case (ScheduleDelete version i)
  with assms obtain n where n: "position (\<lambda>r. sc_id r = i) (fs_active f) = Some n" "f' = f\<lparr>fs_active := splice n (n + 1) [] (fs_active f)\<rparr>"
    by (auto split: if_splits option.splits)
  with position_SomeD [OF n(1)] assms(2,3) ScheduleDelete show ?thesis by (auto intro!: splice_keeps [unfolded Suc_eq_plus1 [symmetric]])
next
  case (ScheduleDispatch version i accepted_at)
  with assms(1) obtain n where n: "position (\<lambda>r. sc_id r = i) (fs_active f) = Some n" by (auto split: if_splits option.splits)
  with position_SomeD [OF n] assms(2,3) ScheduleDispatch have r: "n < length (fs_active f)" "r \<noteq> fs_active f ! n" by auto
  from assms(1) n ScheduleDispatch consider "fs_active f' = splice n (n + 1) [] (fs_active f)"
    | x where "fs_active f' = (fs_active f)[n := (fs_active f ! n)\<lparr>sc_scheduled_at := x\<rparr>]"
    by (auto split: if_splits option.splits)
  then show ?thesis using splice_keeps [OF assms(2) r] update_keeps [OF assms(2) r] by cases simp_all
qed

lemma fold_change_seen: "fold_change cal change f = Inr f' \<Longrightarrow> fs_seen_ids f \<subseteq> fs_seen_ids f'"
  by (cases change) (auto split: if_splits option.splits)

lemma fold_events_keeps:
  assumes "fold_events cal es f = Inr f'" and "r \<in> set (fs_active f)"
  shows "\<forall>e\<in>set es. \<not> names_rule (sc_id r) e \<Longrightarrow> r \<in> set (fs_active f')" and "fs_seen_ids f \<subseteq> fs_seen_ids f'"
proof -
  show "r \<in> set (fs_active f')" if "\<forall>e\<in>set es. \<not> names_rule (sc_id r) e"
    using assms that
  proof (induction cal es f arbitrary: f' rule: fold_events.induct)
    case (2 cal change es f)
    then obtain f1 where "fold_change cal change f = Inr f1" "fold_events cal es f1 = Inr f'" by auto
    with 2 fold_change_keeps [of cal change f f1 r] show ?case by simp
  qed simp_all
  show "fs_seen_ids f \<subseteq> fs_seen_ids f'"
    using assms(1)
  proof (induction cal es f arbitrary: f' rule: fold_events.induct)
    case (2 cal change es f)
    then obtain f1 where "fold_change cal change f = Inr f1" "fold_events cal es f1 = Inr f'" by auto
    with 2 fold_change_seen [of cal change f f1] show ?case by blast
  qed simp_all
qed

subsection \<open>Creating a rule\<close>

lemma allocate_from_fresh:
  assumes "allocate_from seen n = Some i"
  shows "i \<notin> seen \<and> (\<exists>m. i = schedule_id m)"
proof (rule allocate_from.raw_induct [where P = "\<lambda>seen n i. i \<notin> seen \<and> (\<exists>m. i = schedule_id m)", OF _ assms])
  fix f seen n i
  assume IH: "\<And>seen n i. f seen n = Some i \<Longrightarrow> i \<notin> seen \<and> (\<exists>m. i = schedule_id m)"
    and eq: "(let candidate = schedule_id n in
      if candidate \<notin> seen then Some candidate else f seen (saturating_add_usize n 1)) = Some i"
  show "i \<notin> seen \<and> (\<exists>m. i = schedule_id m)"
  proof (cases "schedule_id n \<in> seen")
    case True
    with eq have "f seen (saturating_add_usize n 1) = Some i" by (simp add: Let_def)
    then show ?thesis by (rule IH)
  next
    case False
    with eq show ?thesis by (auto simp: Let_def)
  qed
qed

lemma create_accepted:
  assumes "calendar cal" and "session_ok dec s" and "fold_schedule_events cal s = Inr f" and "allocate_id f = Some i"
    and "create_record cal i prompt selector now = Inr r"
  shows "changes_accepted [ScheduleCreate 1 r] (after_log dec (se_events s))"
    and "fold_change cal (ScheduleCreate 1 r) f = Inr \<lparr>fs_active = fs_active f @ [r], fs_seen_ids = insert i (fs_seen_ids f)\<rparr>"
proof -
  note r = create_record_Inr [OF assms(1,5)]
  have i: "i \<notin> fs_seen_ids f" "\<exists>m. i = schedule_id m" using assms(4) allocate_from_fresh by (auto simp: allocate_id_def)
  then have "trim i = i" "\<not> blank i" using schedule_id_clean by auto
  moreover have "fs_seen_ids f = v_seen_schedule_ids (after_log dec (se_events s))"
    using rules_of_session [OF assms(2), of cal] assms(1,3) by (simp add: rules_ok_def fold_session)
  ultimately have "\<exists>v. on_schedule_create 0 1 r (after_log dec (se_events s)) = Inr v"
    using r i(1) unfolding on_schedule_create_accepts by (simp add: blank_def)
  then show "changes_accepted [ScheduleCreate 1 r] (after_log dec (se_events s))"
    by (auto simp: on_schedule_change_def)
  show "fold_change cal (ScheduleCreate 1 r) f = Inr \<lparr>fs_active = fs_active f @ [r], fs_seen_ids = insert i (fs_seen_ids f)\<rparr>"
    using r i(1) by auto
qed

text \<open>Property C25. Whatever other users of the session do meanwhile, a reminder that \<open>schedule_create\<close> reports is in
  the log, and nothing else was appended with it: it has the prompt and the kind that were asked for, an identity that was
  never used in the log before, and as its target the moment the selector means, which lies in the future.  A
  reading of the log then finds it behind the rules that were active, and every later reading, of this log with any
  events behind it, finds it unchanged as long as none of them deletes or dispatches it, and its identity used
  forever.  A request is refused exactly for a blank prompt or when no such moment is meant, or the rules of the log cannot be read; what the
  tool prepares is never refused by the log, whose rules are separate code: the answer is
  \<open>persistence_uncertain\<close> only when the revisions are used up.  The search for a free identity ends, unless half
  the address space is full of rules.\<close>

theorem create_durable:
  assumes "calendar cal" and "steady (memory_ops dec) w" and "memory_ok dec st" and "map_of st i = Some s0"
    and "create_value cal (memory_ops dec) w False i now prompt selector st = (st', res)"
  shows "(\<exists>r s f target x s' rc t. res = Some (ScheduleView r False) \<and> extends s0 s \<and> fold_schedule_events cal s = Inr f \<and>
      append_batch_at dec s (se_revision s) [ScheduleChange (ScheduleCreate 1 r)] t = (s', Inr rc) \<and>
      map_of st' i = Some s' \<and> sc_id r \<notin> fs_seen_ids f \<and>
      trim prompt \<noteq> [] \<and> wanted cal selector now target \<and> now < target \<and>
      r = rule_for (sc_id r) (trim prompt) selector x \<and> parse_canonical_instant cal x = Inr target \<and>
      fold_schedule_events cal s' = Inr \<lparr>fs_active = fs_active f @ [r], fs_seen_ids = insert (sc_id r) (fs_seen_ids f)\<rparr> \<and>
      (\<forall>s'' more f''. se_events s'' = se_events s' @ more \<longrightarrow> fold_schedule_events cal s'' = Inr f'' \<longrightarrow>
         sc_id r \<in> fs_seen_ids f'' \<and>
         ((\<forall>l\<in>set more. \<not> names_rule (sc_id r) (le_event l)) \<longrightarrow> r \<in> set (fs_active f'')))) \<or>
    (\<exists>s. map_of st' i = Some s \<and> extends s0 s \<and>
      (case res of
         None \<Rightarrow> usize_max \<le> 2 * length (se_events s)
       | Some v \<Rightarrow>
           (v = corrupt_error \<and> (\<exists>e. fold_schedule_events cal s = Inl e)) \<or>
           (v = internal_error \<and> unat (se_revision s0) + 16 \<le> unat (se_revision s)) \<or>
           (public_error v \<and>
              (trim prompt = [] \<or>
               \<not> (\<exists>target x. wanted cal selector now target \<and> now < target \<and> canonical_instant_from_ms cal target = Some x))) \<or>
           (\<exists>j. v = PersistenceUncertain ''create'' (Some j) \<and> se_revision s = - 1)))"
proof -
  have load: "so_load (memory_ops dec) i st = Inr (Some s0)" using assms(4) by (simp add: memory_load_iff)
  obtain out where out: "transact (memory_ops dec) w i (create_plan cal now prompt selector) 16 0 st = (st', out)"
    and res: "res = (case out of LoadFailed _ \<Rightarrow> Some internal_error | Refused v \<Rightarrow> v | Appended r \<Rightarrow> Some (schedule_view cal r now)
       | AppendFailed r _ \<Rightarrow> Some (PersistenceUncertain ''create'' (Some (sc_id r)))
       | FlushFailed r _ \<Rightarrow> Some (PersistenceUncertain ''create'' (Some (sc_id r)))
       | DidNotConverge \<Rightarrow> Some internal_error)"
    using assms(5) memory.flush_present [OF assms(3) load]
    by (auto simp: create_value_def MAX_CAS_RETRIES_def split: prod.splits transaction.splits)
  note run = memory.transact_cases [OF assms(2,3) load out]
  have here: "\<exists>s. map_of st' i = Some s \<and> extends s0 s \<and> session_ok dec s"
    using memory.run_extends [OF conjunct1 [OF run] assms(3) load] memory.run_ok [OF conjunct1 [OF run] assms(3)]
    by (auto simp: memory_load_iff dest: memory_okD)
  have plan: "\<exists>f j. fold_schedule_events cal s = Inr f \<and> allocate_id f = Some j \<and> create_record cal j prompt selector now = Inr r \<and>
      events = [ScheduleChange (ScheduleCreate 1 r)]" if "create_plan cal now prompt selector s = Inr (events, r)" for s events r
    using that by (auto simp: create_plan_def split: sum.splits option.splits)
  show ?thesis
  proof (cases out)
    case (Refused v)
    with run here obtain s where s: "map_of st' i = Some s" "extends s0 s" "session_ok dec s"
      "create_plan cal now prompt selector s = Inl v" by (auto simp: memory_load_iff)
    have "usize_max \<le> 2 * length (se_events s)" if v: "v = None"
    proof (rule ccontr)
      assume small: "\<not> usize_max \<le> 2 * length (se_events s)"
      from s(4) v obtain f where f: "fold_schedule_events cal s = Inr f" "allocate_id f = None"
        by (auto simp: create_plan_def split: sum.splits option.splits)
      then have "finite (fs_seen_ids f)" "card (fs_seen_ids f) \<le> length (se_events s)"
        using rules_of_session [OF s(3), of cal] assms(1) by (auto simp: rules_ok_def fold_session)
      with allocate_fresh [of f] small f(2) show False by auto
    qed
    moreover have "(x = corrupt_error \<and> (\<exists>e. fold_schedule_events cal s = Inl e)) \<or>
        (public_error x \<and> (trim prompt = [] \<or>
           \<not> (\<exists>target y. wanted cal selector now target \<and> now < target \<and> canonical_instant_from_ms cal target = Some y)))"
      if "v = Some x" for x
    proof -
      have "public_error x \<and> (trim prompt = [] \<or>
           \<not> (\<exists>target y. wanted cal selector now target \<and> now < target \<and> canonical_instant_from_ms cal target = Some y))"
        if refused: "create_record cal j prompt selector now = Inl x" for j
      proof -
        have False if "trim prompt \<noteq> []" "wanted cal selector now target" "now < target"
          "canonical_instant_from_ms cal target = Some y" for target y
          using create_record_iff [of cal j prompt selector now "rule_for j (trim prompt) selector y"] that refused by auto
        with create_record_error [OF refused] show ?thesis by blast
      qed
      with s(4) \<open>v = Some x\<close> show ?thesis by (auto simp: create_plan_def split: sum.splits option.splits)
    qed
    ultimately show ?thesis using s(1,2) res Refused by (auto split: option.split)
  next
    case (Appended r)
    with run obtain s events t s' rc where s: "extends s0 s" "session_ok dec s"
      "create_plan cal now prompt selector s = Inr (events, r)"
      "append_batch_at dec s (se_revision s) events t = (s', Inr rc)" "map_of st' i = Some s'"
      by (auto simp: memory_load_iff)
    from plan [OF s(3)] obtain f j where f: "fold_schedule_events cal s = Inr f" "allocate_id f = Some j"
      "create_record cal j prompt selector now = Inr r" "events = map ScheduleChange [ScheduleCreate 1 r]" by auto
    note r = create_record_Inr [OF assms(1) f(3)]
    have j: "j = sc_id r" using r by simp
    let ?f1 = "\<lparr>fs_active = fs_active f @ [r], fs_seen_ids = insert (sc_id r) (fs_seen_ids f)\<rparr>"
    have folded: "fold_schedule_events cal s' = Inr ?f1"
      using fold_appended(1) [OF s(4) [unfolded f(4)], of cal] f(1) create_accepted(2) [OF assms(1) s(2) f(1-3)] by (simp add: j)
    have fresh: "sc_id r \<notin> fs_seen_ids f" using f(2) allocate_from_fresh by (auto simp: allocate_id_def j)
    have reported: "res = Some (ScheduleView r False)"
      using r res Appended by (auto simp: schedule_view_def overdue_def)
    have later: "sc_id r \<in> fs_seen_ids f'' \<and>
        ((\<forall>l\<in>set more. \<not> names_rule (sc_id r) (le_event l)) \<longrightarrow> r \<in> set (fs_active f''))"
      if "se_events s'' = se_events s' @ more" "fold_schedule_events cal s'' = Inr f''" for s'' more f''
    proof -
      from that folded have "fold_events cal (map le_event more) ?f1 = Inr f''"
        by (simp add: fold_schedule_events_def fold_events_append)
      from fold_events_keeps [OF this, of r] show ?thesis by auto
    qed
    obtain target x where wanted: "wanted cal selector now target" "now < target"
      "parse_canonical_instant cal (sc_scheduled_at r) = Inr target" and made: "r = rule_for (sc_id r) (trim prompt) selector x"
      using r unfolding j by blast
    have at: "parse_canonical_instant cal x = Inr target" using wanted(3) by (subst (asm) made) (simp only: rule_for_fields)
    have batch: "append_batch_at dec s (se_revision s) [ScheduleChange (ScheduleCreate 1 r)] t = (s', Inr rc)"
      using s(4) f(4) by simp
    have prompt: "trim prompt \<noteq> []" using r by simp
    show ?thesis
      by (rule disjI1, intro exI conjI)
        (rule reported, rule s(1), rule f(1), rule batch, rule s(5), rule fresh, rule prompt, rule wanted(1), rule wanted(2),
          rule made, rule at, rule folded, intro allI impI, rule later)
  next
    case (AppendFailed r e)
    with run here obtain s events t err where s: "map_of st' i = Some s" "extends s0 s" "session_ok dec s"
      "create_plan cal now prompt selector s = Inr (events, r)"
      "append_batch_at dec s (se_revision s) events t = (s, Inl err)" by (auto simp: memory_load_iff)
    from plan [OF s(4)] obtain f j where f: "fold_schedule_events cal s = Inr f" "allocate_id f = Some j"
      "create_record cal j prompt selector now = Inr r" "events = map ScheduleChange [ScheduleCreate 1 r]" by auto
    have "se_revision s = - 1"
      using append_changes [OF s(3) _ _ create_accepted(1) [OF assms(1) s(3) f(1-3)], of t] s(5) f(4) by auto
    then show ?thesis using s(1,2) res AppendFailed by auto
  next
    case DidNotConverge
    with run here res show ?thesis by (auto simp: memory_load_iff)
  qed (use run in auto)
qed

subsection \<open>The order of what is due\<close>

lemma collect_results_Inr:
  "collect_results f xs = Inr ys \<longleftrightarrow> length ys = length xs \<and> (\<forall>n<length xs. f (xs ! n) = Inr (ys ! n))"
proof (induction xs arbitrary: ys)
  case (Cons x xs)
  show ?case
  proof (cases ys)
    case (Cons y ys')
    with Cons.IH [of ys'] show ?thesis by (cases "f x") (auto simp: All_less_Suc2)
  qed simp
qed auto

lemma collect_results_map: "(\<And>x. x \<in> set xs \<Longrightarrow> f x = Inr (g x)) \<Longrightarrow> collect_results f xs = Inr (map g xs)"
  by (simp add: collect_results_Inr)

lemma collect_results_Inl: "collect_results f xs = Inl e \<Longrightarrow> \<exists>x\<in>set xs. f x = Inl e"
  by (induction xs) (auto simp: and_then_eq_Inl)

lemma collect_results_mem: "collect_results f xs = Inr ys \<Longrightarrow> y \<in> set ys \<Longrightarrow> \<exists>x\<in>set xs. f x = Inr y"
  by (induction xs arbitrary: ys) auto

lemma collect_results_fst:
  "collect_results f xs = Inr ys \<Longrightarrow> (\<And>x y. f x = Inr y \<Longrightarrow> g y = h x) \<Longrightarrow> map g ys = map h xs"
  by (induction xs arbitrary: ys) auto

lemma sort_key_Nil [simp]: "sort_key f xs = [] \<longleftrightarrow> xs = []" "[] = sort_key f xs \<longleftrightarrow> xs = []"
  by (metis length_0_conv length_sort)+

lemma whole_intervals:
  fixes a I :: int
  assumes "0 < I" and "0 \<le> a"
  shows "0 \<le> a div I" "a div I * I \<le> a" "a < (a div I + 1) * I"
proof -
  show "0 \<le> a div I" using assms by (simp add: pos_imp_zdiv_nonneg_iff)
  have eq: "a div I * I + a mod I = a" and mod: "0 \<le> a mod I" "a mod I < I" using assms(1) by simp_all
  show "a div I * I \<le> a" using eq mod(1) by linarith
  have "(a div I + 1) * I = a div I * I + I" by (simp add: distrib_right)
  then show "a < (a div I + 1) * I" using eq mod(2) by linarith
qed

lemma insort_key_cong:
  "(\<And>y. y \<in> set ys \<Longrightarrow> (f x \<le> f y) = (g x \<le> g y)) \<Longrightarrow> insort_key f x ys = insort_key g x ys"
  by (induction ys) auto

text \<open>Sorting by target and then by position is sorting by target alone, since sorting is stable.\<close>

lemma sort_by_index:
  fixes zs :: "(int \<times> nat \<times> 'a) list"
  assumes "sorted_wrt (<) (map (\<lambda>z. fst (snd z)) zs)"
  shows "sort_key (\<lambda>z. (fst z, fst (snd z))) zs = sort_key fst zs"
  using assms
proof (induction zs)
  case (Cons z zs)
  have "insort_key (\<lambda>z. (fst z, fst (snd z))) z (sort_key fst zs) = insort_key fst z (sort_key fst zs)"
    by (rule insort_key_cong) (use Cons.prems in \<open>fastforce simp: less_eq_prod_def\<close>)
  with Cons show ?case by simp
qed simp

lemma sort_key_eq:
  assumes "\<And>x. x \<in> set xs \<Longrightarrow> f x = g x"
  shows "sort_key f xs = sort_key g xs"
  using assms
proof (induction xs)
  case (Cons x xs)
  have "insort_key f x (sort_key g xs) = insort_key g x (sort_key g xs)"
    by (rule insort_key_cong) (use Cons.prems in simp)
  with Cons show ?case by simp
qed simp

lemma sort_key_map: "map f (sort_key (\<lambda>x. g (f x)) xs) = sort_key g (map f xs)"
proof (induction xs)
  case (Cons x xs)
  have "map f (insort_key (\<lambda>x. g (f x)) x ys) = insort_key g (f x) (map f ys)" for ys by (induction ys) auto
  with Cons show ?case by simp
qed simp

lemma filter_enumerate: "map snd (filter (\<lambda>(i, x). P x) (enumerate n xs)) = filter P xs"
  by (induction xs arbitrary: n) auto

lemma enumerate_indices: "sorted_wrt (<) (map fst (filter P (enumerate n xs)))"
proof -
  have "sorted_wrt (<) (map fst (enumerate n xs))" by (simp add: sorted_wrt_upt)
  then have "sorted_wrt (\<lambda>x y. fst x < fst y) (enumerate n xs)" by (simp only: sorted_wrt_map)
  then show ?thesis by (simp only: sorted_wrt_map sorted_wrt_filter)
qed

lemma enumerate_mem: "(i, x) \<in> set (enumerate n xs) \<Longrightarrow> x \<in> set xs"
  by (induction xs arbitrary: n) auto

lemma due_rules_sorted:
  assumes "\<forall>r\<in>set (fs_active f). parse_canonical_instant cal (sc_scheduled_at r) = Inr (due_at r)"
  shows "\<exists>zs. due_rules cal f now every = Inr zs \<and>
    map (\<lambda>z. snd (snd z)) zs = sort_key due_at (filter (\<lambda>r. (sc_kind r = Every) = every \<and> due_at r \<le> now) (fs_active f))"
proof -
  let ?es = "filter (\<lambda>(i, r). (sc_kind r = Every) = every) (enumerate 0 (fs_active f))"
  let ?due = "filter (\<lambda>(i, r). (sc_kind r = Every) = every \<and> due_at r \<le> now) (enumerate 0 (fs_active f))"
  let ?g = "\<lambda>(i, r). (due_at r, i, r)"
  have "collect_results (\<lambda>(index, r). and_then (parse_canonical_instant cal (sc_scheduled_at r)) (\<lambda>target. Inr (target, index, r))) ?es =
      Inr (map ?g ?es)"
    by (rule collect_results_map) (use assms in \<open>auto dest!: enumerate_mem\<close>)
  moreover have "filter (\<lambda>(t, i, r). t \<le> now) (map ?g ?es) = map ?g ?due"
    by (simp add: filter_map comp_def case_prod_unfold conj_commute)
  ultimately have due: "due_rules cal f now every = Inr (sort_key (\<lambda>z. (fst z, fst (snd z))) (map ?g ?due))"
    by (simp add: due_rules_def case_prod_unfold)
  have "map (\<lambda>z. fst (snd z)) (map ?g ?due) = map fst ?due" by (simp add: case_prod_unfold)
  then have "sorted_wrt (<) (map (\<lambda>z. fst (snd z)) (map ?g ?due))" using enumerate_indices by metis
  note due = due [unfolded sort_by_index [OF this]]
  have r: "map (\<lambda>z. snd (snd z)) (map ?g ?due) = filter (\<lambda>r. (sc_kind r = Every) = every \<and> due_at r \<le> now) (fs_active f)"
    using filter_enumerate [of "\<lambda>r. (sc_kind r = Every) = every \<and> due_at r \<le> now" 0 "fs_active f"]
    by (simp add: case_prod_unfold comp_def)
  have "sort_key fst (map ?g ?due) = sort_key (\<lambda>z. due_at (snd (snd z))) (map ?g ?due)"
    by (rule sort_key_eq) (auto simp: case_prod_unfold)
  then have "map (\<lambda>z. snd (snd z)) (sort_key fst (map ?g ?due)) = sort_key due_at (map (\<lambda>z. snd (snd z)) (map ?g ?due))"
    using sort_key_map [of "\<lambda>z. snd (snd z)" due_at "map ?g ?due"] by simp
  with due r show ?thesis by auto
qed

lemma sort_head:
  assumes "sort_key f xs = y # ys"
  shows "y \<in> set xs" and "\<forall>x\<in>set xs. f y \<le> f x"
proof -
  have set: "set xs = insert y (set ys)" using assms set_sort [of f xs] by simp
  then show "y \<in> set xs" by simp
  have "sorted (map f (y # ys))" using sorted_sort_key [of f xs] unfolding assms .
  with set show "\<forall>x\<in>set xs. f y \<le> f x" by simp
qed

lemma due_decision_cases:
  assumes "calendar cal" and targets: "\<forall>r\<in>set (fs_active f). parse_canonical_instant cal (sc_scheduled_at r) = Inr (due_at r)"
  shows "case due_decision cal f now of
      Inr (DueOneShot r) \<Rightarrow> r \<in> set (fs_active f) \<and> sc_kind r \<noteq> Every \<and> due_at r \<le> now \<and>
        (\<forall>q\<in>set (fs_active f). sc_kind q \<noteq> Every \<longrightarrow> due_at r \<le> due_at q) \<and>
        r = hd (sort_key due_at (filter (\<lambda>r. sc_kind r \<noteq> Every \<and> due_at r \<le> now) (fs_active f)))
    | Inr (DueEvery accepted_at reminders) \<Rightarrow>
        (\<forall>q\<in>set (fs_active f). sc_kind q \<noteq> Every \<longrightarrow> now < due_at q) \<and>
        parse_canonical_instant cal accepted_at = Inr now \<and> reminders \<noteq> [] \<and>
        map fst reminders = sort_key due_at (filter (\<lambda>r. sc_kind r = Every \<and> due_at r \<le> now) (fs_active f)) \<and>
        (\<forall>(r, x)\<in>set reminders. \<exists>seconds n. sc_every_seconds r = Some seconds \<and> 0 \<le> n \<and>
           parse_canonical_instant cal x = Inr (due_at r + n * (uint seconds * 1000)) \<and>
           due_at r + n * (uint seconds * 1000) \<le> now \<and> now < due_at r + (n + 1) * (uint seconds * 1000))
    | Inr (DueWait target) \<Rightarrow>
        (\<forall>q\<in>set (fs_active f). now < due_at q) \<and>
        target = (if fs_active f = [] then None else Some (Min (due_at ` set (fs_active f))))
    | Inl e \<Rightarrow> (\<forall>q\<in>set (fs_active f). sc_kind q \<noteq> Every \<longrightarrow> now < due_at q) \<and>
        (\<exists>r\<in>set (fs_active f). sc_kind r = Every \<and> due_at r \<le> now \<and>
           (canonical_instant_from_ms cal now = None \<or> resolve_every_occurrence cal r now = Inl e))"
proof -
  let ?one = "filter (\<lambda>r. (sc_kind r = Every) = False \<and> due_at r \<le> now) (fs_active f)"
  let ?many = "filter (\<lambda>r. (sc_kind r = Every) = True \<and> due_at r \<le> now) (fs_active f)"
  obtain zs where zs: "due_rules cal f now False = Inr zs" "map (\<lambda>z. snd (snd z)) zs = sort_key due_at ?one"
    using due_rules_sorted [OF targets, of now False] by blast
  obtain ys where ys: "due_rules cal f now True = Inr ys" "map (\<lambda>z. snd (snd z)) ys = sort_key due_at ?many"
    using due_rules_sorted [OF targets, of now True] by blast
  show ?thesis
  proof (cases zs)
    case (Cons z zs')
    obtain t i r where z: "z = (t, i, r)" by (cases z)
    have decided: "due_decision cal f now = Inr (DueOneShot r)" using zs(1) Cons z by (simp add: due_decision_def)
    have sorted: "sort_key due_at ?one = r # map (\<lambda>z. snd (snd z)) zs'" using zs(2) Cons z by simp
    note r = sort_head [OF sorted]
    have "due_at r \<le> due_at q" if "q \<in> set (fs_active f)" "sc_kind q \<noteq> Every" for q
      using that r by (cases "due_at q \<le> now") auto
    moreover have "r = hd (sort_key due_at (filter (\<lambda>r. sc_kind r \<noteq> Every \<and> due_at r \<le> now) (fs_active f)))"
      using sorted by simp
    ultimately show ?thesis using decided r(1) by simp
  next
    case Nil
    with zs(2) have "?one = []" by simp
    then have none: "\<forall>q\<in>set (fs_active f). sc_kind q \<noteq> Every \<longrightarrow> now < due_at q" by (auto simp: filter_empty_conv)
    show ?thesis
    proof (cases "ys = []")
      case True
      with ys(2) have "?many = []" by simp
      with none have later: "\<forall>q\<in>set (fs_active f). now < due_at q" by (force simp: filter_empty_conv)
      have ts: "collect_results (\<lambda>r. parse_canonical_instant cal (sc_scheduled_at r)) (fs_active f) = Inr (map due_at (fs_active f))"
        by (rule collect_results_map) (use targets in simp)
      have "filter (\<lambda>target. now < target) (map due_at (fs_active f)) = map due_at (fs_active f)"
        using later by (auto simp: filter_id_conv)
      with zs(1) ys(1) Nil True ts have decided: "due_decision cal f now =
          Inr (DueWait (case sort (map due_at (fs_active f)) of [] \<Rightarrow> None | t # _ \<Rightarrow> Some t))"
        by (simp add: due_decision_def)
      show ?thesis
      proof (cases "sort (map due_at (fs_active f))")
        case Nil
        then have "fs_active f = []" by simp
        with decided show ?thesis by simp
      next
        case (Cons t ts)
        then have "t = Min (due_at ` set (fs_active f))"
          using sort_head [of "\<lambda>x. x" "map due_at (fs_active f)" t ts] by (intro Min_eqI [symmetric]) auto
        moreover have "fs_active f \<noteq> []" using Cons by auto
        ultimately show ?thesis using decided later Cons by simp
      qed
    next
      case False
      have members: "\<forall>(t, n, r)\<in>set ys. r \<in> set ?many"
        using ys(2) by (metis (no_types, lifting) case_prodI2 image_eqI list.set_map set_sort snd_conv)
      let ?remind = "\<lambda>(_, _, r). and_then (resolve_every_occurrence cal r now) (\<lambda>occurrence. Inr (r, eo_occurrence_at occurrence))"
      have decided: "due_decision cal f now =
          (case canonical_instant_from_ms cal now of
              None \<Rightarrow> Inl (Corrupt ''wall clock is out of range'')
            | Some accepted_at \<Rightarrow> and_then (collect_results ?remind ys) (\<lambda>reminders. Inr (DueEvery accepted_at reminders)))"
        using zs(1) ys(1) Nil False by (simp add: due_decision_def)
      from False members have "\<exists>r\<in>set (fs_active f). sc_kind r = Every \<and> due_at r \<le> now" by (cases ys) auto
      show ?thesis
      proof (cases "canonical_instant_from_ms cal now")
        case None
        with decided none \<open>\<exists>r\<in>set (fs_active f). sc_kind r = Every \<and> due_at r \<le> now\<close> show ?thesis by simp
      next
        case (Some x)
        show ?thesis
        proof (cases "collect_results ?remind ys")
          case (Inl e)
          then obtain t k r where "(t, k, r) \<in> set ys" "resolve_every_occurrence cal r now = Inl e"
            by (auto simp: and_then_eq_Inl dest!: collect_results_Inl)
          with members have "\<exists>q\<in>set (fs_active f). sc_kind q = Every \<and> due_at q \<le> now \<and> resolve_every_occurrence cal q now = Inl e"
            by fastforce
          with decided none Some Inl show ?thesis by simp
        next
          case (Inr reminders)
          have fsts: "map fst reminders = map (\<lambda>z. snd (snd z)) ys"
            by (rule collect_results_fst [OF Inr]) auto
          have rhythm: "\<exists>seconds n. sc_every_seconds r = Some seconds \<and> 0 \<le> n \<and>
              parse_canonical_instant cal y = Inr (due_at r + n * (uint seconds * 1000)) \<and>
              due_at r + n * (uint seconds * 1000) \<le> now \<and> now < due_at r + (n + 1) * (uint seconds * 1000)"
            if "(r, y) \<in> set reminders" for r y
          proof -
            from collect_results_mem [OF Inr that] obtain t k occurrence where
              "(t, k, r) \<in> set ys" and o: "resolve_every_occurrence cal r now = Inr occurrence" "y = eo_occurrence_at occurrence"
              by auto
            with members targets have target: "parse_canonical_instant cal (sc_scheduled_at r) = Inr (due_at r)" by fastforce
            from resolve_every_Inr [OF assms(1) o(1)] target obtain seconds where seconds: "sc_every_seconds r = Some seconds"
              "seconds \<noteq> 0" "due_at r \<le> now" "parse_canonical_instant cal (eo_occurrence_at occurrence) =
                Inr (due_at r + (now - due_at r) div (uint seconds * 1000) * (uint seconds * 1000))"
              by (auto simp: Let_def)
            define I where "I = uint seconds * 1000"
            have "uint seconds \<noteq> 0" using seconds(2) by (simp add: uint_0_iff)
            moreover have "0 \<le> uint seconds" by simp
            ultimately have "0 < I" unfolding I_def by linarith
            then have "0 \<le> (now - due_at r) div I" "(now - due_at r) div I * I \<le> now - due_at r"
              "now - due_at r < ((now - due_at r) div I + 1) * I"
              using whole_intervals [of I "now - due_at r"] seconds(3) by simp_all
            with seconds o(2) show ?thesis
              by (intro exI [of _ seconds] exI [of _ "(now - due_at r) div I"]) (simp add: I_def)
          qed
          have "reminders \<noteq> []" using fsts False by auto
          with decided Some Inr none fsts ys(2) rhythm canonical_parse(1) [OF assms(1) Some] show ?thesis by auto
        qed
      qed
    qed
  qed
qed

lemma due_decision_resolves:
  assumes "due_decision cal f now = Inr (DueEvery accepted_at reminders)"
  shows "canonical_instant_from_ms cal now = Some accepted_at"
    and "(r, x) \<in> set reminders \<Longrightarrow> \<exists>occurrence. resolve_every_occurrence cal r now = Inr occurrence"
proof -
  obtain zs where zs: "due_rules cal f now False = Inr zs" using assms by (auto simp: due_decision_def)
  have "zs = []" using assms zs by (cases zs) (auto simp: due_decision_def)
  with assms zs obtain due :: "(int \<times> nat \<times> schedule_record) list" where
    due: "collect_results (\<lambda>(_, _, r). and_then (resolve_every_occurrence cal r now)
      (\<lambda>occurrence. Inr (r, eo_occurrence_at occurrence))) due = Inr reminders"
    and now: "canonical_instant_from_ms cal now = Some accepted_at"
    by (auto simp: due_decision_def split: option.splits if_splits)
  show "canonical_instant_from_ms cal now = Some accepted_at" by (rule now)
  show "\<exists>occurrence. resolve_every_occurrence cal r now = Inr occurrence" if "(r, x) \<in> set reminders"
    using collect_results_mem [OF due that] by auto
qed


subsection \<open>Two readers of one log\<close>

text \<open>The schedule component reads a session log with code of its own.  On every session the log's rules
  accept, if it can read the rules at all, it agrees with the log: the identities it takes for used are the ones the
  log takes for used, so none is given out twice; every rule it takes for active is active in the log under the
  same kind, is listed once, has the shape of its kind and a readable target; and it misses no one-shot rule
  that is active in the log.\<close>

theorem schedule_log_agreement:
  assumes "calendar cal" and "session_ok dec s" and "fold_schedule_events cal s = Inr f"
  shows "fs_seen_ids f = v_seen_schedule_ids (after_log dec (se_events s)) \<and> distinct (map sc_id (fs_active f)) \<and>
    (\<forall>r\<in>set (fs_active f). sc_id r \<in> fs_seen_ids f \<and>
       v_active_schedules (after_log dec (se_events s)) (sc_id r) = Some (sc_kind r) \<and> valid_schedule_shape r \<and>
       (\<exists>target. parse_canonical_instant cal (sc_scheduled_at r) = Inr target)) \<and>
    {i. \<exists>r\<in>set (fs_active f). sc_id r = i \<and> sc_kind r \<noteq> Every} =
      {i. \<exists>kind. v_active_schedules (after_log dec (se_events s)) i = Some kind \<and> kind \<noteq> Every}"
proof -
  have "log_fold cal (se_events s) = Inr f" using assms(3) by (simp add: fold_session)
  with rules_of_session [OF assms(2), of cal, unfolded rules_ok_def] assms(1) have all: "fs_seen_ids f = v_seen_schedule_ids (after_log dec (se_events s))" "distinct (map sc_id (fs_active f))"
    "\<forall>r\<in>set (fs_active f). wf_rule cal r \<and> sc_id r \<in> fs_seen_ids f \<and>
       v_active_schedules (after_log dec (se_events s)) (sc_id r) = Some (sc_kind r)"
    "\<forall>i kind. v_active_schedules (after_log dec (se_events s)) i = Some kind \<and> kind \<noteq> Every \<longrightarrow> i \<in> sc_id ` set (fs_active f)"
    by blast+
  have "\<exists>r\<in>set (fs_active f). sc_id r = i \<and> sc_kind r \<noteq> Every"
    if "v_active_schedules (after_log dec (se_events s)) i = Some kind" "kind \<noteq> Every" for i kind
  proof -
    from all(4) that obtain r where r: "r \<in> set (fs_active f)" "sc_id r = i" by blast
    with all(3) that have "sc_kind r = kind" by fastforce
    with r that show ?thesis by blast
  qed
  then have "{i. \<exists>r\<in>set (fs_active f). sc_id r = i \<and> sc_kind r \<noteq> Every} =
      {i. \<exists>kind. v_active_schedules (after_log dec (se_events s)) i = Some kind \<and> kind \<noteq> Every}"
    using all(3) by fastforce
  with all(1-3) show ?thesis by (simp add: wf_rule_def)
qed

subsection \<open>An example\<close>

text \<open>A calendar that meets the assumption: instants are written as their milliseconds since 1970.\<close>

definition read_nat :: "string \<Rightarrow> nat" where
  "read_nat x = foldl (\<lambda>n c. 10 * n + (byte c - 48)) 0 x"

definition ms_calendar :: "(int, unit, unit, unit) time_lib" where
  "ms_calendar =
     \<lparr>tl_parse_rfc3339 = (\<lambda>x. Some (int (read_nat x))), tl_format = (\<lambda>t. show_nat (nat t)),
      tl_year = (\<lambda>t. 1970 + t div 31556952000), tl_millis = (\<lambda>t. t),
      tl_from_millis = (\<lambda>m. if 0 \<le> m then Some m else None),
      tl_date = (\<lambda>_. None), tl_time = (\<lambda>_. None), tl_zone = (\<lambda>_. None), tl_local = (\<lambda>_ _ _. LocalNone)\<rparr>"

lemma read_show_nat: "read_nat (show_nat n) = n"
proof (induction n rule: less_induct)
  case (less n)
  show ?case
  proof (cases "n < 10")
    case True
    then show ?thesis by (subst show_nat.simps) (simp add: read_nat_def of_char_of)
  next
    case False
    then have "read_nat (show_nat (n div 10)) = n div 10" by (intro less) simp
    with False show ?thesis by (subst show_nat.simps) (simp add: read_nat_def of_char_of)
  qed
qed

lemma show_nat_not_blank: "\<not> blank (show_nat n)"
proof -
  have "\<exists>s. rev (show_nat n) = char_of (48 + n mod 10) # s" by (subst show_nat_snoc) simp
  then obtain s where s: "rev (show_nat n) = char_of (48 + n mod 10) # s" by blast
  have "ws_width_rev (rev (show_nat n)) = 0" unfolding s by (intro ws_width_rev_ascii) (simp_all add: of_char_of)
  moreover have "ws_width (show_nat n) = 0"
  proof -
    have "\<exists>(m :: nat) c. m < 10 \<and> show_nat n = char_of (48 + m) # c"
    proof (induction n rule: less_induct)
      case (less n)
      show ?case
      proof (cases "n < 10")
        case True
        then show ?thesis by (subst show_nat.simps) auto
      next
        case False
        then obtain m c where "m < (10 :: nat)" "show_nat (n div 10) = char_of (48 + m) # c" using less [of "n div 10"] by auto
        with False show ?thesis by (subst show_nat.simps) auto
      qed
    qed
    then obtain m c where "m < (10 :: nat)" "show_nat n = char_of (48 + m) # c" by blast
    then show ?thesis by (simp add: ws_width_ascii of_char_of)
  qed
  ultimately show ?thesis using clean_ends(2) [of "show_nat n"] by simp
qed

lemma ms_calendar: "calendar ms_calendar"
  by (simp add: calendar_def ms_calendar_def read_show_nat show_nat_not_blank)

definition tea_rule :: schedule_record where
  "tea_rule = \<lparr>sc_id = ''schedule-1'', sc_kind = Every, sc_prompt = ''tea'', sc_after_seconds = None,
     sc_every_seconds = Some 300, sc_scheduled_at = show_nat 1000000\<rparr>"

definition tea_session :: session where
  "tea_session = \<lparr>se_header = new_header ''s'' 0, se_revision = 1, se_events = stage 0 1 7 [ScheduleChange (ScheduleCreate 1 tea_rule)]\<rparr>"

definition tea_store :: memory_store where
  "tea_store = [(''s'', tea_session)]"

lemma tea_texts:
  "trim ''tea'' = ''tea''" "\<not> blank ''tea''" "trim ''schedule-1'' = ''schedule-1''" "\<not> blank ''schedule-1''"
  using clean_ends [of "''tea''"] clean_ends [of "''schedule-1''"]
  by (simp_all add: is_ws1_def is_ws2_def is_ws3_def)

lemma tea_ok: "session_ok no_questions tea_session"
  by (simp add: session_ok_def tea_session_def tea_rule_def validate_header_def new_header_def FORMAT_VERSION_def
      run_validator on_schedule_change_def on_schedule_create_def valid_schedule_shape_def tea_texts show_nat_not_blank)

lemma tea_store_ok: "memory_ok no_questions tea_store"
  using tea_ok by (simp add: memory_ok_def tea_store_def tea_session_def new_header_def)

lemma tea_at: "map_of tea_store ''s'' = Some tea_session"
  by (simp add: tea_store_def)

lemma tea_target: "parse_canonical_instant ms_calendar (show_nat 1000000) = Inr 1000000"
  by (rule canonical_parse(1) [OF ms_calendar]) (simp add: canonical_instant_from_ms_def ms_calendar_def in_years_def)

lemma tea_fold: "fold_schedule_events ms_calendar tea_session = Inr \<lparr>fs_active = [tea_rule], fs_seen_ids = {''schedule-1''}\<rparr>"
  using tea_target tea_texts by (simp add: fold_schedule_events_def tea_session_def tea_rule_def)

theorem schedule_log_agreement_witness:
  "v_seen_schedule_ids (after_log no_questions (se_events tea_session)) = {''schedule-1''}"
  using schedule_log_agreement [OF ms_calendar tea_ok tea_fold] by simp


definition water :: schedule_record where
  "water = \<lparr>sc_id = ''schedule-2'', sc_kind = After, sc_prompt = ''tea'', sc_after_seconds = Some 30, sc_every_seconds = None,
     sc_scheduled_at = show_nat 2030000\<rparr>"

lemma water_id: "allocate_id \<lparr>fs_active = [tea_rule], fs_seen_ids = {''schedule-1''}\<rparr> = Some ''schedule-2''"
proof -
  have ids: "schedule_id 2 = ''schedule-2''" by code_simp
  have "saturating_add_usize (card {''schedule-1''}) 1 = 2" by (simp add: saturating_add_usize_def usize_max_def)
  moreover have "allocate_from {''schedule-1''} 2 = Some ''schedule-2''"
    by (subst allocate_from.simps) (simp add: ids)
  ultimately show ?thesis by (simp add: allocate_id_def)
qed

lemma water_record: "create_record ms_calendar ''schedule-2'' ''tea'' (SelectAfter 30) 2000000 = Inr water"
  by (simp add: create_record.simps tea_texts seconds_to_ms_def i64_def future_instant_def canonical_instant_from_ms_def
      ms_calendar_def in_years_def water_def)

theorem create_durable_witness:
  "\<exists>st' s'. create_value ms_calendar (memory_ops no_questions) quiet False ''s'' 2000000 ''tea'' (SelectAfter 30) tea_store =
       (st', Some (ScheduleView water False)) \<and> map_of st' ''s'' = Some s' \<and>
     fold_schedule_events ms_calendar s' =
       Inr \<lparr>fs_active = [tea_rule, water], fs_seen_ids = {''schedule-1'', ''schedule-2''}\<rparr>"
proof -
  let ?ops = "memory_ops no_questions" and ?plan = "create_plan ms_calendar 2000000 ''tea'' (SelectAfter 30)"
  have load: "so_load ?ops ''s'' tea_store = Inr (Some tea_session)" by (simp add: memory_load_iff tea_at)
  have plan: "?plan tea_session = Inr (map ScheduleChange [ScheduleCreate 1 water], water)"
    by (simp add: create_plan_def tea_fold water_id water_record)
  obtain s1 rc where app: "append_batch_at no_questions tea_session (se_revision tea_session)
      (map ScheduleChange [ScheduleCreate 1 water]) (wo_now (quiet :: memory_store world) 0) = (s1, Inr rc)"
    using append_changes [where t = "wo_now (quiet :: memory_store world) 0", OF tea_ok _ _ create_accepted(1) [OF ms_calendar tea_ok tea_fold water_id water_record]]
    by (auto simp: tea_session_def)
  obtain st' where st': "transact ?ops quiet ''s'' ?plan (Suc 15) 0 tea_store = (st', Appended water)"
    "so_load ?ops ''s'' st' = Inr (Some s1)"
    using memory.transact_idle [where plan = ?plan and n = 15, OF quiet_world(1) tea_store_ok load plan app] by blast
  have "parse_canonical_instant ms_calendar (sc_scheduled_at water) = Inr 2030000"
    unfolding water_def by simp (rule canonical_parse(1) [OF ms_calendar], simp add: canonical_instant_from_ms_def ms_calendar_def in_years_def)
  then have "schedule_view ms_calendar water 2000000 = ScheduleView water False"
    by (simp add: schedule_view_def overdue_def)
  then have res: "create_value ms_calendar ?ops quiet False ''s'' 2000000 ''tea'' (SelectAfter 30) tea_store =
      (st', Some (ScheduleView water False))"
    using st'(1) memory.flush_present [OF tea_store_ok load]
    by (simp add: create_value_def MAX_CAS_RETRIES_def del: transact.simps)
  from create_durable [OF ms_calendar quiet_world(2) tea_store_ok tea_at res]
  obtain s f s' rc t where s: "fold_schedule_events ms_calendar s = Inr f" "map_of st' ''s'' = Some s'"
    "append_batch_at no_questions s (se_revision s) [ScheduleChange (ScheduleCreate 1 water)] t = (s', Inr rc)"
    "fold_schedule_events ms_calendar s' = Inr \<lparr>fs_active = fs_active f @ [water], fs_seen_ids = insert (sc_id water) (fs_seen_ids f)\<rparr>"
    by (auto simp: corrupt_error_def internal_error_def public_error_def)
  have "fold_schedule_events ms_calendar s' = Inr \<lparr>fs_active = [tea_rule] @ [water], fs_seen_ids = insert ''schedule-2'' {''schedule-1''}\<rparr>"
    using fold_appended(1) [OF app, of ms_calendar] st'(2) s(2) tea_fold
      create_accepted(2) [OF ms_calendar tea_ok tea_fold water_id water_record]
    by (simp add: memory_load_iff)
  then show ?thesis using res s(2) by (auto simp: insert_commute)
qed

end
