(* ===== verification/Control_Log.thy ===== *)
theory Control_Log
  imports Tool_Schema
begin

text \<open>
  The host's control log (xharness-control/src/lib.rs): workspaces, archived sessions, settings and the receipts of
  the mutations that made them, in one append-only log.  A mutation is one batch: its state events and, last,
  its receipt.  The projection folds the log into the state of the host.

  A \<open>BTreeMap\<close> is an association list: nothing here depends on the order of its keys.
\<close>

type_synonym control_revision = u64

record workspace_snapshot =
  wk_id :: string
  wk_path :: string
  wk_title :: string
  wk_session_order :: "string list"
  wk_created_at :: string
  wk_updated_at :: string

record settings_snapshot =
  sg_namespace :: string
  sg_user :: json
  sg_value :: json
  sg_revision :: u64

record control_receipt =
  kr_rpc_id :: string
  kr_method :: string
  kr_fingerprint :: string
  kr_response :: json

datatype control_event =
    WorkspaceDefined workspace_snapshot
  | WorkspaceRemoved string
  | WorkspaceOrderSet "string list"
  | ArchivedSessionsSet "string list"
  | SettingsSet settings_snapshot
  | MutationCommitted control_receipt

record logged_control_event =
  kv_seq :: sequence
  kv_revision :: control_revision
  kv_timestamp_ms :: u64
  kv_event :: control_event

record control_log =
  kl_revision :: control_revision
  kl_events :: "logged_control_event list"

record control_append_receipt =
  ka_previous_revision :: control_revision
  ka_revision :: control_revision
  ka_first_seq :: sequence
  ka_last_seq :: sequence
  ka_events :: "logged_control_event list"

record control_projection =
  kp_workspaces :: "(string \<times> workspace_snapshot) list"
  kp_removed_workspaces :: "string set"
  kp_workspace_order :: "string list option"
  kp_archived_sessions :: "string list option"
  kp_settings :: "(string \<times> settings_snapshot) list"
  kp_receipts :: "(string \<times> control_receipt) list"

datatype control_error =
    ControlRevisionConflict control_revision control_revision
  | InvalidLog string
  | ControlBackend string

subsection \<open>Checks on single documents\<close>

definition require_nonempty :: "string \<Rightarrow> string \<Rightarrow> control_error + unit" where
  "require_nonempty text field = ensure (blank text \<or> CHR 0x00 \<in> set text) (InvalidLog (field @ '' must not be empty''))"

fun require_unique_from :: "string set \<Rightarrow> string list \<Rightarrow> string \<Rightarrow> control_error + unit" where
  "require_unique_from seen [] field = Inr ()"
| "require_unique_from seen (x # xs) field =
     and_then (require_nonempty x field) (\<lambda>_.
     and_then (ensure (x \<in> seen) (InvalidLog (field @ '' contains duplicate {value:?}''))) (\<lambda>_.
     require_unique_from (insert x seen) xs field))"

definition require_unique_nonempty :: "string list \<Rightarrow> string \<Rightarrow> control_error + unit" where
  "require_unique_nonempty xs field = require_unique_from {} xs field"

definition ascii_lowercase :: "char \<Rightarrow> char" where
  "ascii_lowercase c = (if 65 \<le> byte c \<and> byte c \<le> 90 then char_of (byte c + 32) else c)"

definition normalized_key :: "string \<Rightarrow> string" where
  "normalized_key key = filter (\<lambda>c. c \<noteq> CHR ''-'' \<and> c \<noteq> CHR ''_'') (map ascii_lowercase key)"

definition is_reference_start :: "char \<Rightarrow> bool" where
  "is_reference_start c \<longleftrightarrow> 65 \<le> byte c \<and> byte c \<le> 90 \<or> 97 \<le> byte c \<and> byte c \<le> 122 \<or> c = CHR ''_''"

fun valid_reference :: "string \<Rightarrow> bool" where
  "valid_reference [] = False"
| "valid_reference (c # cs) \<longleftrightarrow>
     length (c # cs) \<le> 128 \<and> is_reference_start c \<and> list_all (\<lambda>c. is_ascii_alphanumeric c \<or> c = CHR ''_'') cs"

fun credential_reference :: "string \<Rightarrow> json \<Rightarrow> bool" where
  "credential_reference key (JString x) \<longleftrightarrow> key = ''apiKeyEnv'' \<and> valid_reference x"
| "credential_reference key x \<longleftrightarrow> False"

definition control_sensitive_key :: "string \<Rightarrow> bool" where
  "control_sensitive_key key \<longleftrightarrow>
     (let n = normalized_key key in
      sublist ''password'' n \<or> sublist ''authorization'' n \<or> sublist ''apikey'' n \<or>
      suffix ''token'' n \<or> suffix ''secret'' n)"

fun control_populated :: "json \<Rightarrow> bool" where
  "control_populated JNull = False"
| "control_populated (JString x) \<longleftrightarrow> x \<noteq> []"
| "control_populated (JArray xs) \<longleftrightarrow> xs \<noteq> []"
| "control_populated (JObject fs) \<longleftrightarrow> fs \<noteq> []"
| "control_populated x = True"

fun reject_sensitive_values :: "json \<Rightarrow> string \<Rightarrow> control_error + unit" where
  "reject_sensitive_values (JObject fs) ctx =
     try_each (\<lambda>(key, x).
       if credential_reference key x then Inr ()
       else and_then (ensure (control_sensitive_key key \<and> control_populated x) (InvalidLog (ctx @ '' contains forbidden credential field {key:?}''))) (\<lambda>_.
         reject_sensitive_values x ctx)) fs"
| "reject_sensitive_values (JArray xs) ctx = try_each (\<lambda>x. reject_sensitive_values x ctx) xs"
| "reject_sensitive_values x ctx = Inr ()"

definition validate_workspace :: "workspace_snapshot \<Rightarrow> control_error + unit" where
  "validate_workspace w =
     and_then (require_nonempty (wk_id w) ''workspace id'') (\<lambda>_.
     and_then (require_nonempty (wk_path w) ''workspace path'') (\<lambda>_.
     and_then (require_nonempty (wk_title w) ''workspace title'') (\<lambda>_.
     and_then (require_nonempty (wk_created_at w) ''workspace created_at'') (\<lambda>_.
     and_then (require_nonempty (wk_updated_at w) ''workspace updated_at'') (\<lambda>_.
     require_unique_nonempty (wk_session_order w) ''workspace session order'')))))"

definition is_lowercase_hexdigit :: "char \<Rightarrow> bool" where
  "is_lowercase_hexdigit c \<longleftrightarrow> 48 \<le> byte c \<and> byte c \<le> 57 \<or> 97 \<le> byte c \<and> byte c \<le> 102"

definition validate_receipt :: "control_receipt \<Rightarrow> control_error + unit" where
  "validate_receipt r =
     and_then (require_nonempty (kr_rpc_id r) ''receipt rpc id'') (\<lambda>_.
     and_then (require_nonempty (kr_method r) ''receipt method'') (\<lambda>_.
     and_then (ensure (length (kr_fingerprint r) \<noteq> 64 \<or> \<not> list_all is_lowercase_hexdigit (kr_fingerprint r))
                 (InvalidLog ''receipt fingerprint must be 64 lowercase hex bytes'')) (\<lambda>_.
     reject_sensitive_values (kr_response r) ''receipt response'')))"

subsection \<open>The projection\<close>

definition empty_control_projection :: control_projection where
  "empty_control_projection =
     \<lparr>kp_workspaces = [], kp_removed_workspaces = {}, kp_workspace_order = None, kp_archived_sessions = None,
      kp_settings = [], kp_receipts = []\<rparr>"

fun is_object :: "json \<Rightarrow> bool" where
  "is_object (JObject fs) = True"
| "is_object x = False"

text \<open>One turn of the loop of \<open>from_events\<close>, with \<open>settings_revisions\<close> beside the projection.\<close>

fun project_control_event ::
  "control_event \<Rightarrow> control_projection \<times> (string \<times> u64) list \<Rightarrow>
     control_error + control_projection \<times> (string \<times> u64) list" where
  "project_control_event (WorkspaceDefined w) (p, revs) =
     and_then (validate_workspace w) (\<lambda>_.
     and_then (ensure (case map_of (kp_workspaces p) (wk_id w) of
                         None \<Rightarrow> False
                       | Some old \<Rightarrow> wk_path old \<noteq> wk_path w \<or> wk_created_at old \<noteq> wk_created_at w)
                 (InvalidLog ''workspace {:?} changed immutable identity'')) (\<lambda>_.
     and_then (ensure (\<exists>other\<in>set (map snd (kp_workspaces p)). wk_id other \<noteq> wk_id w \<and> wk_path other = wk_path w)
                 (InvalidLog ''workspace path {:?} is assigned more than once'')) (\<lambda>_.
     Inr (p\<lparr>kp_removed_workspaces := kp_removed_workspaces p - {wk_id w},
            kp_workspaces := AList.update (wk_id w) w (kp_workspaces p)\<rparr>, revs))))"
| "project_control_event (WorkspaceRemoved i) (p, revs) =
     and_then (require_nonempty i ''workspace id'') (\<lambda>_.
     Inr (p\<lparr>kp_workspaces := AList.delete i (kp_workspaces p),
            kp_removed_workspaces := insert i (kp_removed_workspaces p)\<rparr>, revs))"
| "project_control_event (WorkspaceOrderSet is) (p, revs) =
     and_then (require_unique_nonempty is ''workspace order'') (\<lambda>_.
     Inr (p\<lparr>kp_workspace_order := Some is\<rparr>, revs))"
| "project_control_event (ArchivedSessionsSet is) (p, revs) =
     and_then (require_unique_nonempty is ''archived session list'') (\<lambda>_.
     Inr (p\<lparr>kp_archived_sessions := Some is\<rparr>, revs))"
| "project_control_event (SettingsSet s) (p, revs) =
     and_then (require_nonempty (sg_namespace s) ''settings namespace'') (\<lambda>_.
     and_then (ensure (\<not> is_object (sg_user s) \<or> \<not> is_object (sg_value s))
                 (InvalidLog ''settings namespace {:?} must contain object values'')) (\<lambda>_.
     and_then (reject_sensitive_values (sg_user s) ''settings user document'') (\<lambda>_.
     and_then (reject_sensitive_values (sg_value s) ''settings effective document'') (\<lambda>_.
     let expected = saturating_add (case map_of revs (sg_namespace s) of None \<Rightarrow> 0 | Some r \<Rightarrow> r) 1 in
     and_then (ensure (sg_revision s \<noteq> expected) (InvalidLog ''settings namespace {:?} revision must be {expected}, got {}'')) (\<lambda>_.
     Inr (p\<lparr>kp_settings := AList.update (sg_namespace s) s (kp_settings p)\<rparr>,
          AList.update (sg_namespace s) (sg_revision s) revs))))))"
| "project_control_event (MutationCommitted r) (p, revs) =
     and_then (validate_receipt r) (\<lambda>_.
     and_then (ensure (map_of (kp_receipts p) (kr_rpc_id r) \<noteq> None) (InvalidLog ''duplicate mutation receipt {:?}'')) (\<lambda>_.
     Inr (p\<lparr>kp_receipts := AList.update (kr_rpc_id r) r (kp_receipts p)\<rparr>, revs)))"

fun project_control_events ::
  "control_event list \<Rightarrow> control_projection \<times> (string \<times> u64) list \<Rightarrow>
     control_error + control_projection \<times> (string \<times> u64) list" where
  "project_control_events [] x = Inr x"
| "project_control_events (e # es) x = and_then (project_control_event e x) (project_control_events es)"

definition control_projection_of :: "logged_control_event list \<Rightarrow> control_error + control_projection" where
  "control_projection_of evs =
     and_then (project_control_events (map kv_event evs) (empty_control_projection, [])) (\<lambda>x. Inr (fst x))"

subsection \<open>The log\<close>

fun is_receipt :: "control_event \<Rightarrow> bool" where
  "is_receipt (MutationCommitted _) = True"
| "is_receipt _ = False"

text \<open>The loop of \<open>validate_log\<close>: the revision it is in and how many receipts it has seen of it.\<close>

definition enter_revision :: "control_revision \<Rightarrow> nat \<Rightarrow> control_revision \<Rightarrow> control_error + control_revision \<times> nat" where
  "enter_revision active receipts r =
     (if r = active then
        (if 0 < receipts then Inl (InvalidLog ''revision {:?} contains events after its mutation receipt'') else Inr (active, receipts))
      else if active \<noteq> 0 \<and> receipts \<noteq> 1 then Inl (InvalidLog ''revision {:?} must contain exactly one mutation receipt'')
      else (case checked_add active 1 of
              None \<Rightarrow> Inl (InvalidLog ''control revision overflow'')
            | Some expected \<Rightarrow>
                if r \<noteq> expected then Inl (InvalidLog ''revision gap: expected {expected}, got {}'') else Inr (r, 0)))"

fun check_control_events ::
  "nat \<Rightarrow> control_revision \<Rightarrow> nat \<Rightarrow> logged_control_event list \<Rightarrow> control_error + control_revision \<times> nat" where
  "check_control_events index active receipts [] = Inr (active, receipts)"
| "check_control_events index active receipts (l # ls) =
     (if kv_seq l \<noteq> index then Inl (InvalidLog ''sequence gap: expected {index}, got {}'')
      else and_then (enter_revision active receipts (kv_revision l)) (\<lambda>(active1, receipts1).
        check_control_events (Suc index) active1 (if is_receipt (kv_event l) then receipts1 + 1 else receipts1) ls))"

definition validate_control_log :: "control_revision \<Rightarrow> logged_control_event list \<Rightarrow> control_error + unit" where
  "validate_control_log r evs =
     (if evs = [] then ensure (r \<noteq> 0) (InvalidLog ''empty control log must have revision zero'')
      else and_then (check_control_events 0 0 0 evs) (\<lambda>(active, receipts).
        and_then (ensure (receipts \<noteq> 1) (InvalidLog ''revision {:?} must end with exactly one mutation receipt'')) (\<lambda>_.
        and_then (ensure (active \<noteq> r) (InvalidLog ''header revision {revision:?} does not match final event {active_revision:?}'')) (\<lambda>_.
        and_then (control_projection_of evs) (\<lambda>_. Inr ())))))"

definition empty_control_log :: control_log where
  "empty_control_log = \<lparr>kl_revision = 0, kl_events = []\<rparr>"

definition restore_control_log :: "control_revision \<Rightarrow> logged_control_event list \<Rightarrow> control_error + control_log" where
  "restore_control_log r evs =
     and_then (validate_control_log r evs) (\<lambda>_. Inr \<lparr>kl_revision = r, kl_events = evs\<rparr>)"

definition control_next_seq :: "control_log \<Rightarrow> sequence" where
  "control_next_seq k = length (kl_events k)"

definition log_projection :: "control_log \<Rightarrow> control_error + control_projection" where
  "log_projection k = control_projection_of (kl_events k)"

definition stage_control :: "sequence \<Rightarrow> control_revision \<Rightarrow> u64 \<Rightarrow> control_event list \<Rightarrow> logged_control_event list" where
  "stage_control first r now es =
     map (\<lambda>(offset, e). \<lparr>kv_seq = first + offset, kv_revision = r, kv_timestamp_ms = now, kv_event = e\<rparr>) (enumerate 0 es)"

definition control_append_at ::
  "control_log \<Rightarrow> control_revision \<Rightarrow> control_event list \<Rightarrow> u64 \<Rightarrow> control_log \<times> (control_error + control_append_receipt)" where
  "control_append_at k expected es now =
     (if expected \<noteq> kl_revision k then (k, Inl (ControlRevisionConflict expected (kl_revision k)))
      else if es = [] then (k, Inl (InvalidLog ''a control mutation batch must not be empty''))
      else (case checked_add (kl_revision k) 1 of
        None \<Rightarrow> (k, Inl (InvalidLog ''control revision overflow''))
      | Some r \<Rightarrow>
          (let first = control_next_seq k;
               staged = stage_control first r now es;
               prospective = kl_events k @ staged in
           case validate_control_log r prospective of
             Inl e \<Rightarrow> (k, Inl e)
           | Inr _ \<Rightarrow>
               (let k1 = \<lparr>kl_revision = r, kl_events = prospective\<rparr> in
                (k1, Inr \<lparr>ka_previous_revision = kl_revision k, ka_revision = r, ka_first_seq = first,
                          ka_last_seq = control_next_seq k1 - 1, ka_events = staged\<rparr>)))))"

subsection \<open>The in-process store\<close>

record 'st control_store_ops =
  ko_load :: "'st \<Rightarrow> control_error + control_log"
  ko_append :: "u64 \<Rightarrow> control_revision \<Rightarrow> control_event list \<Rightarrow> 'st \<Rightarrow> 'st \<times> (control_error + control_append_receipt)"
  ko_flush :: "'st \<Rightarrow> control_error + control_revision"

definition memory_control_ops :: "control_log control_store_ops" where
  "memory_control_ops =
     \<lparr>ko_load = Inr, ko_append = (\<lambda>now expected es k. control_append_at k expected es now), ko_flush = (\<lambda>k. Inr (kl_revision k))\<rparr>"


subsection \<open>The rules of a valid log\<close>

text \<open>What an event allows behind it: after a receipt the next revision begins; before it the revision goes on.
  Revision zero, which no append uses, may be left without a receipt.\<close>

definition control_follows :: "logged_control_event \<Rightarrow> logged_control_event \<Rightarrow> bool" where
  "control_follows l l' \<longleftrightarrow>
     (if is_receipt (kv_event l) then checked_add (kv_revision l) 1 = Some (kv_revision l')
      else kv_revision l' = kv_revision l \<or> kv_revision l = 0 \<and> kv_revision l' = 1)"

lemma enter_revision_Inr:
  assumes "n \<le> 1"
  shows "enter_revision a n r = Inr x \<longleftrightarrow>
    x = (r, 0) \<and> (if n = 1 then checked_add a 1 = Some r else r = a \<or> a = 0 \<and> r = 1)"
proof -
  have "checked_add (0::u64) 1 = Some 1" by (simp add: checked_add_def)
  moreover have "checked_add a 1 = Some r \<Longrightarrow> r \<noteq> a" by (auto simp: checked_add_Some)
  ultimately show ?thesis using assms by (auto simp: enter_revision_def le_Suc_eq split: option.splits if_splits)
qed

lemma upt_from: "[i ..< i + Suc n] = i # [Suc i ..< Suc i + n]"
  by (simp add: upt_conv_Cons del: upt_Suc)

lemma check_control_events_from:
  "check_control_events i (kv_revision l) (of_bool (is_receipt (kv_event l))) ls = Inr (a, n) \<longleftrightarrow>
     map kv_seq ls = [i ..< i + length ls] \<and> successively control_follows (l # ls) \<and>
     a = kv_revision (last (l # ls)) \<and> n = of_bool (is_receipt (kv_event (last (l # ls))))"
proof (induction ls arbitrary: i l)
  case Nil
  then show ?case by auto
next
  case (Cons l' ls)
  have step: "enter_revision (kv_revision l) (of_bool (is_receipt (kv_event l))) (kv_revision l') = Inr x \<longleftrightarrow>
      x = (kv_revision l', 0) \<and> control_follows l l'" for x
    by (simp add: enter_revision_Inr control_follows_def)
  have seqs: "[i ..< i + length (l' # ls)] = i # [Suc i ..< Suc i + length ls]" using upt_from [of i "length ls"] by simp
  have "check_control_events i (kv_revision l) (of_bool (is_receipt (kv_event l))) (l' # ls) = Inr (a, n) \<longleftrightarrow>
      kv_seq l' = i \<and> control_follows l l' \<and>
      check_control_events (Suc i) (kv_revision l') (of_bool (is_receipt (kv_event l'))) ls = Inr (a, n)"
    using step by (auto simp: of_bool_def)
  then show ?case unfolding Cons.IH seqs by auto
qed

definition control_rules :: "control_revision \<Rightarrow> logged_control_event list \<Rightarrow> bool" where
  "control_rules r evs \<longleftrightarrow>
     map kv_seq evs = [0 ..< length evs] \<and> kv_revision (hd evs) \<in> {0, 1} \<and> successively control_follows evs \<and>
     is_receipt (kv_event (last evs)) \<and> kv_revision (last evs) = r"

lemma check_control_events_iff:
  assumes "evs \<noteq> []"
  shows "check_control_events 0 0 0 evs = Inr (r, 1) \<longleftrightarrow> control_rules r evs"
proof -
  obtain l ls where evs: "evs = l # ls" using assms by (cases evs) auto
  have seqs: "[0 ..< length (l # ls)] = 0 # [Suc 0 ..< Suc 0 + length ls]" using upt_from [of 0 "length ls"] by simp
  have enter: "enter_revision 0 0 (kv_revision l) = Inr x \<longleftrightarrow> x = (kv_revision l, 0) \<and> kv_revision l \<in> {0, 1}" for x
    using enter_revision_Inr [of 0 0 "kv_revision l" x] by auto
  have "check_control_events 0 0 0 evs = Inr (r, 1) \<longleftrightarrow> kv_seq l = 0 \<and> kv_revision l \<in> {0, 1} \<and>
      check_control_events (Suc 0) (kv_revision l) (of_bool (is_receipt (kv_event l))) ls = Inr (r, 1)"
    by (cases "is_receipt (kv_event l)") (auto simp: evs enter)
  moreover have "(1::nat) = of_bool b \<longleftrightarrow> b" for b by simp
  ultimately show ?thesis unfolding check_control_events_from control_rules_def evs seqs list.map list.sel list.inject by blast
qed

lemma valid_control_log:
  "validate_control_log r evs = Inr () \<longleftrightarrow>
     (if evs = [] then r = 0
      else control_rules r evs \<and> (\<exists>p. control_projection_of evs = Inr p))"
proof (cases "evs = []")
  case False
  have "validate_control_log r evs = Inr () \<longleftrightarrow> check_control_events 0 0 0 evs = Inr (r, 1) \<and> (\<exists>p. control_projection_of evs = Inr p)"
    using False by (cases "control_projection_of evs") (auto simp: validate_control_log_def)
  with False check_control_events_iff show ?thesis by simp
qed (simp add: validate_control_log_def)


text \<open>The validation loop of the control log, with its counters, accepts exactly the logs that obey these
  rules: events are numbered by position; the first revision is zero or one; a receipt ends its revision and
  the next event opens the successor; any other event stays in its revision; the last event is a receipt, of
  the revision of the log; and the events project to a state.\<close>

theorem control_log_rules:
  "validate_control_log r evs = Inr () \<longleftrightarrow>
     (if evs = [] then r = 0
      else control_rules r evs \<and> (\<exists>p. control_projection_of evs = Inr p))"
  by (rule valid_control_log)

subsection \<open>Documents without credentials\<close>

text \<open>\<open>field_at x key v\<close>: somewhere in \<open>x\<close> an object has the field \<open>key\<close> with value \<open>v\<close>.\<close>

inductive field_at :: "json \<Rightarrow> string \<Rightarrow> json \<Rightarrow> bool" where
  here: "(key, v) \<in> set fs \<Longrightarrow> field_at (JObject fs) key v"
| in_field: "(k, x) \<in> set fs \<Longrightarrow> field_at x key v \<Longrightarrow> field_at (JObject fs) key v"
| in_item: "x \<in> set xs \<Longrightarrow> field_at x key v \<Longrightarrow> field_at (JArray xs) key v"

inductive_simps field_at_simps [simp]:
  "field_at JNull key v" "field_at (JBool b) key v" "field_at (JNumber n) key v" "field_at (JString s) key v"
  "field_at (JArray xs) key v" "field_at (JObject fs) key v"

definition secret_free :: "json \<Rightarrow> bool" where
  "secret_free x \<longleftrightarrow> (\<forall>key v. field_at x key v \<and> control_sensitive_key key \<and> control_populated v \<longrightarrow> credential_reference key v)"

lemma credential_reference_string: "credential_reference key v \<Longrightarrow> \<exists>x. v = JString x"
  by (cases "(key, v)" rule: credential_reference.cases) auto

text \<open>The check rejects a document exactly when some field, at any depth, whose name reads like that of a credential
  is populated and is not the name of an environment variable under \<open>apiKeyEnv\<close>.\<close>

lemma reject_sensitive_iff: "reject_sensitive_values x ctx = Inr () \<longleftrightarrow> secret_free x"
proof (induction x ctx rule: reject_sensitive_values.induct)
  case (1 fs ctx)
  have field: "(if credential_reference key x then Inr ()
      else and_then (ensure (control_sensitive_key key \<and> control_populated x) (InvalidLog (ctx @ '' contains forbidden credential field {key:?}''))) (\<lambda>_.
        reject_sensitive_values x ctx)) = Inr () \<longleftrightarrow>
      secret_free x \<and> (control_sensitive_key key \<and> control_populated x \<longrightarrow> credential_reference key x)" if "(key, x) \<in> set fs" for key x
  proof (cases "credential_reference key x")
    case True
    then obtain t where "x = JString t" using credential_reference_string by blast
    with True show ?thesis by (simp add: secret_free_def)
  next
    case False
    with 1 [OF that refl] show ?thesis by auto
  qed
  have "reject_sensitive_values (JObject fs) ctx = Inr () \<longleftrightarrow>
      (\<forall>(key, x)\<in>set fs. secret_free x \<and> (control_sensitive_key key \<and> control_populated x \<longrightarrow> credential_reference key x))"
    unfolding reject_sensitive_values.simps try_each_iff using field by (auto simp: split_beta)
  moreover have "secret_free (JObject fs) \<longleftrightarrow>
      (\<forall>key x. (key, x) \<in> set fs \<longrightarrow> (control_sensitive_key key \<and> control_populated x \<longrightarrow> credential_reference key x)) \<and>
      (\<forall>key x. (key, x) \<in> set fs \<longrightarrow> secret_free x)"
    unfolding secret_free_def field_at_simps by blast
  ultimately show ?case by auto
next
  case (2 xs ctx)
  then show ?case by (auto simp: try_each_iff secret_free_def)
qed (simp_all add: secret_free_def)

subsection \<open>What a projection holds\<close>

definition receipts_in :: "control_event list \<Rightarrow> control_receipt list" where
  "receipts_in es = concat (map (\<lambda>e. case e of MutationCommitted r \<Rightarrow> [r] | _ \<Rightarrow> []) es)"

lemma receipts_in_simps [simp]:
  "receipts_in [] = []" "receipts_in (e # es) = (case e of MutationCommitted r \<Rightarrow> [r] | _ \<Rightarrow> []) @ receipts_in es"
  "receipts_in (es @ es') = receipts_in es @ receipts_in es'"
  by (simp_all add: receipts_in_def)

definition settings_of :: "string \<Rightarrow> control_event list \<Rightarrow> settings_snapshot list" where
  "settings_of ns es = concat (map (\<lambda>e. case e of SettingsSet s \<Rightarrow> if sg_namespace s = ns then [s] else [] | _ \<Rightarrow> []) es)"

lemma settings_of_simps [simp]:
  "settings_of ns [] = []"
  "settings_of ns (e # es) = (case e of SettingsSet s \<Rightarrow> if sg_namespace s = ns then [s] else [] | _ \<Rightarrow> []) @ settings_of ns es"
  "settings_of ns (es @ es') = settings_of ns es @ settings_of ns es'"
  by (simp_all add: settings_of_def)

definition workspaces_ok :: "(string \<times> workspace_snapshot) list \<Rightarrow> string set \<Rightarrow> bool" where
  "workspaces_ok ws removed \<longleftrightarrow>
     distinct (map fst ws) \<and> distinct (map (\<lambda>x. wk_path (snd x)) ws) \<and>
     (\<forall>x\<in>set ws. fst x = wk_id (snd x) \<and> validate_workspace (snd x) = Inr () \<and> fst x \<notin> removed)"

definition settings_ok :: "(string \<times> settings_snapshot) list \<Rightarrow> bool" where
  "settings_ok ss \<longleftrightarrow>
     distinct (map fst ss) \<and>
     (\<forall>x\<in>set ss. fst x = sg_namespace (snd x) \<and> is_object (sg_user (snd x)) \<and> is_object (sg_value (snd x)) \<and>
        secret_free (sg_user (snd x)) \<and> secret_free (sg_value (snd x)))"

definition receipts_ok :: "(string \<times> control_receipt) list \<Rightarrow> bool" where
  "receipts_ok rs \<longleftrightarrow> distinct (map fst rs) \<and> (\<forall>x\<in>set rs. fst x = kr_rpc_id (snd x) \<and> secret_free (kr_response (snd x)))"

definition projection_ok :: "control_projection \<Rightarrow> bool" where
  "projection_ok p \<longleftrightarrow>
     workspaces_ok (kp_workspaces p) (kp_removed_workspaces p) \<and> settings_ok (kp_settings p) \<and> receipts_ok (kp_receipts p)"

text \<open>What \<open>es\<close> have left behind in a projection.\<close>

definition projected :: "control_event list \<Rightarrow> control_projection \<times> (string \<times> u64) list \<Rightarrow> bool" where
  "projected es x \<longleftrightarrow> projection_ok (fst x) \<and>
     map snd (kp_receipts (fst x)) = receipts_in es \<and>
     (\<forall>ns. map_of (kp_settings (fst x)) ns = (if settings_of ns es = [] then None else Some (last (settings_of ns es)))) \<and>
     (\<forall>ns. map_of (snd x) ns = map_option sg_revision (map_of (kp_settings (fst x)) ns)) \<and>
     (\<forall>ns s. map_of (kp_settings (fst x)) ns = Some s \<longrightarrow> unat (sg_revision s) = min (length (settings_of ns es)) (2 ^ 64 - 1))"


lemma update_fresh_key: "k \<notin> fst ` set xs \<Longrightarrow> AList.update k v xs = xs @ [(k, v)]"
  by (induction xs) auto

lemma update_mem: "distinct (map fst xs) \<Longrightarrow> x \<in> set (AList.update k v xs) \<longleftrightarrow> x = (k, v) \<or> x \<in> set xs \<and> fst x \<noteq> k"
proof (induction xs)
  case (Cons a xs)
  show ?case
  proof (cases "fst a = k")
    case True
    with Cons.prems show ?thesis by (cases a; cases x) (force simp: image_iff)
  next
    case False
    with Cons show ?thesis by (cases a) auto
  qed
qed simp

lemma update_subset: "x \<in> set (AList.update k v xs) \<Longrightarrow> x = (k, v) \<or> x \<in> set xs"
  by (induction xs) (auto split: if_splits)

lemma distinct_values_update:
  assumes "distinct (map fst xs)" and "distinct (map (\<lambda>x. f (snd x)) xs)" and "\<forall>x\<in>set xs. fst x \<noteq> k \<longrightarrow> f (snd x) \<noteq> f v"
  shows "distinct (map (\<lambda>x. f (snd x)) (AList.update k v xs))"
  using assms
proof (induction xs)
  case (Cons a xs)
  obtain i y where a: "a = (i, y)" by (cases a)
  show ?case
  proof (cases "i = k")
    case True
    have "f v \<noteq> f (snd x)" if "x \<in> set xs" for x
    proof -
      have "fst x \<noteq> k" using that Cons.prems(1) a True by force
      with Cons.prems(3) that show ?thesis by fastforce
    qed
    with Cons.prems a True show ?thesis by auto
  next
    case False
    have "f y \<noteq> f (snd x)" if "x \<in> set (AList.update k v xs)" for x
      using that Cons.prems a False by (auto simp: update_mem)
    with Cons a False show ?thesis by auto
  qed
qed simp

lemma delete_mem: "x \<in> set (AList.delete k xs) \<longleftrightarrow> x \<in> set xs \<and> fst x \<noteq> k"
  by (induction xs) auto

lemma distinct_values_delete: "distinct (map f xs) \<Longrightarrow> distinct (map f (AList.delete k xs))"
  by (induction xs) (auto simp: delete_mem)

lemma workspaces_ok_update:
  assumes "workspaces_ok ws removed" and "validate_workspace w = Inr ()"
    and "\<And>other. other \<in> snd ` set ws \<Longrightarrow> wk_id other \<noteq> wk_id w \<Longrightarrow> wk_path other \<noteq> wk_path w"
  shows "workspaces_ok (AList.update (wk_id w) w ws) (removed - {wk_id w})"
proof -
  note ok = assms(1) [unfolded workspaces_ok_def]
  have "distinct (map (\<lambda>x. wk_path (snd x)) (AList.update (wk_id w) w ws))"
    using ok assms(3) by (intro distinct_values_update) auto
  moreover have "distinct (map fst (AList.update (wk_id w) w ws))" using ok by (simp add: distinct_update)
  moreover have "\<forall>x\<in>set (AList.update (wk_id w) w ws).
      fst x = wk_id (snd x) \<and> validate_workspace (snd x) = Inr () \<and> fst x \<notin> removed - {wk_id w}"
    using ok assms(2) by (auto simp: update_mem)
  ultimately show ?thesis unfolding workspaces_ok_def by blast
qed

lemma workspaces_ok_delete:
  assumes "workspaces_ok ws removed"
  shows "workspaces_ok (AList.delete i ws) (insert i removed)"
proof -
  note ok = assms [unfolded workspaces_ok_def]
  have "distinct (map fst (AList.delete i ws))" "distinct (map (\<lambda>x. wk_path (snd x)) (AList.delete i ws))"
    using ok by (simp_all add: distinct_values_delete)
  moreover have "\<forall>x\<in>set (AList.delete i ws). fst x = wk_id (snd x) \<and> validate_workspace (snd x) = Inr () \<and> fst x \<notin> insert i removed"
    using ok unfolding Ball_def delete_mem insert_iff by blast
  ultimately show ?thesis unfolding workspaces_ok_def by blast
qed

lemma projected_step:
  assumes "projected es x" and "project_control_event e x = Inr y"
  shows "projected (es @ [e]) y"
proof -
  obtain p revs where x: "x = (p, revs)" by (cases x)
  note ok = assms(1) [unfolded x projected_def projection_ok_def fst_conv snd_conv]
  show ?thesis
  proof (cases e)
    case (WorkspaceDefined w)
    with assms(2) x have w: "validate_workspace w = Inr ()"
      "\<And>other. other \<in> snd ` set (kp_workspaces p) \<Longrightarrow> wk_id other \<noteq> wk_id w \<Longrightarrow> wk_path other \<noteq> wk_path w"
      and y: "y = (p\<lparr>kp_removed_workspaces := kp_removed_workspaces p - {wk_id w},
            kp_workspaces := AList.update (wk_id w) w (kp_workspaces p)\<rparr>, revs)"
      by auto
    have "workspaces_ok (AList.update (wk_id w) w (kp_workspaces p)) (kp_removed_workspaces p - {wk_id w})"
      using ok by (intro workspaces_ok_update w) simp_all
    with ok show ?thesis by (simp add: y WorkspaceDefined projected_def projection_ok_def)
  next
    case (WorkspaceRemoved i)
    with assms(2) x have y: "y = (p\<lparr>kp_workspaces := AList.delete i (kp_workspaces p),
            kp_removed_workspaces := insert i (kp_removed_workspaces p)\<rparr>, revs)"
      by auto
    have "workspaces_ok (AList.delete i (kp_workspaces p)) (insert i (kp_removed_workspaces p))"
      using ok by (intro workspaces_ok_delete) simp
    with ok show ?thesis by (simp add: y WorkspaceRemoved projected_def projection_ok_def)
  next
    case (SettingsSet s)
    let ?old = "case map_of revs (sg_namespace s) of None \<Rightarrow> 0 | Some r \<Rightarrow> r"
    from SettingsSet assms(2) x have s: "is_object (sg_user s)" "is_object (sg_value s)" "secret_free (sg_user s)" "secret_free (sg_value s)"
      "sg_revision s = saturating_add ?old 1"
      and y: "y = (p\<lparr>kp_settings := AList.update (sg_namespace s) s (kp_settings p)\<rparr>, AList.update (sg_namespace s) (sg_revision s) revs)"
      by (auto simp: Let_def reject_sensitive_iff)
    have old: "unat ?old = min (length (settings_of (sg_namespace s) es)) (2 ^ 64 - 1)"
      using ok by (auto split: if_splits)
    have "unat (sg_revision s) = min (Suc (length (settings_of (sg_namespace s) es))) (2 ^ 64 - 1)"
      unfolding s(5) unat_saturating_add old by simp
    moreover have "settings_ok (AList.update (sg_namespace s) s (kp_settings p))"
      using ok s(1-4) by (auto simp: settings_ok_def update_mem distinct_update)
    ultimately show ?thesis using ok by (simp add: y SettingsSet projected_def projection_ok_def update_conv')
  next
    case (MutationCommitted r)
    with assms(2) x have r: "validate_receipt r = Inr ()" "kr_rpc_id r \<notin> fst ` set (kp_receipts p)"
      and y: "y = (p\<lparr>kp_receipts := AList.update (kr_rpc_id r) r (kp_receipts p)\<rparr>, revs)"
      by (auto simp: map_of_eq_None_iff)
    have "secret_free (kr_response r)" using r(1) by (auto simp: validate_receipt_def reject_sensitive_iff)
    then have "receipts_ok (AList.update (kr_rpc_id r) r (kp_receipts p))"
      using ok r(2) by (auto simp: receipts_ok_def update_fresh_key)
    with ok r(2) show ?thesis by (simp add: y MutationCommitted projected_def projection_ok_def update_fresh_key)
  qed (use assms(2) x ok in \<open>auto simp: projected_def projection_ok_def\<close>)
qed

lemma projected_all:
  "projected es x \<Longrightarrow> project_control_events es' x = Inr y \<Longrightarrow> projected (es @ es') y"
proof (induction es' arbitrary: es x)
  case (Cons e es')
  then obtain z where "project_control_event e x = Inr z" "project_control_events es' z = Inr y" by auto
  with Cons.IH [OF projected_step [OF Cons.prems(1)]] show ?case by simp
qed simp

lemma projected_empty: "projected [] (empty_control_projection, [])"
  by (simp add: projected_def projection_ok_def workspaces_ok_def settings_ok_def receipts_ok_def empty_control_projection_def)


lemma project_control_events_append:
  "project_control_events (es @ es') x = and_then (project_control_events es x) (project_control_events es')"
  by (induction es arbitrary: x) (auto simp: and_then_def split: sum.splits)

lemma control_projection_projected:
  assumes "control_projection_of evs = Inr p"
  shows "\<exists>revs. project_control_events (map kv_event evs) (empty_control_projection, []) = Inr (p, revs) \<and>
    projected (map kv_event evs) (p, revs)"
proof -
  from assms obtain revs where run: "project_control_events (map kv_event evs) (empty_control_projection, []) = Inr (p, revs)"
    by (auto simp: control_projection_of_def)
  with projected_all [OF projected_empty run] show ?thesis by simp
qed

lemma projected_ids:
  assumes "projected es (p, revs)"
  shows "map kr_rpc_id (receipts_in es) = map fst (kp_receipts p)"
proof -
  have rs: "\<forall>x\<in>set (kp_receipts p). fst x = kr_rpc_id (snd x)" and es: "receipts_in es = map snd (kp_receipts p)"
    using assms by (simp_all add: projected_def projection_ok_def receipts_ok_def)
  show ?thesis unfolding es using rs by (simp add: comp_def)
qed

text \<open>Property C21. The state a control log projects to is sound, whatever the log: workspaces have distinct ids and
  distinct paths, and none of them counts as removed; settings documents and receipts hold no populated
  credential field at any depth; the receipts are those of the log, with distinct RPC ids; the settings of a
  namespace are the ones set last, and their revision counts how often they were set.\<close>

theorem control_state_sound:
  assumes "control_projection_of evs = Inr p"
  shows "projection_ok p \<and> map snd (kp_receipts p) = receipts_in (map kv_event evs) \<and>
    distinct (map kr_rpc_id (receipts_in (map kv_event evs))) \<and>
    (\<forall>ns. map_of (kp_settings p) ns =
       (let all = settings_of ns (map kv_event evs) in if all = [] then None else Some (last all))) \<and>
    (\<forall>ns s. map_of (kp_settings p) ns = Some s \<longrightarrow>
       unat (sg_revision s) = min (length (settings_of ns (map kv_event evs))) (2 ^ 64 - 1))"
proof -
  obtain revs where projected: "projected (map kv_event evs) (p, revs)" using control_projection_projected [OF assms] by blast
  note ok = this [unfolded projected_def fst_conv snd_conv]
  have "distinct (map kr_rpc_id (receipts_in (map kv_event evs)))"
    unfolding projected_ids [OF projected] using ok by (simp add: projection_ok_def receipts_ok_def)
  with ok show ?thesis by (simp add: Let_def)
qed

text \<open>As long as a workspace is not removed, its path and the time of its creation never change.\<close>

lemma workspace_identity:
  assumes "project_control_events es (p, revs) = Inr (p', revs')" and "map_of (kp_workspaces p) i = Some w"
    and "\<forall>x\<in>set (kp_workspaces p). fst x = wk_id (snd x)" and "WorkspaceRemoved i \<notin> set es"
  shows "\<exists>w'. map_of (kp_workspaces p') i = Some w' \<and> wk_path w' = wk_path w \<and> wk_created_at w' = wk_created_at w"
  using assms
proof (induction es arbitrary: p revs w)
  case (Cons e es)
  from Cons.prems(1) obtain p1 revs1 where step: "project_control_event e (p, revs) = Inr (p1, revs1)"
    and rest: "project_control_events es (p1, revs1) = Inr (p', revs')" by auto
  have ids: "\<forall>x\<in>set (kp_workspaces p1). fst x = wk_id (snd x)"
  proof (cases e)
    case (WorkspaceDefined w1)
    with step have "kp_workspaces p1 = AList.update (wk_id w1) w1 (kp_workspaces p)" by auto
    with Cons.prems(3) show ?thesis by (auto dest: update_subset)
  next
    case (WorkspaceRemoved j)
    with step have "kp_workspaces p1 = AList.delete j (kp_workspaces p)" by auto
    with Cons.prems(3) show ?thesis by (simp add: delete_mem)
  qed (use step Cons.prems(3) in \<open>auto simp: Let_def\<close>)
  have "\<exists>w1. map_of (kp_workspaces p1) i = Some w1 \<and> wk_path w1 = wk_path w \<and> wk_created_at w1 = wk_created_at w"
    using step Cons.prems(2,4) by (cases e) (auto simp: Let_def update_conv' delete_conv')
  then obtain w1 where w1: "map_of (kp_workspaces p1) i = Some w1" "wk_path w1 = wk_path w" "wk_created_at w1 = wk_created_at w" by blast
  from Cons.IH [OF rest w1(1) ids] Cons.prems(4) w1(2,3) show ?case by auto
qed simp

subsection \<open>Appending\<close>

lemma control_append_cases:
  assumes "control_append_at k expected es now = (k', res)"
  obtains (failed) e where "res = Inl e" "k' = k"
  | (appended) r rc where "es \<noteq> []" "expected = kl_revision k" "checked_add (kl_revision k) 1 = Some r"
      "validate_control_log r (kl_events k @ stage_control (control_next_seq k) r now es) = Inr ()"
      "k' = \<lparr>kl_revision = r, kl_events = kl_events k @ stage_control (control_next_seq k) r now es\<rparr>"
      "res = Inr rc" "ka_revision rc = r" "ka_previous_revision rc = kl_revision k" "ka_first_seq rc = control_next_seq k"
      "ka_last_seq rc = control_next_seq k' - 1" "ka_events rc = stage_control (control_next_seq k) r now es"
proof (cases "expected = kl_revision k \<and> es \<noteq> []")
  case True
  show thesis
  proof (cases "checked_add (kl_revision k) 1")
    case (Some r)
    show thesis
    proof (cases "validate_control_log r (kl_events k @ stage_control (control_next_seq k) r now es)")
      case (Inl e)
      with True Some assms show thesis by (intro failed [of e]) (simp_all add: control_append_at_def Let_def)
    next
      case (Inr u)
      with True Some assms show thesis
        by (intro appended [of r "projr res"]) (auto simp: control_append_at_def Let_def)
    qed
  next
    case None
    with True assms show thesis by (auto simp: control_append_at_def intro: failed)
  qed
next
  case False
  with assms show thesis by (auto simp: control_append_at_def split: if_splits intro: failed)
qed

inductive control_reachable :: "control_log \<Rightarrow> bool" where
  empty: "control_reachable empty_control_log"
| append: "control_reachable k \<Longrightarrow> control_append_at k expected es now = (k', res) \<Longrightarrow> control_reachable k'"

text \<open>The receipts of a log with the revisions they are in.\<close>

definition control_receipts :: "logged_control_event list \<Rightarrow> (control_revision \<times> control_receipt) list" where
  "control_receipts evs = concat (map (\<lambda>l. case kv_event l of MutationCommitted r \<Rightarrow> [(kv_revision l, r)] | _ \<Rightarrow> []) evs)"

lemma control_receipts_simps [simp]:
  "control_receipts [] = []" "control_receipts (evs @ evs') = control_receipts evs @ control_receipts evs'"
  "control_receipts (l # evs) = (case kv_event l of MutationCommitted r \<Rightarrow> [(kv_revision l, r)] | _ \<Rightarrow> []) @ control_receipts evs"
  by (simp_all add: control_receipts_def)

lemma map_snd_control_receipts: "map snd (control_receipts evs) = receipts_in (map kv_event evs)"
  by (induction evs) (auto split: control_event.split)

lemma one_receipt:
  assumes "successively control_follows ls" and "ls \<noteq> []" and "\<forall>l\<in>set ls. kv_revision l = r"
    and "is_receipt (kv_event (last ls))"
  shows "\<exists>rc. control_receipts ls = [(r, rc)]"
  using assms
proof (induction ls rule: induct_list012)
  case (2 l)
  then show ?case by (cases "kv_event l") auto
next
  case (3 l l' ls)
  then have "control_follows l l'" "kv_revision l' = kv_revision l" by simp_all
  then have "\<not> is_receipt (kv_event l)" by (auto simp: control_follows_def checked_add_Some)
  then have "control_receipts (l # l' # ls) = control_receipts (l' # ls)" by (cases "kv_event l") auto
  with "3.IH"(2) "3.prems" show ?case by simp
qed simp

lemma length_stage_control [simp]: "length (stage_control first r now es) = length es"
  by (simp add: stage_control_def)

lemma stage_control_revision: "l \<in> set (stage_control first r now es) \<Longrightarrow> kv_revision l = r"
  by (auto simp: stage_control_def)

lemma stage_control_Nil [simp]: "stage_control first r now es = [] \<longleftrightarrow> es = []"
  using length_stage_control [of first r now es] by (metis length_0_conv)

lemma stage_control_events [simp]: "map kv_event (stage_control first r now es) = es"
  by (simp add: stage_control_def case_prod_unfold comp_def)

lemma control_reachable_inv:
  assumes "control_reachable k"
  shows "validate_control_log (kl_revision k) (kl_events k) = Inr ()"
    and "map fst (control_receipts (kl_events k)) = map of_nat [1 ..< Suc (unat (kl_revision k))]"
proof -
  have "validate_control_log (kl_revision k) (kl_events k) = Inr () \<and>
    map fst (control_receipts (kl_events k)) = map of_nat [1 ..< Suc (unat (kl_revision k))]"
    using assms
  proof induction
    case empty
    then show ?case by (simp add: empty_control_log_def validate_control_log_def)
  next
    case (append k expected es now k' res)
    from append.hyps(2) show ?case
    proof (cases rule: control_append_cases)
      case (appended r rc)
      let ?staged = "stage_control (control_next_seq k) r now es"
      have "control_rules r (kl_events k @ ?staged)" using appended(1,4) by (simp add: valid_control_log)
      then have "successively control_follows ?staged" "is_receipt (kv_event (last ?staged))"
        using appended(1) by (simp_all add: control_rules_def successively_append_iff)
      with one_receipt [of ?staged r] obtain x where "control_receipts ?staged = [(r, x)]"
        using appended(1) stage_control_revision by auto
      moreover have "unat r = Suc (unat (kl_revision k))" using checked_add_unat [OF appended(3)] by simp
      moreover have "r = of_nat (unat r)" by simp
      ultimately show ?thesis using append.IH appended(4,5) by simp
    qed (use append.IH in simp)
  qed
  then show "validate_control_log (kl_revision k) (kl_events k) = Inr ()"
    and "map fst (control_receipts (kl_events k)) = map of_nat [1 ..< Suc (unat (kl_revision k))]" by simp_all
qed

lemma control_accounting:
  assumes "control_reachable k"
  shows "distinct (map (kr_rpc_id \<circ> snd) (control_receipts (kl_events k)))"
proof -
  note valid = control_reachable_inv [OF assms]
  have "distinct (map kr_rpc_id (receipts_in (map kv_event (kl_events k))))"
  proof (cases "kl_events k = []")
    case False
    with valid(1) obtain p where "control_projection_of (kl_events k) = Inr p" by (auto simp: valid_control_log)
    then obtain revs where projected: "projected (map kv_event (kl_events k)) (p, revs)" using control_projection_projected by blast
    then show ?thesis unfolding projected_ids [OF projected] by (simp add: projected_def projection_ok_def receipts_ok_def)
  qed simp
  then show ?thesis
    unfolding map_snd_control_receipts [symmetric] by simp
qed

text \<open>Property C20. Every log that appends can produce is valid, and its receipts are counted by its revisions: the n-th
  receipt is the one of revision n, there is one for each revision up to the current one, and no two have the
  same RPC id.  So every accepted mutation is in the log exactly once.\<close>

theorem mutations_logged_once:
  assumes "control_reachable k"
  shows "validate_control_log (kl_revision k) (kl_events k) = Inr () \<and>
    map fst (control_receipts (kl_events k)) = map of_nat [1 ..< Suc (unat (kl_revision k))] \<and>
    distinct (map (kr_rpc_id \<circ> snd) (control_receipts (kl_events k)))"
  using control_reachable_inv [OF assms] control_accounting [OF assms] by blast

subsection \<open>An example\<close>

definition desk :: workspace_snapshot where
  "desk = \<lparr>wk_id = ''w1'', wk_path = ''/desk'', wk_title = ''desk'', wk_session_order = [], wk_created_at = ''t'', wk_updated_at = ''t''\<rparr>"

definition desk_receipt :: control_receipt where
  "desk_receipt = \<lparr>kr_rpc_id = ''r1'', kr_method = ''workspace.create'', kr_fingerprint = replicate 64 CHR ''a'', kr_response = JObject []\<rparr>"

definition desk_events :: "control_event list" where
  "desk_events = [WorkspaceDefined desk, MutationCommitted desk_receipt]"

definition desk_log :: control_log where
  "desk_log = \<lparr>kl_revision = 1, kl_events = stage_control 0 1 7 desk_events\<rparr>"

lemma desk_texts [simp]:
  "\<not> blank ''w1''" "\<not> blank ''/desk''" "\<not> blank ''desk''" "\<not> blank ''t''" "\<not> blank ''r1''" "\<not> blank ''workspace.create''"
  by code_simp+

lemma desk_projection:
  "control_projection_of (kl_events desk_log) =
     Inr (empty_control_projection\<lparr>kp_workspaces := [(''w1'', desk)], kp_receipts := [(''r1'', desk_receipt)]\<rparr>)"
  by (simp add: desk_log_def desk_events_def control_projection_of_def empty_control_projection_def stage_control_def
      validate_workspace_def require_nonempty_def require_unique_nonempty_def desk_def validate_receipt_def desk_receipt_def
      is_lowercase_hexdigit_def list_all_iff)

lemma desk_appended: "fst (control_append_at empty_control_log 0 desk_events 7) = desk_log"
proof -
  have "validate_control_log 1 (stage_control 0 1 7 desk_events) = Inr ()"
    using desk_projection by (simp add: valid_control_log desk_log_def control_rules_def)
      (simp add: stage_control_def desk_events_def control_follows_def upt_rec)
  then show ?thesis
    by (simp add: control_append_at_def empty_control_log_def desk_log_def control_next_seq_def checked_add_def desk_events_def Let_def)
qed

theorem control_state_sound_witness: "secret_free (kr_response desk_receipt) \<and> distinct (map kr_rpc_id [desk_receipt])"
  using control_state_sound [OF desk_projection] by (simp add: projection_ok_def receipts_ok_def)

theorem mutations_logged_once_witness: "map fst (control_receipts (kl_events desk_log)) = [1]"
proof -
  obtain res where "control_append_at empty_control_log 0 desk_events 7 = (desk_log, res)"
    using desk_appended by (cases "control_append_at empty_control_log 0 desk_events 7") simp
  then have "control_reachable desk_log" by (rule control_reachable.append [OF control_reachable.empty])
  from mutations_logged_once [OF this] show ?thesis by (simp add: desk_log_def)
qed

end
