(* ===== verification/Control_Store.thy ===== *)
theory Control_Store
  imports Control_Log Reference_Codec
begin

text \<open>
  The file of the control log (xharness-control/src/lib.rs): a header line and one line per batch.  An append
  repairs the tail a crash has left before it adds its line.

  The JSON codec is the argument \<open>c\<close>, as for the filesystem store of sessions.  A file is its bytes, or None when
  it does not exist; both locks make a method one step.  The argument \<open>fault\<close> is where writing stops: with an
  I/O error at the header, which is then removed; because the process dies after some bytes of the header, which
  stay; or after some bytes of the batch line.  (A call that dies returns nothing; its error stands for that.)
\<close>

definition CONTROL_FORMAT :: string where "CONTROL_FORMAT = ''xharness.host-control.jsonl''"
definition CONTROL_FORMAT_VERSION :: u32 where "CONTROL_FORMAT_VERSION = 1"

record control_header_record =
  kh_record :: string
  kh_format :: string
  kh_format_version :: u32

record control_batch_record =
  kb_record :: string
  kb_previous_revision :: control_revision
  kb_revision :: control_revision
  kb_events :: "logged_control_event list"

record loaded_control =
  kf_log :: control_log
  kf_valid_len :: nat
  kf_needs_separator :: bool

record control_codec =
  kc_encode_header :: "control_header_record \<Rightarrow> bytes"
  kc_decode_header :: "bytes \<Rightarrow> control_header_record option"
  kc_encode_batch :: "control_batch_record \<Rightarrow> bytes"
  kc_decode_batch :: "bytes \<Rightarrow> control_batch_record option"

datatype control_fault = FaultAtHeader | CrashInHeader nat | FaultInBatch nat

subsection \<open>Parsing\<close>

lemma next_line_shorter: "next_line rest = (ln, rest1, t) \<Longrightarrow> rest \<noteq> [] \<Longrightarrow> length rest1 < length rest"
  by (cases t) (auto simp: next_line_length dest: next_line_cases)

function split_records :: "bytes \<Rightarrow> control_error + bytes list" where
  "split_records rest =
     (if rest = [] then Inr []
      else (case next_line rest of (ln, rest1, _) \<Rightarrow>
        if ln = [] then Inl (ControlBackend ''control log {} contains an empty record'')
        else and_then (split_records rest1) (\<lambda>lns. Inr (ln # lns))))"
  by pat_completeness auto

termination
  by (relation "measure length") (auto dest!: next_line_shorter [OF sym])

declare split_records.simps [simp del]

text \<open>The loop over the batch records: the revision, the events and the number of records accepted.\<close>

fun control_batches ::
  "control_codec \<Rightarrow> bool \<Rightarrow> bytes list \<Rightarrow> control_revision \<Rightarrow> logged_control_event list \<Rightarrow> nat \<Rightarrow>
     control_error + control_revision \<times> logged_control_event list \<times> nat" where
  "control_batches c terminated [] revision events accepted = Inr (revision, events, accepted)"
| "control_batches c terminated (ln # lns) revision events accepted =
     (case kc_decode_batch c ln of
        Some b \<Rightarrow>
          if kb_record b \<noteq> BATCH_RECORD \<or> kb_previous_revision b \<noteq> revision
          then Inl (ControlBackend ''control batch {}:{} has a broken revision chain'')
          else control_batches c terminated lns (kb_revision b) (events @ kb_events b) (Suc accepted)
      | None \<Rightarrow>
          if lns = [] \<and> \<not> terminated then Inr (revision, events, accepted)
          else Inl (ControlBackend ''decode control batch {}:{}: {error}''))"

definition ends_terminated :: "bytes \<Rightarrow> bool" where
  "ends_terminated b \<longleftrightarrow> suffix [Jsonl_Store.newline] b"

definition parse_control :: "control_codec \<Rightarrow> bytes \<Rightarrow> control_error + loaded_control" where
  "parse_control c b =
     and_then (split_records b) (\<lambda>records.
     case records of
       [] \<Rightarrow> Inl (ControlBackend ''control log {} has no header'')
     | hl # lns \<Rightarrow>
         (case kc_decode_header c hl of
            None \<Rightarrow> Inl (ControlBackend ''decode control header {}: {error}'')
          | Some h \<Rightarrow>
              if kh_record h \<noteq> HEADER_RECORD \<or> kh_format h \<noteq> CONTROL_FORMAT \<or> kh_format_version h \<noteq> CONTROL_FORMAT_VERSION
              then Inl (ControlBackend ''control log {} has an unsupported header'')
              else and_then (control_batches c (ends_terminated b) lns 0 [] 1) (\<lambda>(revision, events, accepted).
                and_then (restore_control_log revision events) (\<lambda>log.
                Inr \<lparr>kf_log = log,
                     kf_valid_len = (if accepted = length records then length b
                                     else sum_list (map (\<lambda>ln. length ln + 1) (take accepted records))),
                     kf_needs_separator = (accepted = length records \<and> \<not> ends_terminated b)\<rparr>))))"

subsection \<open>The operations\<close>

definition load_control :: "control_codec \<Rightarrow> bytes option \<Rightarrow> control_error + loaded_control option" where
  "load_control c f =
     (case f of None \<Rightarrow> Inr None | Some b \<Rightarrow> and_then (parse_control c b) (\<lambda>loaded. Inr (Some loaded)))"

definition control_header :: control_header_record where
  "control_header = \<lparr>kh_record = HEADER_RECORD, kh_format = CONTROL_FORMAT, kh_format_version = CONTROL_FORMAT_VERSION\<rparr>"

definition control_line :: "bytes \<Rightarrow> bytes" where
  "control_line encoded = encoded @ [Jsonl_Store.newline]"

definition control_load :: "control_codec \<Rightarrow> bytes option \<Rightarrow> control_error + control_log" where
  "control_load c f =
     and_then (load_control c f) (\<lambda>loaded. Inr (case loaded of None \<Rightarrow> empty_control_log | Some x \<Rightarrow> kf_log x))"

definition create_header :: "control_codec \<Rightarrow> control_fault option \<Rightarrow> bytes option \<times> (control_error + unit)" where
  "create_header c fault =
     (let encoded = control_line (kc_encode_header c control_header) in
      case fault of
        Some FaultAtHeader \<Rightarrow> (None, Inl (ControlBackend ''write control header {}: {error}''))
      | Some (CrashInHeader n) \<Rightarrow> (Some (take n encoded), Inl (ControlBackend ''write control header {}: {error}''))
      | _ \<Rightarrow> (Some encoded, Inr ()))"

definition control_batch_of :: "control_append_receipt \<Rightarrow> control_batch_record" where
  "control_batch_of receipt =
     \<lparr>kb_record = BATCH_RECORD, kb_previous_revision = ka_previous_revision receipt, kb_revision = ka_revision receipt,
      kb_events = ka_events receipt\<rparr>"

text \<open>The file without its torn tail, and what the append adds to it.\<close>

definition repaired :: "loaded_control \<Rightarrow> bytes \<Rightarrow> bytes" where
  "repaired loaded b = (if length b \<noteq> kf_valid_len loaded then take (kf_valid_len loaded) b else b)"

definition control_added :: "control_codec \<Rightarrow> loaded_control \<Rightarrow> control_append_receipt \<Rightarrow> bytes" where
  "control_added c loaded receipt =
     (if kf_needs_separator loaded then [Jsonl_Store.newline] else []) @
     control_line (kc_encode_batch c (control_batch_of receipt))"

definition append_loaded ::
  "control_codec \<Rightarrow> control_fault option \<Rightarrow> u64 \<Rightarrow> control_revision \<Rightarrow> control_event list \<Rightarrow> bytes \<Rightarrow>
     bytes option \<times> (control_error + control_append_receipt)" where
  "append_loaded c fault now expected events b =
     (case parse_control c b of
        Inl e \<Rightarrow> (Some b, Inl e)
      | Inr loaded \<Rightarrow>
          (case control_append_at (kf_log loaded) expected events now of
             (_, Inl e) \<Rightarrow> (Some b, Inl e)
           | (_, Inr receipt) \<Rightarrow>
               (let added = control_added c loaded receipt in
                case fault of
                  Some (FaultInBatch n) \<Rightarrow>
                    (Some (repaired loaded b @ take n added), Inl (ControlBackend ''append control batch {}: {error}''))
                | _ \<Rightarrow> (Some (repaired loaded b @ added), Inr receipt))))"

definition control_append ::
  "control_codec \<Rightarrow> control_fault option \<Rightarrow> u64 \<Rightarrow> control_revision \<Rightarrow> control_event list \<Rightarrow> bytes option \<Rightarrow>
     bytes option \<times> (control_error + control_append_receipt)" where
  "control_append c fault now expected events f =
     (case f of
        Some b \<Rightarrow> append_loaded c fault now expected events b
      | None \<Rightarrow>
          (case create_header c fault of
             (f1, Inl e) \<Rightarrow> (f1, Inl e)
           | (None, Inr _) \<Rightarrow> (None, Inl (ControlBackend ''control log {} disappeared''))
           | (Some b, Inr _) \<Rightarrow> append_loaded c fault now expected events b))"

definition control_flush :: "control_codec \<Rightarrow> bytes option \<Rightarrow> control_error + control_revision" where
  "control_flush c f =
     and_then (load_control c f) (\<lambda>loaded. Inr (case loaded of None \<Rightarrow> 0 | Some x \<Rightarrow> kl_revision (kf_log x)))"

definition jsonl_control_ops :: "control_codec \<Rightarrow> bytes option control_store_ops" where
  "jsonl_control_ops c = \<lparr>ko_load = control_load c, ko_append = control_append c None, ko_flush = control_flush c\<rparr>"

subsection \<open>Files as lines\<close>

definition join_lines :: "bytes list \<Rightarrow> bytes" where
  "join_lines lns = concat (map control_line lns)"

lemma join_lines_simps [simp]:
  "join_lines [] = []" "join_lines (ln # lns) = ln @ Jsonl_Store.newline # join_lines lns"
  "join_lines (lns @ lns') = join_lines lns @ join_lines lns'"
  by (simp_all add: join_lines_def control_line_def)

definition good_line :: "bytes \<Rightarrow> bool" where
  "good_line ln \<longleftrightarrow> ln \<noteq> [] \<and> Jsonl_Store.newline \<notin> set ln"

text \<open>Good lines, the last of which may lack its newline, are read back as they are.\<close>

lemma split_joined:
  assumes "\<forall>ln\<in>set lns. good_line ln" and "t = [] \<or> good_line t"
  shows "split_records (join_lines lns @ t) = Inr (lns @ (if t = [] then [] else [t]))"
  using assms(1)
proof (induction lns)
  case Nil
  show ?case
  proof (cases "t = []")
    case False
    with assms(2) show ?thesis
      by (subst split_records.simps) (simp add: next_line_line good_line_def split_records.simps [of "[]"])
  qed (simp add: split_records.simps)
next
  case (Cons ln lns)
  then show ?case by (subst split_records.simps) (simp add: next_line_line good_line_def)
qed

lemma split_recordsE:
  assumes "split_records b = Inr records"
  obtains (terminated) "b = join_lines records" "\<forall>ln\<in>set records. good_line ln"
  | (open_line) lns ln where "b = join_lines lns @ ln" "records = lns @ [ln]" "\<forall>ln\<in>set records. good_line ln"
proof -
  have "(b = join_lines records \<or> (\<exists>lns ln. b = join_lines lns @ ln \<and> records = lns @ [ln])) \<and> (\<forall>ln\<in>set records. good_line ln)"
    using assms
  proof (induction b arbitrary: records rule: rest_induct)
    case Nil
    then show ?case by (simp add: split_records.simps)
  next
    case (tail ln)
    then have "records = [ln]" by (subst (asm) split_records.simps) (simp add: next_line_line split_records.simps [of "[]"])
    with tail show ?case by (auto simp: good_line_def intro: exI [of _ "[]"])
  next
    case (line ln rest)
    from line.prems line.hyps obtain lns where "ln \<noteq> []" "split_records rest = Inr lns" "records = ln # lns"
      by (subst (asm) split_records.simps) (auto simp: next_line_line split: if_splits)
    with line.IH [OF this(2)] line.hyps show ?case by (force simp: good_line_def intro: exI [of _ "ln # _"])
  qed
  with terminated open_line show thesis by blast
qed


lemma ends_joined:
  "ends_terminated (join_lines lns) \<longleftrightarrow> lns \<noteq> []"
  "good_line t \<Longrightarrow> \<not> ends_terminated (b @ t)"
proof -
  show "ends_terminated (join_lines lns) \<longleftrightarrow> lns \<noteq> []"
    by (cases lns rule: rev_cases) (auto simp: ends_terminated_def suffix_def)
  show "good_line t \<Longrightarrow> \<not> ends_terminated (b @ t)"
    by (cases t rule: rev_cases) (auto simp: ends_terminated_def good_line_def suffix_def)
qed

lemma batches_accept:
  assumes "control_batches c True lns r es n = Inr (r', es', m)"
  shows "m = n + length lns" and "control_batches c t (lns @ lns') r es n = control_batches c t lns' r' es' m"
proof -
  have "m = n + length lns \<and> control_batches c t (lns @ lns') r es n = control_batches c t lns' r' es' m"
    using assms
  proof (induction lns arbitrary: r es n)
    case (Cons ln lns)
    then obtain b where b: "kc_decode_batch c ln = Some b" "kb_record b = BATCH_RECORD" "kb_previous_revision b = r"
      and rest: "control_batches c True lns (kb_revision b) (es @ kb_events b) (Suc n) = Inr (r', es', m)"
      by (auto split: option.splits if_splits)
    from Cons.IH [OF rest] b show ?case by simp
  qed simp
  then show "m = n + length lns" and "control_batches c t (lns @ lns') r es n = control_batches c t lns' r' es' m" by simp_all
qed

lemma batches_open:
  assumes "control_batches c False lns r es n = Inr (r', es', m)"
  shows "control_batches c True lns r es n = Inr (r', es', m) \<or>
    (\<exists>lns1 ln. lns = lns1 @ [ln] \<and> kc_decode_batch c ln = None \<and> control_batches c True lns1 r es n = Inr (r', es', m))"
  using assms
proof (induction lns arbitrary: r es n)
  case (Cons ln lns)
  show ?case
  proof (cases "kc_decode_batch c ln")
    case (Some b)
    with Cons.prems have chain: "kb_record b = BATCH_RECORD" "kb_previous_revision b = r"
      and rest: "control_batches c False lns (kb_revision b) (es @ kb_events b) (Suc n) = Inr (r', es', m)"
      by (auto split: if_splits)
    from Cons.IH [OF rest] show ?thesis
    proof
      assume "\<exists>lns1 ln. lns = lns1 @ [ln] \<and> kc_decode_batch c ln = None \<and>
        control_batches c True lns1 (kb_revision b) (es @ kb_events b) (Suc n) = Inr (r', es', m)"
      then obtain lns1 ln' where "lns = lns1 @ [ln']" "kc_decode_batch c ln' = None"
        "control_batches c True (ln # lns1) r es n = Inr (r', es', m)" using Some chain by auto
      then show ?thesis by (intro disjI2 exI [of _ "ln # lns1"] exI [of _ ln']) simp
    qed (use Some chain in simp)
  qed (use Cons.prems in \<open>auto split: if_splits\<close>)
qed simp

definition header_line_ok :: "control_codec \<Rightarrow> bytes \<Rightarrow> bool" where
  "header_line_ok c hl \<longleftrightarrow> good_line hl \<and> kc_decode_header c hl = Some control_header"

text \<open>The lines \<open>lns\<close> behind the header hold the log \<open>k\<close>.\<close>

definition lines_hold :: "control_codec \<Rightarrow> bytes list \<Rightarrow> control_log \<Rightarrow> bool" where
  "lines_hold c lns k \<longleftrightarrow>
     (\<forall>ln\<in>set lns. good_line ln) \<and>
     control_batches c True lns 0 [] 1 = Inr (kl_revision k, kl_events k, 1 + length lns) \<and>
     restore_control_log (kl_revision k) (kl_events k) = Inr k"

lemma restore_control_log_Inr:
  "restore_control_log r evs = Inr k \<longleftrightarrow> validate_control_log r evs = Inr () \<and> k = \<lparr>kl_revision = r, kl_events = evs\<rparr>"
  by (auto simp: restore_control_log_def)

lemma header_fields:
  "h = control_header \<longleftrightarrow>
     \<not> (kh_record h \<noteq> HEADER_RECORD \<or> kh_format h \<noteq> CONTROL_FORMAT \<or> kh_format_version h \<noteq> CONTROL_FORMAT_VERSION)"
  by (cases h) (auto simp: control_header_def)

text \<open>Parsing a file of lines, and one with an open line at its end.\<close>

lemma parse_lines:
  assumes "header_line_ok c hl" and "lines_hold c lns k"
  shows "parse_control c (join_lines (hl # lns)) =
    Inr \<lparr>kf_log = k, kf_valid_len = length (join_lines (hl # lns)), kf_needs_separator = False\<rparr>"
proof -
  have good: "\<forall>ln\<in>set (hl # lns). good_line ln" using assms by (simp add: header_line_ok_def lines_hold_def)
  have split: "split_records (join_lines (hl # lns)) = Inr (hl # lns)" using split_joined [OF good, of "[]"] by simp
  show ?thesis
    using assms unfolding parse_control_def split
    by (simp add: ends_joined header_line_ok_def lines_hold_def control_header_def del: join_lines_simps)
qed

lemma parse_open:
  assumes "header_line_ok c hl" and "lines_hold c lns k" and "good_line t"
  shows "parse_control c (join_lines (hl # lns) @ t) =
    (case kc_decode_batch c t of
       None \<Rightarrow> Inr \<lparr>kf_log = k, kf_valid_len = length (join_lines (hl # lns)), kf_needs_separator = False\<rparr>
     | Some b \<Rightarrow>
         if kb_record b \<noteq> BATCH_RECORD \<or> kb_previous_revision b \<noteq> kl_revision k
         then Inl (ControlBackend ''control batch {}:{} has a broken revision chain'')
         else and_then (restore_control_log (kb_revision b) (kl_events k @ kb_events b)) (\<lambda>log.
           Inr \<lparr>kf_log = log, kf_valid_len = length (join_lines (hl # lns) @ t), kf_needs_separator = True\<rparr>))"
proof -
  have good: "\<forall>ln\<in>set (hl # lns). good_line ln" using assms by (simp add: header_line_ok_def lines_hold_def)
  have split: "split_records (join_lines (hl # lns) @ t) = Inr (hl # lns @ [t])"
    using split_joined [OF good, of t] assms(3) by (auto simp: good_line_def)
  have hold: "control_batches c True lns 0 [] 1 = Inr (kl_revision k, kl_events k, 1 + length lns)"
    using assms(2) by (simp add: lines_hold_def)
  have batches: "control_batches c False (lns @ [t]) 0 [] 1 = control_batches c False [t] (kl_revision k) (kl_events k) (1 + length lns)"
    by (rule batches_accept(2) [OF hold])
  have len: "sum_list (map (\<lambda>ln. length ln + 1) (hl # lns)) = length (join_lines (hl # lns))"
    unfolding join_lines_def length_concat map_map comp_def control_line_def by simp
  have ends: "\<not> ends_terminated (join_lines (hl # lns) @ t)" by (rule ends_joined(2) [OF assms(3)])
  have header: "kc_decode_header c hl = Some control_header" using assms(1) by (simp add: header_line_ok_def)
  have restored: "restore_control_log (kl_revision k) (kl_events k) = Inr k" using assms(2) by (simp add: lines_hold_def)
  show ?thesis
    unfolding parse_control_def split and_then_simps list.case header option.case
    using ends batches restored len
    by (cases "kc_decode_batch c t") (simp_all add: control_header_def del: join_lines_simps)
qed

lemma parse_controlE:
  assumes "parse_control c b = Inr ld"
  obtains hl lns where "header_line_ok c hl" "lines_hold c lns (kf_log ld)"
    "repaired ld b @ (if kf_needs_separator ld then [Jsonl_Store.newline] else []) = join_lines (hl # lns)"
    "kf_needs_separator ld \<longrightarrow> repaired ld b = b"
proof -
  from assms obtain records where split: "split_records b = Inr records" by (auto simp: parse_control_def)
  with assms obtain hl rest where records: "records = hl # rest" by (cases records) (auto simp: parse_control_def)
  with assms split obtain h r es n log where h: "kc_decode_header c hl = Some h"
    and fields: "\<not> (kh_record h \<noteq> HEADER_RECORD \<or> kh_format h \<noteq> CONTROL_FORMAT \<or> kh_format_version h \<noteq> CONTROL_FORMAT_VERSION)"
    and batches: "control_batches c (ends_terminated b) rest 0 [] 1 = Inr (r, es, n)" and log: "restore_control_log r es = Inr log"
    and loaded: "ld = \<lparr>kf_log = log,
       kf_valid_len = (if n = length records then length b else sum_list (map (\<lambda>ln. length ln + 1) (take n records))),
       kf_needs_separator = (n = length records \<and> \<not> ends_terminated b)\<rparr>"
    by (fastforce simp: parse_control_def split: option.splits if_splits)
  have ld: "restore_control_log r es = Inr (kf_log ld)"
    "kf_valid_len ld = (if n = length records then length b else sum_list (map (\<lambda>ln. length ln + 1) (take n records)))"
    "kf_needs_separator ld = (n = length records \<and> \<not> ends_terminated b)"
    using log unfolding loaded by simp_all
  from fields have header: "h = control_header" by (rule header_fields [THEN iffD2])
  have k: "kl_revision (kf_log ld) = r" "kl_events (kf_log ld) = es" "restore_control_log r es = Inr (kf_log ld)"
    using ld(1) by (auto simp: restore_control_log_Inr)
  from split show thesis
  proof (cases rule: split_recordsE)
    case terminated
    then have good: "good_line hl" "\<forall>ln\<in>set rest. good_line ln" using records by simp_all
    have ends: "ends_terminated b" unfolding terminated(1) by (simp add: ends_joined(1) records del: join_lines_simps)
    with batches have batches: "control_batches c True rest 0 [] 1 = Inr (r, es, n)" by simp
    note all = batches_accept(1) [OF batches]
    show thesis
      by (rule that [of hl rest])
        (use good h header k batches all ld(2,3) ends terminated(1) records in \<open>simp_all add: header_line_ok_def lines_hold_def repaired_def\<close>)
  next
    case (open_line lns ln)
    then have ends: "\<not> ends_terminated b" using ends_joined(2) [of ln] by simp
    have hl: "good_line hl" using open_line(3) records by simp
    from batches_open [OF batches [simplified ends]] show thesis
    proof
      assume batches: "control_batches c True rest 0 [] 1 = Inr (r, es, n)"
      note all = batches_accept(1) [OF batches]
      have "b @ [Jsonl_Store.newline] = join_lines (hl # rest)"
        unfolding records [symmetric] open_line(1,2) by simp
      with hl open_line(3) h header k batches all ld(2,3) ends records show thesis
        by (intro that [of hl rest]) (simp_all add: header_line_ok_def lines_hold_def repaired_def del: join_lines_simps)
    next
      assume "\<exists>lns1 ln1. rest = lns1 @ [ln1] \<and> kc_decode_batch c ln1 = None \<and> control_batches c True lns1 0 [] 1 = Inr (r, es, n)"
      then obtain lns1 ln1 where rest: "rest = lns1 @ [ln1]" and batches: "control_batches c True lns1 0 [] 1 = Inr (r, es, n)" by blast
      note all = batches_accept(1) [OF batches]
      have lns: "lns = hl # lns1" "ln1 = ln" using records rest open_line(2) by simp_all
      have len: "kf_valid_len ld = length (join_lines (hl # lns1))"
        using ld(2) all records rest unfolding join_lines_def length_concat map_map comp_def control_line_def by simp
      have "repaired ld b = join_lines (hl # lns1)"
        unfolding repaired_def len open_line(1) lns by simp
      with hl open_line(3) h header k batches all ld(3) rest records show thesis
        by (intro that [of hl lns1]) (simp_all add: header_line_ok_def lines_hold_def del: join_lines_simps)
    qed
  qed
qed


subsection \<open>Appending\<close>

text \<open>What the store needs of the codec: records are written as one line that is read back, and no shorter prefix
  of a record's line is read as one (the text of a JSON object ends with its closing brace).\<close>

definition control_codec_ok :: "control_codec \<Rightarrow> bool" where
  "control_codec_ok c \<longleftrightarrow>
     header_line_ok c (kc_encode_header c control_header) \<and>
     (\<forall>n\<in>{0<..<length (kc_encode_header c control_header)}.
        kc_decode_header c (take n (kc_encode_header c control_header)) = None) \<and>
     (\<forall>r. good_line (kc_encode_batch c r) \<and> kc_decode_batch c (kc_encode_batch c r) = Some r \<and>
        (\<forall>n\<in>{0<..<length (kc_encode_batch c r)}. kc_decode_batch c (take n (kc_encode_batch c r)) = None))"

lemma good_take: "good_line t \<Longrightarrow> 0 < n \<Longrightarrow> good_line (take n t)"
  by (auto simp: good_line_def dest: in_set_takeD)

text \<open>The lines of a file, and any part of the line an append adds: behind them stands the log from before or the one
  from after.\<close>

lemma parse_cut_line:
  assumes "control_codec_ok c" and hl: "header_line_ok c hl" and k: "lines_hold c lns k"
    and app: "control_append_at k expected es now = (k', Inr rc)"
  defines "e \<equiv> kc_encode_batch c (control_batch_of rc)"
  obtains ld where "parse_control c (join_lines (hl # lns) @ take n (control_line e)) = Inr ld"
    "kf_log ld = (if n < length e then k else k')"
proof -
  from app obtain r where rc: "ka_previous_revision rc = kl_revision k" "ka_revision rc = r"
    and k': "k' = \<lparr>kl_revision = r, kl_events = kl_events k @ ka_events rc\<rparr>"
    and valid: "validate_control_log r (kl_events k @ ka_events rc) = Inr ()"
    by (cases rule: control_append_cases) auto
  have e: "good_line e" "kc_decode_batch c e = Some (control_batch_of rc)"
    and torn: "\<And>n. 0 < n \<Longrightarrow> n < length e \<Longrightarrow> kc_decode_batch c (take n e) = None"
    using assms(1) by (auto simp: control_codec_ok_def e_def)
  have restored: "restore_control_log r (kl_events k @ ka_events rc) = Inr k'"
    using valid k' by (simp add: restore_control_log_Inr)
  consider "n = 0" | "0 < n" "n < length e" | "n = length e" | "length e < n" by linarith
  then show thesis
  proof cases
    case 1
    then show thesis using that [OF _] parse_lines [OF hl k] e(1) by (simp add: good_line_def del: join_lines_simps)
  next
    case 2
    then show thesis
      using that [OF _] parse_open [OF hl k good_take [OF e(1), of n]] torn
      by (simp add: control_line_def del: join_lines_simps)
  next
    case 3
    then show thesis
      using that [OF _] parse_open [OF hl k e(1)] e(2) rc restored
      by (simp add: control_line_def control_batch_of_def del: join_lines_simps)
  next
    case 4
    have "lines_hold c (lns @ [e]) k'"
      using k e rc restored batches_accept(2) [of c lns 0 "[]" 1 "kl_revision k" "kl_events k" "1 + length lns" True "[e]"]
      by (simp add: lines_hold_def control_batch_of_def k')
    from parse_lines [OF hl this]
    have "parse_control c (join_lines (hl # lns) @ control_line e) =
        Inr \<lparr>kf_log = k', kf_valid_len = length (join_lines (hl # lns @ [e])), kf_needs_separator = False\<rparr>"
      by (simp add: control_line_def)
    with 4 show thesis using that [OF _] by (simp add: control_line_def del: join_lines_simps)
  qed
qed

lemma parse_control_cut:
  assumes c: "control_codec_ok c" and parsed: "parse_control c b = Inr ld"
    and app: "control_append_at (kf_log ld) expected es now = (k', Inr rc)"
  obtains ld' where "parse_control c (repaired ld b @ take n (control_added c ld rc)) = Inr ld'"
    "kf_log ld' = (if Suc n < length (control_added c ld rc) then kf_log ld else k')"
proof -
  let ?e = "kc_encode_batch c (control_batch_of rc)" and ?sep = "if kf_needs_separator ld then [Jsonl_Store.newline] else []"
  obtain hl lns where hl: "header_line_ok c hl" and k: "lines_hold c lns (kf_log ld)"
    and joined: "repaired ld b @ ?sep = join_lines (hl # lns)" and whole: "kf_needs_separator ld \<longrightarrow> repaired ld b = b"
    by (rule parse_controlE [OF parsed])
  have added: "control_added c ld rc = ?sep @ control_line ?e" by (simp add: control_added_def)
  show thesis
  proof (cases "kf_needs_separator ld \<and> n = 0")
    case True
    with whole parsed show thesis by (intro that [of ld]) (simp_all add: added control_line_def)
  next
    case False
    let ?m = "n - length ?sep"
    have cut: "repaired ld b @ take n (control_added c ld rc) = join_lines (hl # lns) @ take ?m (control_line ?e)"
      unfolding joined [symmetric] added using False by (cases n) auto
    obtain ld' where "parse_control c (join_lines (hl # lns) @ take ?m (control_line ?e)) = Inr ld'"
      "kf_log ld' = (if ?m < length ?e then kf_log ld else k')"
      by (rule parse_cut_line [OF c hl k app])
    moreover have "Suc n < length (control_added c ld rc) \<longleftrightarrow> ?m < length ?e"
      using False by (auto simp: added control_line_def)
    ultimately show thesis by (intro that [of ld']) (simp_all only: cut)
  qed
qed

text \<open>A file of the control log: it does not exist, or it can be read.\<close>

definition control_file_ok :: "control_codec \<Rightarrow> bytes option \<Rightarrow> bool" where
  "control_file_ok c f \<longleftrightarrow> (\<exists>k. control_load c f = Inr k)"

definition stored_control :: "control_codec \<Rightarrow> bytes option \<Rightarrow> control_log" where
  "stored_control c f = (case control_load c f of Inl _ \<Rightarrow> empty_control_log | Inr k \<Rightarrow> k)"

lemma stored_loaded: "control_file_ok c f \<Longrightarrow> control_load c f = Inr (stored_control c f)"
  by (auto simp: control_file_ok_def stored_control_def)

lemma stored_none: "stored_control c None = empty_control_log"
  by (simp add: stored_control_def control_load_def load_control_def)

lemma created_header:
  assumes "control_codec_ok c"
  shows "control_load c (Some (control_line (kc_encode_header c control_header))) = Inr empty_control_log"
proof -
  have "lines_hold c [] empty_control_log"
    by (simp add: lines_hold_def empty_control_log_def restore_control_log_def validate_control_log_def)
  with parse_lines [of c "kc_encode_header c control_header" "[]" empty_control_log] assms show ?thesis
    by (simp add: control_load_def load_control_def control_codec_ok_def control_line_def)
qed

text \<open>A header without its newline is a header; less of it is an error from then on.\<close>

lemma open_header:
  assumes "control_codec_ok c"
  shows "control_load c (Some (kc_encode_header c control_header)) = Inr empty_control_log"
proof -
  let ?hl = "kc_encode_header c control_header"
  have hl: "good_line ?hl" "kc_decode_header c ?hl = Some control_header"
    using assms by (simp_all add: control_codec_ok_def header_line_ok_def)
  then have "split_records ?hl = Inr [?hl]" using split_joined [of "[]" ?hl] by (auto simp: good_line_def)
  with hl show ?thesis
    by (simp add: control_load_def load_control_def parse_control_def control_header_def restore_control_log_def
        validate_control_log_def empty_control_log_def)
qed

lemma torn_control_header:
  assumes "control_codec_ok c" and "n < length (kc_encode_header c control_header)"
  defines "f \<equiv> Some (take n (control_line (kc_encode_header c control_header)))"
  shows "\<exists>e. control_load c f = Inl e" and "\<exists>e. control_append c fault now expected es f = (f, Inl e)"
proof -
  let ?t = "take n (kc_encode_header c control_header)"
  have f: "f = Some ?t" using assms(2) by (simp add: f_def control_line_def)
  have "\<exists>e. parse_control c ?t = Inl e"
  proof (cases "n = 0")
    case True
    then show ?thesis by (simp add: parse_control_def split_records.simps)
  next
    case False
    then have t: "good_line ?t" using assms(1) by (intro good_take) (simp_all add: control_codec_ok_def header_line_ok_def)
    then have "split_records ?t = Inr [?t]" using split_joined [of "[]" ?t] by (auto simp: good_line_def)
    moreover have "kc_decode_header c ?t = None" using assms(1,2) False by (simp add: control_codec_ok_def)
    ultimately show ?thesis by (simp add: parse_control_def)
  qed
  then show "\<exists>e. control_load c f = Inl e" and "\<exists>e. control_append c fault now expected es f = (f, Inl e)"
    by (auto simp: f control_load_def load_control_def control_append_def append_loaded_def)
qed

lemma append_loaded_run:
  assumes c: "control_codec_ok c" and k: "control_load c (Some b) = Inr k" and app: "control_append_at k expected es now = (k', r)"
    and run: "append_loaded c fault now expected es b = (f', res)"
  shows "\<exists>k''. control_load c f' = Inr k'' \<and> (k'' = k \<or> k'' = k') \<and> (\<forall>rc. res = Inr rc \<longrightarrow> k'' = k' \<and> r = Inr rc) \<and>
    (fault = None \<longrightarrow> k'' = k' \<and> res = r)"
proof -
  from k obtain ld where ld: "parse_control c b = Inr ld" "kf_log ld = k" by (auto simp: control_load_def load_control_def)
  show ?thesis
  proof (cases r)
    case (Inl e)
    with app have "k' = k" by (cases rule: control_append_cases) simp_all
    with Inl app run ld k show ?thesis by (auto simp: append_loaded_def)
  next
    case (Inr rc)
    let ?added = "control_added c ld rc"
    define n where "n = (case fault of Some (FaultInBatch n) \<Rightarrow> n | _ \<Rightarrow> length ?added)"
    have f': "f' = Some (repaired ld b @ take n ?added)"
      and res: "res = (case fault of Some (FaultInBatch n) \<Rightarrow> Inl (ControlBackend ''append control batch {}: {error}'') | _ \<Rightarrow> Inr rc)"
      using run app Inr ld by (auto simp: append_loaded_def n_def Let_def split: option.splits control_fault.splits)
    obtain ld' where ld': "parse_control c (repaired ld b @ take n ?added) = Inr ld'"
      "kf_log ld' = (if Suc n < length ?added then kf_log ld else k')"
      by (rule parse_control_cut [OF c ld(1) app [folded ld(2), unfolded Inr]])
    have load: "control_load c f' = Inr (kf_log ld')" by (simp add: f' ld'(1) control_load_def load_control_def)
    show ?thesis unfolding load res using Inr ld(2) ld'(2) by (auto simp: n_def split: option.splits control_fault.splits)
  qed
qed

text \<open>The appends that do not die in the middle of the header they write.\<close>

fun header_written :: "control_codec \<Rightarrow> bytes option \<Rightarrow> control_fault option \<Rightarrow> bool" where
  "header_written c None (Some (CrashInHeader n)) \<longleftrightarrow> length (kc_encode_header c control_header) \<le> n"
| "header_written c f fault \<longleftrightarrow> True"

lemma header_written_None [simp]: "header_written c f None"
  by (cases f) simp_all

lemma control_append_run:
  assumes c: "control_codec_ok c" and written: "header_written c f fault" and ok: "control_file_ok c f" and app: "control_append_at (stored_control c f) expected es now = (k', r)"
    and run: "control_append c fault now expected es f = (f', res)"
  shows "\<exists>k''. control_load c f' = Inr k'' \<and> (k'' = stored_control c f \<or> k'' = k') \<and>
    (\<forall>rc. res = Inr rc \<longrightarrow> k'' = k' \<and> r = Inr rc) \<and> (fault = None \<longrightarrow> k'' = k' \<and> res = r)"
proof (cases f)
  case (Some b)
  with append_loaded_run [OF c stored_loaded [OF ok, unfolded Some] app [unfolded Some]] run show ?thesis
    by (simp add: control_append_def)
next
  case None
  note none = stored_none [of c]
  let ?hl = "kc_encode_header c control_header"
  consider (removed) "fault = Some FaultAtHeader" | (died) n where "fault = Some (CrashInHeader n)"
    | (made) "\<forall>n. fault \<noteq> Some (CrashInHeader n)" "fault \<noteq> Some FaultAtHeader" by blast
  then show ?thesis
  proof cases
    case removed
    with None run show ?thesis by (auto simp: control_append_def create_header_def none control_load_def load_control_def)
  next
    case died
    with written None have n: "length ?hl \<le> n" by simp
    have "take n (control_line ?hl) = ?hl \<or> take n (control_line ?hl) = control_line ?hl"
      using n by (cases "n = length ?hl") (simp_all add: control_line_def)
    then have "control_load c (Some (take n (control_line ?hl))) = Inr empty_control_log"
      using open_header [OF c] created_header [OF c] by auto
    with died None run show ?thesis by (auto simp: control_append_def create_header_def none)
  next
    case made
    then have "create_header c fault = (Some (control_line ?hl), Inr ())"
      by (auto simp: create_header_def Let_def split: option.split control_fault.split)
    with None run have "append_loaded c fault now expected es (control_line ?hl) = (f', res)" by (simp add: control_append_def)
    from append_loaded_run [OF c created_header [OF c] app [unfolded None none] this] show ?thesis by (simp add: None none)
  qed
qed


text \<open>Property C24. An append to the control log survives an error, or the end of its process, at any byte of what it
  adds to a log.
  Wherever the write of a batch stops, the file can be read again, and holds the log from before the append
  or the one after it; a reported success has the batch in the file.  So a mutation is in the log with its
  receipt, or not at all.  The one exception is the very first append of a store: when the process dies inside the
  header it creates, every later load and append fails.\<close>

theorem control_append_survives_crash:
  assumes "control_codec_ok c" and "control_load c f = Inr k" and "control_append_at k expected es now = (k', r)"
    and "control_append c fault now expected es f = (f', res)"
  shows "(header_written c f fault \<longrightarrow>
      (\<exists>k''. control_load c f' = Inr k'' \<and> (k'' = k \<or> k'' = k') \<and> (\<forall>rc. res = Inr rc \<longrightarrow> k'' = k' \<and> r = Inr rc))) \<and>
    (\<not> header_written c f fault \<longrightarrow>
      (\<exists>e. control_load c f' = Inl e) \<and>
      (\<forall>fault' now' expected' es'. \<exists>e. control_append c fault' now' expected' es' f' = (f', Inl e)))"
proof (intro conjI impI)
  assume written: "header_written c f fault"
  have ok: "control_file_ok c f" "stored_control c f = k" using assms(2) by (auto simp: control_file_ok_def stored_control_def)
  from control_append_run [OF assms(1) written ok(1) assms(3) [folded ok(2)] assms(4)]
  show "\<exists>k''. control_load c f' = Inr k'' \<and> (k'' = k \<or> k'' = k') \<and> (\<forall>rc. res = Inr rc \<longrightarrow> k'' = k' \<and> r = Inr rc)"
    unfolding ok(2) by blast
next
  assume "\<not> header_written c f fault"
  then obtain n where n: "f = None" "fault = Some (CrashInHeader n)" "n < length (kc_encode_header c control_header)"
    by (cases "(c, f, fault)" rule: header_written.cases) auto
  with assms(4) have f': "f' = Some (take n (control_line (kc_encode_header c control_header)))"
    by (simp add: control_append_def create_header_def Let_def)
  show "\<exists>e. control_load c f' = Inl e"
    unfolding f' by (rule torn_control_header(1) [OF assms(1) n(3)])
  show "\<forall>fault' now' expected' es'. \<exists>e. control_append c fault' now' expected' es' f' = (f', Inl e)"
    unfolding f' using torn_control_header(2) [OF assms(1) n(3)] by blast
qed

subsection \<open>The contract of a control store\<close>

text \<open>What the host relies on: a store holds a log, reads give it, and an append is the log's append.\<close>

locale control_store =
  fixes ops :: "'st control_store_ops" and ok :: "'st \<Rightarrow> bool" and view :: "'st \<Rightarrow> control_log"
  assumes load_abs: "ok st \<Longrightarrow> ko_load ops st = Inr (view st)"
    and append_abs: "ok st \<Longrightarrow> ko_append ops now expected es st = (st', res) \<Longrightarrow>
      ok st' \<and> control_append_at (view st) expected es now = (view st', res)"
    and flush_abs: "ok st \<Longrightarrow> ko_flush ops st = Inr (kl_revision (view st))"
begin

lemma append_result:
  assumes "ok st"
  shows "snd (ko_append ops now expected es st) = snd (control_append_at (view st) expected es now)"
    and "view (fst (ko_append ops now expected es st)) = fst (control_append_at (view st) expected es now)"
    and "ok (fst (ko_append ops now expected es st))"
  using append_abs [OF assms, of now expected es] by (cases "ko_append ops now expected es st"; simp)+

end

interpretation memory_control: control_store memory_control_ops "\<lambda>_. True" "\<lambda>k. k"
  by unfold_locales (simp_all add: memory_control_ops_def)

interpretation jsonl_control: control_store "jsonl_control_ops c" "\<lambda>f. control_codec_ok c \<and> control_file_ok c f" "stored_control c" for c
proof
  fix f f' now expected es res
  assume ok: "control_codec_ok c \<and> control_file_ok c f"
  show "ko_load (jsonl_control_ops c) f = Inr (stored_control c f)" using stored_loaded [of c f] ok by (simp add: jsonl_control_ops_def)
  then show "ko_flush (jsonl_control_ops c) f = Inr (kl_revision (stored_control c f))"
    by (cases f) (auto simp: stored_none jsonl_control_ops_def control_flush_def control_load_def load_control_def empty_control_log_def)
  assume run: "ko_append (jsonl_control_ops c) now expected es f = (f', res)"
  obtain k' r where app: "control_append_at (stored_control c f) expected es now = (k', r)" by fastforce
  from run have "control_append c None now expected es f = (f', res)" by (simp add: jsonl_control_ops_def)
  from control_append_run [OF conjunct1 [OF ok] header_written_None conjunct2 [OF ok] app this] obtain k''
    where k'': "control_load c f' = Inr k''" "k'' = k'" "res = r" by blast
  with ok app show "(control_codec_ok c \<and> control_file_ok c f') \<and>
      control_append_at (stored_control c f) expected es now = (stored_control c f', res)"
    by (simp add: control_file_ok_def stored_control_def [of c f'])
qed

text \<open>Without I/O errors the file cannot be told from a log in memory: loads, appends and flushes give the
  same results, refusals included, and leave the file holding the log that memory holds.\<close>

theorem control_file_refines_memory:
  assumes "control_codec_ok c" and "control_load c f = Inr k"
  shows "snd (control_append c None now expected es f) = snd (control_append_at k expected es now) \<and>
    control_load c (fst (control_append c None now expected es f)) = Inr (fst (control_append_at k expected es now)) \<and>
    control_flush c f = Inr (kl_revision k)"
proof -
  have ok: "control_codec_ok c \<and> control_file_ok c f" and k: "stored_control c f = k"
    using assms by (auto simp: control_file_ok_def stored_control_def)
  note run = jsonl_control.append_result [OF ok, of now expected es, unfolded k]
  with jsonl_control.flush_abs [OF ok] stored_loaded [OF conjunct2 [OF run(3)]] k show ?thesis
    by (simp add: jsonl_control_ops_def)
qed

subsection \<open>Examples\<close>

instance workspace_snapshot_ext :: (countable) countable
  by (rule countable_classI [of "\<lambda>r. to_nat (wk_id r, wk_path r, wk_title r, wk_session_order r, wk_created_at r, wk_updated_at r, workspace_snapshot.more r)"]) simp

instance settings_snapshot_ext :: (countable) countable
  by (rule countable_classI [of "\<lambda>r. to_nat (sg_namespace r, sg_user r, sg_value r, sg_revision r, settings_snapshot.more r)"]) simp

instance control_receipt_ext :: (countable) countable
  by (rule countable_classI [of "\<lambda>r. to_nat (kr_rpc_id r, kr_method r, kr_fingerprint r, kr_response r, control_receipt.more r)"]) simp

instance control_event :: countable
  by countable_datatype

instance logged_control_event_ext :: (countable) countable
  by (rule countable_classI [of "\<lambda>r. to_nat (kv_seq r, kv_revision r, kv_timestamp_ms r, kv_event r, logged_control_event.more r)"]) simp

instance control_header_record_ext :: (countable) countable
  by (rule countable_classI [of "\<lambda>r. to_nat (kh_record r, kh_format r, kh_format_version r, control_header_record.more r)"]) simp

instance control_batch_record_ext :: (countable) countable
  by (rule countable_classI [of "\<lambda>r. to_nat (kb_record r, kb_previous_revision r, kb_revision r, kb_events r, control_batch_record.more r)"]) simp

text \<open>The codec of \<open>Reference_Codec\<close> for these records.\<close>

definition reference_control_codec :: control_codec where
  "reference_control_codec =
     \<lparr>kc_encode_header = (\<lambda>r. unary (to_nat r)), kc_decode_header = (\<lambda>b. map_option from_nat (from_unary b)),
      kc_encode_batch = (\<lambda>r. unary (to_nat r)), kc_decode_batch = (\<lambda>b. map_option from_nat (from_unary b))\<rparr>"

lemma reference_control_codec_ok: "control_codec_ok reference_control_codec"
  by (simp add: control_codec_ok_def header_line_ok_def good_line_def reference_control_codec_def)

lemma no_control_file: "control_load reference_control_codec None = Inr empty_control_log"
  by (simp add: control_load_def load_control_def)

theorem control_file_refines_memory_witness:
  "control_load reference_control_codec (fst (control_append reference_control_codec None 7 0 desk_events None)) = Inr desk_log"
  using control_file_refines_memory [OF reference_control_codec_ok no_control_file, of 7 0 desk_events] desk_appended by simp

text \<open>A batch torn after five bytes is gone; a header torn after its first byte is not.\<close>

theorem control_append_survives_crash_witness:
  "(\<exists>k. control_load reference_control_codec
        (fst (control_append reference_control_codec (Some (FaultInBatch 5)) 7 0 desk_events None)) = Inr k \<and>
      (k = empty_control_log \<or> k = desk_log)) \<and>
   (\<exists>e. control_load reference_control_codec
        (fst (control_append reference_control_codec (Some (CrashInHeader 0)) 7 0 desk_events None)) = Inl e)"
proof -
  obtain r where app: "control_append_at empty_control_log 0 desk_events 7 = (desk_log, r)"
    using desk_appended by (cases "control_append_at empty_control_log 0 desk_events 7") simp
  note survives = control_append_survives_crash [OF reference_control_codec_ok no_control_file app]
  obtain f1 r1 where run1: "control_append reference_control_codec (Some (FaultInBatch 5)) 7 0 desk_events None = (f1, r1)" by fastforce
  obtain f2 r2 where run2: "control_append reference_control_codec (Some (CrashInHeader 0)) 7 0 desk_events None = (f2, r2)" by fastforce
  have "\<not> header_written reference_control_codec None (Some (CrashInHeader 0))"
    using reference_control_codec_ok by (simp add: control_codec_ok_def header_line_ok_def good_line_def)
  with survives [OF run2] have "\<exists>e. control_load reference_control_codec f2 = Inl e" by blast
  moreover from survives [OF run1] have "\<exists>k. control_load reference_control_codec f1 = Inr k \<and> (k = empty_control_log \<or> k = desk_log)"
    by auto
  ultimately show ?thesis unfolding run1 run2 fst_conv by blast
qed

end
