(* ===== verification/Control_Host.thy ===== *)
theory Control_Host
  imports Control_Store
begin

text \<open>
  The host's use of the control log: its projection into the state of the host and the commit of a mutation with
  exactly-once receipts (xharness-host/src/control.rs), and the handlers of the workspaces (xharness-host/src/rpc.rs).

  The state has the fields of \<open>HostState\<close> these functions use, and the events pushed to the clients.  Other hosts
  share the store: \<open>env\<close> is what they do to it at the awaits of a commit.  \<open>fp\<close> is \<open>mutation_fingerprint\<close>, the SHA-256
  of method and payload; \<open>canonical\<close>, \<open>file_name\<close>, the new id and the time are the operating system's.
\<close>

record workspace_record =
  wr_workspace_id :: string
  wr_path :: string
  wr_title :: string
  wr_session_ids :: "string list"
  wr_created_at :: string
  wr_updated_at :: string

record settings_namespace =
  sy_ns :: string
  sy_schema :: json
  sy_base :: json
  sy_value :: json
  sy_user :: json
  sy_applies :: string
  sy_revision :: u64

record host_state =
  hs_control_revision :: control_revision
  hs_mutation_receipts :: "(string \<times> control_receipt) list"
  hs_sessions :: "string set"
  hs_workspaces :: "(string \<times> workspace_record) list"
  hs_workspace_order :: "string list"
  hs_archived_sessions :: "string set"
  hs_settings :: "(string \<times> settings_namespace) list"
  hs_pushed :: "json list"

datatype rpc_error =
    BadRequest string
  | RpcInternal control_error
  | FlushMismatch control_revision control_revision
  | RpcConflict string
  | WorkspaceNotFound string
  | WorkspaceInvalidPath string
  | WorkspaceMoveInvalid string string
  | SessionNotFound string

definition MODEL_SETTINGS_NAMESPACE :: string where "MODEL_SETTINGS_NAMESPACE = ''llm-pi-ai''"

definition workspace_snapshot_of :: "workspace_record \<Rightarrow> workspace_snapshot" where
  "workspace_snapshot_of w =
     \<lparr>wk_id = wr_workspace_id w, wk_path = wr_path w, wk_title = wr_title w, wk_session_order = wr_session_ids w,
      wk_created_at = wr_created_at w, wk_updated_at = wr_updated_at w\<rparr>"

subsection \<open>The projection into the host\<close>

definition kept_order :: "string set \<Rightarrow> workspace_snapshot \<Rightarrow> workspace_record \<Rightarrow> string list" where
  "kept_order known w existing =
     (let ordered = filter (\<lambda>i. i \<in> known \<and> i \<in> set (wr_session_ids existing)) (wk_session_order w) in
      foldl (\<lambda>acc i. if i \<in> set acc then acc else acc @ [i]) ordered (wr_session_ids existing))"

definition apply_workspace ::
  "string set \<Rightarrow> workspace_snapshot \<Rightarrow> (string \<times> workspace_record) list \<Rightarrow> (string \<times> workspace_record) list" where
  "apply_workspace known w ws =
     (case map_of ws (wk_id w) of
        Some existing \<Rightarrow>
          AList.update (wk_id w)
            (existing\<lparr>wr_path := wk_path w, wr_title := wk_title w, wr_session_ids := kept_order known w existing,
                      wr_created_at := wk_created_at w, wr_updated_at := wk_updated_at w\<rparr>) ws
      | None \<Rightarrow>
          AList.update (wk_id w)
            \<lparr>wr_workspace_id = wk_id w, wr_path = wk_path w, wr_title = wk_title w,
             wr_session_ids = filter (\<lambda>i. i \<in> known) (wk_session_order w),
             wr_created_at = wk_created_at w, wr_updated_at = wk_updated_at w\<rparr> ws)"

definition merge_order :: "string set \<Rightarrow> string list \<Rightarrow> string list \<Rightarrow> string list" where
  "merge_order keys order current =
     (let merged = filter (\<lambda>i. i \<in> keys) order;
          merged1 = foldl (\<lambda>acc i. if i \<in> keys \<and> i \<notin> set acc then acc @ [i] else acc) merged current in
      merged1 @ sorted_list_of_set (keys - set merged1))"

definition apply_settings :: "settings_snapshot \<Rightarrow> (string \<times> settings_namespace) list \<Rightarrow> (string \<times> settings_namespace) list" where
  "apply_settings s ss =
     (case map_of ss (sg_namespace s) of
        None \<Rightarrow> ss
      | Some ns \<Rightarrow> AList.update (sg_namespace s) (ns\<lparr>sy_user := sg_user s, sy_value := sg_value s, sy_revision := sg_revision s\<rparr>) ss)"

definition apply_control_projection ::
  "control_revision \<Rightarrow> control_projection \<Rightarrow> host_state \<Rightarrow> control_error + host_state" where
  "apply_control_projection revision p h =
     (if \<exists>s\<in>set (map snd (kp_settings p)). map_of (hs_settings h) (sg_namespace s) = None
      then Inl (InvalidLog ''control log references unknown settings namespace {:?}'')
      else
        (let removed = kp_removed_workspaces p;
             ws1 = filter (\<lambda>(i, w). i \<notin> removed) (hs_workspaces h);
             order1 = filter (\<lambda>i. i \<notin> removed) (hs_workspace_order h);
             ws2 = fold (\<lambda>(i, w). apply_workspace (hs_sessions h) w) (kp_workspaces p) ws1;
             order2 = (case kp_workspace_order p of None \<Rightarrow> order1 | Some order \<Rightarrow> merge_order (fst ` set ws2) order order1) in
         Inr (h\<lparr>hs_workspaces := ws2, hs_workspace_order := order2,
                hs_archived_sessions := (case kp_archived_sessions p of None \<Rightarrow> hs_archived_sessions h | Some is \<Rightarrow> set is),
                hs_settings := fold (\<lambda>(i, s). apply_settings s) (kp_settings p) (hs_settings h),
                hs_control_revision := revision, hs_mutation_receipts := kp_receipts p\<rparr>)))"

definition reload_control_projection :: "'st control_store_ops \<Rightarrow> 'st \<Rightarrow> host_state \<Rightarrow> control_error + host_state" where
  "reload_control_projection ops st h =
     and_then (ko_load ops st) (\<lambda>log.
     and_then (log_projection log) (\<lambda>p. apply_control_projection (kl_revision log) p h))"

subsection \<open>Receipts\<close>

text \<open>\<open>response["ns"]\<close> and \<open>get("schema")\<close>; the schema of the model settings is the argument \<open>schema\<close>.\<close>

definition names_model_settings :: "json \<Rightarrow> bool" where
  "names_model_settings x \<longleftrightarrow>
     (case x of JObject fs \<Rightarrow> map_of fs ''ns'' = Some (JString MODEL_SETTINGS_NAMESPACE) | _ \<Rightarrow> False)"

fun strip_schema :: "json \<Rightarrow> json" where
  "strip_schema (JObject fs) =
     (if names_model_settings (JObject fs) then JObject (AList.delete ''schema'' fs) else JObject fs)"
| "strip_schema x = x"

fun restore_schema :: "json \<Rightarrow> json \<Rightarrow> json" where
  "restore_schema schema (JObject fs) =
     (if names_model_settings (JObject fs) \<and> map_of fs ''schema'' = None
      then JObject (AList.update ''schema'' schema fs) else JObject fs)"
| "restore_schema schema x = x"

definition replay_control_receipt ::
  "(string \<Rightarrow> json \<Rightarrow> string) \<Rightarrow> json \<Rightarrow> string \<Rightarrow> string \<Rightarrow> json \<Rightarrow> host_state \<Rightarrow> rpc_error + json option" where
  "replay_control_receipt fp schema rpc_id method payload h =
     (case map_of (hs_mutation_receipts h) rpc_id of
        None \<Rightarrow> Inr None
      | Some r \<Rightarrow>
          if kr_method r = method \<and> kr_fingerprint r = fp method payload then Inr (Some (restore_schema schema (kr_response r)))
          else Inl (RpcConflict rpc_id))"

definition commit_control_mutation ::
  "(string \<Rightarrow> json \<Rightarrow> string) \<Rightarrow> json \<Rightarrow> 'st control_store_ops \<Rightarrow> (nat \<Rightarrow> 'st \<Rightarrow> 'st) \<Rightarrow> u64 \<Rightarrow> string \<Rightarrow> string \<Rightarrow> json \<Rightarrow>
     control_event list \<Rightarrow> json \<Rightarrow> 'st \<Rightarrow> host_state \<Rightarrow> 'st \<times> host_state \<times> (rpc_error + json)" where
  "commit_control_mutation fp schema ops env now rpc_id method payload events response st h =
     (let receipt = \<lparr>kr_rpc_id = rpc_id, kr_method = method, kr_fingerprint = fp method payload,
                     kr_response = strip_schema response\<rparr> in
      case ko_append ops now (hs_control_revision h) (events @ [MutationCommitted receipt]) (env 0 st) of
        (st1, Inr written) \<Rightarrow>
          (let st2 = env 1 st1 in
           case ko_flush ops st2 of
             Inl e \<Rightarrow> (st2, h, Inl (RpcInternal e))
           | Inr flushed \<Rightarrow>
               if flushed \<noteq> ka_revision written then (st2, h, Inl (FlushMismatch flushed (ka_revision written)))
               else (let st3 = env 2 st2 in
                     case reload_control_projection ops st3 h of
                       Inl e \<Rightarrow> (st3, h, Inl (RpcInternal e))
                     | Inr h1 \<Rightarrow> (st3, h1, Inr response)))
      | (st1, Inl (ControlRevisionConflict _ _)) \<Rightarrow>
          (let st2 = env 1 st1 in
           case reload_control_projection ops st2 h of
             Inl e \<Rightarrow> (st2, h, Inl (RpcInternal e))
           | Inr h1 \<Rightarrow>
               (case replay_control_receipt fp schema rpc_id method payload h1 of
                  Inl e \<Rightarrow> (st2, h1, Inl e)
                | Inr None \<Rightarrow> (st2, h1, Inl (RpcConflict rpc_id))
                | Inr (Some x) \<Rightarrow> (st2, h1, Inr x)))
      | (st1, Inl e) \<Rightarrow> (st1, h, Inl (RpcInternal e)))"

text \<open>The shape of every handler: replay, or check the request against the state and commit.  \<open>plan\<close> is the part
  that differs: the state events, the response, and what to push to the clients afterwards.\<close>

type_synonym mutation_plan = "host_state \<Rightarrow> rpc_error + control_event list \<times> json \<times> json list"

definition control_mutation ::
  "(string \<Rightarrow> json \<Rightarrow> string) \<Rightarrow> json \<Rightarrow> 'st control_store_ops \<Rightarrow> (nat \<Rightarrow> 'st \<Rightarrow> 'st) \<Rightarrow> u64 \<Rightarrow> string \<Rightarrow> string \<Rightarrow> json \<Rightarrow>
     mutation_plan \<Rightarrow> 'st \<Rightarrow> host_state \<Rightarrow> 'st \<times> host_state \<times> (rpc_error + json)" where
  "control_mutation fp schema ops env now rpc_id method payload plan st h =
     (case replay_control_receipt fp schema rpc_id method payload h of
        Inl e \<Rightarrow> (st, h, Inl e)
      | Inr (Some x) \<Rightarrow> (st, h, Inr x)
      | Inr None \<Rightarrow>
          (case plan h of
             Inl e \<Rightarrow> (st, h, Inl e)
           | Inr (events, response, pushes) \<Rightarrow>
               (case commit_control_mutation fp schema ops env now rpc_id method payload events response st h of
                  (st1, h1, Inl e) \<Rightarrow> (st1, h1, Inl e)
                | (st1, h1, Inr x) \<Rightarrow> (st1, h1\<lparr>hs_pushed := hs_pushed h1 @ pushes\<rparr>, Inr x))))"

subsection \<open>The workspace handlers\<close>

definition required_string :: "json \<Rightarrow> string \<Rightarrow> rpc_error + string" where
  "required_string payload field =
     (case payload of
        JObject fs \<Rightarrow>
          (case Option.bind (map_of fs field) as_str of
             Some x \<Rightarrow> if x = [] then Inl (BadRequest (field @ '' must be a non-empty string'')) else Inr x
           | None \<Rightarrow> Inl (BadRequest (field @ '' must be a non-empty string'')))
      | _ \<Rightarrow> Inl (BadRequest ''payload must be a JSON object''))"

definition optional_string :: "json \<Rightarrow> string \<Rightarrow> rpc_error + string option" where
  "optional_string payload field =
     (case payload of
        JObject fs \<Rightarrow>
          (case map_of fs field of
             None \<Rightarrow> Inr None
           | Some (JString x) \<Rightarrow> if x = [] then Inl (BadRequest (field @ '', when present, must be a non-empty string'')) else Inr (Some x)
           | Some _ \<Rightarrow> Inl (BadRequest (field @ '', when present, must be a non-empty string'')))
      | _ \<Rightarrow> Inl (BadRequest ''payload must be a JSON object''))"

definition json_strings :: "string list \<Rightarrow> json" where
  "json_strings xs = JArray (map JString xs)"

definition workspace_json :: "workspace_record \<Rightarrow> json" where
  "workspace_json w =
     JObject [(''workspaceId'', JString (wr_workspace_id w)), (''path'', JString (wr_path w)), (''title'', JString (wr_title w)),
              (''sessionIds'', json_strings (wr_session_ids w)), (''createdAt'', JString (wr_created_at w)),
              (''updatedAt'', JString (wr_updated_at w))]"

definition workspace_changed :: "workspace_record \<Rightarrow> json" where
  "workspace_changed w = JObject [(''type'', JString ''host/workspace-changed''), (''workspace'', workspace_json w)]"

definition order_changed :: "string list \<Rightarrow> json" where
  "order_changed order = JObject [(''type'', JString ''host/workspace-order-changed''), (''workspaceIds'', json_strings order)]"

definition workspace_create ::
  "(string \<Rightarrow> string + string) \<Rightarrow> (string \<Rightarrow> string option) \<Rightarrow> string \<Rightarrow> string \<Rightarrow> json \<Rightarrow> mutation_plan" where
  "workspace_create canonical file_name new_id now payload h =
     and_then (required_string payload ''path'') (\<lambda>raw.
     and_then (map_err (\<lambda>_. WorkspaceInvalidPath raw) (canonical raw)) (\<lambda>path.
     case find (\<lambda>w. wr_path w = path) (map snd (hs_workspaces h)) of
       Some existing \<Rightarrow> Inr ([], JObject [(''workspace'', workspace_json existing), (''created'', JBool False)], [])
     | None \<Rightarrow>
         (let title = (case file_name path of Some name \<Rightarrow> if name = [] then path else name | None \<Rightarrow> path);
              w = \<lparr>wr_workspace_id = new_id, wr_path = path, wr_title = title, wr_session_ids = [], wr_created_at = now, wr_updated_at = now\<rparr> in
          Inr ([WorkspaceDefined (workspace_snapshot_of w), WorkspaceOrderSet (hs_workspace_order h @ [new_id])],
               JObject [(''workspace'', workspace_json w), (''created'', JBool True)], [workspace_changed w]))))"

definition workspace_rename :: "string \<Rightarrow> json \<Rightarrow> mutation_plan" where
  "workspace_rename now payload h =
     and_then (required_string payload ''workspaceId'') (\<lambda>i.
     and_then (required_string payload ''title'') (\<lambda>raw.
     if trim raw = [] then Inl (BadRequest ''workspace title must not be blank'')
     else (case map_of (hs_workspaces h) i of
             None \<Rightarrow> Inl (WorkspaceNotFound i)
           | Some old \<Rightarrow>
               (let w = old\<lparr>wr_title := trim raw, wr_updated_at := now\<rparr> in
                Inr ([WorkspaceDefined (workspace_snapshot_of w)], JObject [(''workspace'', workspace_json w)], [workspace_changed w])))))"

definition workspace_delete :: "json \<Rightarrow> mutation_plan" where
  "workspace_delete payload h =
     and_then (required_string payload ''workspaceId'') (\<lambda>i.
     if map_of (hs_workspaces h) i = None then Inl (WorkspaceNotFound i)
     else (let order = filter (\<lambda>j. j \<noteq> i) (hs_workspace_order h) in
           Inr ([WorkspaceRemoved i, WorkspaceOrderSet order], JObject [(''deleted'', JBool True)],
                [JObject [(''type'', JString ''host/workspace-removed''), (''workspaceId'', JString i)], order_changed order])))"

text \<open>Taking an element out of a list and putting it before an anchor, or at the end.\<close>

definition move_before :: "string \<Rightarrow> string option \<Rightarrow> string list \<Rightarrow> string list" where
  "move_before i before order =
     (let rest = filter (\<lambda>j. j \<noteq> i) order;
          index = (case Option.bind before (\<lambda>anchor. position (\<lambda>j. j = anchor) rest) of None \<Rightarrow> length rest | Some n \<Rightarrow> n) in
      take index rest @ i # drop index rest)"

definition workspace_insert_before :: "json \<Rightarrow> mutation_plan" where
  "workspace_insert_before payload h =
     and_then (required_string payload ''workspaceId'') (\<lambda>i.
     and_then (optional_string payload ''beforeWorkspaceId'') (\<lambda>before.
     if map_of (hs_workspaces h) i = None then Inl (WorkspaceNotFound i)
     else (case before of
             Some anchor \<Rightarrow>
               if anchor = i \<or> map_of (hs_workspaces h) anchor = None then Inl (WorkspaceMoveInvalid i anchor)
               else (let order = move_before i before (hs_workspace_order h) in
                     Inr ([WorkspaceOrderSet order], JObject [(''workspaceIds'', json_strings order)], [order_changed order]))
           | None \<Rightarrow>
               (let order = move_before i None (hs_workspace_order h) in
                Inr ([WorkspaceOrderSet order], JObject [(''workspaceIds'', json_strings order)], [order_changed order])))))"

definition workspace_insert_session_before :: "string \<Rightarrow> json \<Rightarrow> mutation_plan" where
  "workspace_insert_session_before now payload h =
     and_then (required_string payload ''workspaceId'') (\<lambda>i.
     and_then (required_string payload ''sessionId'') (\<lambda>session.
     and_then (optional_string payload ''beforeSessionId'') (\<lambda>before.
     if session \<notin> hs_sessions h then Inl (SessionNotFound session)
     else (case map_of (hs_workspaces h) i of
             None \<Rightarrow> Inl (WorkspaceNotFound i)
           | Some old \<Rightarrow>
               if (case before of None \<Rightarrow> False | Some anchor \<Rightarrow> anchor = session \<or> anchor \<notin> set (wr_session_ids old))
               then Inl (WorkspaceMoveInvalid i session)
               else (let w = old\<lparr>wr_session_ids := move_before session before (wr_session_ids old), wr_updated_at := now\<rparr> in
                     Inr ([WorkspaceDefined (workspace_snapshot_of w)], JObject [(''workspace'', workspace_json w)],
                          [workspace_changed w]))))))"

definition workspace_archive_session :: "json \<Rightarrow> mutation_plan" where
  "workspace_archive_session payload h =
     and_then (required_string payload ''sessionId'') (\<lambda>session.
     if session \<notin> hs_sessions h then Inl (SessionNotFound session)
     else (let archived = sorted_list_of_set (insert session (hs_archived_sessions h)) in
           Inr ([ArchivedSessionsSet archived], JObject [(''archivedSessionIds'', json_strings archived)],
                [JObject [(''type'', JString ''host/archived-sessions-changed''), (''archivedSessionIds'', json_strings archived)]])))"

definition workspace_list :: "json \<Rightarrow> host_state \<Rightarrow> rpc_error + json" where
  "workspace_list payload h =
     (case payload of
        JObject _ \<Rightarrow>
          Inr (JObject [(''items'', JArray (map workspace_json (filter_map (map_of (hs_workspaces h)) (hs_workspace_order h)))),
                        (''archivedSessionIds'', json_strings (sorted_list_of_set (hs_archived_sessions h)))])
      | _ \<Rightarrow> Inl (BadRequest ''payload must be a JSON object''))"


subsection \<open>Logs that grow\<close>

definition control_step :: "control_log \<Rightarrow> control_log \<Rightarrow> bool" where
  "control_step k k' \<longleftrightarrow> (\<exists>expected es now res. control_append_at k expected es now = (k', res))"

abbreviation control_grows :: "control_log \<Rightarrow> control_log \<Rightarrow> bool" where
  "control_grows \<equiv> control_step\<^sup>*\<^sup>*"

lemma grows_reachable: "control_grows k k' \<Longrightarrow> control_reachable k \<Longrightarrow> control_reachable k'"
  by (induction rule: rtranclp_induct) (auto simp: control_step_def intro: control_reachable.append)

text \<open>A log that grows keeps its events, and its revision tells whether it has grown.\<close>

lemma control_grown:
  assumes "control_grows k k'"
  shows "\<exists>evs. kl_events k' = kl_events k @ evs" and "k' = k \<or> unat (kl_revision k) < unat (kl_revision k')"
proof -
  have "(\<exists>evs. kl_events k' = kl_events k @ evs) \<and> (k' = k \<or> unat (kl_revision k) < unat (kl_revision k'))"
    using assms
  proof (induction rule: rtranclp_induct)
    case (step k1 k2)
    then obtain expected es now res where "control_append_at k1 expected es now = (k2, res)" by (auto simp: control_step_def)
    then show ?case
    proof (cases rule: control_append_cases)
      case (appended r rc)
      have "unat r = Suc (unat (kl_revision k1))" using checked_add_unat [OF appended(3)] by simp
      then show ?thesis using step.IH appended(5) by auto
    qed (use step.IH in simp)
  qed simp
  then show "\<exists>evs. kl_events k' = kl_events k @ evs" and "k' = k \<or> unat (kl_revision k) < unat (kl_revision k')" by simp_all
qed

lemma grows_receipts: "control_grows k k' \<Longrightarrow> x \<in> set (control_receipts (kl_events k)) \<Longrightarrow> x \<in> set (control_receipts (kl_events k'))"
  using control_grown(1) by fastforce

text \<open>The one receipt a log has for an RPC id.\<close>

definition committed :: "control_log \<Rightarrow> string \<Rightarrow> control_receipt \<Rightarrow> bool" where
  "committed k rpc_id r \<longleftrightarrow>
     (\<exists>revision. filter (\<lambda>x. kr_rpc_id (snd x) = rpc_id) (control_receipts (kl_events k)) = [(revision, r)])"

lemma filter_distinct_key:
  assumes "distinct (map f xs)" and "x \<in> set xs"
  shows "filter (\<lambda>y. f y = f x) xs = [x]"
  using assms
proof (induction xs)
  case (Cons a xs)
  show ?case
  proof (cases "a = x")
    case True
    with Cons.prems(1) have "filter (\<lambda>y. f y = f x) xs = []" by (auto simp: filter_empty_conv image_iff)
    with True show ?thesis by simp
  next
    case False
    with Cons.prems have "f a \<noteq> f x" by (auto simp: image_iff)
    with Cons False show ?thesis by simp
  qed
qed simp

lemma committedI:
  assumes "control_reachable k" and "(revision, r) \<in> set (control_receipts (kl_events k))"
  shows "committed k (kr_rpc_id r) r"
proof -
  note accounting = control_accounting [OF assms(1)]
  from filter_distinct_key [OF accounting assms(2)] show ?thesis by (auto simp: committed_def comp_def)
qed

lemma committed_unique: "committed k i r \<Longrightarrow> committed k i r' \<Longrightarrow> r' = r"
  by (auto simp: committed_def)

lemma committed_mem:
  assumes "committed k i r"
  shows "\<exists>revision. (revision, r) \<in> set (control_receipts (kl_events k))" and "kr_rpc_id r = i"
proof -
  obtain revision where "filter (\<lambda>x. kr_rpc_id (snd x) = i) (control_receipts (kl_events k)) = [(revision, r)]"
    using assms by (auto simp: committed_def)
  then have "(revision, r) \<in> set (filter (\<lambda>x. kr_rpc_id (snd x) = i) (control_receipts (kl_events k)))" by simp
  then show "\<exists>revision. (revision, r) \<in> set (control_receipts (kl_events k))" and "kr_rpc_id r = i" by auto
qed

lemma committed_grows: "control_grows k k' \<Longrightarrow> control_reachable k \<Longrightarrow> committed k i r \<Longrightarrow> committed k' i r"
  using committed_mem grows_receipts committedI grows_reachable by metis

text \<open>What the receipts of a projection say of the log.\<close>

lemma projected_receipts:
  assumes "log_projection k = Inr p" and "control_reachable k"
  shows "map_of (kp_receipts p) i = Some r \<longleftrightarrow> committed k i r"
proof -
  from assms(1) obtain revs where "projected (map kv_event (kl_events k)) (p, revs)"
    using control_projection_projected by (auto simp: log_projection_def)
  then have ok: "receipts_ok (kp_receipts p)" and rs: "map snd (kp_receipts p) = map snd (control_receipts (kl_events k))"
    by (simp_all add: projected_def projection_ok_def map_snd_control_receipts)
  have mem: "r \<in> snd ` set (kp_receipts p) \<longleftrightarrow> r \<in> snd ` set (control_receipts (kl_events k))"
    using arg_cong [OF rs, of set] by simp
  have "map_of (kp_receipts p) i = Some r \<longleftrightarrow> (i, r) \<in> set (kp_receipts p)"
    using ok by (simp add: receipts_ok_def)
  also have "\<dots> \<longleftrightarrow> r \<in> snd ` set (kp_receipts p) \<and> kr_rpc_id r = i"
    using ok by (force simp: receipts_ok_def)
  also have "\<dots> \<longleftrightarrow> committed k i r"
    unfolding mem using committedI [OF assms(2)] committed_mem by force
  finally show ?thesis .
qed

text \<open>A host that has loaded the log at some time.\<close>

definition in_sync :: "host_state \<Rightarrow> control_log \<Rightarrow> bool" where
  "in_sync h k \<longleftrightarrow>
     (\<exists>p. log_projection k = Inr p \<and> hs_control_revision h = kl_revision k \<and> hs_mutation_receipts h = kp_receipts p)"

lemma in_sync_receipts: "in_sync h k \<Longrightarrow> control_reachable k \<Longrightarrow> map_of (hs_mutation_receipts h) i = Some r \<longleftrightarrow> committed k i r"
  using projected_receipts by (auto simp: in_sync_def)

lemma apply_sync: "log_projection k = Inr p \<Longrightarrow> apply_control_projection (kl_revision k) p h = Inr h' \<Longrightarrow> in_sync h' k"
  by (auto simp: apply_control_projection_def in_sync_def Let_def split: if_splits)

definition answer :: "(string \<Rightarrow> json \<Rightarrow> string) \<Rightarrow> json \<Rightarrow> string \<Rightarrow> json \<Rightarrow> control_receipt \<Rightarrow> rpc_error + json" where
  "answer fp schema method payload r =
     (if kr_method r = method \<and> kr_fingerprint r = fp method payload then Inr (restore_schema schema (kr_response r))
      else Inl (RpcConflict (kr_rpc_id r)))"

lemma replay_sync:
  assumes "in_sync h k" and "control_reachable k"
  shows "committed k i r \<Longrightarrow> replay_control_receipt fp schema i method payload h = and_then (answer fp schema method payload r) (\<lambda>x. Inr (Some x))"
    and "replay_control_receipt fp schema i method payload h = Inr None \<Longrightarrow> \<not> committed k i r"
    and "replay_control_receipt fp schema i method payload h = Inr (Some x) \<Longrightarrow> \<exists>r. committed k i r \<and> answer fp schema method payload r = Inr x"
proof -
  note receipts = in_sync_receipts [OF assms, of i]
  show "replay_control_receipt fp schema i method payload h = and_then (answer fp schema method payload r) (\<lambda>x. Inr (Some x))"
    if "committed k i r"
    using receipts [of r] that committed_mem(2) [OF that] by (simp add: replay_control_receipt_def answer_def)
  show "\<not> committed k i r" if "replay_control_receipt fp schema i method payload h = Inr None"
    using receipts [of r] that by (auto simp: replay_control_receipt_def split: if_splits)
  show "\<exists>r. committed k i r \<and> answer fp schema method payload r = Inr x"
    if "replay_control_receipt fp schema i method payload h = Inr (Some x)"
  proof -
    from that obtain r where "map_of (hs_mutation_receipts h) i = Some r"
      by (auto simp: replay_control_receipt_def split: option.splits)
    with receipts [of r] that show ?thesis
      by (intro exI [of _ r]) (auto simp: replay_control_receipt_def answer_def split: if_splits)
  qed
qed

subsection \<open>Exactly once\<close>

text \<open>Other hosts may let the log grow, and do no harm to the store.\<close>

definition fair_env :: "('st \<Rightarrow> bool) \<Rightarrow> ('st \<Rightarrow> control_log) \<Rightarrow> (nat \<Rightarrow> 'st \<Rightarrow> 'st) \<Rightarrow> bool" where
  "fair_env ok view env \<longleftrightarrow> (\<forall>n st. ok st \<longrightarrow> ok (env n st) \<and> control_grows (view st) (view (env n st)))"

definition receipt_for :: "(string \<Rightarrow> json \<Rightarrow> string) \<Rightarrow> string \<Rightarrow> string \<Rightarrow> json \<Rightarrow> json \<Rightarrow> control_receipt" where
  "receipt_for fp rpc_id method payload response =
     \<lparr>kr_rpc_id = rpc_id, kr_method = method, kr_fingerprint = fp method payload, kr_response = strip_schema response\<rparr>"

text \<open>A batch that was appended to the log \<open>k\<close>: whole, in order, under the revision after \<open>k\<close>'s.\<close>

definition batch_made :: "u64 \<Rightarrow> control_event list \<Rightarrow> control_log \<Rightarrow> control_log \<Rightarrow> bool" where
  "batch_made now es k k' \<longleftrightarrow>
     (\<exists>r post. checked_add (kl_revision k) 1 = Some r \<and>
        kl_events k' = kl_events k @ stage_control (control_next_seq k) r now es @ post)"

lemma batch_made_grows: "batch_made now es k k1 \<Longrightarrow> control_grows k1 k' \<Longrightarrow> batch_made now es k k'"
  using control_grown(1) [of k1 k'] unfolding batch_made_def by fastforce

context control_store
begin

lemma append_grows:
  assumes "ok st" and "ko_append ops now expected es st = (st', res)"
  shows "ok st'" and "control_grows (view st) (view st')"
proof -
  have "control_step (view st) (view st')" using append_abs [OF assms] unfolding control_step_def by blast
  then show "ok st'" and "control_grows (view st) (view st')" using append_abs [OF assms] by (simp_all add: r_into_rtranclp)
qed

lemma append_commits:
  assumes "ok st" and "control_reachable (view st)" and "ko_append ops now expected (es @ [MutationCommitted r]) st = (st', Inr rc)"
  shows "committed (view st') (kr_rpc_id r) r" and "expected = kl_revision (view st)"
    and "batch_made now (es @ [MutationCommitted r]) (view st) (view st')"
proof -
  from append_abs [OF assms(1,3)] have app: "control_append_at (view st) expected (es @ [MutationCommitted r]) now = (view st', Inr rc)" by simp
  then have reach: "control_reachable (view st')" by (rule control_reachable.append [OF assms(2)])
  from app have "r \<in> set (receipts_in (map kv_event (kl_events (view st')))) \<and> expected = kl_revision (view st) \<and>
      batch_made now (es @ [MutationCommitted r]) (view st) (view st')"
    by (cases rule: control_append_cases) (simp_all add: batch_made_def)
  moreover from this have "\<exists>revision. (revision, r) \<in> set (control_receipts (kl_events (view st')))"
    unfolding map_snd_control_receipts [symmetric] by auto
  ultimately show "committed (view st') (kr_rpc_id r) r" "expected = kl_revision (view st)"
    "batch_made now (es @ [MutationCommitted r]) (view st) (view st')" using committedI [OF reach] by blast+
qed

lemma stale_append:
  assumes "ok st" and "kl_revision k = expected" and "control_grows k (view st)" and "k \<noteq> view st"
  shows "\<exists>st'. ko_append ops now expected es st = (st', Inl (ControlRevisionConflict expected (kl_revision (view st)))) \<and>
    ok st' \<and> view st' = view st"
proof -
  have "kl_revision (view st) \<noteq> expected" using control_grown(2) [OF assms(3)] assms(2,4) by auto
  then have "control_append_at (view st) expected es now = (view st, Inl (ControlRevisionConflict expected (kl_revision (view st))))"
    by (auto simp: control_append_at_def)
  with append_abs [OF assms(1), of now expected es] show ?thesis by (cases "ko_append ops now expected es st") auto
qed

lemma reload_sync:
  assumes "ok st" and "reload_control_projection ops st h = Inr h'"
  shows "in_sync h' (view st)"
  using assms load_abs [OF assms(1)] apply_sync by (auto simp: reload_control_projection_def)

lemma refused_append:
  assumes "ok st" and "ko_append ops now expected es st = (st', Inl e)"
  shows "view st' = view st"
  using append_abs [OF assms] by (cases rule: control_append_cases [OF conjunct2 [OF append_abs [OF assms]]]) simp_all

text \<open>What a call that commits comes to: its batch is the one after the log it found, or another host was faster and
  the answer is that of the receipt in the log, to which this call added nothing.\<close>

lemma commit_once:
  assumes "ok st" and "control_reachable (view st)" and "fair_env ok view env"
    and "commit_control_mutation fp schema ops env now i method payload events response st h = (st', h', res)"
  shows "ok st' \<and> control_grows (view st) (view st') \<and>
    (\<forall>x. res = Inr x \<longrightarrow>
       x = response \<and> hs_control_revision h = kl_revision (view (env 0 st)) \<and>
         batch_made now (events @ [MutationCommitted (receipt_for fp i method payload x)]) (view (env 0 st)) (view st') \<and>
         committed (view st') i (receipt_for fp i method payload x) \<or>
       (\<exists>r st1. committed (view st') i r \<and> answer fp schema method payload r = Inr x \<and> view st1 = view (env 0 st) \<and> st' = env 1 st1))"
proof -
  have env: "ok (env n st)" "control_grows (view st) (view (env n st))" if "ok st" for n st
    using assms(3) that by (simp_all add: fair_env_def)
  let ?r = "receipt_for fp i method payload response"
  let ?es = "events @ [MutationCommitted ?r]"
  obtain st1 out where app: "ko_append ops now (hs_control_revision h) ?es (env 0 st) = (st1, out)" by fastforce
  have start: "ok (env 0 st)" "control_grows (view st) (view (env 0 st))" using env [OF assms(1)] by simp_all
  have st1: "ok st1" "control_grows (view st) (view st1)"
    using append_grows [OF start(1) app] start(2) by auto
  have st2: "ok (env 1 st1)" "control_grows (view st) (view (env 1 st1))" using env [OF st1(1), of 1] st1(2) by auto
  have st3: "ok (env 2 (env 1 st1))" "control_grows (view st) (view (env 2 (env 1 st1)))" "control_grows (view st1) (view (env 2 (env 1 st1)))"
    using env [OF st2(1), of 2] env [OF st1(1), of 1] st1(2) by auto
  note run = assms(4) [unfolded commit_control_mutation_def Let_def receipt_for_def [symmetric] app]
  show ?thesis
  proof (cases out)
    case (Inr written)
    note made = append_commits [OF start(1) grows_reachable [OF start(2) assms(2)] app [unfolded Inr]]
    have "committed (view (env 2 (env 1 st1))) i ?r"
      using committed_grows [OF st3(3) grows_reachable [OF st1(2) assms(2)] made(1)] by (simp add: receipt_for_def)
    with batch_made_grows [OF made(3) st3(3)] made(2) run Inr st2 st3 show ?thesis by (auto split: sum.splits if_splits)
  next
    case (Inl e)
    have same: "view st1 = view (env 0 st)" by (rule refused_append [OF start(1) app [unfolded Inl]])
    show ?thesis
    proof (cases e)
      case (ControlRevisionConflict r1 r2)
      have "\<exists>r. committed (view (env 1 st1)) i r \<and> answer fp schema method payload r = Inr x"
        if "reload_control_projection ops (env 1 st1) h = Inr h1" "replay_control_receipt fp schema i method payload h1 = Inr (Some x)" for h1 x
        by (rule replay_sync(3) [OF reload_sync [OF st2(1) that(1)] grows_reachable [OF st2(2) assms(2)] that(2)])
      with run Inl ControlRevisionConflict st2 same show ?thesis by (fastforce split: sum.splits option.splits)
    qed (use run Inl st1 in auto)
  qed
qed

lemma grown_back:
  assumes "control_grows k k1" and "control_grows k1 k2" and "kl_revision k2 = kl_revision k"
  shows "k1 = k" and "k2 = k"
  using control_grown(2) [OF assms(1)] control_grown(2) [OF assms(2)] assms(3) by auto

lemma mutation_once:
  assumes "ok st" and "control_reachable (view st)" and "fair_env ok view env" and "in_sync h k" and "control_reachable k" and "control_grows k (view st)"
    and "control_mutation fp schema ops env now i method payload plan st h = (st', h', res)"
  shows "ok st' \<and> control_grows (view st) (view st') \<and>
    (\<forall>x. res = Inr x \<longrightarrow>
       (\<exists>events pushes. plan h = Inr (events, x, pushes) \<and> k = view st \<and> (\<forall>r. \<not> committed (view st) i r) \<and>
          batch_made now (events @ [MutationCommitted (receipt_for fp i method payload x)]) (view st) (view st') \<and>
          committed (view st') i (receipt_for fp i method payload x)) \<or>
       (\<exists>r. committed (view st') i r \<and> answer fp schema method payload r = Inr x \<and>
          (st' = st \<and> committed (view st) i r \<or> (\<exists>st1. view st1 = view (env 0 st) \<and> st' = env 1 st1))))"
proof (cases "replay_control_receipt fp schema i method payload h")
  case (Inl e)
  with assms(1,7) show ?thesis by (auto simp: control_mutation_def)
next
  case (Inr found)
  show ?thesis
  proof (cases found)
    case (Some x)
    from replay_sync(3) [OF assms(4,5) Inr [unfolded Some]] obtain r where "committed k i r" "answer fp schema method payload r = Inr x" by blast
    then have "committed (view st) i r \<and> answer fp schema method payload r = Inr x"
      using committed_grows [OF assms(6,5)] by blast
    with Inr Some assms(1,7) show ?thesis by (auto simp: control_mutation_def)
  next
    case None
    show ?thesis
    proof (cases "plan h")
      case (Inl e)
      with Inr None assms(1,7) show ?thesis by (auto simp: control_mutation_def)
    next
      case plan: (Inr made)
      obtain events response pushes where made: "made = (events, response, pushes)" by (cases made)
      obtain st1 h1 res1 where commit: "commit_control_mutation fp schema ops env now i method payload events response st h = (st1, h1, res1)"
        by (cases "commit_control_mutation fp schema ops env now i method payload events response st h")
      have same: "st' = st1" "res = res1" using assms(7) Inr None plan made commit by (auto simp: control_mutation_def split: sum.splits)
      note once = commit_once [OF assms(1-3) commit, folded same]
      have start: "control_grows (view st) (view (env 0 st))" using assms(1,3) by (simp add: fair_env_def)
      have found: "view st = k" "view (env 0 st) = k" if "hs_control_revision h = kl_revision (view (env 0 st))"
        using grown_back [OF assms(6) start] assms(4) that by (auto simp: in_sync_def)
      have fresh: "\<not> committed k i r" for r by (rule replay_sync(2) [OF assms(4,5) Inr [unfolded None]])
      show ?thesis
      proof (intro conjI allI impI)
        fix x assume "res = Inr x"
        with once consider (now) "x = response" "hs_control_revision h = kl_revision (view (env 0 st))"
            "batch_made now (events @ [MutationCommitted (receipt_for fp i method payload x)]) (view (env 0 st)) (view st')"
            "committed (view st') i (receipt_for fp i method payload x)"
          | (before) r st2 where "committed (view st') i r" "answer fp schema method payload r = Inr x" "view st2 = view (env 0 st)" "st' = env 1 st2"
          by blast
        then show "(\<exists>events pushes. plan h = Inr (events, x, pushes) \<and> k = view st \<and> (\<forall>r. \<not> committed (view st) i r) \<and>
            batch_made now (events @ [MutationCommitted (receipt_for fp i method payload x)]) (view st) (view st') \<and>
            committed (view st') i (receipt_for fp i method payload x)) \<or>
          (\<exists>r. committed (view st') i r \<and> answer fp schema method payload r = Inr x \<and>
            (st' = st \<and> committed (view st) i r \<or> (\<exists>st1. view st1 = view (env 0 st) \<and> st' = env 1 st1)))"
        proof cases
          case now
          note k = found [OF now(2)]
          show ?thesis
            using now(3,4) fresh unfolding k plan made now(1) by (intro disjI1 exI [of _ events] exI [of _ pushes]) simp
        next
          case before
          then show ?thesis by blast
        qed
      qed (use once in blast)+
    qed
  qed
qed

text \<open>Nobody else at the store: a mutation that is in the log already changes nothing, whatever the host knows.\<close>

lemma retry_settled:
  assumes "ok st" and "in_sync h k" and "control_reachable k" and "control_grows k (view st)" and "committed (view st) i r"
    and "control_mutation fp schema ops (\<lambda>_ st. st) now i method payload plan st h = (st', h', res)"
  shows "ok st'" and "view st' = view st" and "k = view st \<Longrightarrow> res = answer fp schema method payload r"
    and "res = Inr x \<Longrightarrow> answer fp schema method payload r = Inr x"
proof -
  note reach = grows_reachable [OF assms(4,3)]
  have quiet: "fair_env ok view (\<lambda>_ st. st)" by (simp add: fair_env_def)
  have "ok st' \<and> view st' = view st \<and> (k = view st \<longrightarrow> res = answer fp schema method payload r) \<and>
    (\<forall>x. res = Inr x \<longrightarrow> answer fp schema method payload r = Inr x)"
  proof (cases "committed k i r")
    case True
    from assms(6) replay_sync(1) [OF assms(2,3) True] show ?thesis
      using assms(1) by (cases "answer fp schema method payload r") (auto simp: control_mutation_def)
  next
    case False
    with assms(5) have stale: "k \<noteq> view st" by auto
    have none: "map_of (hs_mutation_receipts h) i = None"
    proof (rule ccontr)
      assume "map_of (hs_mutation_receipts h) i \<noteq> None"
      then obtain r' where "committed k i r'" using in_sync_receipts [OF assms(2,3)] by auto
      with committed_unique [OF assms(5) committed_grows [OF assms(4,3)]] False show False by auto
    qed
    then have replay: "replay_control_receipt fp schema i method payload h = Inr None" by (simp add: replay_control_receipt_def)
    have revision: "kl_revision k = hs_control_revision h" using assms(2) by (auto simp: in_sync_def)
    show ?thesis
    proof (cases "plan h")
      case (Inl e)
      with assms(1,6) replay stale show ?thesis by (auto simp: control_mutation_def)
    next
      case (Inr made)
      obtain events response pushes where made: "made = (events, response, pushes)" by (cases made)
      let ?r = "receipt_for fp i method payload response"
      obtain st1 where app: "ko_append ops now (hs_control_revision h) (events @ [MutationCommitted ?r]) st =
          (st1, Inl (ControlRevisionConflict (hs_control_revision h) (kl_revision (view st))))" and st1: "ok st1" "view st1 = view st"
        using stale_append [OF assms(1) revision assms(4) stale] by blast
      have replayed: "replay_control_receipt fp schema i method payload h1 = and_then (answer fp schema method payload r) (\<lambda>x. Inr (Some x))"
        if "reload_control_projection ops st1 h = Inr h1" for h1
        using replay_sync(1) [OF reload_sync [OF st1(1) that] _ assms(5) [folded st1(2)]] reach st1(2) by simp
      show ?thesis
      proof (cases "reload_control_projection ops st1 h")
        case (Inl e)
        with assms(6) replay Inr made app st1 stale show ?thesis
          by (auto simp: control_mutation_def commit_control_mutation_def receipt_for_def [symmetric])
      next
        case reloaded: (Inr h1)
        with assms(6) replay Inr made app st1 stale replayed [OF reloaded] show ?thesis
          by (cases "answer fp schema method payload r")
            (auto simp: control_mutation_def commit_control_mutation_def receipt_for_def [symmetric])
      qed
    qed
  qed
  then show "ok st'" and "view st' = view st" and "k = view st \<Longrightarrow> res = answer fp schema method payload r"
    and "res = Inr x \<Longrightarrow> answer fp schema method payload r = Inr x" by blast+
qed

end

text \<open>Property C22. Mutations over the control file happen exactly once.  Other hosts may append at every await of the
  call.  A call that succeeds leaves exactly one receipt for its RPC id in the file, in one of two ways.  Either
  it made the mutation: the host knew the whole log, the log had no receipt for the id, and the events of the
  handler's plan followed by the receipt stand in the file as one batch, right after what the log held, and
  the answer is the plan's response.  Or the mutation was made before, with the same method and payload: the
  answer is that of its receipt, and this call added no event, what is in the file being there already or
  another host's.  The file can be read afterwards and has only grown, whatever the result.\<close>

theorem control_mutation_once:
  assumes "control_codec_ok c" and "control_load c f = Inr k" and "control_reachable k"
    and "fair_env (\<lambda>f. control_codec_ok c \<and> control_file_ok c f) (stored_control c) env"
    and "in_sync h k0" and "control_reachable k0" and "control_grows k0 k"
    and "control_mutation fp schema (jsonl_control_ops c) env now i method payload plan f h = (f', h', res)"
  shows "\<exists>k'. control_load c f' = Inr k' \<and> control_grows k k' \<and>
    (\<forall>x. res = Inr x \<longrightarrow>
       (\<exists>events pushes. plan h = Inr (events, x, pushes) \<and> k0 = k \<and> (\<forall>r. \<not> committed k i r) \<and>
          batch_made now (events @ [MutationCommitted (receipt_for fp i method payload x)]) k k' \<and>
          committed k' i (receipt_for fp i method payload x)) \<or>
       (\<exists>r. committed k' i r \<and> answer fp schema method payload r = Inr x \<and>
          (f' = f \<and> committed k i r \<or> (\<exists>f1. stored_control c f1 = stored_control c (env 0 f) \<and> f' = env 1 f1))))"
proof -
  have ok: "control_codec_ok c \<and> control_file_ok c f" and k: "stored_control c f = k"
    using assms(1,2) by (auto simp: control_file_ok_def stored_control_def)
  note once = jsonl_control.mutation_once [OF ok _ assms(4-6) _ assms(8), unfolded k, OF assms(3,7)]
  then have "control_load c f' = Inr (stored_control c f')" using stored_loaded by blast
  with once show ?thesis by blast
qed

text \<open>Property C23. A retry changes nothing and gets the first answer.  When the file has the receipt of an RPC id, a call
  with this id leaves the log as it is.  A host that has read the whole log answers from the receipt, and refuses
  another method or payload; a host that is behind may fail on its old state, but when it succeeds its answer
  is the receipt's too.\<close>

theorem control_retry_settled:
  assumes "control_codec_ok c" and "control_load c f = Inr k" and "in_sync h k0" and "control_reachable k0" and "control_grows k0 k"
    and "committed k i r"
    and "control_mutation fp schema (jsonl_control_ops c) (\<lambda>_ f. f) now i method payload plan f h = (f', h', res)"
  shows "control_load c f' = Inr k \<and> (k0 = k \<longrightarrow> res = answer fp schema method payload r) \<and>
    (\<forall>x. res = Inr x \<longrightarrow> answer fp schema method payload r = Inr x)"
proof -
  have ok: "control_codec_ok c \<and> control_file_ok c f" and k: "stored_control c f = k"
    using assms(1,2) by (auto simp: control_file_ok_def stored_control_def)
  note settled = jsonl_control.retry_settled [OF ok assms(3,4) _ _ assms(7), unfolded k, OF assms(5,6)]
  have "control_load c f' = Inr k" using stored_loaded [OF conjunct2 [OF settled(1)]] settled(2) by simp
  then show ?thesis using settled(3,4) by blast
qed

subsection \<open>Membership of workspaces\<close>

text \<open>The projection orders the sessions of a workspace the host has, and never changes which they are.\<close>

lemma set_kept_order: "set (kept_order known w existing) = set (wr_session_ids existing)"
proof -
  have merge: "set (foldl (\<lambda>acc i. if i \<in> set acc then acc else acc @ [i]) acc is) = set acc \<union> set is" for acc "is" :: "string list"
    by (induction "is" arbitrary: acc) auto
  show ?thesis unfolding kept_order_def Let_def merge by auto
qed

definition same_members :: "string \<Rightarrow> string set \<Rightarrow> (string \<times> workspace_record) list \<Rightarrow> bool" where
  "same_members i members ws \<longleftrightarrow> (\<exists>w. map_of ws i = Some w \<and> set (wr_session_ids w) = members)"

lemma apply_workspace_members:
  "same_members i members ws \<Longrightarrow> same_members i members (apply_workspace known w ws)"
  by (auto simp: same_members_def apply_workspace_def update_conv' set_kept_order split: option.splits)

lemma fold_workspaces_members:
  "same_members i members ws \<Longrightarrow> same_members i members (fold (\<lambda>(j, w). apply_workspace known w) snaps ws)"
  by (induction snaps arbitrary: ws) (auto simp: apply_workspace_members)

lemma fold_workspaces_other:
  "map_of ws i = None \<Longrightarrow> i \<notin> wk_id ` snd ` set snaps \<Longrightarrow> map_of (fold (\<lambda>(j, w). apply_workspace known w) snaps ws) i = None"
proof (induction snaps arbitrary: ws)
  case (Cons x snaps)
  then have "map_of (apply_workspace known (snd x) ws) i = None"
    by (auto simp: apply_workspace_def update_conv' split: option.splits)
  with Cons show ?case by (auto simp: case_prod_unfold)
qed simp

lemma map_of_without: "map_of (filter (\<lambda>(i, w). i \<notin> removed) ws) j = (if j \<in> removed then None else map_of ws j)"
  by (induction ws) auto

lemma projection_members:
  assumes "apply_control_projection revision p h = Inr h'" and "projection_ok p" and "same_members i members (hs_workspaces h)"
  shows "map_of (hs_workspaces h') i = None \<or> same_members i members (hs_workspaces h')"
proof -
  let ?ws = "filter (\<lambda>(i, w). i \<notin> kp_removed_workspaces p) (hs_workspaces h)"
  have ws: "hs_workspaces h' = fold (\<lambda>(j, w). apply_workspace (hs_sessions h) w) (kp_workspaces p) ?ws"
    using assms(1) by (auto simp: apply_control_projection_def Let_def split: if_splits)
  note filtered = map_of_without [of "kp_removed_workspaces p" "hs_workspaces h"]
  show ?thesis
  proof (cases "i \<in> kp_removed_workspaces p")
    case True
    with assms(2) have "i \<notin> wk_id ` snd ` set (kp_workspaces p)" by (auto simp: projection_ok_def workspaces_ok_def)
    with True fold_workspaces_other [of ?ws i "kp_workspaces p"] filtered show ?thesis unfolding ws by simp
  next
    case False
    with filtered assms(3) have "same_members i members ?ws" by (simp add: same_members_def)
    then show ?thesis unfolding ws using fold_workspaces_members by blast
  qed
qed

lemma commit_state:
  assumes "commit_control_mutation fp schema ops env now i method payload events response st h = (st', h', res)"
  shows "(h' = h \<and> (\<exists>e. res = Inl e)) \<or> (\<exists>st1. reload_control_projection ops st1 h = Inr h')"
proof -
  obtain st1 out where app: "ko_append ops now (hs_control_revision h) (events @ [MutationCommitted (receipt_for fp i method payload response)]) (env 0 st) = (st1, out)"
    by fastforce
  note run = assms [unfolded commit_control_mutation_def Let_def receipt_for_def [symmetric] app]
  show ?thesis
  proof (cases out)
    case (Inr written)
    with run show ?thesis by (auto split: sum.splits if_splits)
  next
    case (Inl e)
    with run show ?thesis by (cases e) (auto split: sum.splits option.splits)
  qed
qed

lemma mutation_state:
  assumes "control_mutation fp schema ops env now i method payload plan st h = (st', h', res)"
  obtains "h' = h" | st1 h1 where "reload_control_projection ops st1 h = Inr h1" "hs_workspaces h' = hs_workspaces h1"
proof (cases "replay_control_receipt fp schema i method payload h = Inr None \<and> (\<exists>made. plan h = Inr made)")
  case True
  then obtain events response pushes where plan: "plan h = Inr (events, response, pushes)" by auto
  obtain st1 h1 res1 where commit: "commit_control_mutation fp schema ops env now i method payload events response st h = (st1, h1, res1)"
    by (cases "commit_control_mutation fp schema ops env now i method payload events response st h")
  from assms True plan commit have "(h' = h1 \<and> (\<exists>e. res1 = Inl e)) \<or> (h' = h1\<lparr>hs_pushed := hs_pushed h1 @ pushes\<rparr> \<and> (\<exists>x. res1 = Inr x))"
    by (cases res1) (auto simp: control_mutation_def)
  with commit_state [OF commit] that show thesis by auto
next
  case False
  with assms have "h' = h" by (auto simp: control_mutation_def split: sum.splits option.splits)
  then show thesis by (rule that(1))
qed

lemma reload_members:
  assumes "reload_control_projection ops st h = Inr h'" and "same_members i members (hs_workspaces h)"
  shows "map_of (hs_workspaces h') i = None \<or> same_members i members (hs_workspaces h')"
proof -
  from assms(1) obtain k p where p: "log_projection k = Inr p" and step: "apply_control_projection (kl_revision k) p h = Inr h'"
    by (auto simp: reload_control_projection_def)
  from p have "projection_ok p"
    using control_projection_projected by (fastforce simp: log_projection_def projected_def)
  then show ?thesis by (rule projection_members [OF step _ assms(2)])
qed

lemma set_move_before: "set (move_before i before order) = insert i (set order)"
proof -
  have "set (take n xs @ i # drop n xs) = insert i (set xs)" for n and xs :: "string list"
    using append_take_drop_id [of n xs] by (metis Un_insert_right list.simps(15) set_append)
  then show ?thesis by (auto simp: move_before_def Let_def)
qed

text \<open>Property C39. Moving a session into a workspace it is not in has no effect.  The handler accepts the request, and
  its answer and the event for the clients list the session in the workspace; the state of the host never does,
  over any store and whatever other hosts do: the projection keeps the members the workspace had.\<close>

theorem session_move_dropped:
  assumes "map_of (hs_workspaces h) i = Some old" and "session \<in> hs_sessions h" and "session \<notin> set (wr_session_ids old)"
    and "i \<noteq> []" and "session \<noteq> []"
    and "control_mutation fp schema ops env now rpc_id method (JObject [(''workspaceId'', JString i), (''sessionId'', JString session)])
      (workspace_insert_session_before t (JObject [(''workspaceId'', JString i), (''sessionId'', JString session)])) st h = (st', h', res)"
  shows "(\<exists>w. session \<in> set (wr_session_ids w) \<and>
      workspace_insert_session_before t (JObject [(''workspaceId'', JString i), (''sessionId'', JString session)]) h =
        Inr ([WorkspaceDefined (workspace_snapshot_of w)], JObject [(''workspace'', workspace_json w)], [workspace_changed w])) \<and>
    (\<forall>w. map_of (hs_workspaces h') i = Some w \<longrightarrow> session \<notin> set (wr_session_ids w))"
proof
  let ?w = "old\<lparr>wr_session_ids := move_before session None (wr_session_ids old), wr_updated_at := t\<rparr>"
  show "\<exists>w. session \<in> set (wr_session_ids w) \<and>
      workspace_insert_session_before t (JObject [(''workspaceId'', JString i), (''sessionId'', JString session)]) h =
        Inr ([WorkspaceDefined (workspace_snapshot_of w)], JObject [(''workspace'', workspace_json w)], [workspace_changed w])"
    using assms(1,2,4,5) by (intro exI [of _ ?w])
      (simp add: workspace_insert_session_before_def required_string_def optional_string_def set_move_before Let_def)
  have members: "same_members i (set (wr_session_ids old)) (hs_workspaces h)" using assms(1) by (simp add: same_members_def)
  from assms(6) show "\<forall>w. map_of (hs_workspaces h') i = Some w \<longrightarrow> session \<notin> set (wr_session_ids w)"
  proof (cases rule: mutation_state)
    case 1
    with assms(1,3) show ?thesis by simp
  next
    case (2 st1 h1)
    from reload_members [OF 2(1) members] assms(3) 2(2) show ?thesis by (auto simp: same_members_def)
  qed
qed

subsection \<open>Examples\<close>

definition desk_fingerprint :: "string \<Rightarrow> json \<Rightarrow> string" where
  "desk_fingerprint method payload = replicate 64 CHR ''a''"

definition desk_host :: host_state where
  "desk_host =
     \<lparr>hs_control_revision = 1, hs_mutation_receipts = [(''r1'', desk_receipt)], hs_sessions = {''s1''},
      hs_workspaces = [(''w1'', \<lparr>wr_workspace_id = ''w1'', wr_path = ''/desk'', wr_title = ''desk'', wr_session_ids = [],
                                wr_created_at = ''t'', wr_updated_at = ''t''\<rparr>)],
      hs_workspace_order = [''w1''], hs_archived_sessions = {}, hs_settings = [], hs_pushed = []\<rparr>"

definition desk_file :: "bytes option" where
  "desk_file = fst (ko_append (jsonl_control_ops reference_control_codec) 7 0 desk_events None)"

lemma no_file_ok: "control_codec_ok reference_control_codec \<and> control_file_ok reference_control_codec None"
  using reference_control_codec_ok no_control_file by (simp add: control_file_ok_def)

lemma desk_file: "control_load reference_control_codec desk_file = Inr desk_log"
  using jsonl_control.append_result [OF no_file_ok, of 7 0 desk_events] stored_loaded [of reference_control_codec desk_file] desk_appended
  by (simp add: stored_none desk_file_def)

lemma desk_reachable: "control_reachable desk_log"
proof -
  obtain res where "control_append_at empty_control_log 0 desk_events 7 = (desk_log, res)"
    using desk_appended by (cases "control_append_at empty_control_log 0 desk_events 7") simp
  then show ?thesis by (rule control_reachable.append [OF control_reachable.empty])
qed

lemma desk_sync: "in_sync desk_host desk_log"
  using desk_projection by (simp add: in_sync_def log_projection_def desk_host_def desk_log_def)

lemma desk_committed: "committed desk_log ''r1'' desk_receipt"
  by (simp add: committed_def desk_log_def desk_events_def stage_control_def desk_receipt_def)

theorem control_retry_settled_witness:
  "\<exists>f' h'. control_mutation desk_fingerprint JNull (jsonl_control_ops reference_control_codec) (\<lambda>_ f. f) 9 ''r1'' ''workspace.create''
     (JObject []) (workspace_delete (JObject [])) desk_file desk_host = (f', h', Inr (JObject [])) \<and>
     control_load reference_control_codec f' = Inr desk_log"
proof -
  obtain f' h' res where run: "control_mutation desk_fingerprint JNull (jsonl_control_ops reference_control_codec) (\<lambda>_ f. f) 9 ''r1'' ''workspace.create''
     (JObject []) (workspace_delete (JObject [])) desk_file desk_host = (f', h', res)"
    by (rule prod_cases3)
  have answered: "answer desk_fingerprint JNull ''workspace.create'' (JObject []) desk_receipt = Inr (JObject [])"
    by (simp add: answer_def desk_receipt_def desk_fingerprint_def names_model_settings_def)
  note settled = control_retry_settled [OF reference_control_codec_ok desk_file desk_sync desk_reachable rtranclp.rtrancl_refl desk_committed run]
  from settled [THEN conjunct2, THEN conjunct1, rule_format, OF refl] have res: "res = Inr (JObject [])" unfolding answered .
  show ?thesis by (intro exI conjI) (rule run [unfolded res], rule settled [THEN conjunct1])
qed

text \<open>The next batch of this log: the session \<open>s1\<close> moved into the workspace.\<close>

definition moved_payload :: json where
  "moved_payload = JObject [(''workspaceId'', JString ''w1''), (''sessionId'', JString ''s1'')]"

definition moved_desk :: workspace_record where
  "moved_desk = \<lparr>wr_workspace_id = ''w1'', wr_path = ''/desk'', wr_title = ''desk'', wr_session_ids = [''s1''], wr_created_at = ''t'', wr_updated_at = ''t''\<rparr>"

definition moved_receipt :: control_receipt where
  "moved_receipt = receipt_for desk_fingerprint ''r2'' ''m'' moved_payload (JObject [(''workspace'', workspace_json moved_desk)])"

definition moved_log :: control_log where
  "moved_log =
     \<lparr>kl_revision = 2, kl_events = kl_events desk_log @ stage_control 2 2 8 [WorkspaceDefined (workspace_snapshot_of moved_desk), MutationCommitted moved_receipt]\<rparr>"

lemma moved_texts [simp]: "\<not> blank ''r2''" "\<not> blank ''m''" "\<not> blank ''s1''" by code_simp+

lemma moved_keys [simp]:
  "\<not> control_sensitive_key ''workspace''" "\<not> control_sensitive_key ''workspaceId''" "\<not> control_sensitive_key ''path''"
  "\<not> control_sensitive_key ''title''" "\<not> control_sensitive_key ''sessionIds''" "\<not> control_sensitive_key ''createdAt''"
  "\<not> control_sensitive_key ''updatedAt''"
  by code_simp+

lemma moved_response: "reject_sensitive_values (JObject [(''workspace'', workspace_json moved_desk)]) ctx = Inr ()"
  by (simp add: moved_desk_def workspace_json_def json_strings_def)

lemma moved_valid: "validate_receipt moved_receipt = Inr ()"
  using moved_response
  by (simp add: validate_receipt_def moved_receipt_def receipt_for_def desk_fingerprint_def require_nonempty_def
      is_lowercase_hexdigit_def list_all_iff names_model_settings_def)

lemma moved_projection:
  "control_projection_of (kl_events moved_log) =
     Inr (empty_control_projection\<lparr>kp_workspaces := [(''w1'', workspace_snapshot_of moved_desk)],
       kp_receipts := [(''r1'', desk_receipt), (''r2'', moved_receipt)]\<rparr>)"
proof -
  obtain revs where "project_control_events (map kv_event (kl_events desk_log)) (empty_control_projection, []) =
      Inr (empty_control_projection\<lparr>kp_workspaces := [(''w1'', desk)], kp_receipts := [(''r1'', desk_receipt)]\<rparr>, revs)"
    using control_projection_projected [OF desk_projection] by blast
  then show ?thesis using moved_valid
    by (simp add: control_projection_of_def moved_log_def project_control_events_append validate_workspace_def require_nonempty_def
        require_unique_nonempty_def workspace_snapshot_of_def moved_desk_def desk_def empty_control_projection_def
        moved_receipt_def receipt_for_def)
qed

lemma moved_appended:
  "\<exists>rc. control_append_at desk_log 1 [WorkspaceDefined (workspace_snapshot_of moved_desk), MutationCommitted moved_receipt] 8 = (moved_log, Inr rc) \<and>
     ka_revision rc = 2"
proof -
  have "validate_control_log 2 (kl_events moved_log) = Inr ()"
    using moved_projection by (simp add: valid_control_log control_rules_def)
      (simp add: moved_log_def desk_log_def stage_control_def desk_events_def control_follows_def upt_rec checked_add_def)
  then have "validate_control_log 2 (kl_events desk_log @ stage_control 2 2 8 [WorkspaceDefined (workspace_snapshot_of moved_desk), MutationCommitted moved_receipt]) = Inr ()"
    by (simp add: moved_log_def)
  moreover have "control_next_seq desk_log = 2" "kl_revision desk_log = 1" by (simp_all add: control_next_seq_def desk_log_def desk_events_def)
  ultimately show ?thesis by (simp add: control_append_at_def checked_add_def moved_log_def Let_def)
qed

lemma moved_run:
  "\<exists>f' h'. control_mutation desk_fingerprint JNull (jsonl_control_ops reference_control_codec) (\<lambda>_ f. f) 8 ''r2'' ''m'' moved_payload
      (workspace_insert_session_before ''t'' moved_payload) desk_file desk_host =
        (f', h', Inr (JObject [(''workspace'', workspace_json moved_desk)])) \<and>
      control_load reference_control_codec f' = Inr moved_log"
proof -
  let ?ops = "jsonl_control_ops reference_control_codec" and ?es = "[WorkspaceDefined (workspace_snapshot_of moved_desk), MutationCommitted moved_receipt]"
  have ok: "control_codec_ok reference_control_codec \<and> control_file_ok reference_control_codec desk_file"
    and k: "stored_control reference_control_codec desk_file = desk_log"
    using reference_control_codec_ok desk_file by (auto simp: control_file_ok_def stored_control_def)
  obtain rc where rc: "control_append_at desk_log 1 ?es 8 = (moved_log, Inr rc)" "ka_revision rc = 2" using moved_appended by blast
  obtain f' out where app: "ko_append ?ops 8 1 ?es desk_file = (f', out)" by fastforce
  from jsonl_control.append_abs [OF ok app] have ok': "control_codec_ok reference_control_codec \<and> control_file_ok reference_control_codec f'"
    and k': "stored_control reference_control_codec f' = moved_log" and out: "out = Inr rc" by (simp_all add: k rc(1))
  have loaded: "ko_load ?ops f' = Inr moved_log" and flushed: "ko_flush ?ops f' = Inr 2"
    using jsonl_control.load_abs [OF ok'] jsonl_control.flush_abs [OF ok'] by (simp_all add: k' moved_log_def)
  obtain h' where reloaded: "reload_control_projection ?ops f' desk_host = Inr h'"
    by (simp add: reload_control_projection_def loaded log_projection_def moved_projection apply_control_projection_def
        empty_control_projection_def)
  have plan: "workspace_insert_session_before ''t'' moved_payload desk_host =
      Inr ([WorkspaceDefined (workspace_snapshot_of moved_desk)], JObject [(''workspace'', workspace_json moved_desk)], [workspace_changed moved_desk])"
    by (simp add: workspace_insert_session_before_def moved_payload_def required_string_def optional_string_def desk_host_def
        move_before_def moved_desk_def Let_def)
  have fresh: "replay_control_receipt desk_fingerprint JNull ''r2'' ''m'' moved_payload desk_host = Inr None" and revision: "hs_control_revision desk_host = 1"
    by (simp_all add: replay_control_receipt_def desk_host_def)
  have "control_load reference_control_codec f' = Inr moved_log" using loaded by (simp add: jsonl_control_ops_def)
  moreover have "commit_control_mutation desk_fingerprint JNull ?ops (\<lambda>_ f. f) 8 ''r2'' ''m'' moved_payload [WorkspaceDefined (workspace_snapshot_of moved_desk)]
      (JObject [(''workspace'', workspace_json moved_desk)]) desk_file desk_host = (f', h', Inr (JObject [(''workspace'', workspace_json moved_desk)]))"
    unfolding commit_control_mutation_def Let_def receipt_for_def [symmetric] moved_receipt_def [symmetric] revision
    using app out rc(2) flushed reloaded by simp
  ultimately show ?thesis by (simp add: control_mutation_def fresh plan)
qed

theorem session_move_dropped_witness:
  "\<exists>f' h'. control_mutation desk_fingerprint JNull (jsonl_control_ops reference_control_codec) (\<lambda>_ f. f) 8 ''r2'' ''m'' moved_payload
      (workspace_insert_session_before ''t'' moved_payload) desk_file desk_host =
        (f', h', Inr (JObject [(''workspace'', workspace_json moved_desk)])) \<and>
     ''s1'' \<in> set (wr_session_ids moved_desk) \<and>
     (\<forall>w. map_of (hs_workspaces h') ''w1'' = Some w \<longrightarrow> ''s1'' \<notin> set (wr_session_ids w))"
proof -
  obtain f' h' where run: "control_mutation desk_fingerprint JNull (jsonl_control_ops reference_control_codec) (\<lambda>_ f. f) 8 ''r2'' ''m'' moved_payload
      (workspace_insert_session_before ''t'' moved_payload) desk_file desk_host =
        (f', h', Inr (JObject [(''workspace'', workspace_json moved_desk)]))" using moved_run by blast
  obtain old where old: "map_of (hs_workspaces desk_host) ''w1'' = Some old" "''s1'' \<notin> set (wr_session_ids old)" "''s1'' \<in> hs_sessions desk_host"
    by (simp add: desk_host_def)
  from session_move_dropped [OF old(1,3,2) _ _ run [unfolded moved_payload_def]]
  have "\<forall>w. map_of (hs_workspaces h') ''w1'' = Some w \<longrightarrow> ''s1'' \<notin> set (wr_session_ids w)" by simp
  with run show ?thesis by (intro exI conjI) (simp_all add: moved_desk_def)
qed

text \<open>The move of the session \<open>s1\<close>: both of its events stand in the file, after the batch that was there.\<close>

theorem control_mutation_once_witness:
  "\<exists>f' h' k' post. control_mutation desk_fingerprint JNull (jsonl_control_ops reference_control_codec) (\<lambda>_ f. f) 8 ''r2'' ''m'' moved_payload
      (workspace_insert_session_before ''t'' moved_payload) desk_file desk_host =
        (f', h', Inr (JObject [(''workspace'', workspace_json moved_desk)])) \<and>
     control_load reference_control_codec f' = Inr k' \<and> committed k' ''r2'' moved_receipt \<and>
     kl_events k' = kl_events desk_log @
       stage_control 2 2 8 [WorkspaceDefined (workspace_snapshot_of moved_desk), MutationCommitted moved_receipt] @ post"
proof -
  let ?plan = "workspace_insert_session_before ''t'' moved_payload" and ?x = "JObject [(''workspace'', workspace_json moved_desk)]"
  obtain f' h' where run: "control_mutation desk_fingerprint JNull (jsonl_control_ops reference_control_codec) (\<lambda>_ f. f) 8 ''r2'' ''m'' moved_payload
      ?plan desk_file desk_host = (f', h', Inr ?x)" using moved_run by blast
  have quiet: "fair_env (\<lambda>f. control_codec_ok reference_control_codec \<and> control_file_ok reference_control_codec f)
      (stored_control reference_control_codec) (\<lambda>_ f. f)" by (simp add: fair_env_def)
  obtain k' where k': "control_load reference_control_codec f' = Inr k'"
    and all: "\<forall>x. Inr ?x = (Inr x :: rpc_error + json) \<longrightarrow>
       (\<exists>events pushes. ?plan desk_host = Inr (events, x, pushes) \<and> desk_log = desk_log \<and> (\<forall>r. \<not> committed desk_log ''r2'' r) \<and>
          batch_made 8 (events @ [MutationCommitted (receipt_for desk_fingerprint ''r2'' ''m'' moved_payload x)]) desk_log k' \<and>
          committed k' ''r2'' (receipt_for desk_fingerprint ''r2'' ''m'' moved_payload x)) \<or>
       (\<exists>r. committed k' ''r2'' r \<and> answer desk_fingerprint JNull ''m'' moved_payload r = Inr x \<and>
          (f' = desk_file \<and> committed desk_log ''r2'' r \<or>
           (\<exists>f1. stored_control reference_control_codec f1 = stored_control reference_control_codec desk_file \<and> f' = f1)))"
    using control_mutation_once [OF reference_control_codec_ok desk_file desk_reachable quiet desk_sync desk_reachable rtranclp.rtrancl_refl run] by blast
  have log: "stored_control reference_control_codec desk_file = desk_log" using desk_file by (simp add: stored_control_def)
  have fresh: "\<not> committed desk_log ''r2'' r" for r
    by (simp add: committed_def desk_log_def desk_events_def stage_control_def desk_receipt_def)
  have "f' \<noteq> f1" if "stored_control reference_control_codec f1 = desk_log" "committed k' ''r2'' r" for f1 r
    using that fresh k' by (auto simp: stored_control_def)
  with all [rule_format, OF refl] fresh obtain events pushes where plan: "?plan desk_host = Inr (events, ?x, pushes)"
    and made: "batch_made 8 (events @ [MutationCommitted moved_receipt]) desk_log k'" and receipt: "committed k' ''r2'' moved_receipt"
    unfolding moved_receipt_def [symmetric] log by blast
  have "events = [WorkspaceDefined (workspace_snapshot_of moved_desk)]"
    using plan
    by (simp add: workspace_insert_session_before_def moved_payload_def required_string_def optional_string_def desk_host_def
        move_before_def moved_desk_def Let_def)
  moreover have "control_next_seq desk_log = 2" "kl_revision desk_log = 1" by (simp_all add: control_next_seq_def desk_log_def desk_events_def)
  ultimately obtain post where "kl_events k' = kl_events desk_log @
      stage_control 2 2 8 [WorkspaceDefined (workspace_snapshot_of moved_desk), MutationCommitted moved_receipt] @ post"
    using made by (auto simp: batch_made_def checked_add_def)
  with run k' receipt show ?thesis by blast
qed

end
