(* ===== verification/Spec2Isabelle.thy ===== *)
theory Spec2Isabelle
  imports Recovery Inbox Jsonl_Safety Compaction Token_Budget Sse Tool_Executor Jobs Lifecycle Driver Schedule_Delivery Control_Host
begin

text \<open>
  A verification library for xharness, an agent harness whose state is kept in append-only logs: one per
  session, and one for the host.  The program appends typed events to a log, the log is validated on every
  append and on every restoration, and everything else (the messages a model sees, the questions a user has
  to answer, the tool calls to recover after a crash, the pending inbox, the reminders, the workspaces) is a
  projection of it.  Around the logs stand the parts that decide what is appended: the tool pipeline, the
  scheduler of tool calls, background jobs, compaction, the worker of an agent, and the timer of reminders.

  The parts and where they are modelled (sources under src/crates):

  \<^item> Prelude: results \<open>'e + 'a\<close> with \<open>and_then\<close> (the question mark operator), \<open>ensure\<close> and \<open>map_err\<close>; checked and
    saturating word arithmetic; \<open>str::trim\<close> on UTF-8 bytes; the slice operations \<open>position\<close> and \<open>splice\<close>.
  \<^item> Interaction (xharness-interaction/src/lib.rs): requests of the ask-user tool and their validation, the
    draft of an interaction and the ways to settle it.
  \<^item> Session_Types (xharness-session/src/event.rs, message.rs): every event and payload the log can hold.
  \<^item> Surface, Validator, Validate_Log (xharness-session/src/session.rs): the projection to messages, the state
    of the validation fold with one handler per event, and \<open>validate_log\<close>, which composes them the way the
    match of the code does.
  \<^item> Session_Log (session.rs): \<open>Session\<close>, its construction, restoration, the compare-and-swap \<open>append_batch_at\<close>.
  \<^item> Log_Turns, Log_Calls, Log_Questions: what validation guarantees of turns and steps, of tool calls and
    their results, and of questions; each is an invariant of the fold, proved once per handler.
  \<^item> Recovery (xharness-session/src/recovery.rs): what a restarted process reads from a log, and the batches
    it appends to settle what was interrupted.
  \<^item> Store (xharness-session/src/store.rs): the storage trait as a record of operations, its contract as the
    locale \<open>store_contract\<close>, and the in-process store, which meets it.
  \<^item> Jsonl_Store, Reference_Codec, Jsonl_Safety (xharness-session-jsonl/src/lib.rs): the filesystem store, the
    proof that it meets the contract too, and its behaviour under crashes.
  \<^item> Inbox (xharness-agent/src/inbox.rs): the durable inbox over any store that meets the contract, with other
    writers acting between its look at the session and its append.
  \<^item> Tool_Schema, Tool_Batch, Tool_Executor (xharness-tools/src): the JSON schemas of tools and the check of
    arguments against them; the scheduling of the calls of one step; the registry and the pipeline of one
    call, from its guards and approvals through the middleware around its handler to its outcome.
  \<^item> Jobs (xharness-jobs/src/lib.rs): the registry of background jobs, with reservations, limits, output
    buffers, waits and shutdown.
  \<^item> Lifecycle, Driver (xharness-agent/src/lifecycle.rs, lease.rs, activation.rs, delegation.rs, driver.rs): the
    phases of an agent, the leases and activations that make its owner unique, and the worker that turns
    commands into turns, as a step relation between the places where it awaits something.
  \<^item> Compaction_Config, Compaction (xharness-compaction/src), Token_Budget (xharness-token/src/lib.rs): policies and
    their resolution in binary floating point, the choice of the range to compact, the pruning of tool
    results, the metering of requests and their admission to a context window.
  \<^item> Sse (xharness-provider-openai/src/sse.rs): the incremental parser of server-sent events.
  \<^item> Schedule, Schedule_Delivery (xharness-schedule/src/lib.rs): the reminders a session log holds and the tools
    that change them, when one is due, and one round of the timer that hands it to the agent.
  \<^item> Control_Log, Control_Store (xharness-control/src/lib.rs): the log of the host with its receipts of mutations,
    its in-process store and its file; the contract of both is the locale \<open>control_store\<close>.
  \<^item> Control_Host (xharness-host/src/control.rs, the workspace handlers of rpc.rs): the projection of the control
    log into the host, and mutations that are committed with a receipt and replayed from it.

  State and errors.  A struct is a record, an enum a datatype.  A handler of the validator takes the fold's
  state and returns \<open>session_error + state\<close>; every early return of the code is a branch.  A store operation is a
  function of the store's state; the lock each method holds for its whole body makes it one step.  Where the
  code awaits, what others do meanwhile is an argument (\<open>env\<close> of Inbox and Control_Host, the hook's answers of
  Jobs and Tool_Executor) or a step of a relation (Tool_Batch, Driver).  The clock is an argument.  Counters
  keep their width (\<open>u32\<close>, \<open>u64\<close>), positions in a vector are \<open>nat\<close>, and an \<open>i64\<close> of the schedule is an \<open>int\<close> with its
  range checks written out.

  What the lemmas show.

  \<^item> Session logs: appends are atomic, every session is valid, histories are restorable, validation is
    incremental.  The lifecycle is well bracketed, results match calls, questions are settled before their
    results.  The recovery projections are complete and the recovery batch is accepted.
  \<^item> Stores: a log only grows, an append to a session that is cut at any byte leaves the old or the new log, and
    the file cannot be told from memory.  An inbox mutation is one atomic update of the revision it read, and a claim
    commits at most once.
  \<^item> Tools: a handler runs, and a call succeeds, only when every guard, schema and approval let it; what runs after
    that is the chain of middleware around the handler, which may answer without it; calls that exclude each other
    never run together, and every batch completes.  Validation of arguments decides the schema's meaning.
  \<^item> Jobs: limits hold in every reachable registry, an ending is final while the counter of identifiers has not
    reached its end, shutdown settles everything.
  \<^item> Agents: at most one activation of an agent is alive; turns are bracketed and numbered in order; an
    acknowledged followup is in the session and makes the worker drive a turn.
  \<^item> Compaction and streams: the selected range is the largest that keeps calls with their results; how a
    stream is cut into chunks cannot be observed, and what a writer emits is read back when its lines fit the
    limits.
  \<^item> Reminders: an accepted one is in the log until an event names it, the decision what is due is right, a round
    of the timer leaves one copy of a due one-shot pending and moves due recurring rules to their next target.
  \<^item> Control: the receipts of the log count its revisions, its projection is sound and free of secrets, a crash of
    an append leaves the old or the new log once the header of the file is complete, a mutation's whole batch
    is in the log exactly once although hosts compete and answers are lost, and a retry changes nothing.

  Some theorems state where the code falls short: a draft that a resolution erases, a log that restores but
  could not have been appended, a torn header that stops discovery, a torn header that leaves the control file
  unreadable, a steering message that leaves an idle worker running, reminders that are delivered again (a
  one-shot whose message was consumed before its dispatch was recorded, a recurring one after any round cut
  off there), a session moved to another workspace that never arrives.

  Termination, bounds and fuel.  The compare-and-swap loops of the inbox and the schedule recurse on the rounds
  left, which the code bounds (\<open>MAX_CAS_RETRIES\<close> = 16 in the inbox).  The parsers of both files, of the event stream and
  \<open>str::trim\<close> terminate by the length of their input, schema checks by the depth of the schema, the launch loop
  of a batch by the items not started, the pruning of a registry's history by its jobs.  The search for a
  fresh id of a reminder may not end as it is written: it is a \<open>partial_function\<close>, shown to find an id.

  Parameters.  The parser of the question tool's arguments (serde) is \<open>dec\<close>; the JSON codecs of the two files are
  records, of which the proofs use that a record's text is one line that decodes to the record and no proper
  prefix of which decodes (\<open>codec_ok\<close>, \<open>control_codec_ok\<close>, shown satisfiable by Reference_Codec and Control_Store); the
  identity of a file's content is an injective \<open>fp\<close>, an idealisation of metadata and a sample hash.  The length of
  serde's output is \<open>z\<close> of the token meter, the functions used of chrono are \<open>time_lib\<close> with the laws \<open>calendar\<close>, the
  fingerprint of a mutation is an argument, and so are the hooks, handlers and engines a component calls.

  Not modelled: the async runtime, locks, channels and cancellation; serde renames and JSON text; paths,
  permissions, symbolic links and fsync; the loop engine, the host's settings and session handlers, its
  session actors and restoration, the file and shell tools, sandboxes, HTTP, and the desktop shell, which are
  orchestration of operating-system and network effects around this core.
\<close>

end
